(* ===== verification/Prelude.thy ===== *)
theory Prelude
  imports Main "HOL-Library.Word" "HOL-Library.Monad_Syntax"
begin

text \<open>
  Shared vocabulary of the development: the machine integers of the kernel's C code as words of
  their width, the alignment idioms of the memory code (rounding with a mask, the test
  \<^verbatim>\<open>(a & (size - 1)) == 0\<close>, the buddy address \<^verbatim>\<open>a ^ size\<close>) with their
  meaning on natural numbers, and generic lemmas on arrays (lists updated by index) that several
  components use.
\<close>

unbundle bit_operations_syntax

section \<open>Machine integers\<close>

type_synonym u8 = "8 word"
type_synonym u16 = "16 word"
type_synonym u32 = "32 word"
type_synonym u64 = "64 word"

text \<open>Collections the component proofs extend: loads over stores, and alignment idioms.\<close>

named_theorems mem_simps
named_theorems align_simps

abbreviation NULL :: u64 where "NULL \<equiv> 0"

abbreviation PAGE_FRAME_SIZE :: u64 where "PAGE_FRAME_SIZE \<equiv> 4096"

text \<open>An address is aligned to \<open>2 ^ n\<close> bytes.\<close>

definition aligned :: "nat \<Rightarrow> u64 \<Rightarrow> bool" where
  "aligned n a \<longleftrightarrow> 2 ^ n dvd unat a"

abbreviation page_aligned :: "u64 \<Rightarrow> bool" where
  "page_aligned \<equiv> aligned 12"

section \<open>Words read as natural numbers\<close>

lemma unat_lt64 [simp]: "unat (a :: u64) < 18446744073709551616"
  using unsigned_less[of a] by simp

lemma unat_plus64:
  "unat a + unat b < 18446744073709551616 \<Longrightarrow> unat (a + b :: u64) = unat a + unat b"
  by (simp add: unat_word_ariths)

lemma unat_add1_less: "(a :: u64) < b \<Longrightarrow> unat (a + 1) = unat a + 1"
  using unat_plus64[of a 1] less_le_trans[of "unat a" "unat b", OF _ less_imp_le[OF unat_lt64[of b]]]
    unat_lt64[of b] unfolding word_less_nat_alt unsigned_1 by linarith

lemma unat_sub1: "0 < (b :: u64) \<Longrightarrow> unat (b - 1) = unat b - 1"
  by (rule unat_minus_one) auto

lemma unat_take_bit64: "unat (take_bit n a :: u64) = unat a mod 2 ^ n"
  by (simp only: unsigned_take_bit_eq take_bit_nat_def)

lemma unat_pow2: "n < 64 \<Longrightarrow> unat (2 ^ n :: u64) = 2 ^ n"
proof -
  assume n: "n < 64"
  have "unat (push_bit n 1 :: u64) = take_bit 64 (push_bit n 1)"
    by (simp only: unsigned_push_bit_eq unsigned_1 len_bit0 len_num1) simp
  also have "\<dots> = 2 ^ n"
    using n power_strict_increasing[of n 64 "2::nat"] by (simp add: take_bit_nat_def)
  finally show ?thesis by simp
qed

section \<open>Alignment idioms\<close>

lemma and_mask_zero_iff: "(a :: u64) AND mask n = 0 \<longleftrightarrow> aligned n a"
  by (simp add: aligned_def dvd_eq_mod_eq_0 unat_take_bit64 flip: take_bit_eq_mask unat_eq_0)

lemma and_not_mask: "(a :: u64) AND NOT (mask n) = a - take_bit n a"
proof -
  have "a = (a AND NOT (mask n)) + (a AND mask n)"
    by (subst disjunctive_add) (auto simp: bit_simps bit_eq_iff)
  then show ?thesis by (simp add: take_bit_eq_mask algebra_simps)
qed

lemma unat_and_not_mask: "unat ((a :: u64) AND NOT (mask n)) = unat a div 2 ^ n * 2 ^ n"
proof -
  have "take_bit n a \<le> a"
    by (simp add: word_le_nat_alt unat_take_bit64)
  then show ?thesis
    by (simp add: and_not_mask unat_sub unat_take_bit64 minus_mod_eq_div_mult)
qed

lemma not_page_mask: "(NOT 4095 :: u64) = NOT (mask 12)"
  by (simp add: mask_eq_exp_minus_1)

lemma page_mask: "(4095 :: u64) = mask 12"
  by (simp add: mask_eq_exp_minus_1)

lemma unat_page_down [align_simps]: "unat ((a :: u64) AND NOT 4095) = unat a div 4096 * 4096"
  unfolding not_page_mask by (simp add: unat_and_not_mask)

lemma unset_bit_nat: "bit (a :: nat) n \<Longrightarrow> unset_bit n a = a - 2 ^ n"
proof -
  assume b: "bit a n"
  then have "a = set_bit n (unset_bit n a)"
    by (intro bit_eqI) (auto simp: bit_simps)
  also have "\<dots> = unset_bit n a + 2 ^ n"
    by (simp add: set_bit_eq bit_simps)
  finally show ?thesis by simp
qed

text \<open>Flipping one bit of an address with exclusive or, as the buddy computation does.\<close>

lemma unat_xor_pow2:
  assumes "n < 64"
  shows "unat ((a :: u64) XOR 2 ^ n)
    = (if bit (unat a) n then unat a - 2 ^ n else unat a + 2 ^ n)"
proof -
  have "unat (a XOR 2 ^ n) = unat a XOR push_bit n 1"
    using assms by (simp add: unsigned_xor_eq unat_pow2)
  also have "\<dots> = flip_bit n (unat a)" by (simp add: flip_bit_eq_xor)
  also have "\<dots> = (if bit (unat a) n then unat a - 2 ^ n else unat a + 2 ^ n)"
    by (simp add: flip_bit_eq_if set_bit_eq unset_bit_nat)
  finally show ?thesis .
qed

lemma bit_nat_iff_odd: "bit (a :: nat) n \<longleftrightarrow> odd (a div 2 ^ n)"
  by (simp add: bit_iff_odd)

lemma aligned_Suc_iff:
  "aligned (Suc n) a \<longleftrightarrow> aligned n a \<and> \<not> bit (unat a) n"
  by (auto simp: aligned_def bit_nat_iff_odd dvd_mult_div_cancel dvd_div_iff_mult
      mult.commute elim: dvd_trans[OF le_imp_power_dvd])

lemma aligned_le: "aligned m a \<Longrightarrow> n \<le> m \<Longrightarrow> aligned n a"
  by (auto simp: aligned_def intro: dvd_trans[OF le_imp_power_dvd])

section \<open>Arrays\<close>

text \<open>A loop over a list whose body may fail.\<close>

fun fold_opt :: "('s \<Rightarrow> 'a \<Rightarrow> 's option) \<Rightarrow> 's \<Rightarrow> 'a list \<Rightarrow> 's option" where
  "fold_opt f s [] = Some s"
| "fold_opt f s (x # xs) = (case f s x of None \<Rightarrow> None | Some s' \<Rightarrow> fold_opt f s' xs)"

lemma fold_opt_append: "fold_opt f s (xs @ ys) = (case fold_opt f s xs of None \<Rightarrow> None | Some s' \<Rightarrow> fold_opt f s' ys)"
  by (induction f s xs rule: fold_opt.induct) (auto split: option.split)

text \<open>The invariant rule for a loop over \<open>[0..<n]\<close>: the body never fails, and \<open>Q i\<close> holds before round \<open>i\<close>.\<close>

lemma fold_opt_upt:
  assumes "Q 0 s" and "\<And>i t. i < n \<Longrightarrow> Q i t \<Longrightarrow> \<exists>t'. f t i = Some t' \<and> Q (Suc i) t'"
  shows "\<exists>t. fold_opt f s [0..<n] = Some t \<and> Q n t"
  using assms(2)
proof (induction n)
  case 0
  then show ?case using assms(1) by simp
next
  case (Suc n)
  then obtain t where "fold_opt f s [0..<n] = Some t" "Q n t" by force
  moreover obtain t' where "f t n = Some t'" "Q (Suc n) t'" using Suc.prems calculation(2) by blast
  ultimately show ?case by (simp add: fold_opt_append)
qed

lemma nth_list_update_if:
  "i < length xs \<Longrightarrow> xs[i := v] ! j = (if j = i then v else xs ! j)"
  by simp

end
