(* ===== verification/Atomic.thy ===== *)
theory Atomic
  imports Prelude
begin

text \<open>
  The atomic operations of \<^verbatim>\<open>kernel/include/kernel/atomic.h\<close>. Each is one locked x86 instruction,
  so each is one indivisible function of the cell's value: it returns the new value, or the C
  result and the new value. \<^verbatim>\<open>int\<close> cells are 32-bit and \<^verbatim>\<open>long\<close> cells 64-bit words, arithmetic wraps.
  Bit operations address an array of 64-bit words by bit number.
\<close>

type_synonym atomic = "32 word"
type_synonym atomic64 = "64 word"

section \<open>Reading, writing and arithmetic\<close>

definition atomic_init :: "atomic \<Rightarrow> 32 word \<Rightarrow> atomic" where "atomic_init v val = val"
definition atomic64_init :: "atomic64 \<Rightarrow> 64 word \<Rightarrow> atomic64" where "atomic64_init v val = val"
definition atomic_read :: "atomic \<Rightarrow> 32 word" where "atomic_read v = v"
definition atomic64_read :: "atomic64 \<Rightarrow> 64 word" where "atomic64_read v = v"
definition atomic_set :: "atomic \<Rightarrow> 32 word \<Rightarrow> atomic" where "atomic_set v val = val"
definition atomic64_set :: "atomic64 \<Rightarrow> 64 word \<Rightarrow> atomic64" where "atomic64_set v val = val"
definition atomic_add :: "32 word \<Rightarrow> atomic \<Rightarrow> atomic" where "atomic_add val v = v + val"
definition atomic64_add :: "64 word \<Rightarrow> atomic64 \<Rightarrow> atomic64" where "atomic64_add val v = v + val"
definition atomic_sub :: "32 word \<Rightarrow> atomic \<Rightarrow> atomic" where "atomic_sub val v = v - val"
definition atomic64_sub :: "64 word \<Rightarrow> atomic64 \<Rightarrow> atomic64" where "atomic64_sub val v = v - val"
definition atomic_inc :: "atomic \<Rightarrow> atomic" where "atomic_inc v = v + 1"
definition atomic64_inc :: "atomic64 \<Rightarrow> atomic64" where "atomic64_inc v = v + 1"
definition atomic_dec :: "atomic \<Rightarrow> atomic" where "atomic_dec v = v - 1"
definition atomic64_dec :: "atomic64 \<Rightarrow> atomic64" where "atomic64_dec v = v - 1"

text \<open>\<^verbatim>\<open>xadd\<close>: the register receives the old value, memory the sum; the C code adds again.\<close>

definition xadd :: "'a::len word \<Rightarrow> 'a word \<Rightarrow> 'a word \<times> 'a word" where
  "xadd reg v = (v, v + reg)"

definition atomic_add_return :: "32 word \<Rightarrow> atomic \<Rightarrow> 32 word \<times> atomic" where
  "atomic_add_return val v = (let (result, v') = xadd val v in (result + val, v'))"
definition atomic64_add_return :: "64 word \<Rightarrow> atomic64 \<Rightarrow> 64 word \<times> atomic64" where
  "atomic64_add_return val v = (let (result, v') = xadd val v in (result + val, v'))"
definition atomic_sub_return :: "32 word \<Rightarrow> atomic \<Rightarrow> 32 word \<times> atomic" where
  "atomic_sub_return val v = atomic_add_return (- val) v"
definition atomic64_sub_return :: "64 word \<Rightarrow> atomic64 \<Rightarrow> 64 word \<times> atomic64" where
  "atomic64_sub_return val v = atomic64_add_return (- val) v"
definition atomic_inc_return :: "atomic \<Rightarrow> 32 word \<times> atomic" where
  "atomic_inc_return v = atomic_add_return 1 v"
definition atomic64_inc_return :: "atomic64 \<Rightarrow> 64 word \<times> atomic64" where
  "atomic64_inc_return v = atomic64_add_return 1 v"
definition atomic_dec_return :: "atomic \<Rightarrow> 32 word \<times> atomic" where
  "atomic_dec_return v = atomic_add_return (- 1) v"
definition atomic64_dec_return :: "atomic64 \<Rightarrow> 64 word \<times> atomic64" where
  "atomic64_dec_return v = atomic64_add_return (- 1) v"

text \<open>The flag results: \<^verbatim>\<open>setz\<close> and \<^verbatim>\<open>sets\<close> of the instruction's result.\<close>

definition atomic_inc_and_test :: "atomic \<Rightarrow> bool \<times> atomic" where
  "atomic_inc_and_test v = (v + 1 = 0, v + 1)"
definition atomic_dec_and_test :: "atomic \<Rightarrow> bool \<times> atomic" where
  "atomic_dec_and_test v = (v - 1 = 0, v - 1)"
definition atomic_add_negative :: "32 word \<Rightarrow> atomic \<Rightarrow> bool \<times> atomic" where
  "atomic_add_negative val v = (bit (v + val) 31, v + val)"

section \<open>Exchange and compare-and-swap\<close>

definition atomic_xchg :: "atomic \<Rightarrow> 32 word \<Rightarrow> 32 word \<times> atomic" where
  "atomic_xchg v new_val = (v, new_val)"
definition atomic64_xchg :: "atomic64 \<Rightarrow> 64 word \<Rightarrow> 64 word \<times> atomic64" where
  "atomic64_xchg v new_val = (v, new_val)"
definition atomic_cmpxchg :: "atomic \<Rightarrow> 32 word \<Rightarrow> 32 word \<Rightarrow> 32 word \<times> atomic" where
  "atomic_cmpxchg v old_val new_val = (v, if v = old_val then new_val else v)"
definition atomic64_cmpxchg :: "atomic64 \<Rightarrow> 64 word \<Rightarrow> 64 word \<Rightarrow> 64 word \<times> atomic64" where
  "atomic64_cmpxchg v old_val new_val = (v, if v = old_val then new_val else v)"

text \<open>The boolean forms also return the new \<^verbatim>\<open>*old_val\<close>, the value \<^verbatim>\<open>cmpxchg\<close> leaves in the accumulator.\<close>

definition atomic_try_cmpxchg :: "atomic \<Rightarrow> 32 word \<Rightarrow> 32 word \<Rightarrow> bool \<times> 32 word \<times> atomic" where
  "atomic_try_cmpxchg v old_val new_val = (v = old_val, v, if v = old_val then new_val else v)"
definition atomic64_try_cmpxchg :: "atomic64 \<Rightarrow> 64 word \<Rightarrow> 64 word \<Rightarrow> bool \<times> 64 word \<times> atomic64" where
  "atomic64_try_cmpxchg v old_val new_val = (v = old_val, v, if v = old_val then new_val else v)"

section \<open>Bit arrays\<close>

type_synonym bit_array = "nat \<Rightarrow> u64"

definition atomic_set_bit :: "nat \<Rightarrow> bit_array \<Rightarrow> bit_array" where
  "atomic_set_bit b addr = addr(b div 64 := set_bit (b mod 64) (addr (b div 64)))"
definition atomic_clear_bit :: "nat \<Rightarrow> bit_array \<Rightarrow> bit_array" where
  "atomic_clear_bit b addr = addr(b div 64 := unset_bit (b mod 64) (addr (b div 64)))"
definition atomic_change_bit :: "nat \<Rightarrow> bit_array \<Rightarrow> bit_array" where
  "atomic_change_bit b addr = addr(b div 64 := flip_bit (b mod 64) (addr (b div 64)))"
definition atomic_test_and_set_bit :: "nat \<Rightarrow> bit_array \<Rightarrow> bool \<times> bit_array" where
  "atomic_test_and_set_bit b addr = (bit (addr (b div 64)) (b mod 64), atomic_set_bit b addr)"
definition atomic_test_and_clear_bit :: "nat \<Rightarrow> bit_array \<Rightarrow> bool \<times> bit_array" where
  "atomic_test_and_clear_bit b addr = (bit (addr (b div 64)) (b mod 64), atomic_clear_bit b addr)"
definition atomic_test_and_change_bit :: "nat \<Rightarrow> bit_array \<Rightarrow> bool \<times> bit_array" where
  "atomic_test_and_change_bit b addr = (bit (addr (b div 64)) (b mod 64), atomic_change_bit b addr)"

definition test_bit :: "nat \<Rightarrow> bit_array \<Rightarrow> u64" where
  "test_bit b addr = drop_bit (b AND 63) (addr (drop_bit 6 b)) AND 1"

section \<open>Their behaviour\<close>

lemma add_return_value: "atomic_add_return val v = (v + val, v + val)"
  by (simp add: atomic_add_return_def xadd_def)

lemma and_63: "b AND 63 = b mod (64 :: nat)"
  using take_bit_eq_mask[of 6 b] by (simp add: take_bit_nat_def mask_eq_exp_minus_1)

lemma test_bit_bit: "test_bit b addr = of_bool (bit (addr (b div 64)) (b mod 64))"
proof -
  have "drop_bit 6 b = b div 64" by (simp add: drop_bit_nat_def)
  then show ?thesis unfolding test_bit_def and_63
    by (simp add: and_one_eq mod2_eq_if bit_iff_odd_drop_bit)
qed

lemma mod_div_64_eq: "c mod 64 = b mod 64 \<Longrightarrow> c div 64 = b div 64 \<Longrightarrow> c = (b :: nat)"
  by (metis mod_mult_div_eq)

lemma atomic_operations:
  "atomic_add_return val v = (v + val, v + val)" "atomic_sub_return val v = (v - val, v - val)"
  "atomic64_add_return val' v' = (v' + val', v' + val')" "atomic64_sub_return val' v' = (v' - val', v' - val')"
  "atomic_dec_and_test v = (v = 1, v - 1)" "atomic_inc_and_test v = (v = - 1, v + 1)"
  "atomic_add_negative val v = (sint (v + val) < 0, v + val)"
  "fst (atomic_cmpxchg v old new) = old \<longleftrightarrow> v = old"
  "snd (atomic_cmpxchg v old new) = (if fst (atomic_cmpxchg v old new) = old then new else v)"
  "test_bit c (atomic_set_bit b addr) = (if c = b then 1 else test_bit c addr)"
  "test_bit c (atomic_clear_bit b addr) = (if c = b then 0 else test_bit c addr)"
  "test_bit c (atomic_change_bit b addr) = (if c = b then 1 - test_bit c addr else test_bit c addr)"
  "fst (atomic_test_and_set_bit b addr) \<longleftrightarrow> test_bit b addr = 1"
  "fst (atomic_test_and_clear_bit b addr) \<longleftrightarrow> test_bit b addr = 1"
  "fst (atomic_test_and_change_bit b addr) \<longleftrightarrow> test_bit b addr = 1"
proof -
  have m: "b mod 64 < 64" for b :: nat by simp
  show "test_bit c (atomic_set_bit b addr) = (if c = b then 1 else test_bit c addr)"
    "test_bit c (atomic_clear_bit b addr) = (if c = b then 0 else test_bit c addr)"
    "test_bit c (atomic_change_bit b addr) = (if c = b then 1 - test_bit c addr else test_bit c addr)"
    using mod_div_64_eq[of c b]
    by (auto simp: test_bit_bit atomic_set_bit_def atomic_clear_bit_def atomic_change_bit_def bit_simps m)
qed (auto simp: atomic_add_return_def atomic_sub_return_def atomic64_add_return_def atomic64_sub_return_def xadd_def
    atomic_dec_and_test_def atomic_inc_and_test_def atomic_add_negative_def atomic_cmpxchg_def test_bit_bit
    atomic_test_and_set_bit_def atomic_test_and_clear_bit_def atomic_test_and_change_bit_def
    eq_neg_iff_add_eq_0 bit_last_iff[symmetric])

text \<open>The counter operations return the updated value with 32-bit wrap-around, the
  decrement-and-test is true exactly when the counter reaches zero, compare-and-swap stores exactly
  when the old value matches, and each bit operation changes the addressed bit of the array only,
  as \<^verbatim>\<open>test_bit\<close> observes, and reports that bit's previous value.\<close>

theorem atomic_operations_correct:
  "(atomic_add_return val v = (v + val, v + val))
   \<and> (atomic_sub_return val v = (v - val, v - val))
   \<and> (atomic64_add_return val' v' = (v' + val', v' + val'))
   \<and> (atomic64_sub_return val' v' = (v' - val', v' - val'))
   \<and> (atomic_dec_and_test v = (v = 1, v - 1))
   \<and> (atomic_inc_and_test v = (v = - 1, v + 1))
   \<and> (atomic_add_negative val v = (sint (v + val) < 0, v + val))
   \<and> (fst (atomic_cmpxchg v old new) = old \<longleftrightarrow> v = old)
   \<and> (snd (atomic_cmpxchg v old new) = (if fst (atomic_cmpxchg v old new) = old then new else v))
   \<and> (test_bit c (atomic_set_bit b addr) = (if c = b then 1 else test_bit c addr))
   \<and> (test_bit c (atomic_clear_bit b addr) = (if c = b then 0 else test_bit c addr))
   \<and> (test_bit c (atomic_change_bit b addr) = (if c = b then 1 - test_bit c addr else test_bit c addr))
   \<and> (fst (atomic_test_and_set_bit b addr) \<longleftrightarrow> test_bit b addr = 1)
   \<and> (fst (atomic_test_and_clear_bit b addr) \<longleftrightarrow> test_bit b addr = 1)
   \<and> (fst (atomic_test_and_change_bit b addr) \<longleftrightarrow> test_bit b addr = 1)"
  by (intro conjI; rule atomic_operations)

end
