(* ===== verification/Spinlock.thy ===== *)
theory Spinlock
  imports Atomic
begin

text \<open>
  The locks of \<^verbatim>\<open>kernel/include/kernel/spinlock.h\<close> as concurrent programs. A thread's position in
  a lock routine is a program counter; one step of a thread performs one atomic operation on the
  lock word, exactly as the C code does between two points where other processors can interfere.
  The lists of successor states are all outcomes the code has there (an idle thread may call any
  of the lock's routines). Any interleaving of the threads is a run. The locale \<open>lock_protocol\<close>
  is the contract all lock kinds satisfy: an invariant kept by every thread step that
  excludes two conflicting holders.
\<close>

section \<open>Interrupt flags\<close>

text \<open>The flags register with the interrupt flag at bit 9.\<close>

definition save_and_disable_interrupts :: "u64 \<Rightarrow> u64 \<times> u64" where
  "save_and_disable_interrupts rflags = (rflags, rflags AND NOT 0x200)"

definition restore_interrupts :: "u64 \<Rightarrow> u64 \<Rightarrow> u64" where
  "restore_interrupts rflags flags = flags"

section \<open>The test-and-set spinlock\<close>

definition spinlock_init :: "atomic \<Rightarrow> atomic" where "spinlock_init lock = atomic_set lock 0"
definition spinlock_is_locked :: "atomic \<Rightarrow> bool" where "spinlock_is_locked lock \<longleftrightarrow> atomic_read lock \<noteq> 0"
definition spinlock_unlock :: "atomic \<Rightarrow> atomic" where "spinlock_unlock lock = atomic_set lock 0"

definition spinlockrylock :: "atomic \<Rightarrow> bool \<times> atomic" where
  "spinlockrylock lock = (let (old, lock') = atomic_xchg lock 1 in (old = 0, lock'))"

text \<open>Program counters: outside, before the exchange, in the inner reading loop, holding the lock.\<close>

datatype spin_pc = SOut | SXchg | SSpin | SIn

text \<open>One atomic action of a thread inside \<^verbatim>\<open>spinlock_lock\<close>.\<close>

fun spinlock_lock_step :: "atomic \<Rightarrow> spin_pc \<Rightarrow> atomic \<times> spin_pc" where
  "spinlock_lock_step lock SXchg =
     (let (old, lock') = atomic_xchg lock 1 in (lock', if old \<noteq> 0 then SSpin else SIn))"
| "spinlock_lock_step lock SSpin = (lock, if atomic_read lock \<noteq> 0 then SSpin else SXchg)"
| "spinlock_lock_step lock pc = (lock, pc)"

definition spin_exec :: "atomic \<Rightarrow> spin_pc \<Rightarrow> (atomic \<times> spin_pc) list" where
  "spin_exec lock pc = (case pc of
     SOut \<Rightarrow> [(lock, SXchg), (let (got, lock') = spinlockrylock lock in (lock', if got then SIn else SOut))]
   | SIn \<Rightarrow> [(spinlock_unlock lock, SOut)]
   | _ \<Rightarrow> [spinlock_lock_step lock pc])"

text \<open>\<^verbatim>\<open>spinlock_lock\<close> run without interference: it does not return while the word is non-zero.\<close>

partial_function (option) spinlock_lock_run :: "atomic \<Rightarrow> spin_pc \<Rightarrow> atomic option" where
  "spinlock_lock_run lock pc =
     (if pc = SIn then Some lock
      else (let (lock', pc') = spinlock_lock_step lock pc in spinlock_lock_run lock' pc'))"

definition spinlock_lock :: "atomic \<Rightarrow> atomic option" where
  "spinlock_lock lock = spinlock_lock_run lock SXchg"

definition spinlock_lock_intsave :: "atomic \<Rightarrow> u64 \<Rightarrow> (u64 \<times> u64 \<times> atomic) option" where
  "spinlock_lock_intsave lock rflags =
     (let (flags, rflags') = save_and_disable_interrupts rflags in
      do { lock' \<leftarrow> spinlock_lock lock; Some (flags, rflags', lock') })"

definition spinlock_unlock_intrestore :: "atomic \<Rightarrow> u64 \<Rightarrow> u64 \<Rightarrow> u64 \<times> atomic" where
  "spinlock_unlock_intrestore lock rflags flags =
     (let lock' = spinlock_unlock lock in (restore_interrupts rflags flags, lock'))"

section \<open>The read-write lock\<close>

definition RWLOCK_WRITER_MASK :: "32 word" where "RWLOCK_WRITER_MASK = push_bit 31 1"
definition RWLOCK_READER_MASK :: "32 word" where "RWLOCK_READER_MASK = RWLOCK_WRITER_MASK - 1"

definition rwlock_init :: "atomic \<Rightarrow> atomic" where "rwlock_init lock = atomic_set lock 0"
definition rwlock_read_unlock :: "atomic \<Rightarrow> atomic" where "rwlock_read_unlock lock = atomic_dec lock"
definition rwlock_write_unlock :: "atomic \<Rightarrow> atomic" where "rwlock_write_unlock lock = atomic_set lock 0"

definition rwlock_write_trylock :: "atomic \<Rightarrow> bool \<times> atomic" where
  "rwlock_write_trylock lock =
     (let (prev, lock') = atomic_cmpxchg lock 0 RWLOCK_WRITER_MASK in (prev = 0, lock'))"

text \<open>
  Program counters. Reader: before the read at the loop head, in the waiting loop, before the
  compare-and-swap with the value read, holding. Writer: before the compare-and-swap, in the waiting
  loop, holding. A \<^verbatim>\<open>continue\<close> in the do-while loop jumps to the loop condition, so the
  compare-and-swap is executed whatever the overflow test says.
\<close>

datatype rw_pc = RWOut | RRead | RWait | RCas "32 word" | RTryCas "32 word" | RIn | WCas | WWait | WIn

fun rwlock_read_lock_step :: "atomic \<Rightarrow> rw_pc \<Rightarrow> atomic \<times> rw_pc" where
  "rwlock_read_lock_step lock RRead =
     (let old_val = atomic_read lock in
      (lock, if old_val AND RWLOCK_WRITER_MASK \<noteq> 0 then RWait else RCas old_val))"
| "rwlock_read_lock_step lock RWait =
     (let old_val = atomic_read lock in
      (lock, if old_val AND RWLOCK_WRITER_MASK \<noteq> 0 then RWait else RCas old_val))"
| "rwlock_read_lock_step lock (RCas old_val) =
     (let new_val = old_val + 1;
          (prev, lock') = atomic_cmpxchg lock old_val new_val
      in (lock', if prev \<noteq> old_val then RRead else RIn))"
| "rwlock_read_lock_step lock pc = (lock, pc)"

text \<open>\<^verbatim>\<open>rwlock_read_trylock\<close>: the read with its early returns, then the compare-and-swap.\<close>

fun rwlock_read_trylock_step :: "atomic \<Rightarrow> rw_pc \<Rightarrow> atomic \<times> rw_pc" where
  "rwlock_read_trylock_step lock RWOut =
     (let old_val = atomic_read lock in
      if old_val AND RWLOCK_WRITER_MASK \<noteq> 0 then (lock, RWOut)
      else if (old_val + 1) AND RWLOCK_READER_MASK = 0 then (lock, RWOut)
      else (lock, RTryCas old_val))"
| "rwlock_read_trylock_step lock (RTryCas old_val) =
     (let (prev, lock') = atomic_cmpxchg lock old_val (old_val + 1)
      in (lock', if prev = old_val then RIn else RWOut))"
| "rwlock_read_trylock_step lock pc = (lock, pc)"

fun rwlock_write_lock_step :: "atomic \<Rightarrow> rw_pc \<Rightarrow> atomic \<times> rw_pc" where
  "rwlock_write_lock_step lock WCas =
     (let (prev, lock') = atomic_cmpxchg lock 0 RWLOCK_WRITER_MASK
      in (lock', if prev \<noteq> 0 then WWait else WIn))"
| "rwlock_write_lock_step lock WWait = (lock, if atomic_read lock \<noteq> 0 then WWait else WCas)"
| "rwlock_write_lock_step lock pc = (lock, pc)"

definition rw_exec :: "atomic \<Rightarrow> rw_pc \<Rightarrow> (atomic \<times> rw_pc) list" where
  "rw_exec lock pc = (case pc of
     RWOut \<Rightarrow> [(lock, RRead), rwlock_read_trylock_step lock RWOut, (lock, WCas),
       (let (got, lock') = rwlock_write_trylock lock in (lock', if got then WIn else RWOut))]
   | RRead \<Rightarrow> [rwlock_read_lock_step lock pc]
   | RWait \<Rightarrow> [rwlock_read_lock_step lock pc]
   | RCas old \<Rightarrow> [rwlock_read_lock_step lock pc]
   | RTryCas old \<Rightarrow> [rwlock_read_trylock_step lock pc]
   | WCas \<Rightarrow> [rwlock_write_lock_step lock pc]
   | WWait \<Rightarrow> [rwlock_write_lock_step lock pc]
   | RIn \<Rightarrow> [(rwlock_read_unlock lock, RWOut)]
   | WIn \<Rightarrow> [(rwlock_write_unlock lock, RWOut)])"

partial_function (option) rwlock_read_lock_run :: "atomic \<Rightarrow> rw_pc \<Rightarrow> atomic option" where
  "rwlock_read_lock_run lock pc =
     (if pc = RIn then Some lock
      else (let (lock', pc') = rwlock_read_lock_step lock pc in rwlock_read_lock_run lock' pc'))"

section \<open>The ticket lock\<close>

record ticket_spinlock =
  next_ticket :: atomic
  serving_ticket :: atomic

definition ticket_spinlock_init :: "ticket_spinlock \<Rightarrow> ticket_spinlock" where
  "ticket_spinlock_init lock =
     lock\<lparr>next_ticket := atomic_set (next_ticket lock) 0, serving_ticket := atomic_set (serving_ticket lock) 0\<rparr>"

text \<open>
  Program counters: outside; in the try-lock before its read of \<^verbatim>\<open>next_ticket\<close> with the value of
  \<^verbatim>\<open>serving_ticket\<close> it read, and before its compare-and-swap; waiting with a ticket; holding the lock.
\<close>

datatype ticket_pc = TOut | TTryNext "32 word" | TTryCas "32 word" | TWait "32 word" | TIn "32 word"

definition ticket_take :: "ticket_spinlock \<Rightarrow> ticket_spinlock \<times> ticket_pc" where
  "ticket_take lock =
     (let (r, n) = atomic_add_return 1 (next_ticket lock) in (lock\<lparr>next_ticket := n\<rparr>, TWait (r - 1)))"

fun ticket_spinlock_lock_step :: "ticket_spinlock \<Rightarrow> ticket_pc \<Rightarrow> ticket_spinlock \<times> ticket_pc" where
  "ticket_spinlock_lock_step lock TOut = ticket_take lock"
| "ticket_spinlock_lock_step lock (TWait my_ticket) =
     (lock, if atomic_read (serving_ticket lock) \<noteq> my_ticket then TWait my_ticket else TIn my_ticket)"
| "ticket_spinlock_lock_step lock pc = (lock, pc)"

text \<open>\<^verbatim>\<open>ticket_spinlockrylock\<close>: its three accesses, each a step of its own.\<close>

fun ticket_spinlockrylock_step :: "ticket_spinlock \<Rightarrow> ticket_pc \<Rightarrow> ticket_spinlock \<times> ticket_pc" where
  "ticket_spinlockrylock_step lock TOut = (lock, TTryNext (atomic_read (serving_ticket lock)))"
| "ticket_spinlockrylock_step lock (TTryNext serving) =
     (let nxt = atomic_read (next_ticket lock) in (lock, if serving \<noteq> nxt then TOut else TTryCas nxt))"
| "ticket_spinlockrylock_step lock (TTryCas nxt) =
     (let (prev, n) = atomic_cmpxchg (next_ticket lock) nxt (nxt + 1)
      in (lock\<lparr>next_ticket := n\<rparr>, if prev = nxt then TIn nxt else TOut))"
| "ticket_spinlockrylock_step lock pc = (lock, pc)"

definition ticket_spinlock_unlock :: "ticket_spinlock \<Rightarrow> ticket_spinlock" where
  "ticket_spinlock_unlock lock = lock\<lparr>serving_ticket := atomic_inc (serving_ticket lock)\<rparr>"

definition ticket_exec :: "ticket_spinlock \<Rightarrow> ticket_pc \<Rightarrow> (ticket_spinlock \<times> ticket_pc) list" where
  "ticket_exec lock pc = (case pc of
     TOut \<Rightarrow> [ticket_spinlock_lock_step lock TOut, ticket_spinlockrylock_step lock TOut]
   | TTryNext serving \<Rightarrow> [ticket_spinlockrylock_step lock pc]
   | TTryCas nxt \<Rightarrow> [ticket_spinlockrylock_step lock pc]
   | TWait my \<Rightarrow> [ticket_spinlock_lock_step lock pc]
   | TIn my \<Rightarrow> [(ticket_spinlock_unlock lock, TOut)])"

text \<open>
  The try-lock compares \<^verbatim>\<open>next_ticket\<close> with a value read earlier. If exactly \<open>2 ^ 32\<close> tickets are taken
  in between, the compare-and-swap succeeds although another thread is inside. The runs considered
  below count the tickets issued and served, note for each try-lock the number of tickets that had
  been served when it read \<^verbatim>\<open>serving_ticket\<close>, and leave out a try-lock step that comes after \<open>2 ^ 32\<close>
  further tickets. Runs in which fewer than \<open>2 ^ 32\<close> tickets are taken at all, and runs of any length
  without try-locks, lose nothing.
\<close>

fun trying :: "ticket_pc \<Rightarrow> bool" where
  "trying (TTryNext v) \<longleftrightarrow> True"
| "trying (TTryCas v) \<longleftrightarrow> True"
| "trying _ \<longleftrightarrow> False"

fun ticket_exec_timely ::
  "ticket_spinlock \<times> nat \<times> nat \<Rightarrow> ticket_pc \<times> nat \<Rightarrow> ((ticket_spinlock \<times> nat \<times> nat) \<times> ticket_pc \<times> nat) list" where
  "ticket_exec_timely (lock, issued, served) (pc, seen) =
     (if trying pc \<and> seen + 2 ^ 32 \<le> issued then []
      else map (\<lambda>(lock', pc'). ((lock', issued + of_bool (next_ticket lock' \<noteq> next_ticket lock),
                                     served + of_bool (serving_ticket lock' \<noteq> serving_ticket lock)),
                                 pc', if pc = TOut then served else seen)) (ticket_exec lock pc))"

section \<open>Taking two locks in address order\<close>

definition lock_order :: "u64 \<Rightarrow> u64 \<Rightarrow> u64 \<times> u64" where
  "lock_order lock_a lock_b = (if lock_a < lock_b then (lock_a, lock_b) else (lock_b, lock_a))"

text \<open>
  Positions of a thread that takes two locks with \<^verbatim>\<open>acquire_locks_ordered\<close> and later releases
  them in either order: inside \<^verbatim>\<open>spinlock_lock(first)\<close>, inside \<^verbatim>\<open>spinlock_lock(second)\<close>, holding
  both, holding one.
\<close>

datatype pair_pc = PIdle | PFirst u64 u64 spin_pc | PSecond u64 u64 spin_pc | PHold u64 u64 | PRel u64

definition pair_exec :: "(u64 \<times> u64) list \<Rightarrow> (u64 \<Rightarrow> atomic) \<Rightarrow> pair_pc \<Rightarrow> ((u64 \<Rightarrow> atomic) \<times> pair_pc) list" where
  "pair_exec pairs lk pc = (case pc of
     PIdle \<Rightarrow> map (\<lambda>(a, b). let (first, second) = lock_order a b in (lk, PFirst first second SXchg)) pairs
   | PFirst first second sp \<Rightarrow>
       (let (w, sp') = spinlock_lock_step (lk first) sp
        in [(lk(first := w), if sp' = SIn then PSecond first second SXchg else PFirst first second sp')])
   | PSecond first second sp \<Rightarrow>
       (let (w, sp') = spinlock_lock_step (lk second) sp
        in [(lk(second := w), if sp' = SIn then PHold first second else PSecond first second sp')])
   | PHold first second \<Rightarrow>
       [(lk(first := spinlock_unlock (lk first)), PRel second), (lk(second := spinlock_unlock (lk second)), PRel first)]
   | PRel a \<Rightarrow> [(lk(a := spinlock_unlock (lk a)), PIdle)])"

section \<open>Runs of several threads\<close>

inductive run :: "('l \<Rightarrow> 'p \<Rightarrow> ('l \<times> 'p) list) \<Rightarrow> nat \<Rightarrow> 'l \<times> (nat \<Rightarrow> 'p) \<Rightarrow> 'l \<times> (nat \<Rightarrow> 'p) \<Rightarrow> bool"
  for exec :: "'l \<Rightarrow> 'p \<Rightarrow> ('l \<times> 'p) list" and n :: nat and s0 where
  run_start: "run exec n s0 s0"
| run_step: "run exec n s0 (l, pc) \<Longrightarrow> t < n \<Longrightarrow> (l', p') \<in> set (exec l (pc t)) \<Longrightarrow> run exec n s0 (l', pc(t := p'))"

locale lock_protocol =
  fixes exec :: "'l \<Rightarrow> 'p \<Rightarrow> ('l \<times> 'p) list"
    and n :: nat
    and inv :: "'l \<Rightarrow> (nat \<Rightarrow> 'p) \<Rightarrow> bool"
    and conflict :: "'p \<Rightarrow> 'p \<Rightarrow> bool"
    and l0 :: 'l and p0 :: 'p
  assumes inv_init: "inv l0 (\<lambda>_. p0)"
    and inv_step: "inv l pc \<Longrightarrow> t < n \<Longrightarrow> (l', p') \<in> set (exec l (pc t)) \<Longrightarrow> inv l' (pc(t := p'))"
    and inv_excl: "inv l pc \<Longrightarrow> t < n \<Longrightarrow> u < n \<Longrightarrow> t \<noteq> u \<Longrightarrow> \<not> conflict (pc t) (pc u)"
begin

lemma run_inv: "run exec n (l0, \<lambda>_. p0) s \<Longrightarrow> inv (fst s) (snd s)"
proof (induction rule: run.induct)
  case (run_step l pc t l' p')
  then show ?case unfolding fst_conv snd_conv by (intro inv_step)
qed (simp add: inv_init)

lemma run_excl:
  "run exec n (l0, \<lambda>_. p0) (l, pc) \<Longrightarrow> t < n \<Longrightarrow> u < n \<Longrightarrow> t \<noteq> u \<Longrightarrow> \<not> conflict (pc t) (pc u)"
  using run_inv[of "(l, pc)"] inv_excl by simp

end

section \<open>Mutual exclusion of the spinlock\<close>

definition spin_inv :: "nat \<Rightarrow> atomic \<Rightarrow> (nat \<Rightarrow> spin_pc) \<Rightarrow> bool" where
  "spin_inv n lock pc \<longleftrightarrow> (lock = 0 \<or> lock = 1) \<and> (lock = 0 \<longleftrightarrow> (\<forall>t<n. pc t \<noteq> SIn))
     \<and> (\<forall>t<n. \<forall>u<n. pc t = SIn \<longrightarrow> pc u = SIn \<longrightarrow> t = u)"

lemmas spin_defs = spin_exec_def spinlockrylock_def spinlock_unlock_def atomic_xchg_def atomic_set_def atomic_read_def

lemma spin_exec_cases:
  assumes "(l', p') \<in> set (spin_exec l p)"
  obtains "p \<noteq> SIn" "p' \<noteq> SIn" "l' = l \<or> l \<noteq> 0 \<and> l' = 1"
    | "p \<noteq> SIn" "p' = SIn" "l = 0" "l' = 1"
    | "p = SIn" "p' = SOut" "l' = 0"
  using assms unfolding spin_defs by (cases p) (auto simp: atomic_xchg_def atomic_read_def split: if_splits)

lemma spin_inv_step:
  assumes inv: "spin_inv n l pc" and t: "t < n" and e: "(l', p') \<in> set (spin_exec l (pc t))"
  shows "spin_inv n l' (pc(t := p'))"
  using e
proof (cases rule: spin_exec_cases)
  case 1
  then have "(pc(t := p')) u = SIn \<longleftrightarrow> pc u = SIn" for u by simp
  then show ?thesis using inv 1(3) unfolding spin_inv_def by auto
next
  case 2
  then have "\<forall>u<n. pc u \<noteq> SIn" using inv by (simp add: spin_inv_def)
  then show ?thesis using 2 t unfolding spin_inv_def by auto
next
  case 3
  then have "\<forall>u<n. u \<noteq> t \<longrightarrow> pc u \<noteq> SIn" using inv t unfolding spin_inv_def by blast
  then show ?thesis using 3 unfolding spin_inv_def by auto
qed

interpretation spin: lock_protocol spin_exec n "spin_inv n" "\<lambda>p q. p = SIn \<and> q = SIn" 0 SOut for n
proof unfold_locales
  show "spin_inv n 0 (\<lambda>_. SOut)" by (simp add: spin_inv_def)
  show "spin_inv n l pc \<Longrightarrow> t < n \<Longrightarrow> u < n \<Longrightarrow> t \<noteq> u \<Longrightarrow> \<not> (pc t = SIn \<and> pc u = SIn)" for l pc t u
    unfolding spin_inv_def by blast
qed (rule spin_inv_step)

section \<open>The read-write lock\<close>

definition pending_ok :: "rw_pc \<Rightarrow> bool" where
  "pending_ok p \<longleftrightarrow> (case p of RCas v \<Rightarrow> unat v < 2 ^ 31 | RTryCas v \<Rightarrow> unat v < 2 ^ 31 | _ \<Rightarrow> True)"

text \<open>
  Without a writer the word is the number of readers inside; with a writer it is the writer mask,
  and nobody else is inside. A pending reader only ever remembers a value without the writer bit.
\<close>

definition rw_inv :: "nat \<Rightarrow> atomic \<Rightarrow> (nat \<Rightarrow> rw_pc) \<Rightarrow> bool" where
  "rw_inv n lock pc \<longleftrightarrow>
     (if \<exists>t<n. pc t = WIn
      then lock = RWLOCK_WRITER_MASK \<and> (\<exists>!t. t < n \<and> pc t = WIn) \<and> (\<forall>t<n. pc t \<noteq> RIn)
      else unat lock = card {t. t < n \<and> pc t = RIn})
     \<and> (\<forall>t<n. pending_ok (pc t))"

lemma writer_mask: "unat RWLOCK_WRITER_MASK = 2 ^ 31" "RWLOCK_WRITER_MASK \<noteq> 0"
  by (simp_all add: RWLOCK_WRITER_MASK_def)

lemma bit_writer_mask: "bit RWLOCK_WRITER_MASK k \<longleftrightarrow> k = 31"
  unfolding RWLOCK_WRITER_MASK_def by (subst bit_push_bit_iff) (auto simp: bit_1_iff)

lemma bit31_iff: "bit (v :: 32 word) 31 \<longleftrightarrow> 2 ^ 31 \<le> unat v"
proof -
  have "unat v div 2 ^ 31 < 2" using unsigned_less[of v] by (intro less_mult_imp_div_less) simp
  then have "unat v div 2 ^ 31 = 0 \<or> unat v div 2 ^ 31 = 1" by linarith
  then have "odd (unat v div 2 ^ 31) \<longleftrightarrow> unat v div 2 ^ 31 \<noteq> 0" by (elim disjE) simp_all
  then have "bit (unat v) 31 \<longleftrightarrow> 2 ^ 31 \<le> unat v" by (simp add: bit_iff_odd div_eq_0_iff not_less)
  then show ?thesis by (simp add: bit_unsigned_iff)
qed

lemma and_writer_mask: "v AND RWLOCK_WRITER_MASK = 0 \<longleftrightarrow> unat v < 2 ^ 31"
proof -
  have "v AND RWLOCK_WRITER_MASK = 0 \<longleftrightarrow> \<not> bit v 31"
  proof
    assume "v AND RWLOCK_WRITER_MASK = 0"
    then have "\<not> bit (v AND RWLOCK_WRITER_MASK) 31" by simp
    then show "\<not> bit v 31" by (simp add: bit_and_iff bit_writer_mask)
  next
    assume "\<not> bit v 31"
    then show "v AND RWLOCK_WRITER_MASK = 0" by (intro bit_eqI) (auto simp: bit_and_iff bit_writer_mask)
  qed
  then show ?thesis by (simp add: bit31_iff not_le)
qed

text \<open>The number of readers after one thread changes position.\<close>

lemma readers_upd:
  fixes n :: nat
  assumes "t < n"
  shows "card {u. u < n \<and> (pc(t := p)) u = RIn}
    = card {u. u < n \<and> pc u = RIn} - of_bool (pc t = RIn) + of_bool (p = RIn)"
proof -
  let ?R = "{u. u < n \<and> pc u = RIn}"
  have fin: "finite ?R" by (rule finite_subset[of _ "{..<n}"]) auto
  have "{u. u < n \<and> (pc(t := p)) u = RIn} = (if p = RIn then insert t (?R - {t}) else ?R - {t})"
    using assms by auto
  moreover have "card (?R - {t}) = card ?R - of_bool (pc t = RIn)"
    using assms by (simp add: card_Diff_singleton_if)
  moreover have "card (insert t (?R - {t})) = Suc (card (?R - {t}))"
    using fin by (intro card_insert_disjoint) simp_all
  ultimately show ?thesis by simp
qed

lemmas rw_defs = rw_exec_def rwlock_write_trylock_def atomic_cmpxchg_def atomic_read_def and_writer_mask Let_def
  rwlock_read_unlock_def atomic_dec_def rwlock_write_unlock_def atomic_set_def pending_ok_def

lemma rw_exec_cases:
  assumes "(l', p') \<in> set (rw_exec l p)" "pending_ok p"
  shows "p \<notin> {RIn, WIn} \<and> p' \<notin> {RIn, WIn} \<and> l' = l \<and> pending_ok p'
    \<or> p \<notin> {RIn, WIn} \<and> p' = RIn \<and> unat l < 2 ^ 31 \<and> l' = l + 1
    \<or> p \<notin> {RIn, WIn} \<and> p' = WIn \<and> l = 0 \<and> l' = RWLOCK_WRITER_MASK
    \<or> p = RIn \<and> p' = RWOut \<and> l' = l - 1
    \<or> p = WIn \<and> p' = RWOut \<and> l' = 0"
  using assms by (cases p) (simp_all add: rw_defs split: if_splits, auto split: if_splits)

lemma rw_inv_writerI:
  "\<exists>t<n. pc t = WIn \<Longrightarrow> \<exists>!t. t < n \<and> pc t = WIn \<Longrightarrow> \<forall>t<n. pc t \<noteq> RIn \<Longrightarrow> \<forall>t<n. pending_ok (pc t)
    \<Longrightarrow> rw_inv n RWLOCK_WRITER_MASK pc"
  by (simp add: rw_inv_def)

lemma rw_inv_readersI:
  "\<not> (\<exists>t<n. pc t = WIn) \<Longrightarrow> unat l = card {t. t < n \<and> pc t = RIn} \<Longrightarrow> \<forall>t<n. pending_ok (pc t) \<Longrightarrow> rw_inv n l pc"
  unfolding rw_inv_def by argo

lemma rw_inv_step:
  assumes inv: "rw_inv n l pc" and t: "t < n" and e: "(l', p') \<in> set (rw_exec l (pc t))"
  shows "rw_inv n l' (pc(t := p'))"
proof -
  let ?R = "{u. u < n \<and> pc u = RIn}" and ?W = "\<exists>u<n. pc u = WIn"
  note cnt = readers_upd[OF t, of pc p']
  have fin: "finite ?R" by (rule finite_subset[of _ "{..<n}"]) auto
  have pend: "\<forall>u<n. pending_ok (pc u)" using inv by (simp add: rw_inv_def)
  have writer: "?W \<Longrightarrow> l = RWLOCK_WRITER_MASK \<and> (\<exists>!u. u < n \<and> pc u = WIn) \<and> (\<forall>u<n. pc u \<noteq> RIn)"
    and readers: "\<not> ?W \<Longrightarrow> unat l = card ?R"
    using inv by (auto simp: rw_inv_def split: if_splits)
  have R0: "card ?R = 0 \<longleftrightarrow> (\<forall>u<n. pc u \<noteq> RIn)" using fin by auto
  have old: "pending_ok (pc t)" using pend t by simp
  from rw_exec_cases[OF e old] consider
      (move) "pc t \<notin> {RIn, WIn}" "p' \<notin> {RIn, WIn}" "l' = l" "pending_ok p'"
    | (rlock) "pc t \<notin> {RIn, WIn}" "p' = RIn" "unat l < 2 ^ 31" "l' = l + 1"
    | (wlock) "pc t \<notin> {RIn, WIn}" "p' = WIn" "l = 0" "l' = RWLOCK_WRITER_MASK"
    | (runlock) "pc t = RIn" "p' = RWOut" "l' = l - 1"
    | (wunlock) "pc t = WIn" "p' = RWOut" "l' = 0" by blast
  then show ?thesis
  proof cases
    case move
    then have "(pc(t := p')) u = RIn \<longleftrightarrow> pc u = RIn" "(pc(t := p')) u = WIn \<longleftrightarrow> pc u = WIn" for u by auto
    moreover have "\<forall>u<n. pending_ok ((pc(t := p')) u)" using pend move by simp
    ultimately show ?thesis using inv move(3) unfolding rw_inv_def by simp
  next
    case rlock
    have "\<not> ?W" using writer writer_mask(1) rlock(3) by (metis less_irrefl)
    then have "\<not> (\<exists>u<n. (pc(t := p')) u = WIn)" "unat l = card ?R" using rlock readers by auto
    moreover have "unat (l + 1) = unat l + 1" using rlock(3) by (simp add: unat_word_ariths)
    moreover have "\<forall>u<n. pending_ok ((pc(t := p')) u)" using pend rlock by (auto simp: pending_ok_def)
    ultimately show ?thesis using cnt rlock by (intro rw_inv_readersI) simp_all
  next
    case wlock
    have "\<not> ?W" using writer writer_mask(2) wlock(3) by metis
    then have no: "\<forall>u<n. pc u \<noteq> WIn" "\<forall>u<n. pc u \<noteq> RIn" using readers wlock(3) R0 by auto
    have "\<exists>u<n. (pc(t := p')) u = WIn" "\<exists>!u. u < n \<and> (pc(t := p')) u = WIn" "\<forall>u<n. (pc(t := p')) u \<noteq> RIn"
      using no t wlock by auto
    moreover have "\<forall>u<n. pending_ok ((pc(t := p')) u)" using pend wlock by (auto simp: pending_ok_def)
    ultimately show ?thesis unfolding wlock(4) by (rule rw_inv_writerI)
  next
    case runlock
    then have nW: "\<not> ?W" using writer t by auto
    then have "unat l = card ?R" "card ?R \<noteq> 0" using readers R0 runlock t by auto
    moreover from this have "l \<noteq> 0" by auto
    then have "unat (l - 1) = unat l - 1" by (rule unat_minus_one)
    ultimately have "unat l' = card {u. u < n \<and> (pc(t := p')) u = RIn}" using cnt runlock by simp
    moreover have "\<not> (\<exists>u<n. (pc(t := p')) u = WIn)" using nW runlock by auto
    moreover have "\<forall>u<n. pending_ok ((pc(t := p')) u)" using pend runlock by (auto simp: pending_ok_def)
    ultimately show ?thesis by (intro rw_inv_readersI)
  next
    case wunlock
    then have W: "?W" using t by auto
    have "\<not> (\<exists>u<n. (pc(t := p')) u = WIn)" using writer[OF W] wunlock t by auto
    moreover have "unat l' = card {u. u < n \<and> (pc(t := p')) u = RIn}" using cnt wunlock writer[OF W] R0 by auto
    moreover have "\<forall>u<n. pending_ok ((pc(t := p')) u)" using pend wunlock by (auto simp: pending_ok_def)
    ultimately show ?thesis by (intro rw_inv_readersI)
  qed
qed

definition rw_conflict :: "rw_pc \<Rightarrow> rw_pc \<Rightarrow> bool" where
  "rw_conflict p q \<longleftrightarrow> p = WIn \<and> (q = WIn \<or> q = RIn)"

interpretation rw: lock_protocol rw_exec n "rw_inv n" rw_conflict 0 RWOut for n
proof unfold_locales
  show "rw_inv n 0 (\<lambda>_. RWOut)" by (simp add: rw_inv_def pending_ok_def)
  show "rw_inv n l pc \<Longrightarrow> t < n \<Longrightarrow> u < n \<Longrightarrow> t \<noteq> u \<Longrightarrow> \<not> rw_conflict (pc t) (pc u)" for l pc t u
    unfolding rw_inv_def rw_conflict_def by (metis (no_types, lifting))
qed (rule rw_inv_step)

section \<open>The ticket lock is first come, first served\<close>

text \<open>
  The threads that took a ticket form a queue; the ticket numbers count up from the one being
  served, modulo \<open>2 ^ 32\<close>. With fewer than \<open>2 ^ 32\<close> threads the numbers stay distinct.
\<close>

fun ticket_of :: "ticket_pc \<Rightarrow> 32 word option" where
  "ticket_of (TWait v) = Some v"
| "ticket_of (TIn v) = Some v"
| "ticket_of _ = None"

definition inside :: "ticket_pc \<Rightarrow> bool" where
  "inside p \<longleftrightarrow> (\<exists>v. p = TIn v)"

definition ticket_abs :: "nat \<Rightarrow> ticket_spinlock \<Rightarrow> (nat \<Rightarrow> ticket_pc) \<Rightarrow> nat list \<Rightarrow> bool" where
  "ticket_abs n lock pc q \<longleftrightarrow> distinct q \<and> set q = {t. t < n \<and> ticket_of (pc t) \<noteq> None}
     \<and> next_ticket lock = serving_ticket lock + of_nat (length q)
     \<and> (\<forall>i<length q. ticket_of (pc (q ! i)) = Some (serving_ticket lock + of_nat i))
     \<and> (\<forall>i<length q. inside (pc (q ! i)) \<longrightarrow> i = 0)"

text \<open>The abstract lock: a queue of threads, of which only the first may be inside.\<close>

inductive fifo_step :: "nat \<Rightarrow> nat list \<Rightarrow> nat list \<Rightarrow> bool" where
  fifo_join: "t \<notin> set q \<Longrightarrow> fifo_step t q (q @ [t])"
| fifo_stay: "fifo_step t q q"
| fifo_leave: "fifo_step t (t # q) q"

lemma ticket_queue_short: "ticket_abs n lock pc q \<Longrightarrow> length q \<le> n"
proof -
  assume a: "ticket_abs n lock pc q"
  then have "distinct q" by (simp add: ticket_abs_def)
  then have "card (set q) = length q" by (rule distinct_card)
  moreover have "set q \<subseteq> {..<n}" using a by (auto simp: ticket_abs_def)
  ultimately show ?thesis using card_mono[of "{..<n}" "set q"] by simp
qed

lemma of_nat32_eq: "(of_nat i :: 32 word) = of_nat j \<Longrightarrow> i \<le> j \<Longrightarrow> j < i + 2 ^ 32 \<Longrightarrow> i = j"
proof -
  assume eq: "(of_nat i :: 32 word) = of_nat j" and le: "i \<le> j" and lt: "j < i + 2 ^ 32"
  have "(of_nat (j - i) :: 32 word) = 0" using eq le by (simp add: of_nat_diff)
  then have "unat (of_nat (j - i) :: 32 word) = 0" by (simp only: unsigned_0)
  moreover have "j - i < 2 ^ 32" using lt le by simp
  ultimately show "i = j" using le by (simp add: unat_of_nat del: of_nat_diff)
qed

lemma of_nat32_eq_0: "i < 2 ^ 32 \<Longrightarrow> (of_nat i :: 32 word) = 0 \<Longrightarrow> i = 0"
  using of_nat32_eq[of 0 i] by simp

lemma ticket_pos: "ticket_abs n l pc q \<Longrightarrow> t < n \<Longrightarrow> ticket_of (pc t) = Some v \<Longrightarrow> \<exists>i<length q. q ! i = t"
  unfolding in_set_conv_nth[symmetric] ticket_abs_def by simp

text \<open>A step that neither takes nor gives back a ticket leaves the queue as it is.\<close>

lemma ticket_abs_idle:
  assumes "ticket_abs n l pc q" "ticket_of (pc t) = None" "ticket_of p' = None"
  shows "ticket_abs n l (pc(t := p')) q"
proof -
  have "t \<notin> set q" using assms(1,2) by (auto simp: ticket_abs_def)
  then have "(pc(t := p')) (q ! i) = pc (q ! i)" if "i < length q" for i using that nth_mem by fastforce
  moreover have "{u. u < n \<and> ticket_of ((pc(t := p')) u) \<noteq> None} = {u. u < n \<and> ticket_of (pc u) \<noteq> None}"
    using assms(2,3) by auto
  ultimately show ?thesis using assms(1) by (simp add: ticket_abs_def)
qed

text \<open>A thread outside that takes the next ticket joins the queue at the back; it may be inside
  at once when the queue was empty.\<close>

lemma ticket_abs_join:
  assumes abs: "ticket_abs n l pc q" and t: "t < n" "ticket_of (pc t) = None"
    and p': "ticket_of p' = Some (next_ticket l)" "inside p' \<longrightarrow> q = []"
  shows "ticket_abs n (l\<lparr>next_ticket := next_ticket l + 1\<rparr>) (pc(t := p')) (q @ [t])"
  unfolding ticket_abs_def
proof (intro conjI allI impI)
  have tq: "t \<notin> set q" using abs t by (auto simp: ticket_abs_def)
  then show "distinct (q @ [t])" using abs by (simp add: ticket_abs_def)
  show "set (q @ [t]) = {u. u < n \<and> ticket_of ((pc(t := p')) u) \<noteq> None}" using abs t p' by (auto simp: ticket_abs_def)
  fix i assume i: "i < length (q @ [t])"
  have nth: "(pc(t := p')) ((q @ [t]) ! i) = (if i < length q then pc (q ! i) else p')"
    using tq i by (auto simp: nth_append nth_mem)
  have last: "\<not> i < length q \<Longrightarrow> i = length q" using i by simp
  show "ticket_of ((pc(t := p')) ((q @ [t]) ! i)) = Some (serving_ticket (l\<lparr>next_ticket := next_ticket l + 1\<rparr>) + of_nat i)"
    unfolding nth using abs p' last by (auto simp: ticket_abs_def)
  show "inside ((pc(t := p')) ((q @ [t]) ! i)) \<Longrightarrow> i = 0"
    unfolding nth using abs p' last by (auto simp: ticket_abs_def split: if_splits)
qed (use abs in \<open>simp add: ticket_abs_def\<close>)

lemma ticket_abs_leave:
  assumes abs: "ticket_abs n l pc (t # r)" and p': "ticket_of p' = None"
  shows "ticket_abs n (l\<lparr>serving_ticket := serving_ticket l + 1\<rparr>) (pc(t := p')) r"
  unfolding ticket_abs_def
proof (intro conjI allI impI)
  have dist: "t \<notin> set r" "distinct r" using abs by (auto simp: ticket_abs_def)
  show "set r = {u. u < n \<and> ticket_of ((pc(t := p')) u) \<noteq> None}" using abs p' dist by (auto simp: ticket_abs_def)
  fix j assume j: "j < length r"
  have same: "(pc(t := p')) (r ! j) = pc ((t # r) ! Suc j)" using dist j by (auto simp: nth_mem)
  show "ticket_of ((pc(t := p')) (r ! j)) = Some (serving_ticket (l\<lparr>serving_ticket := serving_ticket l + 1\<rparr>) + of_nat j)"
    unfolding same using abs j by (auto simp: ticket_abs_def algebra_simps)
  show "inside ((pc(t := p')) (r ! j)) \<Longrightarrow> j = 0"
    unfolding same using abs j by (auto simp: ticket_abs_def)
qed (use abs in \<open>auto simp: ticket_abs_def\<close>)

text \<open>What one step does to the lock and to the queue; \<open>k\<close> and \<open>m\<close> count the ticket it takes and
  the ticket it gives back.\<close>

definition queue_step :: "nat \<Rightarrow> nat \<Rightarrow> ticket_spinlock \<Rightarrow> (nat \<Rightarrow> ticket_pc) \<Rightarrow> nat list \<Rightarrow>
    ticket_spinlock \<Rightarrow> ticket_pc \<Rightarrow> nat list \<Rightarrow> bool" where
  "queue_step n t l pc q l' p' q' \<longleftrightarrow> ticket_abs n l' (pc(t := p')) q' \<and> fifo_step t q q'
     \<and> (inside p' \<longrightarrow> q' \<noteq> [] \<and> hd q' = t)
     \<and> (\<exists>k m. k \<le> 1 \<and> m \<le> 1 \<and> length q' + m = length q + k \<and> next_ticket l' = next_ticket l + of_nat k
          \<and> serving_ticket l' = serving_ticket l + of_nat m)"

lemma queue_step_stay:
  "ticket_abs n l (pc(t := p')) q \<Longrightarrow> (inside p' \<longrightarrow> q \<noteq> [] \<and> hd q = t) \<Longrightarrow> queue_step n t l pc q l p' q"
  unfolding queue_step_def by (auto intro: fifo_stay exI[of _ 0])

lemma queue_step_join:
  assumes "ticket_abs n l pc q" "t < n" "ticket_of (pc t) = None"
    and "ticket_of p' = Some (next_ticket l)" "inside p' \<longrightarrow> q = []"
  shows "queue_step n t l pc q (l\<lparr>next_ticket := next_ticket l + 1\<rparr>) p' (q @ [t])"
proof -
  have "t \<notin> set q" using assms(1,3) by (auto simp: ticket_abs_def)
  then have "fifo_step t q (q @ [t])" by (rule fifo_join)
  moreover have "inside p' \<longrightarrow> q @ [t] \<noteq> [] \<and> hd (q @ [t]) = t" using assms(5) by auto
  ultimately show ?thesis
    unfolding queue_step_def using ticket_abs_join[OF assms] by (intro conjI exI[of _ 1] exI[of _ "0 :: nat"]) simp_all
qed

lemma queue_step_leave:
  "ticket_abs n l pc (t # r) \<Longrightarrow> queue_step n t l pc (t # r) (l\<lparr>serving_ticket := serving_ticket l + 1\<rparr>) TOut r"
  unfolding queue_step_def
  by (intro conjI, simp add: ticket_abs_leave, rule fifo_leave, simp add: inside_def, intro exI[of _ 0] exI[of _ 1], simp)

lemma ticket_step:
  assumes abs: "ticket_abs n l pc q" and n: "n < 2 ^ 32" and t: "t < n"
    and e: "(l', p') \<in> set (ticket_exec l (pc t))"
    and cas: "pc t = TTryCas (next_ticket l) \<longrightarrow> q = []"
  shows "\<exists>q'. queue_step n t l pc q l' p' q'"
proof (cases "pc t")
  case TOut
  then consider "l' = l\<lparr>next_ticket := next_ticket l + 1\<rparr>" "p' = TWait (next_ticket l)"
    | "l' = l" "p' = TTryNext (serving_ticket l)"
    using e by (auto simp: ticket_exec_def ticket_take_def add_return_value atomic_read_def)
  then show ?thesis
  proof cases
    case 1
    then show ?thesis using queue_step_join[OF abs t, of p'] TOut by (auto simp: inside_def)
  next
    case 2
    then have "ticket_abs n l (pc(t := p')) q" using ticket_abs_idle[OF abs] TOut by simp
    then show ?thesis using queue_step_stay[of n l pc t p' q] 2 by (auto simp: inside_def)
  qed
next
  case (TTryNext v)
  then have e': "l' = l" "p' = TOut \<or> p' = TTryCas (next_ticket l)"
    using e by (auto simp: ticket_exec_def atomic_read_def Let_def split: if_splits)
  then have "ticket_of p' = None" "\<not> inside p'" by (auto simp: inside_def)
  then show ?thesis using queue_step_stay[OF ticket_abs_idle[OF abs], of t p'] TTryNext e' by auto
next
  case (TTryCas v)
  show ?thesis
  proof (cases "next_ticket l = v")
    case True
    then have "l' = l\<lparr>next_ticket := next_ticket l + 1\<rparr>" "p' = TIn v"
      using e TTryCas by (auto simp: ticket_exec_def atomic_cmpxchg_def)
    then show ?thesis using queue_step_join[OF abs t, of p'] TTryCas True cas by auto
  next
    case False
    then have e': "l' = l" "p' = TOut" using e TTryCas by (auto simp: ticket_exec_def atomic_cmpxchg_def)
    then show ?thesis using queue_step_stay[OF ticket_abs_idle[OF abs], of t p'] TTryCas by (auto simp: inside_def)
  qed
next
  case (TWait my)
  then obtain i where i: "i < length q" "q ! i = t" using ticket_pos[OF abs t] by auto
  have my: "my = serving_ticket l + of_nat i" using abs i TWait by (auto simp: ticket_abs_def)
  show ?thesis
  proof (cases "serving_ticket l = my")
    case True
    then have "i = 0" using my ticket_queue_short[OF abs] n i by (intro of_nat32_eq_0) auto
    then have hd: "q \<noteq> []" "hd q = t" using i by (auto simp: hd_conv_nth)
    have l': "l' = l" "p' = TIn my" using e TWait True by (auto simp: ticket_exec_def atomic_read_def)
    have "(pc(t := p')) (q ! j) = (if j = 0 then TIn my else pc (q ! j))" if "j < length q" for j
      using that i \<open>i = 0\<close> l' abs by (auto simp: ticket_abs_def nth_eq_iff_index_eq)
    moreover have "{u. u < n \<and> ticket_of ((pc(t := p')) u) \<noteq> None} = {u. u < n \<and> ticket_of (pc u) \<noteq> None}"
      using TWait l' by auto
    ultimately have "ticket_abs n l' (pc(t := p')) q"
      using abs l' my \<open>i = 0\<close> by (auto simp: ticket_abs_def)
    then show ?thesis using queue_step_stay[of n l pc t p' q] hd l' by auto
  next
    case False
    then have l': "l' = l" "p' = TWait my" using e TWait by (auto simp: ticket_exec_def atomic_read_def)
    moreover from this have "pc(t := p') = pc" using TWait by auto
    ultimately show ?thesis using queue_step_stay[of n l pc t p' q] abs by (auto simp: inside_def)
  qed
next
  case (TIn my)
  then obtain i where i: "i < length q" "q ! i = t" using ticket_pos[OF abs t] by auto
  then have "i = 0" using abs TIn by (auto simp: ticket_abs_def inside_def)
  then obtain r where q: "q = t # r" using i by (cases q) auto
  have "l' = l\<lparr>serving_ticket := serving_ticket l + 1\<rparr>" "p' = TOut"
    using e TIn by (auto simp: ticket_exec_def ticket_spinlock_unlock_def atomic_inc_def)
  then show ?thesis using queue_step_leave abs q by blast
qed

text \<open>The counted state: the words are the counters modulo \<open>2 ^ 32\<close>, the queue is as long as the
  counters say, and a try-lock in progress carries the number of tickets served when it began.\<close>

definition ticket_inv :: "nat \<Rightarrow> ticket_spinlock \<times> nat \<times> nat \<Rightarrow> (nat \<Rightarrow> ticket_pc \<times> nat) \<Rightarrow> nat list \<Rightarrow> bool" where
  "ticket_inv n w pc q \<longleftrightarrow> (case w of (l, issued, served) \<Rightarrow> ticket_abs n l (fst \<circ> pc) q
     \<and> next_ticket l = of_nat issued \<and> serving_ticket l = of_nat served \<and> issued = served + length q
     \<and> (\<forall>t<n. \<forall>v. fst (pc t) = TTryNext v \<or> fst (pc t) = TTryCas v \<longrightarrow> v = of_nat (snd (pc t)) \<and> snd (pc t) \<le> served))"

lemma ticket_inv_step:
  assumes inv: "ticket_inv n (l, issued, served) pc q" and n: "n < 2 ^ 32" and t: "t < n"
    and e: "((l', issued', served'), p', seen') \<in> set (ticket_exec_timely (l, issued, served) (pc t))"
  shows "\<exists>q'. queue_step n t l (fst \<circ> pc) q l' p' q' \<and> ticket_inv n (l', issued', served') (pc(t := (p', seen'))) q'"
proof -
  have abs: "ticket_abs n l (fst \<circ> pc) q" and nx: "next_ticket l = of_nat issued"
    and sv: "serving_ticket l = of_nat served" and len: "issued = served + length q"
    and tried: "\<forall>t<n. \<forall>v. fst (pc t) = TTryNext v \<or> fst (pc t) = TTryCas v \<longrightarrow> v = of_nat (snd (pc t)) \<and> snd (pc t) \<le> served"
    using inv by (auto simp: ticket_inv_def)
  obtain p seen where pt: "pc t = (p, seen)" by (cases "pc t")
  have soon: "\<not> (trying p \<and> seen + 2 ^ 32 \<le> issued)" and e': "(l', p') \<in> set (ticket_exec l p)"
    and cnt: "issued' = issued + of_bool (next_ticket l' \<noteq> next_ticket l)"
      "served' = served + of_bool (serving_ticket l' \<noteq> serving_ticket l)" "seen' = (if p = TOut then served else seen)"
    using e pt by (auto split: if_splits)
  have "(fst \<circ> pc) t = TTryCas (next_ticket l) \<longrightarrow> q = []"
  proof
    assume "(fst \<circ> pc) t = TTryCas (next_ticket l)"
    then have "of_nat issued = (of_nat seen :: 32 word)" "seen \<le> served" "issued < seen + 2 ^ 32"
      using tried t pt nx soon by fastforce+
    then show "q = []" using of_nat32_eq[of seen issued] len by simp
  qed
  then obtain q' where step: "queue_step n t l (fst \<circ> pc) q l' p' q'"
    using ticket_step[OF abs n t, of l' p'] e' pt by auto
  then obtain k m where km: "k \<le> 1" "m \<le> 1" "length q' + m = length q + k"
    "next_ticket l' = next_ticket l + of_nat k" "serving_ticket l' = serving_ticket l + of_nat m"
    unfolding queue_step_def by auto
  then have cnt': "issued' = issued + k" "served' = served + m" using cnt by (auto simp: le_Suc_eq)
  have "v = of_nat seen' \<and> seen' \<le> served" if "p' = TTryNext v \<or> p' = TTryCas v" for v
    using that e' pt tried t cnt(3) sv
    by (cases p) (auto simp: ticket_exec_def ticket_take_def add_return_value atomic_read_def Let_def
        atomic_cmpxchg_def split: if_splits)
  then have "\<forall>u<n. \<forall>v. fst ((pc(t := (p', seen'))) u) = TTryNext v \<or> fst ((pc(t := (p', seen'))) u) = TTryCas v
      \<longrightarrow> v = of_nat (snd ((pc(t := (p', seen'))) u)) \<and> snd ((pc(t := (p', seen'))) u) \<le> served'"
    using tried cnt'(2) by (auto intro: trans_le_add1)
  moreover have "fst \<circ> pc(t := (p', seen')) = (fst \<circ> pc)(t := p')" by auto
  ultimately have "ticket_inv n (l', issued', served') (pc(t := (p', seen'))) q'"
    using step km nx sv len cnt' unfolding ticket_inv_def queue_step_def by simp
  then show ?thesis using step by blast
qed

lemma ticket_excl:
  assumes "ticket_abs n l pc q" "t < n" "u < n" "inside (pc t)" "inside (pc u)"
  shows "t = u"
proof -
  obtain v w where "ticket_of (pc t) = Some v" "ticket_of (pc u) = Some w" using assms(4,5) by (auto simp: inside_def)
  then obtain i j where ij: "i < length q" "q ! i = t" "j < length q" "q ! j = u"
    using ticket_pos[OF assms(1)] assms(2,3) by metis
  then have "i = 0" "j = 0" using assms(1,4,5) unfolding ticket_abs_def by blast+
  then show ?thesis using ij by simp
qed

interpretation tk: lock_protocol ticket_exec_timely n "\<lambda>w pc. n < 2 ^ 32 \<longrightarrow> (\<exists>q. ticket_inv n w pc q)"
    "\<lambda>p q. n < 2 ^ 32 \<and> inside (fst p) \<and> inside (fst q)" "(\<lparr>next_ticket = 0, serving_ticket = 0\<rparr>, 0, 0)" "(TOut, 0)" for n
proof unfold_locales
  show "n < 2 ^ 32 \<longrightarrow> (\<exists>q. ticket_inv n (\<lparr>next_ticket = 0, serving_ticket = 0\<rparr>, 0, 0) (\<lambda>_. (TOut, 0)) q)"
    by (auto simp: ticket_abs_def ticket_inv_def intro: exI[of _ "[]"])
  show "n < 2 ^ 32 \<longrightarrow> (\<exists>q. ticket_inv n w' (pc(t := p')) q)"
    if "n < 2 ^ 32 \<longrightarrow> (\<exists>q. ticket_inv n w pc q)" "t < n" "(w', p') \<in> set (ticket_exec_timely w (pc t))" for w pc t w' p'
    using that ticket_inv_step[of n "fst w" "fst (snd w)" "snd (snd w)" pc _ t "fst w'" "fst (snd w')" "snd (snd w')" "fst p'" "snd p'"]
    by (metis prod.collapse)
  show "\<not> (n < 2 ^ 32 \<and> inside (fst (pc t)) \<and> inside (fst (pc u)))"
    if "n < 2 ^ 32 \<longrightarrow> (\<exists>q. ticket_inv n w pc q)" "t < n" "u < n" "t \<noteq> u" for w pc t u
    using that ticket_excl[of n "fst w" "fst \<circ> pc" _ t u] by (cases w) (auto simp: ticket_inv_def)
qed

section \<open>Ordered acquisition cannot deadlock\<close>

fun holds :: "pair_pc \<Rightarrow> u64 set" where
  "holds PIdle = {}"
| "holds (PFirst a b sp) = {}"
| "holds (PSecond a b sp) = {a}"
| "holds (PHold a b) = {a, b}"
| "holds (PRel a) = {a}"

fun waits :: "pair_pc \<Rightarrow> u64 option" where
  "waits (PFirst a b sp) = Some a"
| "waits (PSecond a b sp) = Some b"
| "waits _ = None"

fun pair_ok :: "pair_pc \<Rightarrow> bool" where
  "pair_ok (PFirst a b sp) \<longleftrightarrow> a < b \<and> sp \<in> {SXchg, SSpin}"
| "pair_ok (PSecond a b sp) \<longleftrightarrow> a < b \<and> sp \<in> {SXchg, SSpin}"
| "pair_ok (PHold a b) \<longleftrightarrow> a < b"
| "pair_ok _ \<longleftrightarrow> True"

definition pair_inv :: "nat \<Rightarrow> (u64 \<Rightarrow> atomic) \<Rightarrow> (nat \<Rightarrow> pair_pc) \<Rightarrow> bool" where
  "pair_inv n lk pc \<longleftrightarrow> (\<forall>t<n. pair_ok (pc t))
     \<and> (\<forall>a. lk a = (if \<exists>t<n. a \<in> holds (pc t) then 1 else 0))
     \<and> (\<forall>t<n. \<forall>u<n. t \<noteq> u \<longrightarrow> holds (pc t) \<inter> holds (pc u) = {})"

lemma spin_step_cases:
  assumes "spinlock_lock_step w sp = (w', sp')" "sp \<in> {SXchg, SSpin}" "w \<in> {0, 1}"
  shows "sp' = SIn \<and> w = 0 \<and> w' = 1 \<or> sp' \<in> {SXchg, SSpin} \<and> w' = w"
  using assms by (auto simp: atomic_xchg_def atomic_read_def split: if_splits)

lemma pair_exec_cases:
  assumes "(lk', p') \<in> set (pair_exec pairs lk p)" "pair_ok p" "\<forall>(a, b)\<in>set pairs. a \<noteq> b" "\<forall>a. lk a \<in> {0, 1}"
  shows "pair_ok p' \<and> (lk' = lk \<and> holds p' = holds p
      \<or> (\<exists>a. lk a = 0 \<and> lk' = lk(a := 1) \<and> a \<notin> holds p \<and> holds p' = insert a (holds p))
      \<or> (\<exists>a\<in>holds p. lk' = lk(a := 0) \<and> holds p' = holds p - {a}))"
proof (cases p)
  case PIdle
  have "x < y" if "(a, b) \<in> set pairs" "lock_order a b = (x, y)" for a b x y
    using assms(3) that by (auto simp: lock_order_def split: if_splits)
  then show ?thesis using assms(1) PIdle by (auto simp: pair_exec_def split: prod.splits)
next
  case (PFirst a b sp)
  obtain w sp' where w: "spinlock_lock_step (lk a) sp = (w, sp')" by fastforce
  have ab: "a < b" "sp \<in> {SXchg, SSpin}" using assms(2) PFirst by auto
  have "lk' = lk(a := w)" "p' = (if sp' = SIn then PSecond a b SXchg else PFirst a b sp')"
    using assms(1) w PFirst by (simp_all add: pair_exec_def)
  then show ?thesis using spin_step_cases[OF w ab(2)] assms(4) ab(1) PFirst by (auto simp: fun_upd_idem)
next
  case (PSecond a b sp)
  obtain w sp' where w: "spinlock_lock_step (lk b) sp = (w, sp')" by fastforce
  have ab: "a < b" "sp \<in> {SXchg, SSpin}" using assms(2) PSecond by auto
  have "lk' = lk(b := w)" "p' = (if sp' = SIn then PHold a b else PSecond a b sp')"
    using assms(1) w PSecond by (simp_all add: pair_exec_def)
  then show ?thesis using spin_step_cases[OF w ab(2)] assms(4) ab(1) PSecond by (auto simp: fun_upd_idem)
next
  case (PHold a b)
  then show ?thesis using assms(1,2) by (auto simp: pair_exec_def spinlock_unlock_def atomic_set_def)
next
  case (PRel a)
  then show ?thesis using assms(1) by (auto simp: pair_exec_def spinlock_unlock_def atomic_set_def)
qed

lemma pair_inv_step:
  assumes inv: "pair_inv n lk pc" and pairs: "\<forall>(a, b)\<in>set pairs. a \<noteq> b" and t: "t < n"
    and e: "(lk', p') \<in> set (pair_exec pairs lk (pc t))"
  shows "pair_inv n lk' (pc(t := p'))"
proof -
  let ?pc = "pc(t := p')"
  have ok: "\<forall>u<n. pair_ok (pc u)" and lk: "lk a = (if \<exists>u<n. a \<in> holds (pc u) then 1 else 0)"
    and dj: "u < n \<Longrightarrow> v < n \<Longrightarrow> u \<noteq> v \<Longrightarrow> holds (pc u) \<inter> holds (pc v) = {}" for a u v
    using inv by (auto simp: pair_inv_def)
  have "\<forall>a. lk a \<in> {0, 1}" using lk by simp
  then have new: "pair_ok p'" and step: "lk' = lk \<and> holds p' = holds (pc t)
      \<or> (\<exists>a. lk a = 0 \<and> lk' = lk(a := 1) \<and> a \<notin> holds (pc t) \<and> holds p' = insert a (holds (pc t)))
      \<or> (\<exists>a\<in>holds (pc t). lk' = lk(a := 0) \<and> holds p' = holds (pc t) - {a})"
    using pair_exec_cases[OF e _ pairs] ok t by blast+
  have ok': "\<forall>u<n. pair_ok (?pc u)" using ok new by simp
  from step consider (same) "lk' = lk" "holds p' = holds (pc t)"
    | (take) a where "lk a = 0" "lk' = lk(a := 1)" "holds p' = insert a (holds (pc t))"
    | (drop) a where "a \<in> holds (pc t)" "lk' = lk(a := 0)" "holds p' = holds (pc t) - {a}" by blast
  then show ?thesis
  proof cases
    case same
    then have "holds (?pc u) = holds (pc u)" for u by simp
    then show ?thesis using inv ok' same(1) unfolding pair_inv_def by presburger
  next
    case take
    have free: "\<forall>u<n. a \<notin> holds (pc u)" using take(1) lk[of a] by (auto split: if_splits)
    have "lk' b = (if \<exists>u<n. b \<in> holds (?pc u) then 1 else 0)" for b
      using take t lk[of b] by (cases "b = a") auto
    moreover have "holds (?pc u) \<inter> holds (?pc v) = {}" if "u < n" "v < n" "u \<noteq> v" for u v
      using dj[OF that] dj[of u t] dj[of t v] free that t take(3) by auto
    ultimately show ?thesis using ok' unfolding pair_inv_def by blast
  next
    case drop
    have only: "\<forall>u<n. u \<noteq> t \<longrightarrow> a \<notin> holds (pc u)" using drop(1) dj t by blast
    have "lk' b = (if \<exists>u<n. b \<in> holds (?pc u) then 1 else 0)" for b
      using drop t lk[of b] only by (cases "b = a") auto
    moreover have "holds (?pc u) \<inter> holds (?pc v) = {}" if "u < n" "v < n" "u \<noteq> v" for u v
      using dj[OF that] dj[of u t] dj[of t v] that t drop(3) by auto
    ultimately show ?thesis using ok' unfolding pair_inv_def by blast
  qed
qed

interpretation pr: lock_protocol "pair_exec pairs" n "\<lambda>lk pc. (\<forall>(a, b)\<in>set pairs. a \<noteq> b) \<longrightarrow> pair_inv n lk pc"
    "\<lambda>p q. (\<forall>(a, b)\<in>set pairs. a \<noteq> b) \<and> holds p \<inter> holds q \<noteq> {}" "\<lambda>_. 0" PIdle for pairs n
proof unfold_locales
  show "(\<forall>(a, b)\<in>set pairs. a \<noteq> b) \<longrightarrow> pair_inv n (\<lambda>_. 0) (\<lambda>_. PIdle)" by (simp add: pair_inv_def)
  show "(\<forall>(a, b)\<in>set pairs. a \<noteq> b) \<longrightarrow> pair_inv n l' (pc(t := p'))"
    if "(\<forall>(a, b)\<in>set pairs. a \<noteq> b) \<longrightarrow> pair_inv n l pc" "t < n" "(l', p') \<in> set (pair_exec pairs l (pc t))"
    for l pc t l' p' using that pair_inv_step by blast
  show "\<not> ((\<forall>(a, b)\<in>set pairs. a \<noteq> b) \<and> holds (pc t) \<inter> holds (pc u) \<noteq> {})"
    if "(\<forall>(a, b)\<in>set pairs. a \<noteq> b) \<longrightarrow> pair_inv n l pc" "t < n" "u < n" "t \<noteq> u" for l pc t u
    using that unfolding pair_inv_def by blast
qed

lemma pair_not_stuck:
  assumes inv: "pair_inv n lk pc" and busy: "\<exists>t<n. pc t \<noteq> PIdle"
  shows "\<exists>t<n. pc t \<noteq> PIdle \<and> (\<forall>a. waits (pc t) = Some a \<longrightarrow> lk a = 0)"
proof (rule ccontr)
  assume "\<not> ?thesis"
  then have stuck: "\<exists>a. waits (pc t) = Some a \<and> lk a \<noteq> 0" if "t < n" "pc t \<noteq> PIdle" for t using that by blast
  define A where "A = {a. \<exists>t<n. waits (pc t) = Some a \<and> lk a \<noteq> 0}"
  have "A \<subseteq> (\<lambda>t. the (waits (pc t))) ` {..<n}" by (force simp: A_def)
  then have fin: "finite A" by (rule finite_subset) simp
  have ne: "A \<noteq> {}" using busy stuck unfolding A_def by blast
  have "Max A \<in> A" using Max_in[OF fin ne] .
  then obtain u where u: "u < n" "Max A \<in> holds (pc u)"
    using inv unfolding A_def pair_inv_def by (auto split: if_splits)
  then have "pc u \<noteq> PIdle" by auto
  then obtain b where b: "waits (pc u) = Some b" "lk b \<noteq> 0" using stuck u(1) by blast
  then have "b \<in> A" using u(1) by (auto simp: A_def)
  then have "b \<le> Max A" using fin by simp
  moreover have "Max A < b" using u b(1) inv unfolding pair_inv_def by (cases "pc u") auto
  ultimately show False by simp
qed

lemma spin_exec_free: "spin_exec 0 SXchg = [(1, SIn)]"
  by (simp add: spin_exec_def atomic_xchg_def)

text \<open>Without interference a free lock is taken, with interrupts disabled until the matching unlock.\<close>

lemma spinlock_lock_free: "spinlock_lock 0 = Some 1"
  by (simp add: spinlock_lock_def spinlock_lock_run.simps atomic_xchg_def)

lemma spinlock_intsave_restore:
  "\<exists>lock'. spinlock_lock_intsave 0 rflags = Some (rflags, rflags AND NOT 0x200, lock') \<and> spinlock_is_locked lock'
     \<and> spinlock_unlock_intrestore lock' r rflags = (rflags, 0)"
  by (simp add: spinlock_lock_intsave_def save_and_disable_interrupts_def spinlock_lock_free
      spinlock_unlock_intrestore_def spinlock_unlock_def restore_interrupts_def atomic_set_def
      spinlock_is_locked_def atomic_read_def)

text \<open>The reader count runs into the writer bit at \<open>2 ^ 31\<close> readers, in spite of the overflow test.\<close>

lemma rwlock_read_lock_overflow: "rwlock_read_lock_run 0x7FFFFFFF RRead = Some RWLOCK_WRITER_MASK"
  by (simp add: rwlock_read_lock_run.simps atomic_read_def atomic_cmpxchg_def RWLOCK_WRITER_MASK_def)

section \<open>The contracts of the locks\<close>

text \<open>C17: Spinlock. In every run of any number of threads that lock, try-lock and unlock, at most
  one thread is inside, the lock word is zero exactly when nobody is, and a thread that performs
  its exchange while nobody is inside acquires the lock.\<close>

theorem spinlock_mutual_exclusion:
  assumes "run spin_exec n (0, \<lambda>_. SOut) (l, pc)"
  shows "(\<forall>t<n. \<forall>u<n. pc t = SIn \<and> pc u = SIn \<longrightarrow> t = u) \<and> (l = 0 \<longleftrightarrow> (\<forall>t<n. pc t \<noteq> SIn))
    \<and> ((\<forall>t<n. pc t \<noteq> SIn) \<longrightarrow> spin_exec l SXchg = [(1, SIn)])"
proof -
  have inv: "spin_inv n l pc" using spin.run_inv[OF assms] by simp
  then have l: "l = 0 \<longleftrightarrow> (\<forall>t<n. pc t \<noteq> SIn)" unfolding spin_inv_def by blast
  then have "(\<forall>t<n. pc t \<noteq> SIn) \<longrightarrow> spin_exec l SXchg = [(1, SIn)]"
    by (metis (no_types) spin_exec_free)
  then show ?thesis using inv l unfolding spin_inv_def by blast
qed

theorem spinlock_mutual_exclusion_witness:
  "run spin_exec 2 (0, \<lambda>_. SOut) (1, (\<lambda>_. SOut)(0 := SXchg, 0 := SIn))
    \<and> (\<exists>t<(2 :: nat). ((\<lambda>_. SOut)(0 := SXchg, 0 := SIn)) t = SIn)"
proof -
  have "run spin_exec 2 (0, \<lambda>_. SOut) (0, (\<lambda>_. SOut)(0 := SXchg))"
    by (rule run_step[OF run_start]) (simp_all add: spin_exec_def)
  then have r: "run spin_exec 2 (0, \<lambda>_. SOut) (1, (\<lambda>_. SOut)(0 := SXchg, 0 := SIn))"
    by (rule run_step) (simp_all add: spin_exec_def atomic_xchg_def)
  have "(1 :: atomic) \<noteq> 0" by simp
  then show ?thesis using spinlock_mutual_exclusion[OF r] r by blast
qed

text \<open>C18: Read-write lock. In every run, while a writer is inside no other thread is, neither
  writer nor reader; and while no writer is inside the lock word counts the readers.\<close>

theorem rwlock_exclusion:
  assumes "run rw_exec n (0, \<lambda>_. RWOut) (l, pc)"
  shows "(\<forall>t<n. pc t = WIn \<longrightarrow> (\<forall>u<n. u \<noteq> t \<longrightarrow> pc u \<noteq> WIn \<and> pc u \<noteq> RIn))
    \<and> ((\<forall>t<n. pc t \<noteq> WIn) \<longrightarrow> unat l = card {t. t < n \<and> pc t = RIn})"
proof
  show "\<forall>t<n. pc t = WIn \<longrightarrow> (\<forall>u<n. u \<noteq> t \<longrightarrow> pc u \<noteq> WIn \<and> pc u \<noteq> RIn)"
    using rw.run_excl[OF assms] unfolding rw_conflict_def by blast
  show "(\<forall>t<n. pc t \<noteq> WIn) \<longrightarrow> unat l = card {t. t < n \<and> pc t = RIn}"
    using rw.run_inv[OF assms] unfolding rw_inv_def fst_conv snd_conv by metis
qed

theorem rwlock_exclusion_witness:
  "run rw_exec 2 (0, \<lambda>_. RWOut) (RWLOCK_WRITER_MASK, (\<lambda>_. RWOut)(1 := WIn))
    \<and> ((\<lambda>_. RWOut)(1 := WIn)) (0 :: nat) \<noteq> WIn \<and> ((\<lambda>_. RWOut)(1 := WIn)) (0 :: nat) \<noteq> RIn"
proof -
  have r: "run rw_exec 2 (0, \<lambda>_. RWOut) (RWLOCK_WRITER_MASK, (\<lambda>_. RWOut)(1 := WIn))"
    by (rule run_step[OF run_start]) (simp_all add: rw_exec_def rwlock_write_trylock_def atomic_cmpxchg_def)
  have "((\<lambda>_. RWOut)(1 := WIn)) (1 :: nat) = WIn" "(1 :: nat) < 2" "(0 :: nat) < 2" "(0 :: nat) \<noteq> 1" by simp_all
  then show ?thesis using rwlock_exclusion[OF r] r by blast
qed

text \<open>C19: Ticket lock. With fewer than \<open>2 ^ 32\<close> threads that lock, try-lock and unlock, every
  reachable state represents a queue of threads, at most one thread is inside, every step of a
  thread is a step of the abstract first-come-first-served lock (join at the back, stay, leave from
  the front), and a thread is inside only as the first of the queue; ticket numbers may wrap around.
  The runs are those in which no try-lock is overtaken by \<open>2 ^ 32\<close> tickets between its accesses:
  its remaining accesses come before \<open>2 ^ 32\<close> tickets have been issued beyond those served when it began.\<close>

theorem ticket_lock_fifo:
  assumes "n < 2 ^ 32"
    and "run ticket_exec_timely n ((\<lparr>next_ticket = 0, serving_ticket = 0\<rparr>, 0, 0), \<lambda>_. (TOut, 0)) ((l, issued, served), pc)"
  shows "(\<forall>t<n. \<forall>u<n. inside (fst (pc t)) \<and> inside (fst (pc u)) \<longrightarrow> t = u)
    \<and> (\<exists>q. ticket_abs n l (fst \<circ> pc) q \<and> (\<forall>t<n. \<forall>((l', counts), (p', seen))\<in>set (ticket_exec_timely (l, issued, served) (pc t)).
      \<exists>q'. ticket_abs n l' ((fst \<circ> pc)(t := p')) q' \<and> fifo_step t q q' \<and> (inside p' \<longrightarrow> q' \<noteq> [] \<and> hd q' = t)))"
proof
  show "\<forall>t<n. \<forall>u<n. inside (fst (pc t)) \<and> inside (fst (pc u)) \<longrightarrow> t = u"
    using tk.run_excl[OF assms(2)] assms(1) by blast
  obtain q where q: "ticket_inv n (l, issued, served) pc q" using tk.run_inv[OF assms(2)] assms(1) by auto
  then have "ticket_abs n l (fst \<circ> pc) q" by (simp add: ticket_inv_def)
  moreover have "\<exists>q'. ticket_abs n l' ((fst \<circ> pc)(t := p')) q' \<and> fifo_step t q q' \<and> (inside p' \<longrightarrow> q' \<noteq> [] \<and> hd q' = t)"
    if "t < n" "((l', i', s'), p', seen) \<in> set (ticket_exec_timely (l, issued, served) (pc t))" for t l' i' s' p' seen
    using ticket_inv_step[OF q assms(1) that] unfolding queue_step_def by blast
  ultimately show "\<exists>q. ticket_abs n l (fst \<circ> pc) q \<and> (\<forall>t<n. \<forall>((l', counts), (p', seen))\<in>set (ticket_exec_timely (l, issued, served) (pc t)).
      \<exists>q'. ticket_abs n l' ((fst \<circ> pc)(t := p')) q' \<and> fifo_step t q q' \<and> (inside p' \<longrightarrow> q' \<noteq> [] \<and> hd q' = t))"
    by (intro exI[of _ q]) fastforce
qed

theorem ticket_lock_fifo_witness:
  "\<exists>q. ticket_abs 2 \<lparr>next_ticket = 1, serving_ticket = 0\<rparr>
     (fst \<circ> (\<lambda>_. (TOut, 0 :: nat))(1 := (TTryNext 0, 0), 1 := (TTryCas 0, 0), 1 := (TIn 0, 0))) q"
proof -
  let ?w = "(\<lparr>next_ticket = 0, serving_ticket = 0\<rparr>, 0 :: nat, 0 :: nat)"
  have "run ticket_exec_timely 2 (?w, \<lambda>_. (TOut, 0)) (?w, (\<lambda>_. (TOut, 0))(1 := (TTryNext 0, 0)))"
    by (rule run_step[OF run_start]) (simp_all add: ticket_exec_def ticket_take_def add_return_value atomic_read_def)
  then have "run ticket_exec_timely 2 (?w, \<lambda>_. (TOut, 0)) (?w, (\<lambda>_. (TOut, 0))(1 := (TTryNext 0, 0), 1 := (TTryCas 0, 0)))"
    by (rule run_step) (simp_all add: ticket_exec_def atomic_read_def)
  then have r: "run ticket_exec_timely 2 (?w, \<lambda>_. (TOut, 0)) ((\<lparr>next_ticket = 1, serving_ticket = 0\<rparr>, 1, 0),
      (\<lambda>_. (TOut, 0))(1 := (TTryNext 0, 0), 1 := (TTryCas 0, 0), 1 := (TIn 0, 0)))"
    by (rule run_step) (simp_all add: ticket_exec_def atomic_cmpxchg_def)
  have "(2 :: nat) < 2 ^ 32" by simp
  from ticket_lock_fifo[OF this r] show ?thesis by blast
qed

text \<open>The try-lock overtaken by \<open>2 ^ 32\<close> tickets: its compare-and-swap succeeds whatever is being served.\<close>

lemma ticket_trylock_overtaken:
  "ticket_spinlockrylock_step \<lparr>next_ticket = v, serving_ticket = w\<rparr> (TTryCas v)
     = (\<lparr>next_ticket = v + 1, serving_ticket = w\<rparr>, TIn v)"
  by (simp add: atomic_cmpxchg_def)

text \<open>C20: \<^verbatim>\<open>acquire_locks_ordered\<close>. Threads that each take two different locks through it never
  deadlock: in every reachable state with a busy thread, some busy thread is not waiting for a
  held lock.\<close>

theorem acquire_locks_ordered_no_deadlock:
  assumes "\<forall>(a, b)\<in>set pairs. a \<noteq> b" "run (pair_exec pairs) n (\<lambda>_. 0, \<lambda>_. PIdle) (lk, pc)" "\<exists>t<n. pc t \<noteq> PIdle"
  shows "\<exists>t<n. pc t \<noteq> PIdle \<and> (\<forall>a. waits (pc t) = Some a \<longrightarrow> lk a = 0)"
  using pr.run_inv[OF assms(2)] assms(1,3) pair_not_stuck by simp

theorem acquire_locks_ordered_no_deadlock_witness:
  "run (pair_exec [(8, 4)]) 2 (\<lambda>_. 0, \<lambda>_. PIdle) (\<lambda>_. 0, (\<lambda>_. PIdle)(0 := PFirst 4 8 SXchg))
    \<and> (\<exists>t<(2 :: nat). ((\<lambda>_. PIdle)(0 := PFirst 4 8 SXchg)) t \<noteq> PIdle)"
proof -
  have r: "run (pair_exec [(8, 4)]) 2 (\<lambda>_. 0, \<lambda>_. PIdle) (\<lambda>_. 0, (\<lambda>_. PIdle)(0 := PFirst 4 8 SXchg))"
    by (rule run_step[OF run_start]) (simp_all add: pair_exec_def lock_order_def)
  have "\<exists>t<(2 :: nat). ((\<lambda>_. PIdle)(0 := PFirst 4 8 SXchg)) t \<noteq> PIdle" by (intro exI[of _ 0]) simp
  from acquire_locks_ordered_no_deadlock[OF _ r this] r show ?thesis by (auto simp del: fun_upd_apply)
qed

end
