(* ===== verification/DList.thy ===== *)
theory DList
  imports Prelude
begin

text \<open>
  The intrusive circular doubly linked lists of \<^verbatim>\<open>kernel/include/ds/lists.h\<close>. A node is an
  address with a \<^verbatim>\<open>next\<close> and a \<^verbatim>\<open>prev\<close> field; a list is named by its head node, which is not an
  element. \<open>dlist h head xs\<close> says that following the links both ways around from the head visits
  exactly the nodes \<open>xs\<close>; every operation is shown to refine the corresponding operation on
  \<open>xs\<close>. The locale \<open>deque\<close> is the interface the task lists and run queues use.
\<close>

section \<open>Nodes and operations\<close>

record list_heap =
  ln_next :: "u64 \<Rightarrow> u64"
  ln_prev :: "u64 \<Rightarrow> u64"

definition set_next :: "'a list_heap_scheme \<Rightarrow> u64 \<Rightarrow> u64 \<Rightarrow> 'a list_heap_scheme" where
  "set_next h p v = h\<lparr>ln_next := (ln_next h)(p := v)\<rparr>"

definition set_prev :: "'a list_heap_scheme \<Rightarrow> u64 \<Rightarrow> u64 \<Rightarrow> 'a list_heap_scheme" where
  "set_prev h p v = h\<lparr>ln_prev := (ln_prev h)(p := v)\<rparr>"

definition list_init :: "'a list_heap_scheme \<Rightarrow> u64 \<Rightarrow> 'a list_heap_scheme" where
  "list_init h lst = set_prev (set_next h lst lst) lst lst"

definition list_add :: "'a list_heap_scheme \<Rightarrow> u64 \<Rightarrow> u64 \<Rightarrow> u64 \<Rightarrow> 'a list_heap_scheme" where
  "list_add h new_node prv nxt =
     (let h = set_prev h nxt new_node;
          h = set_next h new_node nxt;
          h = set_prev h new_node prv
      in set_next h prv new_node)"

definition list_add_head :: "'a list_heap_scheme \<Rightarrow> u64 \<Rightarrow> u64 \<Rightarrow> 'a list_heap_scheme" where
  "list_add_head h new_node head = list_add h new_node head (ln_next h head)"

definition list_add_tail :: "'a list_heap_scheme \<Rightarrow> u64 \<Rightarrow> u64 \<Rightarrow> 'a list_heap_scheme" where
  "list_add_tail h new_node head = list_add h new_node (ln_prev h head) head"

definition list_del :: "'a list_heap_scheme \<Rightarrow> u64 \<Rightarrow> 'a list_heap_scheme" where
  "list_del h entry =
     (let h = set_next h (ln_prev h entry) (ln_next h entry);
          h = set_prev h (ln_next h entry) (ln_prev h entry);
          h = set_next h entry entry
      in set_prev h entry entry)"

definition list_replace :: "'a list_heap_scheme \<Rightarrow> u64 \<Rightarrow> u64 \<Rightarrow> 'a list_heap_scheme" where
  "list_replace h old new_node =
     (let h = set_next h new_node (ln_next h old);
          h = set_prev h (ln_next h new_node) new_node;
          h = set_prev h new_node (ln_prev h old)
      in set_next h (ln_prev h new_node) new_node)"

definition list_empty :: "'a list_heap_scheme \<Rightarrow> u64 \<Rightarrow> bool" where
  "list_empty h head \<longleftrightarrow> ln_next h head = head"

section \<open>Abstraction to lists\<close>

fun chain :: "'a list_heap_scheme \<Rightarrow> u64 \<Rightarrow> u64 list \<Rightarrow> u64 \<Rightarrow> bool" where
  "chain h a [] b \<longleftrightarrow> ln_next h a = b \<and> ln_prev h b = a"
| "chain h a (x # xs) b \<longleftrightarrow> ln_next h a = x \<and> ln_prev h x = a \<and> chain h x xs b"

definition dlist :: "'a list_heap_scheme \<Rightarrow> u64 \<Rightarrow> u64 list \<Rightarrow> bool" where
  "dlist h head xs \<longleftrightarrow> distinct (head # xs) \<and> chain h head xs head"

lemma set_simps [simp]:
  "ln_next (set_next h p v) q = (if q = p then v else ln_next h q)"
  "ln_prev (set_next h p v) = ln_prev h"
  "ln_prev (set_prev h p v) q = (if q = p then v else ln_prev h q)"
  "ln_next (set_prev h p v) = ln_next h"
  by (simp_all add: set_next_def set_prev_def)

lemma chain_append: "chain h a (xs @ y # ys) b \<longleftrightarrow> chain h a xs y \<and> chain h y ys b"
  by (induction xs arbitrary: a) auto

lemma chain_first: "chain h a xs b \<Longrightarrow> ln_next h a = hd (xs @ [b])"
  by (cases xs) auto

lemma chain_last: "chain h a xs b \<Longrightarrow> ln_prev h b = last (a # xs)"
  by (induction xs arbitrary: a) auto

lemma chain_cong:
  "chain h a xs b \<Longrightarrow> (\<And>q. q = a \<or> q \<in> set xs \<Longrightarrow> ln_next h' q = ln_next h q)
    \<Longrightarrow> (\<And>q. q = b \<or> q \<in> set xs \<Longrightarrow> ln_prev h' q = ln_prev h q) \<Longrightarrow> chain h' a xs b"
  by (induction xs arbitrary: a) auto

lemma dlist_frame:
  "dlist h head xs \<Longrightarrow> (\<And>q. q \<in> set (head # xs) \<Longrightarrow> ln_next h' q = ln_next h q \<and> ln_prev h' q = ln_prev h q)
    \<Longrightarrow> dlist h' head xs"
  unfolding dlist_def by (auto elim: chain_cong)

lemma dlist_init: "dlist (list_init h head) head []"
  by (simp add: dlist_def list_init_def)

lemma dlist_empty_iff: "dlist h head xs \<Longrightarrow> list_empty h head \<longleftrightarrow> xs = []"
  by (cases xs) (auto simp: dlist_def list_empty_def)

lemma dlist_unique: "dlist h head xs \<Longrightarrow> dlist h head ys \<Longrightarrow> xs = ys"
proof -
  have "chain h a xs head \<Longrightarrow> chain h a ys head \<Longrightarrow> head \<notin> set xs \<Longrightarrow> head \<notin> set ys \<Longrightarrow> xs = ys" for a
  proof (induction xs arbitrary: a ys)
    case Nil
    then show ?case by (cases ys) auto
  next
    case (Cons x xs)
    then show ?case by (cases ys) auto
  qed
  then show "dlist h head xs \<Longrightarrow> dlist h head ys \<Longrightarrow> xs = ys" by (auto simp: dlist_def)
qed

section \<open>The operations refine lists\<close>

text \<open>Insertion between neighbours \<open>p\<close> and \<open>q\<close> of a chain that runs from \<open>head\<close> back to \<open>head\<close>.\<close>

lemma list_add_at:
  "ln_next (list_add h n p q) x = (if x = p then n else if x = n then q else ln_next h x)"
  "ln_prev (list_add h n p q) x = (if x = n then p else if x = q then n else ln_prev h x)"
  by (simp_all add: list_add_def Let_def)

lemma dlist_add_head:
  assumes d: "dlist h head xs" and n: "n \<notin> set (head # xs)"
  shows "dlist (list_add_head h n head) head (n # xs)"
proof (cases xs)
  case Nil
  then show ?thesis using assms by (auto simp: dlist_def list_add_head_def list_add_at)
next
  case (Cons x ys)
  then have "chain h x ys head" "ln_next h head = x" using d by (auto simp: dlist_def)
  moreover have "chain (list_add h n head x) x ys head"
    using \<open>chain h x ys head\<close> by (rule chain_cong) (use d n Cons in \<open>auto simp: list_add_at dlist_def\<close>)
  ultimately show ?thesis using d n Cons by (auto simp: dlist_def list_add_head_def list_add_at)
qed

lemma dlist_add_tail:
  assumes d: "dlist h head xs" and n: "n \<notin> set (head # xs)"
  shows "dlist (list_add_tail h n head) head (xs @ [n])"
proof (cases xs rule: rev_cases)
  case Nil
  then show ?thesis using assms by (auto simp: dlist_def list_add_tail_def list_add_at)
next
  case (snoc ys y)
  then have c: "chain h head ys y" "ln_prev h head = y" using d by (auto simp: dlist_def chain_append)
  then have "chain (list_add h n y head) head ys y"
    by (elim chain_cong) (use d n snoc in \<open>auto simp: list_add_at dlist_def\<close>)
  then show ?thesis using d n snoc c by (auto simp: dlist_def list_add_tail_def list_add_at chain_append)
qed

lemma list_del_at:
  assumes "ln_prev h e \<noteq> e" "ln_next h e \<noteq> e"
  shows "ln_next (list_del h e) x = (if x = e then e else if x = ln_prev h e then ln_next h e else ln_next h x)"
    and "ln_prev (list_del h e) x = (if x = e then e else if x = ln_next h e then ln_prev h e else ln_prev h x)"
  using assms by (auto simp: list_del_def Let_def)

lemma chain_relink:
  assumes "chain h a xs e" "chain h e ys b" "distinct (a # xs)" "distinct ys" "b \<notin> set xs \<union> set ys"
    and "set (a # xs) \<inter> set ys = {}"
    and "ln_next h' (last (a # xs)) = hd (ys @ [b])" "ln_prev h' (hd (ys @ [b])) = last (a # xs)"
    and "\<And>x. x \<in> set (a # xs) \<union> set ys \<Longrightarrow> x \<noteq> last (a # xs) \<Longrightarrow> ln_next h' x = ln_next h x"
    and "\<And>x. x \<in> set xs \<union> set (ys @ [b]) \<Longrightarrow> x \<noteq> hd (ys @ [b]) \<Longrightarrow> ln_prev h' x = ln_prev h x"
  shows "chain h' a (xs @ ys) b"
  using assms
proof (induction xs arbitrary: a)
  case Nil
  show ?case
  proof (cases ys)
    case Nil
    then show ?thesis using Nil.prems(7,8) by simp
  next
    case (Cons y vs)
    have "chain h y vs b" using Nil.prems(2) Cons by simp
    then have "chain h' y vs b"
      by (rule chain_cong) (use Nil.prems(4,5,6) Cons in \<open>auto intro!: Nil.prems(9,10)\<close>)
    then show ?thesis using Nil.prems(7,8) Cons by simp
  qed
next
  case (Cons x xs)
  have "x \<noteq> hd (ys @ [b])" using Cons.prems(5,6) by (cases ys) auto
  then have "ln_prev h' x = a" using Cons.prems(1) Cons.prems(10)[of x] by simp
  moreover have "a \<noteq> last (a # x # xs)" using Cons.prems(3) last_in_set[of "x # xs"] by (metis distinct.simps(2) last.simps list.distinct(1))
  then have "ln_next h' a = x" using Cons.prems(1) Cons.prems(9)[of a] by simp
  moreover have "chain h' x (xs @ ys) b"
    using Cons.prems by (intro Cons.IH) (auto split: if_splits)
  ultimately show ?case by simp
qed

lemma dlist_del:
  assumes d: "dlist h head (xs @ e # ys)"
  shows "dlist (list_del h e) head (xs @ ys)"
proof -
  have dist: "distinct (head # xs @ e # ys)" and c: "chain h head xs e" "chain h e ys head"
    using d by (auto simp: dlist_def chain_append)
  have p: "ln_prev h e = last (head # xs)" and q: "ln_next h e = hd (ys @ [head])"
    using c chain_last chain_first by blast+
  have p_in: "last (head # xs) \<in> set (head # xs)" and q_in: "hd (ys @ [head]) \<in> set (ys @ [head])"
    by (rule last_in_set hd_in_set; simp)+
  then have ne: "ln_prev h e \<noteq> e" "ln_next h e \<noteq> e" unfolding p q using dist by auto
  note at = list_del_at[OF ne]
  have "chain (list_del h e) head (xs @ ys) head"
    using c
  proof (rule chain_relink)
    show "ln_next (list_del h e) (last (head # xs)) = hd (ys @ [head])"
      and "ln_prev (list_del h e) (hd (ys @ [head])) = last (head # xs)"
      using ne unfolding at p q by simp_all
    fix x
    show "x \<in> set (head # xs) \<union> set ys \<Longrightarrow> x \<noteq> last (head # xs) \<Longrightarrow> ln_next (list_del h e) x = ln_next h x"
      and "x \<in> set xs \<union> set (ys @ [head]) \<Longrightarrow> x \<noteq> hd (ys @ [head]) \<Longrightarrow> ln_prev (list_del h e) x = ln_prev h x"
      using dist unfolding at p q by auto
  qed (use dist in auto)
  then show ?thesis using dist by (auto simp: dlist_def)
qed

lemma list_del_self: "ln_next (list_del h e) e = e" "ln_prev (list_del h e) e = e"
  by (simp_all add: list_del_def Let_def)

lemma list_del_other:
  assumes d: "dlist h head (xs @ e # ys)" and z: "z \<notin> set (head # xs @ e # ys)"
  shows "ln_next (list_del h e) z = ln_next h z" "ln_prev (list_del h e) z = ln_prev h z"
proof -
  have c: "chain h head xs e" "chain h e ys head" using d by (auto simp: dlist_def chain_append)
  have "last (head # xs) \<in> set (head # xs)" "hd (ys @ [head]) \<in> set (ys @ [head])"
    by (rule last_in_set hd_in_set; simp)+
  then have "ln_prev h e \<noteq> z" "ln_next h e \<noteq> z" "e \<noteq> z"
    using chain_last[OF c(1)] chain_first[OF c(2)] z by auto
  then show "ln_next (list_del h e) z = ln_next h z" "ln_prev (list_del h e) z = ln_prev h z"
    by (auto simp: list_del_def Let_def)
qed

lemma chain_retarget_end:
  assumes "chain h a xs e" "distinct (a # xs)" "ln_next h' (last (a # xs)) = n" "ln_prev h' n = last (a # xs)"
    and "\<And>x. x \<in> set (a # xs) \<Longrightarrow> x \<noteq> last (a # xs) \<Longrightarrow> ln_next h' x = ln_next h x"
    and "\<And>x. x \<in> set xs \<Longrightarrow> ln_prev h' x = ln_prev h x"
  shows "chain h' a xs n"
  using assms
proof (induction xs arbitrary: a)
  case (Cons x xs)
  have "a \<noteq> last (a # x # xs)" using Cons.prems(2) last_in_set[of "x # xs"] by (metis distinct.simps(2) last.simps list.distinct(1))
  then have "ln_next h' a = x" using Cons.prems(1) Cons.prems(5)[of a] by simp
  moreover have "chain h' x xs n" using Cons.prems by (intro Cons.IH) (auto split: if_splits)
  ultimately show ?case using Cons.prems(1) Cons.prems(6)[of x] by simp
qed simp

lemma chain_retarget_start:
  assumes "chain h e ys b" "distinct (ys @ [b])" "ln_next h' n = hd (ys @ [b])" "ln_prev h' (hd (ys @ [b])) = n"
    and "\<And>x. x \<in> set ys \<Longrightarrow> ln_next h' x = ln_next h x"
    and "\<And>x. x \<in> set (ys @ [b]) \<Longrightarrow> x \<noteq> hd (ys @ [b]) \<Longrightarrow> ln_prev h' x = ln_prev h x"
  shows "chain h' n ys b"
proof (cases ys)
  case (Cons y vs)
  then have "chain h y vs b" using assms(1) by simp
  then have "chain h' y vs b" by (rule chain_cong) (use assms(2) Cons in \<open>auto intro!: assms(5,6)\<close>)
  then show ?thesis using assms(3,4) Cons by simp
qed (use assms(3,4) in simp)

lemma dlist_replace:
  assumes d: "dlist h head (xs @ e # ys)" and n: "n \<notin> set (head # xs @ e # ys)"
  shows "dlist (list_replace h e n) head (xs @ n # ys)"
proof -
  let ?h = "list_replace h e n"
  have dist: "distinct (head # xs @ e # ys)" and c: "chain h head xs e" "chain h e ys head"
    using d by (auto simp: dlist_def chain_append)
  have p: "ln_prev h e = last (head # xs)" and q: "ln_next h e = hd (ys @ [head])"
    using c chain_last chain_first by blast+
  have p_in: "last (head # xs) \<in> set (head # xs)" and q_in: "hd (ys @ [head]) \<in> set (ys @ [head])"
    by (rule last_in_set hd_in_set; simp)+
  then have ne: "ln_prev h e \<noteq> e" "ln_next h e \<noteq> e" "ln_prev h e \<noteq> n" "ln_next h e \<noteq> n" "e \<noteq> n"
    unfolding p q using dist n by auto
  have at: "ln_next ?h x = (if x = ln_prev h e then n else if x = n then ln_next h e else ln_next h x)"
    "ln_prev ?h x = (if x = n then ln_prev h e else if x = ln_next h e then n else ln_prev h x)" for x
    using ne by (auto simp: list_replace_def Let_def)
  have pys: "xs \<noteq> [] \<Longrightarrow> last xs \<notin> set ys" using dist by (auto dest: last_in_set)
  have "chain ?h head xs n"
    using c(1) by (rule chain_retarget_end) (use dist n q_in ne in \<open>auto simp: at p q split: if_splits\<close>)
  moreover have "chain ?h n ys head"
    using c(2) by (rule chain_retarget_start) (use dist n p_in pys ne in \<open>auto simp: at p q split: if_splits\<close>)
  ultimately show ?thesis using dist n by (auto simp: dlist_def chain_append)
qed

section \<open>The interface of a queue of nodes\<close>

locale deque =
  fixes repr :: "'h \<Rightarrow> u64 \<Rightarrow> u64 list \<Rightarrow> bool"
    and push_back :: "'h \<Rightarrow> u64 \<Rightarrow> u64 \<Rightarrow> 'h"
    and remove :: "'h \<Rightarrow> u64 \<Rightarrow> 'h"
    and is_empty :: "'h \<Rightarrow> u64 \<Rightarrow> bool"
    and front :: "'h \<Rightarrow> u64 \<Rightarrow> u64"
  assumes repr_distinct: "repr h q xs \<Longrightarrow> distinct (q # xs)"
    and repr_push_back: "repr h q xs \<Longrightarrow> n \<notin> set (q # xs) \<Longrightarrow> repr (push_back h n q) q (xs @ [n])"
    and repr_remove: "repr h q (xs @ e # ys) \<Longrightarrow> repr (remove h e) q (xs @ ys)"
    and repr_empty: "repr h q xs \<Longrightarrow> is_empty h q \<longleftrightarrow> xs = []"
    and repr_front: "repr h q (x # xs) \<Longrightarrow> front h q = x"
begin

lemma repr_remove_member: "repr h q xs \<Longrightarrow> e \<in> set xs \<Longrightarrow> repr (remove h e) q (remove1 e xs)"
proof -
  assume r: "repr h q xs" and "e \<in> set xs"
  then obtain us vs where xs: "xs = us @ e # vs" "e \<notin> set us" by (metis split_list_first)
  then show ?thesis using repr_remove[of h q us e vs] r by (simp add: remove1_append)
qed

lemma repr_pop_front: "repr h q (x # xs) \<Longrightarrow> repr (remove h (front h q)) q xs"
  using repr_remove[of h q "[]" x xs] by (simp add: repr_front)

text \<open>Removing the front element and adding it at the back rotates the queue.\<close>

definition requeue :: "'h \<Rightarrow> u64 \<Rightarrow> 'h" where
  "requeue h q = (let x = front h q in push_back (remove h x) x q)"

lemma repr_requeue: "repr h q (x # xs) \<Longrightarrow> repr (requeue h q) q (xs @ [x])"
  using repr_pop_front[of h q x xs] repr_distinct[of h q "x # xs"] repr_push_back[of "remove h x" q xs x]
  by (auto simp: requeue_def repr_front)

lemma repr_requeue_pow: "repr h q xs \<Longrightarrow> xs \<noteq> [] \<Longrightarrow> repr (((\<lambda>h. requeue h q) ^^ k) h) q (rotate k xs)"
proof (induction k)
  case (Suc k)
  then obtain y ys where "rotate k xs = y # ys" by (cases "rotate k xs") auto
  then show ?case using Suc repr_requeue[of "((\<lambda>h. requeue h q) ^^ k) h" q y ys] by simp
qed simp

text \<open>Every element of the queue comes to the front within as many turns as the queue is long.\<close>

lemma requeue_fair:
  assumes "repr h q xs" "e \<in> set xs"
  shows "\<exists>k<length xs. front (((\<lambda>h. requeue h q) ^^ k) h) q = e"
proof -
  obtain k where k: "k < length xs" "xs ! k = e" using assms(2) by (auto simp: in_set_conv_nth)
  then have "rotate k xs = drop k xs @ take k xs" by (simp add: rotate_drop_take)
  then have "rotate k xs = e # (drop (Suc k) xs @ take k xs)" using k by (simp add: Cons_nth_drop_Suc[symmetric])
  then have "front (((\<lambda>h. requeue h q) ^^ k) h) q = e"
    using repr_requeue_pow[OF assms(1), of k] assms(2) repr_front by fastforce
  then show ?thesis using k(1) by blast
qed

end

interpretation dq: deque dlist list_add_tail list_del list_empty "\<lambda>h q. ln_next h q"
  by unfold_locales (auto simp: dlist_add_tail dlist_del dlist_empty_iff, auto simp: dlist_def)

text \<open>C16: The list operations refine operations on sequences of nodes. Initialising a head gives the
  empty list. Adding a node at the head or the tail of any well-linked circular list, the empty
  one included, adds it at that end of the sequence. Deleting or replacing any element \<open>e\<close> removes or
  replaces it in its place and leaves the rest of the sequence; the deleted node is left pointing to
  itself. The emptiness test is exact, before and after each of these.\<close>

theorem list_operations_refine:
  assumes d: "dlist h head zs" and n: "n \<notin> set (head # zs)"
  shows "dlist (list_init h head) head []
    \<and> dlist (list_add_head h n head) head (n # zs) \<and> dlist (list_add_tail h n head) head (zs @ [n])
    \<and> (\<forall>xs e ys. zs = xs @ e # ys \<longrightarrow>
         dlist (list_replace h e n) head (xs @ n # ys) \<and> dlist (list_del h e) head (xs @ ys)
         \<and> ln_next (list_del h e) e = e \<and> ln_prev (list_del h e) e = e
         \<and> (list_empty (list_del h e) head \<longleftrightarrow> xs = [] \<and> ys = []))
    \<and> (list_empty h head \<longleftrightarrow> zs = []) \<and> list_empty (list_init h head) head
    \<and> \<not> list_empty (list_add_head h n head) head \<and> \<not> list_empty (list_add_tail h n head) head"
proof -
  have del: "dlist (list_replace h e n) head (xs @ n # ys) \<and> dlist (list_del h e) head (xs @ ys)
      \<and> (list_empty (list_del h e) head \<longleftrightarrow> xs = [] \<and> ys = [])" if "zs = xs @ e # ys" for xs e ys
    using dlist_replace[of h head xs e ys n] dlist_del[of h head xs e ys] dlist_empty_iff d n that by fastforce
  note ops = dlist_init[of h head] dlist_add_head[OF d n] dlist_add_tail[OF d n]
  note empty = ops[THEN dlist_empty_iff] dlist_empty_iff[OF d]
  show ?thesis using del ops empty list_del_self[of h] by blast
qed

definition empty_links :: list_heap where
  "empty_links = \<lparr>ln_next = (\<lambda>_. 0), ln_prev = (\<lambda>_. 0)\<rparr>"

theorem list_operations_refine_witness:
  "dlist (list_add_tail (list_init empty_links 1) 2 1) 1 [2]
    \<and> dlist (list_replace (list_add_tail (list_init empty_links 1) 2 1) 2 3) 1 [3]
    \<and> list_empty (list_del (list_add_tail (list_init empty_links 1) 2 1) 2) 1"
proof -
  let ?h = "list_init empty_links 1"
  have "dlist ?h 1 []" by (rule dlist_init)
  then have d: "dlist (list_add_tail ?h 2 1) 1 [2]"
    using list_operations_refine[of ?h 1 "[]" 2] by simp
  have "\<forall>xs e ys. [2] = xs @ e # ys \<longrightarrow> dlist (list_replace (list_add_tail ?h 2 1) e 3) 1 (xs @ 3 # ys)
      \<and> (list_empty (list_del (list_add_tail ?h 2 1) e) 1 \<longleftrightarrow> xs = [] \<and> ys = [])"
    using list_operations_refine[OF d, of 3] by simp
  from this[rule_format, of "[]" 2 "[]"] show ?thesis using d by simp
qed

end
