(* ===== verification/Memory.thy ===== *)
theory Memory
  imports Prelude
begin

text \<open>
  The byte-addressed memory all kernel structures live in. Pointers are 64-bit virtual
  addresses; a struct field is a load or a store at the field's offset, little-endian as on
  x86-64. Every allocator structure (free blocks, slabs, page tables, allocation headers) is read
  and written through these operations, so that two structures can only be kept apart by the
  addresses they occupy. The locale \<open>cell_memory\<close> states the laws the components use.
\<close>

type_synonym memory = "u64 \<Rightarrow> u8"

definition load8 :: "memory \<Rightarrow> u64 \<Rightarrow> u8" where
  "load8 m a = m a"

definition store8 :: "memory \<Rightarrow> u64 \<Rightarrow> u8 \<Rightarrow> memory" where
  "store8 m a v = m(a := v)"

definition load32 :: "memory \<Rightarrow> u64 \<Rightarrow> u32" where
  "load32 m a = word_rcat (map (\<lambda>i. m (a + i)) [3, 2, 1, 0])"

definition store32 :: "memory \<Rightarrow> u64 \<Rightarrow> u32 \<Rightarrow> memory" where
  "store32 m a v = (\<lambda>x. if x - a < 4 then ucast (drop_bit (8 * unat (x - a)) v) else m x)"

definition load64 :: "memory \<Rightarrow> u64 \<Rightarrow> u64" where
  "load64 m a = word_rcat (map (\<lambda>i. m (a + i)) [7, 6, 5, 4, 3, 2, 1, 0])"

definition store64 :: "memory \<Rightarrow> u64 \<Rightarrow> u64 \<Rightarrow> memory" where
  "store64 m a v = (\<lambda>x. if x - a < 8 then ucast (drop_bit (8 * unat (x - a)) v) else m x)"

text \<open>Byte ranges that share no byte (with wrap-around at the top of the address space).\<close>

definition disj_range :: "u64 \<Rightarrow> u64 \<Rightarrow> u64 \<Rightarrow> u64 \<Rightarrow> bool" where
  "disj_range a n b k \<longleftrightarrow> n \<le> b - a \<and> k \<le> a - b"

section \<open>Bits of a load\<close>

lemma bit_rcat_bytes:
  "bit (word_rcat (rev (ws :: u8 list)) :: 'a::len word) n
    \<longleftrightarrow> n < LENGTH('a) \<and> n div 8 < length ws \<and> bit (ws ! (n div 8)) (n mod 8)"
  using bit_horner_sum_uint_exp_iff[of ws n]
  by (auto simp add: word_rcat_def bit_word_of_int_iff)

lemma nth_bytes8: "j < 8 \<Longrightarrow> [0, 1, 2, 3, 4, 5, 6, 7 :: u64] ! j = of_nat j"
  by (auto simp: less_Suc_eq numeral_eq_Suc)

lemma nth_bytes4: "j < 4 \<Longrightarrow> [0, 1, 2, 3 :: u64] ! j = of_nat j"
  by (auto simp: less_Suc_eq numeral_eq_Suc)

lemma bit_load64:
  "bit (load64 m a) n \<longleftrightarrow> n < 64 \<and> bit (m (a + of_nat (n div 8))) (n mod 8)"
proof -
  have "load64 m a = word_rcat (rev (map (\<lambda>i. m (a + i)) [0, 1, 2, 3, 4, 5, 6, 7]))"
    by (simp add: load64_def)
  then have "bit (load64 m a) n \<longleftrightarrow> n < 64 \<and> n div 8 < length [0, 1, 2, 3, 4, 5, 6, 7 :: u64]
      \<and> bit (map (\<lambda>i. m (a + i)) [0, 1, 2, 3, 4, 5, 6, 7] ! (n div 8)) (n mod 8)"
    by (simp only: bit_rcat_bytes length_map list.size) simp
  moreover have "n < 64 \<longleftrightarrow> n div 8 < length [0, 1, 2, 3, 4, 5, 6, 7 :: u64]" by auto
  moreover have "n div 8 < length [0, 1, 2, 3, 4, 5, 6, 7 :: u64] \<Longrightarrow>
      map (\<lambda>i. m (a + i)) [0, 1, 2, 3, 4, 5, 6, 7] ! (n div 8) = m (a + of_nat (n div 8))"
    by (subst nth_map) (assumption, subst nth_bytes8, simp_all)
  ultimately show ?thesis by (metis (no_types))
qed

lemma bit_load32:
  "bit (load32 m a) n \<longleftrightarrow> n < 32 \<and> bit (m (a + of_nat (n div 8))) (n mod 8)"
proof -
  have "load32 m a = word_rcat (rev (map (\<lambda>i. m (a + i)) [0, 1, 2, 3]))"
    by (simp add: load32_def)
  then have "bit (load32 m a) n \<longleftrightarrow> n < 32 \<and> n div 8 < length [0, 1, 2, 3 :: u64]
      \<and> bit (map (\<lambda>i. m (a + i)) [0, 1, 2, 3] ! (n div 8)) (n mod 8)"
    by (simp only: bit_rcat_bytes length_map list.size) simp
  moreover have "n < 32 \<longleftrightarrow> n div 8 < length [0, 1, 2, 3 :: u64]" by auto
  moreover have "n div 8 < length [0, 1, 2, 3 :: u64] \<Longrightarrow>
      map (\<lambda>i. m (a + i)) [0, 1, 2, 3] ! (n div 8) = m (a + of_nat (n div 8))"
    by (subst nth_map) (assumption, subst nth_bytes4, simp_all)
  ultimately show ?thesis by (metis (no_types))
qed

lemma unat_of_nat_small: "j < 8 \<Longrightarrow> unat (of_nat j :: u64) = j"
  by (simp add: unat_of_nat)

lemma of_nat_less_small: "j < k \<Longrightarrow> k \<le> 8 \<Longrightarrow> (of_nat j :: u64) < of_nat k"
  by (simp add: word_less_nat_alt unat_of_nat)

section \<open>Loads over stores\<close>

lemma load64_store64_same [simp, mem_simps]: "load64 (store64 m a v) a = v"
proof (rule bit_eqI)
  fix n assume "possible_bit TYPE(64 word) n"
  then have n: "n < 64" by simp
  then have n8: "n div 8 < 8" by simp
  then have "of_nat (n div 8) < (8 :: u64)"
    using of_nat_less_small[of "n div 8" 8] by simp
  then show "bit (load64 (store64 m a v) a) n = bit v n"
    using n n8 by (simp add: bit_load64 store64_def bit_drop_bit_eq bit_ucast_iff unat_of_nat_small)
qed

lemma load32_store32_same [simp, mem_simps]: "load32 (store32 m a v) a = v"
proof (rule bit_eqI)
  fix n assume "possible_bit TYPE(32 word) n"
  then have n: "n < 32" by simp
  then have n8: "n div 8 < 4" by simp
  then have "of_nat (n div 8) < (4 :: u64)"
    using of_nat_less_small[of "n div 8" 4] by simp
  then show "bit (load32 (store32 m a v) a) n = bit v n"
    using n n8 by (simp add: bit_load32 store32_def bit_drop_bit_eq bit_ucast_iff unat_of_nat_small)
qed

lemma load8_store8_same [simp, mem_simps]: "load8 (store8 m a v) a = v"
  by (simp add: load8_def store8_def)

lemma load64_cong:
  assumes "\<And>k. k < 8 \<Longrightarrow> m (a + k) = m' (a + k)"
  shows "load64 m a = load64 m' a"
  using assms assms[of 0] by (simp add: load64_def)

lemma load32_cong:
  assumes "\<And>k. k < 4 \<Longrightarrow> m (a + k) = m' (a + k)"
  shows "load32 m a = load32 m' a"
  using assms assms[of 0] by (simp add: load32_def)

lemma disj_range_outside:
  fixes a b k n l :: u64
  assumes "disj_range a n b l" "k < l"
  shows "\<not> b + k - a < n"
  using assms unfolding disj_range_def by unat_arith

lemma store64_outside: "\<not> x - a < 8 \<Longrightarrow> store64 m a v x = m x"
  by (simp add: store64_def)

lemma store32_outside: "\<not> x - a < 4 \<Longrightarrow> store32 m a v x = m x"
  by (simp add: store32_def)

lemma store8_outside: "\<not> x - a < 1 \<Longrightarrow> store8 m a v x = m x"
  by (auto simp: store8_def)

lemmas load_disj_intros = disj_range_outside store64_outside store32_outside store8_outside
  load64_cong load32_cong

lemma load64_store64_disj [mem_simps]:
  "disj_range a 8 b 8 \<Longrightarrow> load64 (store64 m a v) b = load64 m b"
  by (intro load_disj_intros)

lemma load64_store32_disj [mem_simps]:
  "disj_range a 4 b 8 \<Longrightarrow> load64 (store32 m a v) b = load64 m b"
  by (intro load_disj_intros)

lemma load64_store8_disj [mem_simps]:
  "disj_range a 1 b 8 \<Longrightarrow> load64 (store8 m a v) b = load64 m b"
  by (intro load_disj_intros)

lemma load32_store64_disj [mem_simps]:
  "disj_range a 8 b 4 \<Longrightarrow> load32 (store64 m a v) b = load32 m b"
  by (intro load_disj_intros)

lemma load8_store64_disj [mem_simps]:
  "disj_range a 8 b 1 \<Longrightarrow> load8 (store64 m a v) b = load8 m b"
  using disj_range_outside[of a 8 b 1 0] by (simp add: load8_def store64_outside)

text \<open>Two fields of the same struct at different offsets.\<close>

lemma disj_range_same_base [simp]: "disj_range (p + i) n (p + j) k = disj_range i n j k"
  "disj_range p n (p + j) k = disj_range 0 n j k" "disj_range (p + i) n p k = disj_range i n 0 k"
  by (simp_all add: disj_range_def)

lemma disj_range_sym: "disj_range a n b k \<longleftrightarrow> disj_range b k a n"
  by (auto simp: disj_range_def)

section \<open>Separation of page-aligned structures\<close>

text \<open>
  Two structures that start at different page-aligned addresses and do not run over the page
  boundary occupy different bytes, whatever offset the direct map adds to both.
\<close>

lemma unat_sub_wrap:
  "unat x < unat y \<Longrightarrow> unat (x - y :: u64) = 18446744073709551616 + unat x - unat y"
  by (simp add: unat_sub_if_size word_size word_le_nat_alt)

lemma disj_range_ordered:
  fixes x y n k :: u64
  assumes "unat x + unat n \<le> unat y" "unat y + unat k \<le> 18446744073709551616" "0 < n"
  shows "disj_range x n y k"
proof -
  have "unat n \<noteq> 0" using assms(3) by (simp add: unat_eq_0 word_neq_0_conv)
  then have lt: "unat x < unat y" using assms(1) by linarith
  then have "x \<le> y" by (simp add: word_le_nat_alt)
  then have "unat (y - x) = unat y - unat x" by (rule unat_sub)
  moreover have "unat (x - y) = 18446744073709551616 + unat x - unat y"
    using lt by (rule unat_sub_wrap)
  ultimately show ?thesis
    using assms(1,2) lt unfolding disj_range_def word_le_nat_alt by linarith
qed

lemma page_aligned_top: "page_aligned a \<Longrightarrow> unat a + 4096 \<le> 18446744073709551616"
proof -
  assume "page_aligned a"
  then obtain q where q: "unat a = 4096 * q" by (auto simp: aligned_def elim!: dvdE)
  then have "q < 4503599627370496" using unat_lt64[of a] by linarith
  then have "q + 1 \<le> 4503599627370496" by simp
  then show ?thesis using q by linarith
qed

lemma page_offset_unat:
  assumes "page_aligned a" "unat i + unat n \<le> 4096" "0 < n"
  shows "unat (a + i) = unat a + unat i"
proof -
  have "unat n \<noteq> 0" using assms(3) by (simp add: unat_eq_0 word_neq_0_conv)
  then show ?thesis
    using page_aligned_top[OF assms(1)] assms(2) by (intro unat_plus64) linarith
qed

lemma page_aligned_gap:
  assumes "page_aligned a" "page_aligned b" "unat a < unat b"
  shows "unat a + 4096 \<le> unat b"
  using assms by (auto simp: aligned_def elim!: dvdE)

lemma page_offsets_disjoint:
  fixes a b i j n k :: u64
  assumes al: "page_aligned a" "page_aligned b" "a \<noteq> b"
    and i: "unat i + unat n \<le> 4096" "0 < n" and j: "unat j + unat k \<le> 4096" "0 < k"
  shows "disj_range (a + i) n (b + j) k"
proof -
  note u = page_offset_unat[OF al(1) i] page_offset_unat[OF al(2) j]
  note top = page_aligned_top[OF al(1)] page_aligned_top[OF al(2)]
  consider "unat a < unat b" | "unat b < unat a"
    using al(3) by (auto simp: word_unat_eq_iff) linarith
  then show ?thesis
  proof cases
    case 1
    then show ?thesis
      using page_aligned_gap[OF al(1,2)] u top i j by (intro disj_range_ordered) simp_all
  next
    case 2
    then have "disj_range (b + j) k (a + i) n"
      using page_aligned_gap[OF al(2,1)] u top i j by (intro disj_range_ordered) simp_all
    then show ?thesis by (simp add: disj_range_sym)
  qed
qed

lemma page_offsets_disjoint_mapped:
  fixes a b h i j n k :: u64
  assumes "page_aligned a" "page_aligned b" "a \<noteq> b"
    and "unat i + unat n \<le> 4096" "0 < n" "unat j + unat k \<le> 4096" "0 < k"
  shows "disj_range (a + h + i) n (b + h + j) k"
  using page_offsets_disjoint[OF assms] unfolding disj_range_def by (simp add: algebra_simps)

end
