(* ===== verification/Slot_List.thy ===== *)
theory Slot_List
  imports Prelude
begin

text \<open>
  Singly linked lists as the kernel walks them. The code searches and removes with a pointer to
  a pointer, \<^verbatim>\<open>struct node **current = &head; while (*current) ...\<close>, so a position in a
  list is a slot: the list head or the \<^verbatim>\<open>next\<close> field of a node. \<open>lseg\<close> says that
  following the slots from a given one visits the listed nodes and ends in NULL; \<open>find_slot\<close>
  is the search loop, with \<open>None\<close> for a walk that never ends. The locale \<open>slot_heap\<close> is the
  interface a component offers for one of its lists (reading and writing a slot); that unlinking
  a found node removes exactly that node is proved there once.
\<close>

datatype link = Head | NextOf u64

fun lseg :: "(link \<Rightarrow> u64) \<Rightarrow> link \<Rightarrow> u64 list \<Rightarrow> bool" where
  "lseg f l [] \<longleftrightarrow> f l = NULL"
| "lseg f l (x # xs) \<longleftrightarrow> f l = x \<and> x \<noteq> NULL \<and> lseg f (NextOf x) xs"

text \<open>The loop \<^verbatim>\<open>while (*current) { if (hit) ...; current = &(*current)->next; }\<close>.\<close>

partial_function (option) find_slot ::
  "(link \<Rightarrow> u64) \<Rightarrow> (u64 \<Rightarrow> bool) \<Rightarrow> link \<Rightarrow> link option option" where
  "find_slot f hit l =
     (if f l = NULL then Some None
      else if hit (f l) then Some (Some l)
      else find_slot f hit (NextOf (f l)))"

text \<open>The slot reached from \<open>l\<close> after stepping over the listed nodes.\<close>

fun slot_after :: "link \<Rightarrow> u64 list \<Rightarrow> link" where
  "slot_after l [] = l"
| "slot_after l (x # xs) = slot_after (NextOf x) xs"

section \<open>Segments\<close>

lemma lseg_NULL: "f l = NULL \<Longrightarrow> lseg f l xs \<longleftrightarrow> xs = []"
  by (cases xs) auto

lemma lseg_not_NULL:
  "f l \<noteq> NULL \<Longrightarrow> lseg f l xs \<Longrightarrow> \<exists>ys. xs = f l # ys \<and> lseg f (NextOf (f l)) ys"
  by (cases xs) auto

lemma lseg_nonnull: "lseg f l xs \<Longrightarrow> NULL \<notin> set xs"
  by (induction xs arbitrary: l) auto

lemma lseg_cong:
  "lseg f l xs \<Longrightarrow> f l = g l \<Longrightarrow> (\<And>x. x \<in> set xs \<Longrightarrow> f (NextOf x) = g (NextOf x)) \<Longrightarrow> lseg g l xs"
  by (induction xs arbitrary: l) auto

lemma lseg_unique: "lseg f l xs \<Longrightarrow> lseg f l ys \<Longrightarrow> xs = ys"
proof (induction xs arbitrary: l ys)
  case Nil
  then show ?case by (simp add: lseg_NULL)
next
  case (Cons x xs)
  then show ?case by (cases ys) auto
qed

lemma lseg_suffix: "lseg f l (xs @ ys) \<Longrightarrow> lseg f (slot_after l xs) ys"
  by (induction xs arbitrary: l) auto

lemma slot_after_snoc: "slot_after l (xs @ [y]) = NextOf y"
  by (induction xs arbitrary: l) auto

lemma slot_after_cases: "slot_after l xs = (if xs = [] then l else NextOf (last xs))"
  by (induction xs arbitrary: l) auto

text \<open>A list that ends in NULL visits no node twice.\<close>

lemma lseg_distinct: "lseg f l xs \<Longrightarrow> distinct xs"
proof (induction xs arbitrary: l)
  case (Cons x xs)
  have "x \<notin> set xs"
  proof
    assume "x \<in> set xs"
    then obtain us vs where xs: "xs = (us @ [x]) @ vs" by (auto simp: in_set_conv_decomp)
    from Cons.prems have l: "lseg f (NextOf x) xs" by simp
    then have "lseg f (NextOf x) vs" unfolding xs using lseg_suffix slot_after_snoc by metis
    with l have "xs = vs" by (rule lseg_unique)
    then show False using xs by simp
  qed
  with Cons show ?case by auto
qed simp

lemma lseg_start:
  "lseg f l xs \<Longrightarrow> g l' = f l \<Longrightarrow> (\<And>x. x \<in> set xs \<Longrightarrow> g (NextOf x) = f (NextOf x)) \<Longrightarrow> lseg g l' xs"
  by (cases xs) (auto intro: lseg_cong)

text \<open>Redirecting the link that holds a node past it.\<close>

lemma lseg_redirect:
  "lseg f l (ys @ c # zs) \<Longrightarrow> g (slot_after l ys) = f (NextOf c) \<Longrightarrow> (\<And>k. k \<in> insert l (NextOf ` set (ys @ zs)) \<Longrightarrow> k \<noteq> slot_after l ys \<Longrightarrow> g k = f k)
    \<Longrightarrow> l \<notin> NextOf ` set (ys @ c # zs) \<Longrightarrow> lseg g l (ys @ zs)"
proof (induction ys arbitrary: l)
  case Nil
  have "lseg f (NextOf c) zs" using Nil.prems(1) by simp
  then show ?case using Nil.prems(2-4) by (auto intro: lseg_start)
next
  case (Cons y ys)
  have d: "distinct (y # ys @ c # zs)" using lseg_distinct[OF Cons.prems(1)] by simp
  have "slot_after (NextOf y) ys \<noteq> l" using Cons.prems(4) by (auto simp: slot_after_cases split: if_splits)
  then have "g l = f l" using Cons.prems(3)[of l] by auto
  moreover have "lseg g (NextOf y) (ys @ zs)"
  proof (rule Cons.IH)
    show "lseg f (NextOf y) (ys @ c # zs)" using Cons.prems(1) by simp
    show "g (slot_after (NextOf y) ys) = f (NextOf c)" using Cons.prems(2) by simp
    show "NextOf y \<notin> NextOf ` set (ys @ c # zs)" using d by auto
    show "g k = f k" if "k \<in> insert (NextOf y) (NextOf ` set (ys @ zs))" "k \<noteq> slot_after (NextOf y) ys" for k
      using Cons.prems(3)[of k] that by auto
  qed
  ultimately show ?case using Cons.prems(1) by simp
qed

section \<open>The search loop ends and finds the first hit\<close>

lemma find_slot_spec:
  "lseg f l xs \<Longrightarrow> find_slot f hit l =
     Some (if \<exists>x\<in>set xs. hit x then Some (slot_after l (takeWhile (\<lambda>x. \<not> hit x) xs)) else None)"
  by (induction xs arbitrary: l) (simp_all add: find_slot.simps)

lemma find_slot_None:
  "lseg f l xs \<Longrightarrow> \<forall>x\<in>set xs. \<not> hit x \<Longrightarrow> find_slot f hit l = Some None"
  by (subst find_slot_spec) auto

lemma find_slot_Some:
  "lseg f l (ys @ c # zs) \<Longrightarrow> \<forall>y\<in>set ys. \<not> hit y \<Longrightarrow> hit c
    \<Longrightarrow> find_slot f hit l = Some (Some (slot_after l ys))"
  by (subst find_slot_spec, assumption) (auto simp: takeWhile_append2)

section \<open>The interface of a list in a heap\<close>

locale slot_heap =
  fixes slot :: "'h \<Rightarrow> link \<Rightarrow> u64"
    and set_slot :: "'h \<Rightarrow> link \<Rightarrow> u64 \<Rightarrow> 'h"
    and sep :: "u64 \<Rightarrow> u64 \<Rightarrow> bool"
    and ok :: "'h \<Rightarrow> bool"
  assumes slot_same: "ok h \<Longrightarrow> slot (set_slot h l v) l = v"
    and slot_head: "ok h \<Longrightarrow> slot (set_slot h Head v) (NextOf p) = slot h (NextOf p)"
    and slot_next_head: "ok h \<Longrightarrow> slot (set_slot h (NextOf p) v) Head = slot h Head"
    and slot_sep: "ok h \<Longrightarrow> sep p q \<Longrightarrow>
      slot (set_slot h (NextOf p) v) (NextOf q) = slot h (NextOf q)"
begin

text \<open>Writing a slot outside a segment leaves the segment as it was.\<close>

lemma lseg_set_next_other:
  "ok h \<Longrightarrow> lseg (slot h) l xs \<Longrightarrow> (\<And>x. x \<in> set xs \<Longrightarrow> sep p x)
    \<Longrightarrow> (\<And>q. l = NextOf q \<Longrightarrow> sep p q)
    \<Longrightarrow> lseg (slot (set_slot h (NextOf p) v)) l xs"
  by (rule lseg_cong, assumption) (cases l, auto simp: slot_next_head slot_sep)

lemma lseg_set_head_other:
  "ok h \<Longrightarrow> lseg (slot h) (NextOf p) xs \<Longrightarrow> lseg (slot (set_slot h Head v)) (NextOf p) xs"
  by (rule lseg_cong, assumption) (auto simp: slot_head)

text \<open>Redirecting the slot that holds a node past it removes that node.\<close>

lemma lseg_unlink_first:
  assumes "ok h" "lseg (slot h) l (c # zs)"
    and "\<And>p x. l = NextOf p \<Longrightarrow> x \<in> set zs \<Longrightarrow> sep p x"
  shows "lseg (slot (set_slot h l (slot h (NextOf c)))) l zs"
proof (cases zs)
  case Nil
  then show ?thesis using assms by (simp add: slot_same)
next
  case (Cons z zs')
  then have tail: "lseg (slot h) (NextOf z) zs'" and z: "slot h (NextOf c) = z" "z \<noteq> NULL"
    using assms(2) by auto
  have "lseg (slot (set_slot h l v)) (NextOf z) zs'" for v
    using assms(1,3) tail Cons
    by (cases l) (auto intro: lseg_set_head_other lseg_set_next_other)
  then show ?thesis using assms(1) Cons z by (simp add: slot_same)
qed

lemma lseg_unlink_gen:
  assumes "ok h" and N: "\<And>p q. p \<in> N \<Longrightarrow> q \<in> N \<Longrightarrow> p \<noteq> q \<Longrightarrow> sep p q"
  shows "lseg (slot h) l (ys @ c # zs) \<Longrightarrow> set (ys @ c # zs) \<subseteq> N
    \<Longrightarrow> (\<And>p. l = NextOf p \<Longrightarrow> p \<in> N \<and> p \<notin> set (ys @ c # zs))
    \<Longrightarrow> lseg (slot (set_slot h (slot_after l ys) (slot h (NextOf c)))) l (ys @ zs)"
proof (induction ys arbitrary: l)
  case Nil
  then show ?case using N by (auto intro!: lseg_unlink_first[OF assms(1)])
next
  case (Cons y ys)
  let ?h' = "set_slot h (slot_after (NextOf y) ys) (slot h (NextOf c))"
  have dist: "y \<notin> set (ys @ c # zs)"
    using lseg_distinct[OF Cons.prems(1)] by auto
  have "lseg (slot ?h') (NextOf y) (ys @ zs)"
    using Cons.prems dist by (intro Cons.IH) auto
  moreover have "slot ?h' l = slot h l"
  proof -
    obtain y' where y': "slot_after (NextOf y) ys = NextOf y'" "y' \<in> set (y # ys)"
      using last_in_set[of "y # ys"] by (auto simp: slot_after_cases split: if_splits)
    have "sep y' p" if "l = NextOf p" for p
      using Cons.prems(2) Cons.prems(3)[OF that] y'(2) by (intro N) auto
    then show ?thesis
      using assms(1) y'(1) by (cases l) (auto simp: slot_next_head slot_sep)
  qed
  ultimately show ?case using Cons.prems(1) by auto
qed

lemma lseg_unlink:
  assumes "ok h" "lseg (slot h) Head (ys @ c # zs)"
    and "\<And>p q. p \<in> set (ys @ c # zs) \<Longrightarrow> q \<in> set (ys @ c # zs) \<Longrightarrow> p \<noteq> q \<Longrightarrow> sep p q"
  shows "lseg (slot (set_slot h (slot_after Head ys) (slot h (NextOf c)))) Head (ys @ zs)"
  using assms by (intro lseg_unlink_gen[where N = "set (ys @ c # zs)"]) auto

end

end
