(* ===== verification/Buddy.thy ===== *)
theory Buddy
  imports Memory Slot_List
begin

text \<open>
  The buddy allocator of physical memory (\<^verbatim>\<open>kernel/arch/x86_64/memory/buddy_allocator.c\<close>).
  Free blocks of \<open>4096 * 2 ^ order\<close> bytes are linked through a \<^verbatim>\<open>struct free_block\<close>
  stored in the block itself, reached through the direct map at \<open>hhdm_offset\<close>. The state is the
  memory, the array of arenas and the arena counter. The loops that follow list pointers return
  an option, \<open>None\<close> for a walk that does not end.
\<close>

section \<open>State\<close>

definition MAX_SUPPORTED_ORDER :: nat where "MAX_SUPPORTED_ORDER = 20"
definition MAX_BUDDY_ARENAS :: nat where "MAX_BUDDY_ARENAS = 32"

record buddy_arena =
  base :: u64
  arena_length :: u64
  max_arena_order :: u8
  free_list :: "u64 list"

record buddy_state =
  mem :: memory
  hhdm_offset :: u64
  buddy_arenas :: "buddy_arena list"
  buddy_arena_counter :: u8

record limine_memmap_entry =
  entry_base :: u64
  entry_length :: u64
  entry_type :: u64

text \<open>The fields of \<^verbatim>\<open>struct free_block\<close>: \<^verbatim>\<open>current_order\<close> at 0, \<^verbatim>\<open>phys_addr\<close> at 8, \<^verbatim>\<open>next\<close> at 16.\<close>

definition fb_current_order :: "memory \<Rightarrow> u64 \<Rightarrow> u8" where
  "fb_current_order m p = load8 m p"

definition fb_phys_addr :: "memory \<Rightarrow> u64 \<Rightarrow> u64" where
  "fb_phys_addr m p = load64 m (p + 8)"

definition fb_next :: "memory \<Rightarrow> u64 \<Rightarrow> u64" where
  "fb_next m p = load64 m (p + 16)"

definition set_free_block :: "memory \<Rightarrow> u64 \<Rightarrow> u8 \<Rightarrow> u64 \<Rightarrow> u64 \<Rightarrow> memory" where
  "set_free_block m p order phys nxt =
     store64 (store64 (store8 m p order) (p + 8) phys) (p + 16) nxt"

definition phys_to_virt :: "'a buddy_state_scheme \<Rightarrow> u64 \<Rightarrow> u64" where
  "phys_to_virt s phys_addr = phys_addr + hhdm_offset s"

definition virt_to_phys :: "'a buddy_state_scheme \<Rightarrow> u64 \<Rightarrow> u64" where
  "virt_to_phys s virt_addr = virt_addr - hhdm_offset s"

text \<open>\<^verbatim>\<open>(1ULL << order) * PAGE_FRAME_SIZE\<close>\<close>

definition block_size :: "nat \<Rightarrow> u64" where
  "block_size order = push_bit order 1 * PAGE_FRAME_SIZE"

abbreviation arena_at :: "'a buddy_state_scheme \<Rightarrow> nat \<Rightarrow> buddy_arena" where
  "arena_at s i \<equiv> buddy_arenas s ! i"

definition set_arena :: "'a buddy_state_scheme \<Rightarrow> nat \<Rightarrow> buddy_arena \<Rightarrow> 'a buddy_state_scheme" where
  "set_arena s i arena = s\<lparr>buddy_arenas := (buddy_arenas s)[i := arena]\<rparr>"

definition set_free_head :: "'a buddy_state_scheme \<Rightarrow> nat \<Rightarrow> nat \<Rightarrow> u64 \<Rightarrow> 'a buddy_state_scheme" where
  "set_free_head s i k v =
     set_arena s i ((arena_at s i)\<lparr>free_list := (free_list (arena_at s i))[k := v]\<rparr>)"

section \<open>Building the free lists\<close>

text \<open>
  Creating a free block: its header is written at the block's address and it becomes the head of
  its list (the same four assignments in populating, splitting and freeing).
\<close>

definition push_free_block :: "'a buddy_state_scheme \<Rightarrow> nat \<Rightarrow> nat \<Rightarrow> u64 \<Rightarrow> 'a buddy_state_scheme" where
  "push_free_block s i order addr =
     (let block = phys_to_virt s addr;
          m = set_free_block (mem s) block (of_nat order) addr (free_list (arena_at s i) ! order)
      in set_free_head (s\<lparr>mem := m\<rparr>) i order block)"

text \<open>The inner loop of \<^verbatim>\<open>populate_buddy_blocks\<close>, from \<open>order\<close> downwards; \<open>None\<close> is \<open>best_order = -1\<close>.\<close>

fun find_best_order :: "nat \<Rightarrow> u64 \<Rightarrow> u64 \<Rightarrow> nat option" where
  "find_best_order order current_addr remaining =
     (if \<not> block_size order > remaining \<and> current_addr AND (block_size order - 1) = 0
      then Some order
      else case order of 0 \<Rightarrow> None | Suc n \<Rightarrow> find_best_order n current_addr remaining)"

partial_function (option) populate_loop ::
  "'a buddy_state_scheme \<Rightarrow> nat \<Rightarrow> nat \<Rightarrow> u64 \<Rightarrow> u64 \<Rightarrow> 'a buddy_state_scheme option" where
  "populate_loop s i max_order current_addr end_addr =
     (if current_addr < end_addr then
        (let remaining = end_addr - current_addr in
         if remaining < PAGE_FRAME_SIZE then Some s
         else case find_best_order max_order current_addr remaining of
           None \<Rightarrow> populate_loop s i max_order
             ((current_addr + PAGE_FRAME_SIZE - 1) AND NOT (PAGE_FRAME_SIZE - 1)) end_addr
         | Some best_order \<Rightarrow>
             populate_loop (push_free_block s i best_order current_addr) i max_order
               (current_addr + block_size best_order) end_addr)
      else Some s)"

definition populate_buddy_blocks :: "'a buddy_state_scheme \<Rightarrow> nat \<Rightarrow> 'a buddy_state_scheme option" where
  "populate_buddy_blocks s i =
     (let arena = arena_at s i in
      populate_loop s i (unat (max_arena_order arena)) (base arena) (base arena + arena_length arena))"

partial_function (option) max_order_loop :: "u8 \<Rightarrow> u64 \<Rightarrow> u8 option" where
  "max_order_loop max_order aligned_len =
     (if block_size (unat max_order + 1) \<le> aligned_len
      then max_order_loop (max_order + 1) aligned_len
      else Some max_order)"

definition align_page_up :: "u64 \<Rightarrow> u64" where
  "align_page_up a = (a + PAGE_FRAME_SIZE - 1) AND NOT (PAGE_FRAME_SIZE - 1)"

text \<open>\<^verbatim>\<open>add_buddy_arena\<close>: the returned C int (0 or -1) and the new state.\<close>

definition add_buddy_arena ::
  "'a buddy_state_scheme \<Rightarrow> u8 \<Rightarrow> u64 \<Rightarrow> u64 \<Rightarrow> (int \<times> 'a buddy_state_scheme) option" where
  "add_buddy_arena s arena_idx b len =
     (if unat arena_idx \<ge> MAX_BUDDY_ARENAS then Some (-1, s)
      else if arena_idx = 0 then Some (0, s\<lparr>buddy_arena_counter := buddy_arena_counter s + 1\<rparr>)
      else
        (let aligned_base = align_page_up b; end = b + len in
         if aligned_base \<ge> end then Some (-1, s)
         else
           (let aligned_len = end - aligned_base in
            if aligned_len < PAGE_FRAME_SIZE then Some (-1, s)
            else do {
              max_order \<leftarrow> max_order_loop 0 aligned_len;
              let max_order = (if unat max_order > MAX_SUPPORTED_ORDER
                               then of_nat MAX_SUPPORTED_ORDER else max_order);
              let s1 = set_arena s (unat arena_idx)
                \<lparr>base = aligned_base, arena_length = aligned_len, max_arena_order = max_order,
                 free_list = replicate (MAX_SUPPORTED_ORDER + 1) NULL\<rparr>;
              s2 \<leftarrow> populate_buddy_blocks s1 (unat arena_idx);
              Some (0, s2)
            })))"

text \<open>
  \<^verbatim>\<open>buddy_allocator_init\<close> over the entries of the boot loader's memory map (the halts for a
  missing request or response happen before any state is touched).
\<close>

fun buddy_init_loop ::
  "'a buddy_state_scheme \<Rightarrow> limine_memmap_entry list \<Rightarrow> 'a buddy_state_scheme option" where
  "buddy_init_loop s [] = Some s"
| "buddy_init_loop s (entry # entries) =
     (if entry_type entry \<noteq> 0 then buddy_init_loop s entries
      else if unat (buddy_arena_counter s) \<ge> MAX_BUDDY_ARENAS then Some s
      else
        (let b = (if entry_base entry = 0 then entry_base entry + PAGE_FRAME_SIZE
                  else entry_base entry) in
         do {
           (ret, s1) \<leftarrow> add_buddy_arena s (buddy_arena_counter s) b (entry_length entry);
           (if ret = 0
            then buddy_init_loop (s1\<lparr>buddy_arena_counter := buddy_arena_counter s1 + 1\<rparr>) entries
            else buddy_init_loop s1 entries)
         }))"

definition buddy_allocator_init ::
  "'a buddy_state_scheme \<Rightarrow> limine_memmap_entry list \<Rightarrow> 'a buddy_state_scheme option" where
  "buddy_allocator_init s entries = buddy_init_loop s entries"

section \<open>Allocation\<close>

text \<open>The splitting loop: the right half of every order from \<open>j - 1\<close> down to \<open>order\<close> is freed.\<close>

fun split_blocks :: "'a buddy_state_scheme \<Rightarrow> nat \<Rightarrow> u64 \<Rightarrow> nat list \<Rightarrow> 'a buddy_state_scheme" where
  "split_blocks s i addr [] = s"
| "split_blocks s i addr (k # ks) =
     split_blocks (push_free_block s i k (addr + block_size k)) i addr ks"

text \<open>One round of the arena loop of \<^verbatim>\<open>buddy_alloc_pages\<close>; \<open>None\<close>: try the next arena.\<close>

definition alloc_from_arena ::
  "'a buddy_state_scheme \<Rightarrow> nat \<Rightarrow> nat \<Rightarrow> (u64 \<times> 'a buddy_state_scheme) option" where
  "alloc_from_arena s i order =
     (let arena = arena_at s i in
      if free_list arena ! order \<noteq> NULL then
        (let block = free_list arena ! order in
         Some (fb_phys_addr (mem s) block, set_free_head s i order (fb_next (mem s) block)))
      else
        (case find (\<lambda>j. free_list arena ! j \<noteq> NULL) [order + 1..<unat (max_arena_order arena) + 1] of
           None \<Rightarrow> None
         | Some j \<Rightarrow>
             (let block = free_list arena ! j;
                  addr = fb_phys_addr (mem s) block;
                  s1 = set_free_head s i j (fb_next (mem s) block)
              in Some (addr, split_blocks s1 i addr (rev [order..<j])))))"

fun alloc_arenas ::
  "'a buddy_state_scheme \<Rightarrow> nat \<Rightarrow> nat list \<Rightarrow> u64 \<times> 'a buddy_state_scheme" where
  "alloc_arenas s order [] = (0, s)"
| "alloc_arenas s order (i # is) =
     (case alloc_from_arena s i order of
        Some r \<Rightarrow> r
      | None \<Rightarrow> alloc_arenas s order is)"

definition buddy_alloc_pages ::
  "'a buddy_state_scheme \<Rightarrow> u8 \<Rightarrow> u64 \<times> 'a buddy_state_scheme" where
  "buddy_alloc_pages s order =
     (if unat order > MAX_SUPPORTED_ORDER then (0, s)
      else alloc_arenas s (unat order) [0..<unat (buddy_arena_counter s)])"

definition buddy_alloc_page :: "'a buddy_state_scheme \<Rightarrow> u64 \<times> 'a buddy_state_scheme" where
  "buddy_alloc_page s = buddy_alloc_pages s 0"

section \<open>Freeing\<close>

text \<open>The slots of free list \<open>k\<close> of arena \<open>i\<close>: its head in the arena, or a block's next field.\<close>

fun fl_slot :: "nat \<Rightarrow> nat \<Rightarrow> 'a buddy_state_scheme \<Rightarrow> link \<Rightarrow> u64" where
  "fl_slot i k s Head = free_list (arena_at s i) ! k"
| "fl_slot i k s (NextOf p) = fb_next (mem s) p"

fun set_fl_slot :: "nat \<Rightarrow> nat \<Rightarrow> 'a buddy_state_scheme \<Rightarrow> link \<Rightarrow> u64 \<Rightarrow> 'a buddy_state_scheme" where
  "set_fl_slot i k s Head v = set_free_head s i k v"
| "set_fl_slot i k s (NextOf p) v = s\<lparr>mem := store64 (mem s) (p + 16) v\<rparr>"

text \<open>Searching the list for the buddy and unlinking it; the flag is \<^verbatim>\<open>found_buddy\<close>.\<close>

definition unlink_buddy ::
  "'a buddy_state_scheme \<Rightarrow> nat \<Rightarrow> nat \<Rightarrow> u64 \<Rightarrow> (bool \<times> 'a buddy_state_scheme) option" where
  "unlink_buddy s i order buddy_addr = do {
     current \<leftarrow> find_slot (fl_slot i order s) (\<lambda>p. fb_phys_addr (mem s) p = buddy_addr) Head;
     (case current of
        None \<Rightarrow> Some (False, s)
      | Some l \<Rightarrow> (let buddy = fl_slot i order s l
                 in Some (True, set_fl_slot i order s l (fb_next (mem s) buddy))))
   }"

partial_function (option) coalesce_loop ::
  "'a buddy_state_scheme \<Rightarrow> nat \<Rightarrow> u64 \<Rightarrow> nat \<Rightarrow> ('a buddy_state_scheme \<times> u64 \<times> nat) option" where
  "coalesce_loop s i phys_addr order =
     (if order < unat (max_arena_order (arena_at s i)) then
        (let buddy_addr = phys_addr XOR block_size order in
         do {
           (found_buddy, s1) \<leftarrow> unlink_buddy s i order buddy_addr;
           (if \<not> found_buddy then Some (s1, phys_addr, order)
            else coalesce_loop s1 i (if buddy_addr < phys_addr then buddy_addr else phys_addr)
                   (order + 1))
         })
      else Some (s, phys_addr, order))"

definition find_arena :: "'a buddy_state_scheme \<Rightarrow> u64 \<Rightarrow> nat option" where
  "find_arena s phys_addr =
     find (\<lambda>i. phys_addr \<ge> base (arena_at s i)
               \<and> phys_addr < base (arena_at s i) + arena_length (arena_at s i))
       [0..<unat (buddy_arena_counter s)]"

definition buddy_free_pages ::
  "'a buddy_state_scheme \<Rightarrow> u64 \<Rightarrow> u8 \<Rightarrow> 'a buddy_state_scheme option" where
  "buddy_free_pages s phys_addr order =
     (if unat order > MAX_SUPPORTED_ORDER then Some s
      else case find_arena s phys_addr of
        None \<Rightarrow> Some s
      | Some i \<Rightarrow> do {
          (s1, addr, k) \<leftarrow> coalesce_loop s i phys_addr (unat order);
          Some (push_free_block s1 i k addr)
        })"

definition buddy_free_page :: "'a buddy_state_scheme \<Rightarrow> u64 \<Rightarrow> 'a buddy_state_scheme option" where
  "buddy_free_page s phys_addr = buddy_free_pages s phys_addr 0"

end
