(* ===== verification/Slab.thy ===== *)
theory Slab
  imports Buddy
begin

text \<open>
  The slab allocator (\<^verbatim>\<open>kernel/arch/x86_64/memory/slab_allocator.c\<close>): caches for eight object
  sizes, each a set of two-page slabs taken from the buddy allocator and kept on three linked lists
  by how many of their objects are free. A slab header and the free objects live in the slab's own
  pages, so they are read and written in memory; the array of caches is a C global. A cache pointer
  is the address of its array element.
\<close>

section \<open>State\<close>

definition SLAB_MAGIC :: u64 where "SLAB_MAGIC = 0xCAFEBABEDEADBABE"
definition OBJECT_POISON :: u64 where "OBJECT_POISON = 0xDEADDEADDEADDEAD"

record slab_cache =
  object_size :: u64
  objects_per_slab :: u64
  slab_size :: u64
  full_slabs :: u64
  partial_slabs :: u64
  empty_slabs :: u64
  total_objects :: u64
  allocated_objects :: u64
  total_slabs :: u64

record slab_state = buddy_state +
  slab_caches :: "slab_cache list"
  slab_caches_addr :: u64

definition slab_sizes :: "u64 list" where
  "slab_sizes = [16, 32, 64, 128, 256, 512, 1024, 2048]"

text \<open>\<^verbatim>\<open>sizeof(struct slab)\<close>, \<^verbatim>\<open>sizeof(struct slab_cache)\<close>, and the fields of \<^verbatim>\<open>struct slab\<close> and \<^verbatim>\<open>struct free_object\<close>.\<close>

definition sizeof_slab :: u64 where "sizeof_slab = 48"
definition sizeof_slab_cache :: u64 where "sizeof_slab_cache = 72"

definition sl_magic :: "memory \<Rightarrow> u64 \<Rightarrow> u64" where "sl_magic m p = load64 m p"
definition sl_cache :: "memory \<Rightarrow> u64 \<Rightarrow> u64" where "sl_cache m p = load64 m (p + 8)"
definition sl_phys_addr :: "memory \<Rightarrow> u64 \<Rightarrow> u64" where "sl_phys_addr m p = load64 m (p + 16)"
definition sl_free_count :: "memory \<Rightarrow> u64 \<Rightarrow> u64" where "sl_free_count m p = load64 m (p + 24)"
definition sl_free_list :: "memory \<Rightarrow> u64 \<Rightarrow> u64" where "sl_free_list m p = load64 m (p + 32)"
definition sl_next :: "memory \<Rightarrow> u64 \<Rightarrow> u64" where "sl_next m p = load64 m (p + 40)"
definition fo_magic :: "memory \<Rightarrow> u64 \<Rightarrow> u64" where "fo_magic m p = load64 m p"
definition fo_next :: "memory \<Rightarrow> u64 \<Rightarrow> u64" where "fo_next m p = load64 m (p + 8)"

definition store :: "'a slab_state_scheme \<Rightarrow> u64 \<Rightarrow> u64 \<Rightarrow> 'a slab_state_scheme" where
  "store s a v = s\<lparr>mem := store64 (mem s) a v\<rparr>"

abbreviation cache_at :: "'a slab_state_scheme \<Rightarrow> nat \<Rightarrow> slab_cache" where
  "cache_at s c \<equiv> slab_caches s ! c"

definition set_cache :: "'a slab_state_scheme \<Rightarrow> nat \<Rightarrow> slab_cache \<Rightarrow> 'a slab_state_scheme" where
  "set_cache s c cache = s\<lparr>slab_caches := (slab_caches s)[c := cache]\<rparr>"

definition cache_ptr :: "'a slab_state_scheme \<Rightarrow> nat \<Rightarrow> u64" where
  "cache_ptr s c = slab_caches_addr s + of_nat c * sizeof_slab_cache"

definition cache_index :: "'a slab_state_scheme \<Rightarrow> u64 \<Rightarrow> nat" where
  "cache_index s p = unat ((p - slab_caches_addr s) div sizeof_slab_cache)"

section \<open>Initialisation\<close>

definition calculate_objects_per_slab :: "u64 \<Rightarrow> u64" where
  "calculate_objects_per_slab obj_size =
     (let usable_space = (2 * PAGE_FRAME_SIZE) - sizeof_slab in usable_space div obj_size)"

definition slab_cache_init :: "'a slab_state_scheme \<Rightarrow> nat \<Rightarrow> u64 \<Rightarrow> 'a slab_state_scheme" where
  "slab_cache_init s c obj_size =
     set_cache s c \<lparr>object_size = obj_size, objects_per_slab = calculate_objects_per_slab obj_size,
       slab_size = 2 * PAGE_FRAME_SIZE, full_slabs = NULL, partial_slabs = NULL, empty_slabs = NULL,
       total_objects = 0, allocated_objects = 0, total_slabs = 0\<rparr>"

definition slab_allocator_init :: "'a slab_state_scheme \<Rightarrow> 'a slab_state_scheme" where
  "slab_allocator_init s = foldl (\<lambda>s i. slab_cache_init s i (slab_sizes ! i)) s [0..<length slab_sizes]"

section \<open>The three lists of a cache\<close>

datatype slab_list = Partial | Full | Empty

fun list_head :: "slab_list \<Rightarrow> slab_cache \<Rightarrow> u64" where
  "list_head Partial c = partial_slabs c"
| "list_head Full c = full_slabs c"
| "list_head Empty c = empty_slabs c"

fun set_list_head :: "slab_list \<Rightarrow> u64 \<Rightarrow> slab_cache \<Rightarrow> slab_cache" where
  "set_list_head Partial v c = c\<lparr>partial_slabs := v\<rparr>"
| "set_list_head Full v c = c\<lparr>full_slabs := v\<rparr>"
| "set_list_head Empty v c = c\<lparr>empty_slabs := v\<rparr>"

fun sl_slot :: "nat \<Rightarrow> slab_list \<Rightarrow> 'a slab_state_scheme \<Rightarrow> link \<Rightarrow> u64" where
  "sl_slot c w s Head = list_head w (cache_at s c)"
| "sl_slot c w s (NextOf p) = sl_next (mem s) p"

fun set_sl_slot :: "nat \<Rightarrow> slab_list \<Rightarrow> 'a slab_state_scheme \<Rightarrow> link \<Rightarrow> u64 \<Rightarrow> 'a slab_state_scheme" where
  "set_sl_slot c w s Head v = set_cache s c (set_list_head w v (cache_at s c))"
| "set_sl_slot c w s (NextOf p) v = store s (p + 40) v"

text \<open>Searching one list; the flag says that the slab was found and unlinked (the early return).\<close>

definition remove_from :: "'a slab_state_scheme \<Rightarrow> u64 \<Rightarrow> nat \<Rightarrow> slab_list \<Rightarrow> (bool \<times> 'a slab_state_scheme) option" where
  "remove_from s slab c w = do {
     current \<leftarrow> find_slot (sl_slot c w s) (\<lambda>p. p = slab) Head;
     (case current of
        None \<Rightarrow> Some (False, s)
      | Some l \<Rightarrow>
          (let s1 = set_sl_slot c w s l (sl_next (mem s) slab)
           in Some (True, store s1 (slab + 40) NULL)))
   }"

definition slab_remove_from_list :: "'a slab_state_scheme \<Rightarrow> u64 \<Rightarrow> nat \<Rightarrow> 'a slab_state_scheme option" where
  "slab_remove_from_list s slab c = do {
     (found, s) \<leftarrow> remove_from s slab c Partial;
     if found then Some s else do {
       (found, s) \<leftarrow> remove_from s slab c Full;
       if found then Some s else do {
         (found, s) \<leftarrow> remove_from s slab c Empty;
         Some s } } }"

text \<open>Linking a slab at the head of a list.\<close>

definition push_slab :: "'a slab_state_scheme \<Rightarrow> u64 \<Rightarrow> nat \<Rightarrow> slab_list \<Rightarrow> 'a slab_state_scheme" where
  "push_slab s slab c w =
     (let s1 = store s (slab + 40) (list_head w (cache_at s c))
      in set_cache s1 c (set_list_head w slab (cache_at s1 c)))"

section \<open>Creating slabs and allocating objects\<close>

fun link_objects :: "'a slab_state_scheme \<Rightarrow> u64 \<Rightarrow> u64 \<Rightarrow> u64 \<Rightarrow> nat list \<Rightarrow> 'a slab_state_scheme" where
  "link_objects s slab objects_start obj_size [] = s"
| "link_objects s slab objects_start obj_size (i # is) =
     (let obj = objects_start + of_nat i * obj_size;
          s1 = store s (obj + 8) (sl_free_list (mem s) slab);
          s2 = store s1 (slab + 32) obj
      in link_objects s2 slab objects_start obj_size is)"

definition slab_create :: "'a slab_state_scheme \<Rightarrow> nat \<Rightarrow> u64 \<times> 'a slab_state_scheme" where
  "slab_create s c =
     (let (phys, s) = buddy_alloc_pages s 1 in
      if phys = 0 then (NULL, s)
      else
        (let slab = phys_to_virt s phys;
             s = store s (slab + 8) (cache_ptr s c);
             s = store s (slab + 16) phys;
             s = store s (slab + 24) (objects_per_slab (cache_at s c));
             s = store s (slab + 40) NULL;
             s = store s slab SLAB_MAGIC;
             s = store s (slab + 32) NULL;
             objects_start = slab + sizeof_slab;
             s = link_objects s slab objects_start (object_size (cache_at s c))
                   [0..<unat (objects_per_slab (cache_at s c))];
             s = push_slab s slab c Empty;
             cache = cache_at s c
         in (slab, set_cache s c (cache\<lparr>total_slabs := total_slabs cache + 1,
               total_objects := total_objects cache + objects_per_slab cache\<rparr>))))"

definition slab_alloc :: "'a slab_state_scheme \<Rightarrow> nat \<Rightarrow> (u64 \<times> 'a slab_state_scheme) option" where
  "slab_alloc s c =
     (let cache = cache_at s c;
          (slab, s) = (if partial_slabs cache \<noteq> NULL then (partial_slabs cache, s)
                       else if empty_slabs cache \<noteq> NULL then (empty_slabs cache, s)
                       else slab_create s c)
      in if slab = NULL then Some (NULL, s)
      else if sl_free_list (mem s) slab = NULL then Some (NULL, s)
      else
        (let obj = sl_free_list (mem s) slab;
             s = store s (slab + 32) (fo_next (mem s) obj);
             s = store s (slab + 24) (sl_free_count (mem s) slab - 1);
             cache = cache_at s c;
             s = set_cache s c (cache\<lparr>allocated_objects := allocated_objects cache + 1\<rparr>)
         in if sl_free_count (mem s) slab = 0 then do {
              s \<leftarrow> slab_remove_from_list s slab c;
              Some (obj, push_slab s slab c Full)
            }
            else if sl_free_count (mem s) slab = objects_per_slab (cache_at s c) - 1 then do {
              s \<leftarrow> slab_remove_from_list s slab c;
              Some (obj, push_slab s slab c Partial)
            }
            else Some (obj, s)))"

section \<open>Freeing objects\<close>

definition slab_free :: "'a slab_state_scheme \<Rightarrow> u64 \<Rightarrow> u64 \<Rightarrow> 'a slab_state_scheme option" where
  "slab_free s slab ptr =
     (if ptr = NULL then Some s
      else if slab = NULL then Some s
      else
        (let c = cache_index s (sl_cache (mem s) slab);
             obj = ptr;
             s = store s obj OBJECT_POISON;
             s = store s (obj + 8) (sl_free_list (mem s) slab);
             s = store s (slab + 32) obj;
             s = store s (slab + 24) (sl_free_count (mem s) slab + 1);
             cache = cache_at s c;
             s = set_cache s c (cache\<lparr>allocated_objects := allocated_objects cache - 1\<rparr>)
         in if sl_free_count (mem s) slab = 1 then do {
              s \<leftarrow> slab_remove_from_list s slab c;
              Some (push_slab s slab c Partial)
            }
            else if sl_free_count (mem s) slab = objects_per_slab (cache_at s c) then do {
              s \<leftarrow> slab_remove_from_list s slab c;
              Some (push_slab s slab c Empty)
            }
            else Some s))"

definition slab_find_containing :: "'a slab_state_scheme \<Rightarrow> u64 \<Rightarrow> u64" where
  "slab_find_containing s ptr =
     (let slab = ptr AND NOT (2 * PAGE_FRAME_SIZE - 1) in
      if sl_magic (mem s) slab \<noteq> SLAB_MAGIC then NULL
      else if sl_cache (mem s) slab = NULL then NULL
      else
        (let cache = cache_at s (cache_index s (sl_cache (mem s) slab));
             objects_start = slab + sizeof_slab;
             objects_end = objects_start + objects_per_slab cache * object_size cache
         in if ptr \<ge> objects_start \<and> ptr < objects_end then slab else NULL))"

definition is_slab_address :: "'a slab_state_scheme \<Rightarrow> u64 \<Rightarrow> bool" where
  "is_slab_address s ptr \<longleftrightarrow> slab_find_containing s ptr \<noteq> NULL"

definition slab_alloc_size :: "'a slab_state_scheme \<Rightarrow> u64 \<Rightarrow> (u64 \<times> 'a slab_state_scheme) option" where
  "slab_alloc_size s sz =
     (case find (\<lambda>i. sz \<le> slab_sizes ! i) [0..<length slab_sizes] of
        Some i \<Rightarrow> slab_alloc s i
      | None \<Rightarrow> Some (NULL, s))"

section \<open>Returning slabs\<close>

definition slab_destroy :: "'a slab_state_scheme \<Rightarrow> u64 \<Rightarrow> 'a slab_state_scheme option" where
  "slab_destroy s slab =
     (let c = cache_index s (sl_cache (mem s) slab) in
      do {
        s \<leftarrow> slab_remove_from_list s slab c;
        let cache = cache_at s c;
        let s = set_cache s c (cache\<lparr>total_slabs := total_slabs cache - 1,
                  total_objects := total_objects cache - objects_per_slab cache\<rparr>);
        buddy_free_pages s (sl_phys_addr (mem s) slab) 1
      })"

text \<open>The first loop of \<^verbatim>\<open>slab_cache_shrink\<close> steps over at most two empty slabs.\<close>

fun shrink_keep :: "'a slab_state_scheme \<Rightarrow> nat \<Rightarrow> link \<Rightarrow> nat \<Rightarrow> link" where
  "shrink_keep s c current 0 = current"
| "shrink_keep s c current (Suc n) =
     (if sl_slot c Empty s current \<noteq> NULL
      then shrink_keep s c (NextOf (sl_slot c Empty s current)) n else current)"

partial_function (option) shrink_free ::
  "'a slab_state_scheme \<Rightarrow> nat \<Rightarrow> link \<Rightarrow> 'a slab_state_scheme option" where
  "shrink_free s c current =
     (if sl_slot c Empty s current = NULL then Some s
      else
        (let rms = sl_slot c Empty s current;
             s1 = set_sl_slot c Empty s current (sl_next (mem s) rms)
         in do {
           s2 \<leftarrow> slab_destroy s1 rms;
           shrink_free s2 c current
         }))"

definition slab_cache_shrink :: "'a slab_state_scheme \<Rightarrow> nat \<Rightarrow> 'a slab_state_scheme option" where
  "slab_cache_shrink s c = shrink_free s c (shrink_keep s c Head 2)"

text \<open>The figures of \<^verbatim>\<open>slab_print_cache_stats\<close>: free objects and utilisation in percent.\<close>

definition slab_cache_stats :: "slab_cache \<Rightarrow> u64 \<times> u64" where
  "slab_cache_stats cache =
     (total_objects cache - allocated_objects cache,
      if total_objects cache \<noteq> 0 then (allocated_objects cache * 100) div total_objects cache else 0)"

end
