(* ===== verification/Buddy_Correct.thy ===== *)
theory Buddy_Correct
  imports Buddy "HOL-Library.Disjoint_Sets"
begin

text \<open>
  Correctness of the buddy allocator. The abstract state is a map from arena and order to the
  list of physical addresses of the free blocks; \<open>buddy_wf\<close> ties it to the memory: every free
  list of the code is a linked list over exactly those blocks, blocks are aligned to their size,
  lie inside their arena, carry their own address, and no two overlap. Every operation is shown to
  keep this invariant and to change the set of free bytes by exactly the block that is handed out
  or taken back; freeing leaves no block next to its free buddy.
\<close>

section \<open>The abstract state and the invariant\<close>

type_synonym free_map = "nat \<Rightarrow> nat \<Rightarrow> u64 list"

definition brange :: "u64 \<Rightarrow> nat \<Rightarrow> nat set" where
  "brange a k = {unat a..<unat a + 2 ^ (12 + k)}"

fun blk_range :: "nat \<times> nat \<times> u64 \<Rightarrow> nat set" where
  "blk_range (i, k, a) = brange a k"

definition block_ok :: "'a buddy_state_scheme \<Rightarrow> nat \<Rightarrow> nat \<Rightarrow> u64 \<Rightarrow> bool" where
  "block_ok s i k a \<longleftrightarrow>
     k \<le> unat (max_arena_order (arena_at s i)) \<and> aligned (12 + k) a \<and> 0 < unat a
     \<and> unat (base (arena_at s i)) \<le> unat a
     \<and> unat a + 2 ^ (12 + k) \<le> unat (base (arena_at s i)) + unat (arena_length (arena_at s i))"

definition arena_ok :: "'a buddy_state_scheme \<Rightarrow> nat \<Rightarrow> bool" where
  "arena_ok s i \<longleftrightarrow>
     length (free_list (arena_at s i)) = 21 \<and> unat (max_arena_order (arena_at s i)) \<le> 20
     \<and> unat (base (arena_at s i)) + unat (arena_length (arena_at s i)) + unat (hhdm_offset s) < 2 ^ 64"

definition arena_range :: "'a buddy_state_scheme \<Rightarrow> nat \<Rightarrow> nat set" where
  "arena_range s i = {unat (base (arena_at s i))
     ..<unat (base (arena_at s i)) + unat (arena_length (arena_at s i))}"

definition free_blocks :: "'a buddy_state_scheme \<Rightarrow> free_map \<Rightarrow> (nat \<times> nat \<times> u64) set" where
  "free_blocks s FL = {(i, k, a). i < unat (buddy_arena_counter s) \<and> k \<le> 20 \<and> a \<in> set (FL i k)}"

definition free_bytes :: "'a buddy_state_scheme \<Rightarrow> free_map \<Rightarrow> nat set" where
  "free_bytes s FL = (\<Union>x\<in>free_blocks s FL. blk_range x)"

definition arenas_wf :: "'a buddy_state_scheme \<Rightarrow> bool" where
  "arenas_wf s \<longleftrightarrow> length (buddy_arenas s) = 32 \<and> unat (buddy_arena_counter s) \<le> 32
     \<and> (\<forall>i<unat (buddy_arena_counter s). arena_ok s i)
     \<and> (\<forall>i<unat (buddy_arena_counter s). \<forall>j<unat (buddy_arena_counter s).
          i \<noteq> j \<longrightarrow> arena_range s i \<inter> arena_range s j = {})"

definition buddy_wf :: "'a buddy_state_scheme \<Rightarrow> free_map \<Rightarrow> bool" where
  "buddy_wf s FL \<longleftrightarrow> arenas_wf s
     \<and> (\<forall>i<unat (buddy_arena_counter s). \<forall>k\<le>20.
          lseg (fl_slot i k s) Head (map (phys_to_virt s) (FL i k)))
     \<and> (\<forall>(i, k, a)\<in>free_blocks s FL.
          block_ok s i k a \<and> fb_phys_addr (mem s) (phys_to_virt s a) = a)
     \<and> disjoint_family_on blk_range (free_blocks s FL)"

lemma block_size_pow: "block_size k = 2 ^ (12 + k)"
  by (simp add: block_size_def push_bit_eq_mult power_add)

lemma unat_block_size [align_simps]: "k \<le> 20 \<Longrightarrow> unat (block_size k) = 2 ^ (12 + k)"
  by (simp only: block_size_pow unat_pow2)

lemma set_free_block_same [mem_simps]:
  "fb_phys_addr (set_free_block m p ord a nxt) p = a"
  "fb_next (set_free_block m p ord a nxt) p = nxt"
  by (simp_all add: fb_phys_addr_def fb_next_def set_free_block_def mem_simps disj_range_def)

lemma set_free_block_other [mem_simps]:
  assumes "page_aligned a" "page_aligned b" "a \<noteq> b"
  shows "fb_phys_addr (set_free_block m (a + h) ord x nxt) (b + h) = fb_phys_addr m (b + h)"
    and "fb_next (set_free_block m (a + h) ord x nxt) (b + h) = fb_next m (b + h)"
  using page_offsets_disjoint_mapped[OF assms, of 0 1 8 8 h] page_offsets_disjoint_mapped[OF assms, of 0 1 16 8 h]
    page_offsets_disjoint_mapped[OF assms, of 8 8 8 8 h] page_offsets_disjoint_mapped[OF assms, of 8 8 16 8 h]
    page_offsets_disjoint_mapped[OF assms, of 16 8 8 8 h] page_offsets_disjoint_mapped[OF assms, of 16 8 16 8 h]
  by (simp_all add: fb_phys_addr_def fb_next_def set_free_block_def mem_simps)

lemma set_next_other:
  assumes "page_aligned a" "page_aligned b" "a \<noteq> b"
  shows "fb_next (store64 m (a + h + 16) v) (b + h) = fb_next m (b + h)"
  using page_offsets_disjoint_mapped[OF assms, of 16 8 16 8 h]
  by (simp_all add: fb_next_def mem_simps)

lemma set_next_phys: 
  "page_aligned a \<Longrightarrow> page_aligned b \<Longrightarrow> fb_phys_addr (store64 m (a + h + 16) v) (b + h) = fb_phys_addr m (b + h)"
  apply (cases "a = b")
  subgoal by (simp add: fb_phys_addr_def mem_simps disj_range_def)
  subgoal using page_offsets_disjoint_mapped[of a b 16 8 8 8 h]
     by (simp_all add: fb_phys_addr_def mem_simps)
  done

definition same_shape :: "'a buddy_state_scheme \<Rightarrow> 'a buddy_state_scheme \<Rightarrow> bool" where
  "same_shape s t \<longleftrightarrow> hhdm_offset t = hhdm_offset s \<and> buddy_arena_counter t = buddy_arena_counter s
     \<and> length (buddy_arenas t) = length (buddy_arenas s)
     \<and> (\<forall>i. base (arena_at t i) = base (arena_at s i)
          \<and> arena_length (arena_at t i) = arena_length (arena_at s i)
          \<and> max_arena_order (arena_at t i) = max_arena_order (arena_at s i)
          \<and> length (free_list (arena_at t i)) = length (free_list (arena_at s i)))"

lemma same_shape_refl [simp]: "same_shape s s"
  by (simp add: same_shape_def)

lemma same_shape_trans: "same_shape s t \<Longrightarrow> same_shape t u \<Longrightarrow> same_shape s u"
  by (simp add: same_shape_def)

lemma same_shape_set_free_head: "same_shape s (set_free_head s i k v)"
  by (cases "i < length (buddy_arenas s)")
     (auto simp: same_shape_def set_free_head_def set_arena_def nth_list_update list_update_beyond)

lemma same_shape_mem [simp]: "same_shape s (s\<lparr>mem := m\<rparr>)"
  by (simp add: same_shape_def)

lemma same_shape_push: "same_shape s (push_free_block s i k a)"
  unfolding push_free_block_def Let_def
  by (rule same_shape_trans[OF same_shape_mem same_shape_set_free_head])

lemma same_shape_set_fl_slot: "same_shape s (set_fl_slot i k s l v)"
  by (cases l) (simp_all add: same_shape_set_free_head)

lemma same_shape_transfer:
  assumes "same_shape s t"
  shows same_shape_block_ok: "block_ok t i k a = block_ok s i k a"
    and same_shape_arena_ok: "arena_ok t i = arena_ok s i"
    and same_shape_arena_range: "arena_range t i = arena_range s i"
    and same_shape_arenas_wf: "arenas_wf t = arenas_wf s"
    and same_shape_phys_to_virt: "phys_to_virt t = phys_to_virt s"
    and same_shape_counter: "buddy_arena_counter t = buddy_arena_counter s"
    and same_shape_free_blocks: "free_blocks t FL = free_blocks s FL"
    and same_shape_free_bytes: "free_bytes t FL = free_bytes s FL"
proof -
  note d = assms[unfolded same_shape_def]
  show b: "block_ok t i k a = block_ok s i k a" "arena_ok t i = arena_ok s i" for i k a
    using d by (simp_all add: block_ok_def arena_ok_def)
  show r: "arena_range t i = arena_range s i" for i using d by (simp add: arena_range_def)
  show "arenas_wf t = arenas_wf s" using d b r by (simp add: arenas_wf_def)
  show "phys_to_virt t = phys_to_virt s" using d by (simp add: phys_to_virt_def fun_eq_iff)
  show "buddy_arena_counter t = buddy_arena_counter s" using d by simp
  show f: "free_blocks t FL = free_blocks s FL" using d by (simp add: free_blocks_def)
  show "free_bytes t FL = free_bytes s FL" unfolding free_bytes_def f ..
qed

lemmas same_shape_simps = same_shape_block_ok same_shape_arena_ok same_shape_arena_range
  same_shape_arenas_wf same_shape_phys_to_virt same_shape_counter same_shape_free_blocks
  same_shape_free_bytes

lemma mem_set_free_head [simp]: "mem (set_free_head s i k v) = mem s"
  by (simp add: set_free_head_def set_arena_def)

lemma free_list_set_free_head:
  "i < length (buddy_arenas s) \<Longrightarrow> k < length (free_list (arena_at s i)) \<Longrightarrow>
   free_list (arena_at (set_free_head s i k v) j) ! l
     = (if j = i \<and> l = k then v else free_list (arena_at s j) ! l)"
  by (auto simp: set_free_head_def set_arena_def nth_list_update)

lemma mem_push: "mem (push_free_block s i k a) =
   set_free_block (mem s) (a + hhdm_offset s) (of_nat k) a (free_list (arena_at s i) ! k)"
  by (simp add: push_free_block_def Let_def phys_to_virt_def)

lemma free_list_push:
  "i < length (buddy_arenas s) \<Longrightarrow> k < length (free_list (arena_at s i)) \<Longrightarrow>
   free_list (arena_at (push_free_block s i k a) j) ! l
     = (if j = i \<and> l = k then a + hhdm_offset s else free_list (arena_at s j) ! l)"
  by (simp add: push_free_block_def Let_def phys_to_virt_def free_list_set_free_head)

lemma brange_nonempty: "unat a \<in> brange a k"
  by (simp add: brange_def)

lemma brange_disjoint_neq: "brange a k \<inter> brange b l = {} \<Longrightarrow> a \<noteq> b"
  using brange_nonempty by blast

lemma block_ok_page: "block_ok s i k a \<Longrightarrow> page_aligned a"
  by (auto simp: block_ok_def intro: aligned_le)

lemma block_ok_virt:
  assumes "arenas_wf s" "i < unat (buddy_arena_counter s)" "block_ok s i k a"
  shows "phys_to_virt s a \<noteq> NULL"
proof -
  have "unat a + unat (hhdm_offset s) < 2 ^ 64" "0 < unat a"
    using assms by (auto simp: arenas_wf_def arena_ok_def block_ok_def)
  then have "unat (phys_to_virt s a) = unat a + unat (hhdm_offset s)"
    unfolding phys_to_virt_def by (intro unat_plus64) simp
  then show ?thesis using \<open>0 < unat a\<close> by (metis add_is_0 less_numeral_extra(3) unat_0)
qed

definition fm_upd :: "free_map \<Rightarrow> nat \<Rightarrow> nat \<Rightarrow> u64 list \<Rightarrow> free_map" where
  "fm_upd FL i k xs = FL(i := (FL i)(k := xs))"

lemma fm_upd_apply: "fm_upd FL i k xs j l = (if j = i \<and> l = k then xs else FL j l)"
  by (simp add: fm_upd_def)

lemma free_blocks_upd:
  "i < unat (buddy_arena_counter s) \<Longrightarrow> k \<le> 20 \<Longrightarrow>
   free_blocks s (fm_upd FL i k xs) = {x \<in> free_blocks s FL. fst x \<noteq> i \<or> fst (snd x) \<noteq> k} \<union> (\<lambda>a. (i, k, a)) ` set xs"
  by (auto simp: free_blocks_def fm_upd_apply split: if_splits)

lemma push_wf:
  assumes wf: "buddy_wf s FL" and i: "i < unat (buddy_arena_counter s)" and ok: "block_ok s i k a"
    and disj: "brange a k \<inter> free_bytes s FL = {}"
  shows "buddy_wf (push_free_block s i k a) (fm_upd FL i k (a # FL i k))"
    and "free_bytes (push_free_block s i k a) (fm_upd FL i k (a # FL i k)) = brange a k \<union> free_bytes s FL"
proof -
  let ?s' = "push_free_block s i k a" and ?FL' = "fm_upd FL i k (a # FL i k)"
  have aw: "arenas_wf s" using wf by (simp add: buddy_wf_def)
  have k: "k \<le> 20" using ok aw i by (auto simp: block_ok_def arenas_wf_def arena_ok_def)
  have len: "i < length (buddy_arenas s)" "\<And>j. j < unat (buddy_arena_counter s) \<Longrightarrow> length (free_list (arena_at s j)) = 21"
    using aw i by (auto simp: arenas_wf_def arena_ok_def)
  note sh = same_shape_push[of s i k a]
  have fb: "free_blocks s ?FL' = insert (i, k, a) (free_blocks s FL)"
    using i k by (auto simp: free_blocks_def fm_upd_apply split: if_splits)
  show "free_bytes ?s' ?FL' = brange a k \<union> free_bytes s FL"
    by (simp add: same_shape_simps[OF sh] free_bytes_def fb)
  have dj: "brange a k \<inter> brange b l = {}" if "(j, l, b) \<in> free_blocks s FL" for j l b
    using disj that by (fastforce simp: free_bytes_def)
  have old: "block_ok s j l b" "fb_phys_addr (mem s) (phys_to_virt s b) = b" if "(j, l, b) \<in> free_blocks s FL" for j l b
    using wf that by (auto simp: buddy_wf_def)
  have pg: "page_aligned b" "a \<noteq> b" if "(j, l, b) \<in> free_blocks s FL" for j l b
    using old(1)[OF that] dj[OF that] block_ok_page brange_disjoint_neq by blast+
  have pa: "page_aligned a" using ok by (rule block_ok_page)
  have same: "fb_phys_addr (mem ?s') (phys_to_virt s b) = fb_phys_addr (mem s) (phys_to_virt s b)"
    "fb_next (mem ?s') (phys_to_virt s b) = fb_next (mem s) (phys_to_virt s b)"
    if "(j, l, b) \<in> free_blocks s FL" for j l b
    using pg[OF that] pa by (simp_all add: mem_push phys_to_virt_def mem_simps)
  have segs: "lseg (fl_slot j l ?s') Head (map (phys_to_virt s) (?FL' j l))"
    if j: "j < unat (buddy_arena_counter s)" and l: "l \<le> 20" for j l
  proof -
    have seg: "lseg (fl_slot j l s) Head (map (phys_to_virt s) (FL j l))" 
      using wf j l by (simp add: buddy_wf_def)
    have nx: "fl_slot j l s (NextOf x) = fl_slot j l ?s' (NextOf x)" if "x \<in> set (map (phys_to_virt s) (FL j l))" for x
      using that same(2) j l by (auto simp: free_blocks_def)
    show ?thesis
    proof (cases "j = i \<and> l = k")
      case False
      then have "fl_slot j l s Head = fl_slot j l ?s' Head" using len i k by (auto simp: free_list_push)
      then have "lseg (fl_slot j l ?s') Head (map (phys_to_virt s) (FL j l))"
        using seg nx by (blast intro: lseg_cong)
      then show ?thesis using False by (auto simp: fm_upd_apply)
    next
      case True
      have "fl_slot j l ?s' (NextOf (phys_to_virt s a)) = fl_slot j l s Head"
        using True by (simp add: mem_push phys_to_virt_def mem_simps)
      then have "lseg (fl_slot j l ?s') (NextOf (phys_to_virt s a)) (map (phys_to_virt s) (FL j l))"
        using seg nx by (cases "FL j l") (auto intro: lseg_cong)
      moreover have "fl_slot j l ?s' Head = phys_to_virt s a"
        using True len i k by (simp add: free_list_push phys_to_virt_def)
      ultimately show ?thesis using True block_ok_virt[OF aw i ok] by (simp add: fm_upd_apply)
    qed
  qed
  have "(i, k, a) \<notin> free_blocks s FL" using pg by blast
  then have "disjoint_family_on blk_range (free_blocks s ?FL')"
    using wf disj unfolding fb by (subst disjoint_family_on_insert) (auto simp: buddy_wf_def free_bytes_def)
  moreover have "block_ok s j l b \<and> fb_phys_addr (mem ?s') (phys_to_virt s b) = b"
    if "(j, l, b) \<in> free_blocks s ?FL'" for j l b
    using that ok old same unfolding fb by (auto simp: mem_push phys_to_virt_def mem_simps)
  ultimately show "buddy_wf ?s' ?FL'"
    unfolding buddy_wf_def same_shape_simps[OF sh] using aw segs by blast
qed

definition node_sep :: "u64 \<Rightarrow> u64 \<Rightarrow> bool" where
  "node_sep p q \<longleftrightarrow> disj_range (p + 16) 8 (q + 16) 8"

definition list_at :: "nat \<Rightarrow> nat \<Rightarrow> 'a buddy_state_scheme \<Rightarrow> bool" where
  "list_at i k s \<longleftrightarrow> i < length (buddy_arenas s) \<and> k < length (free_list (arena_at s i))"

interpretation fl: slot_heap "fl_slot i k" "set_fl_slot i k" node_sep "list_at i k" for i k
proof
  fix h :: "'a buddy_state_scheme" and l v
  show "list_at i k h \<Longrightarrow> fl_slot i k (set_fl_slot i k h l v) l = v"
    by (cases l) (auto simp: list_at_def free_list_set_free_head fb_next_def)
qed (auto simp: node_sep_def list_at_def fb_next_def mem_simps set_free_head_def set_arena_def)

lemma node_sepI:
  "page_aligned a \<Longrightarrow> page_aligned b \<Longrightarrow> a \<noteq> b \<Longrightarrow> node_sep (phys_to_virt s a) (phys_to_virt s b)"
  using page_offsets_disjoint_mapped[of a b 16 8 16 8 "hhdm_offset s"]
  by (simp add: node_sep_def phys_to_virt_def)

lemma wf_list_at: "buddy_wf s FL \<Longrightarrow> i < unat (buddy_arena_counter s) \<Longrightarrow> k \<le> 20 \<Longrightarrow> list_at i k s"
  by (auto simp: buddy_wf_def arenas_wf_def arena_ok_def list_at_def)

lemma wf_block_ok: "buddy_wf s FL \<Longrightarrow> (i, k, a) \<in> free_blocks s FL \<Longrightarrow> block_ok s i k a"
  by (auto simp: buddy_wf_def)

lemma wf_nonzero: "buddy_wf s FL \<Longrightarrow> (i, k, a) \<in> free_blocks s FL \<Longrightarrow> a \<noteq> 0"
  using wf_block_ok[of s FL i k a] by (auto simp: block_ok_def)

lemma wf_phys_addr:
  "buddy_wf s FL \<Longrightarrow> (i, k, a) \<in> free_blocks s FL \<Longrightarrow> fb_phys_addr (mem s) (phys_to_virt s a) = a"
  by (auto simp: buddy_wf_def)

lemma wf_lseg: "buddy_wf s FL \<Longrightarrow> i < unat (buddy_arena_counter s) \<Longrightarrow> k \<le> 20
    \<Longrightarrow> lseg (fl_slot i k s) Head (map (phys_to_virt s) (FL i k))"
  by (auto simp: buddy_wf_def)

lemma wf_disjoint: "buddy_wf s FL \<Longrightarrow> x \<in> free_blocks s FL \<Longrightarrow> y \<in> free_blocks s FL \<Longrightarrow> x \<noteq> y
    \<Longrightarrow> blk_range x \<inter> blk_range y = {}"
  by (auto simp: buddy_wf_def disjoint_family_on_def)

lemma wf_distinct_addr:
  "buddy_wf s FL \<Longrightarrow> (i, k, a) \<in> free_blocks s FL \<Longrightarrow> (j, l, b) \<in> free_blocks s FL
    \<Longrightarrow> (i, k, a) \<noteq> (j, l, b) \<Longrightarrow> a \<noteq> b"
  using wf_disjoint[of s FL "(i, k, a)" "(j, l, b)"] brange_disjoint_neq by auto

lemma wf_distinct: "buddy_wf s FL \<Longrightarrow> i < unat (buddy_arena_counter s) \<Longrightarrow> k \<le> 20 \<Longrightarrow> distinct (FL i k)"
  using wf_lseg lseg_distinct distinct_map by blast

lemma unlink_wf:
  assumes wf: "buddy_wf s FL" and i: "i < unat (buddy_arena_counter s)" and k: "k \<le> 20"
    and FL: "FL i k = ys @ a # zs"
  defines "s' \<equiv> set_fl_slot i k s (slot_after Head (map (phys_to_virt s) ys)) (fb_next (mem s) (phys_to_virt s a))"
  shows "buddy_wf s' (fm_upd FL i k (ys @ zs))"
    and "free_bytes s' (fm_upd FL i k (ys @ zs)) = free_bytes s FL - brange a k"
    and "same_shape s s'"
proof -
  let ?FL' = "fm_upd FL i k (ys @ zs)" and ?l = "slot_after Head (map (phys_to_virt s) ys)"
  show sh: "same_shape s s'" unfolding s'_def by (rule same_shape_set_fl_slot)
  have in_fb: "(i, k, b) \<in> free_blocks s FL" if "b \<in> set (ys @ a # zs)" for b
    using that i k FL by (auto simp: free_blocks_def)
  have a_fb: "(i, k, a) \<in> free_blocks s FL" by (rule in_fb) simp
  have dist: "a \<notin> set ys \<union> set zs" using wf_distinct[OF wf i k] FL by auto
  have fb: "free_blocks s ?FL' = free_blocks s FL - {(i, k, a)}"
    using i k FL dist by (auto simp: free_blocks_def fm_upd_apply split: if_splits)
  have pg: "page_aligned b" if "(j, l, b) \<in> free_blocks s FL" for j l b
    using wf_block_ok[OF wf that] by (rule block_ok_page)
  have mem': "mem s' = (if ys = [] then mem s
      else store64 (mem s) (phys_to_virt s (last ys) + 16) (fb_next (mem s) (phys_to_virt s a)))"
    by (cases "ys = []") (simp_all add: s'_def slot_after_cases last_map)
  have phys: "fb_phys_addr (mem s') (phys_to_virt s b) = fb_phys_addr (mem s) (phys_to_virt s b)"
    if "(j, l, b) \<in> free_blocks s FL" for j l b
    using pg[OF that] pg[OF in_fb, of "last ys"]
    by (auto simp: mem' phys_to_virt_def set_next_phys)
  have nxt: "fb_next (mem s') (phys_to_virt s b) = fb_next (mem s) (phys_to_virt s b)"
    if b: "(j, l, b) \<in> free_blocks s FL" and "(j, l) \<noteq> (i, k)" for j l b
  proof (cases "ys = []")
    case False
    then have y: "(i, k, last ys) \<in> free_blocks s FL" by (intro in_fb) simp
    have "last ys \<noteq> b" using wf_distinct_addr[OF wf y b] that(2) by auto
    then show ?thesis using False pg[OF y] pg[OF b] by (simp add: mem' phys_to_virt_def set_next_other)
  qed (simp add: mem')
  have segs: "lseg (fl_slot j l s') Head (map (phys_to_virt s) (?FL' j l))"
    if j: "j < unat (buddy_arena_counter s)" and l: "l \<le> 20" for j l
  proof (cases "(j, l) = (i, k)")
    case True
    have "lseg (fl_slot i k s') Head (map (phys_to_virt s) ys @ map (phys_to_virt s) zs)"
      unfolding s'_def fl_slot.simps(2)[of i k s, symmetric]
    proof (rule fl.lseg_unlink)
      show "lseg (fl_slot i k s) Head (map (phys_to_virt s) ys @ phys_to_virt s a # map (phys_to_virt s) zs)"
        using wf_lseg[OF wf i k] FL by simp
      show "list_at i k s" using wf_list_at[OF wf i k] .
      fix p q assume pq: "p \<in> set (map (phys_to_virt s) ys @ phys_to_virt s a # map (phys_to_virt s) zs)"
        "q \<in> set (map (phys_to_virt s) ys @ phys_to_virt s a # map (phys_to_virt s) zs)" "p \<noteq> q"
      then obtain b c where "p = phys_to_virt s b" "b \<in> set (ys @ a # zs)" "q = phys_to_virt s c" "c \<in> set (ys @ a # zs)"
        by auto
      then show "node_sep p q" using pq(3) pg[OF in_fb, of b] pg[OF in_fb, of c] by (auto intro!: node_sepI)
    qed
    then show ?thesis using True by (auto simp: fm_upd_apply)
  next
    case False
    have "fl_slot j l s Head = fl_slot j l s' Head"
      using False wf_list_at[OF wf i k] unfolding s'_def slot_after_cases list_at_def
      by (auto simp: free_list_set_free_head)
    moreover have "fl_slot j l s (NextOf x) = fl_slot j l s' (NextOf x)" if "x \<in> set (map (phys_to_virt s) (FL j l))" for x
      using that nxt[of j l] False j l by (auto simp: free_blocks_def)
    ultimately have "lseg (fl_slot j l s') Head (map (phys_to_virt s) (FL j l))"
      using wf_lseg[OF wf j l] by (blast intro: lseg_cong)
    then show ?thesis using False by (auto simp: fm_upd_apply)
  qed
  show "buddy_wf s' ?FL'"
    unfolding buddy_wf_def same_shape_simps[OF sh] fb
    using wf segs phys by (auto simp: buddy_wf_def disjoint_family_on_def)
  have "blk_range (i, k, a) \<inter> (\<Union>x\<in>free_blocks s FL - {(i, k, a)}. blk_range x) = {}"
    using wf_disjoint[OF wf a_fb] by fastforce
  moreover have "free_bytes s FL = blk_range (i, k, a) \<union> (\<Union>x\<in>free_blocks s FL - {(i, k, a)}. blk_range x)"
    using a_fb unfolding free_bytes_def by blast
  ultimately show "free_bytes s' ?FL' = free_bytes s FL - brange a k"
    unfolding same_shape_simps[OF sh] by (auto simp: free_bytes_def fb)
qed

lemma free_blocks_arena: "(i, k, a) \<in> free_blocks s FL \<Longrightarrow> i < unat (buddy_arena_counter s)"
  by (simp add: free_blocks_def)

lemma free_bytes_sup: "(i, k, a) \<in> free_blocks s FL \<Longrightarrow> brange a k \<subseteq> free_bytes s FL"
  by (force simp: free_bytes_def)

definition writes_only :: "'a buddy_state_scheme \<Rightarrow> 'a buddy_state_scheme \<Rightarrow> nat set \<Rightarrow> bool" where
  "writes_only s t X \<longleftrightarrow> (\<forall>x. unat (x - hhdm_offset s) \<notin> X \<longrightarrow> mem t x = mem s x)"

lemma writes_only_refl [simp]: "writes_only s s X"
  by (simp add: writes_only_def)

lemma writes_only_mono: "writes_only s t X \<Longrightarrow> X \<subseteq> Y \<Longrightarrow> writes_only s t Y"
  by (auto simp: writes_only_def)

lemma writes_only_trans:
  "same_shape s t \<Longrightarrow> writes_only s t X \<Longrightarrow> writes_only t u Y \<Longrightarrow> writes_only s u (X \<union> Y)"
  by (auto simp: writes_only_def same_shape_def)

lemma in_page_block:
  assumes "aligned (12 + k) a" "d < 4096"
  shows "unat (a + d) \<in> brange a k"
proof -
  have "page_aligned a" using assms(1) by (rule aligned_le) simp
  moreover have "unat d + unat (1::u64) \<le> 4096"
    using assms(2) by (simp add: word_less_nat_alt)
  ultimately have "unat (a + d) = unat a + unat d"
    by (rule page_offset_unat) simp
  moreover have "unat d < 2 ^ 12" using assms(2) by (simp add: word_less_nat_alt)
  moreover have "(2 ^ 12 :: nat) \<le> 2 ^ (12 + k)" by (rule power_increasing) simp_all
  ultimately show ?thesis by (auto simp: brange_def)
qed

lemma in_page_block_field:
  assumes "aligned (12 + k) a" "x - (a + h + off) < n" "unat off + unat n \<le> 4096"
  shows "unat (x - h) \<in> brange a k"
proof -
  have "unat (off + d) \<le> unat off + unat d" for d :: u64
    by (simp add: unat_word_ariths)
  from this[of "x - (a + h + off)"]
  have "off + (x - (a + h + off)) < 4096"
    using assms(2,3) by (simp add: word_less_nat_alt)
  then have "unat (a + (off + (x - (a + h + off)))) \<in> brange a k"
    using assms(1) by (intro in_page_block)
  then show ?thesis by (simp add: algebra_simps)
qed

lemma writes_only_push:
  assumes "aligned (12 + k) a"
  shows "writes_only s (push_free_block s i k a) (brange a k)"
  unfolding writes_only_def
proof (intro allI impI)
  fix x assume x: "unat (x - hhdm_offset s) \<notin> brange a k"
  have "\<not> x - (a + hhdm_offset s + off) < n" if "unat off + unat n \<le> 4096" for off n
    using x in_page_block_field[OF assms _ that] by blast
  from this[of 0 1] this[of 8 8] this[of 16 8]
  show "mem (push_free_block s i k a) x = mem s x"
    by (simp add: mem_push set_free_block_def store64_outside store8_outside)
qed

lemma writes_only_unlink:
  assumes wf: "buddy_wf s FL" and i: "i < unat (buddy_arena_counter s)" and k: "k \<le> 20"
    and FL: "FL i k = ys @ a # zs"
  shows "writes_only s (set_fl_slot i k s (slot_after Head (map (phys_to_virt s) ys)) v) (free_bytes s FL)"
proof (cases "ys = []")
  case False
  then have "(i, k, last ys) \<in> free_blocks s FL" using i k FL by (auto simp: free_blocks_def)
  then have al: "aligned (12 + k) (last ys)" and sub: "brange (last ys) k \<subseteq> free_bytes s FL"
    using wf_block_ok[OF wf] free_bytes_sup[of i k "last ys" s FL] by (auto simp: block_ok_def)
  have "mem (set_fl_slot i k s (slot_after Head (map (phys_to_virt s) ys)) v) =
    store64 (mem s) (last ys + hhdm_offset s + 16) v"
    using False by (simp add: slot_after_cases last_map phys_to_virt_def)
  then show ?thesis
    using sub in_page_block_field[OF al, of _ "hhdm_offset s" 16 8]
    by (auto simp: writes_only_def store64_def)
qed (simp add: writes_only_def)

lemma pow13: "(2 :: nat) ^ (13 + j) = 2 * 2 ^ (12 + j)"
  by (simp add: power_add)

lemma block_ok_right_half:
  assumes ok: "block_ok s i (Suc j) addr" and aw: "arena_ok s i"
  shows "block_ok s i j (addr + block_size j)" "block_ok s i j addr"
    "unat (addr + block_size j) = unat addr + 2 ^ (12 + j)"
proof -
  have j: "j \<le> 20" using ok aw by (auto simp: block_ok_def arena_ok_def)
  have fit: "unat addr + 2 ^ (12 + Suc j) < 2 ^ 64" using ok aw by (simp add: block_ok_def arena_ok_def)
  then have "unat addr + 2 ^ (12 + j) < 2 ^ 64" by (simp add: pow13)
  then show u: "unat (addr + block_size j) = unat addr + 2 ^ (12 + j)"
    using j by (subst unat_plus64) (simp_all add: unat_block_size)
  have al: "aligned (12 + j) addr" using ok by (auto simp: block_ok_def intro: aligned_le)
  then have "aligned (12 + j) (addr + block_size j)" unfolding aligned_def u by simp
  then show "block_ok s i j (addr + block_size j)" "block_ok s i j addr"
    using ok al u by (auto simp: block_ok_def pow13)
qed

lemma split_wf:
  assumes "buddy_wf s FL" "i < unat (buddy_arena_counter s)" "order \<le> j" "block_ok s i j addr"
    and "brange addr j \<inter> free_bytes s FL = {}"
  shows "\<exists>FL'. buddy_wf (split_blocks s i addr (rev [order..<j])) FL'
    \<and> free_bytes (split_blocks s i addr (rev [order..<j])) FL' = free_bytes s FL \<union> (brange addr j - brange addr order)
    \<and> same_shape s (split_blocks s i addr (rev [order..<j]))
    \<and> writes_only s (split_blocks s i addr (rev [order..<j])) (brange addr j)"
  using assms
proof (induction j arbitrary: s FL)
  case 0
  then show ?case by (intro exI[of _ FL]) simp
next
  case (Suc j)
  show ?case
  proof (cases "order = Suc j")
    case True
    then show ?thesis using Suc.prems by (intro exI[of _ FL]) simp
  next
    case False
    let ?s = "push_free_block s i j (addr + block_size j)"
    let ?FL = "fm_upd FL i j ((addr + block_size j) # FL i j)"
    have ok: "arena_ok s i" using Suc.prems by (simp add: buddy_wf_def arenas_wf_def)
    note half = block_ok_right_half[OF Suc.prems(4) ok]
    have ranges: "brange addr (Suc j) = brange addr j \<union> brange (addr + block_size j) j"
      "brange addr j \<inter> brange (addr + block_size j) j = {}"
      using half(3) by (auto simp: brange_def pow13)
    have sh: "same_shape s ?s" by (rule same_shape_push)
    have p: "buddy_wf ?s ?FL" "free_bytes ?s ?FL = brange (addr + block_size j) j \<union> free_bytes s FL"
      using push_wf[OF Suc.prems(1,2) half(1)] Suc.prems(5) ranges by auto
    have "\<exists>FL'. buddy_wf (split_blocks ?s i addr (rev [order..<j])) FL'
      \<and> free_bytes (split_blocks ?s i addr (rev [order..<j])) FL' = free_bytes ?s ?FL \<union> (brange addr j - brange addr order)
      \<and> same_shape ?s (split_blocks ?s i addr (rev [order..<j]))
      \<and> writes_only ?s (split_blocks ?s i addr (rev [order..<j])) (brange addr j)"
      using Suc.prems False p ranges half(2)
      by (intro Suc.IH) (auto simp: same_shape_simps[OF sh])
    then obtain FL' where IH: "buddy_wf (split_blocks ?s i addr (rev [order..<j])) FL'"
      "free_bytes (split_blocks ?s i addr (rev [order..<j])) FL' = free_bytes ?s ?FL \<union> (brange addr j - brange addr order)"
      "same_shape ?s (split_blocks ?s i addr (rev [order..<j]))"
      "writes_only ?s (split_blocks ?s i addr (rev [order..<j])) (brange addr j)"
      by blast
    have eq: "split_blocks s i addr (rev [order..<Suc j]) = split_blocks ?s i addr (rev [order..<j])"
      using Suc.prems(3) False by simp
    have ord: "brange addr order \<subseteq> brange addr j"
    proof -
      have "(2 ^ (12 + order) :: nat) \<le> 2 ^ (12 + j)" using Suc.prems(3) False by (intro power_increasing) simp_all
      then show ?thesis by (auto simp: brange_def)
    qed
    have "writes_only s ?s (brange (addr + block_size j) j)"
      using half(1) by (intro writes_only_push) (simp add: block_ok_def)
    from writes_only_trans[OF sh this IH(4)]
    have "writes_only s (split_blocks ?s i addr (rev [order..<j])) (brange addr (Suc j))"
      unfolding ranges by (simp add: Un_commute)
    moreover have "free_bytes ?s ?FL \<union> (brange addr j - brange addr order) = free_bytes s FL \<union> (brange addr (Suc j) - brange addr order)"
      using p(2) ranges ord by blast
    ultimately show ?thesis unfolding eq using IH same_shape_trans[OF sh IH(3)] by metis
  qed
qed

lemma wf_head_cases:
  assumes "buddy_wf s FL" "i < unat (buddy_arena_counter s)" "k \<le> 20"
  obtains (empty) "free_list (arena_at s i) ! k = NULL" "FL i k = []"
  | (block) a as where "free_list (arena_at s i) ! k = phys_to_virt s a" "FL i k = a # as"
      "free_list (arena_at s i) ! k \<noteq> NULL"
      "fb_phys_addr (mem s) (phys_to_virt s a) = a" "(i, k, a) \<in> free_blocks s FL"
proof (cases "FL i k")
  case Nil
  then show thesis using wf_lseg[OF assms] by (intro empty) simp_all
next
  case (Cons a as)
  have "(i, k, a) \<in> free_blocks s FL" using Cons assms by (simp add: free_blocks_def)
  then show thesis using wf_lseg[OF assms] Cons wf_phys_addr[OF assms(1)] by (intro block) auto
qed

lemma pop_wf:
  assumes "buddy_wf s FL" "i < unat (buddy_arena_counter s)" "k \<le> 20" "FL i k = a # as"
  defines "t \<equiv> set_free_head s i k (fb_next (mem s) (phys_to_virt s a))"
  shows "buddy_wf t (fm_upd FL i k as)" "free_bytes t (fm_upd FL i k as) = free_bytes s FL - brange a k"
    "same_shape s t" "writes_only s t X"
  using unlink_wf[OF assms(1-3), of "[]" a as] assms(4) by (simp_all add: t_def writes_only_def)

definition alloc_post ::
  "'a buddy_state_scheme \<Rightarrow> free_map \<Rightarrow> nat \<Rightarrow> u64 \<Rightarrow> 'a buddy_state_scheme \<Rightarrow> bool" where
  "alloc_post s FL order p t \<longleftrightarrow>
     (\<exists>i j. order \<le> j \<and> (i, j, p) \<in> free_blocks s FL)
     \<and> (\<exists>FL'. buddy_wf t FL' \<and> free_bytes t FL' = free_bytes s FL - brange p order)
     \<and> same_shape s t \<and> writes_only s t (free_bytes s FL)"

lemma find_in_upt: "find P [m..<n] = Some j \<Longrightarrow> P j \<and> m \<le> j \<and> j < n"
  by (auto simp: find_Some_iff)

lemma find_not_in_upt: "find P [m..<n] = None \<Longrightarrow> m \<le> j \<Longrightarrow> j < n \<Longrightarrow> \<not> P j"
  by (auto simp: find_None_iff)

lemma find_upt_unique:
  assumes "i < n" "P i" "\<And>j. j < n \<Longrightarrow> P j \<Longrightarrow> j = i"
  shows "find P [0..<n] = Some i"
proof (cases "find P [0..<n]")
  case None
  then show ?thesis using find_not_in_upt[OF None, of i] assms(1,2) by simp
next
  case (Some j)
  then have "j = i" using find_in_upt[OF Some] by (intro assms(3)) simp_all
  then show ?thesis using Some by simp
qed

lemma alloc_split_post:
  assumes wf: "buddy_wf s FL" and i: "i < unat (buddy_arena_counter s)" and j: "order \<le> j" "j \<le> 20"
    and FL: "FL i j = a # as"
  shows "alloc_post s FL order a
    (split_blocks (set_free_head s i j (fb_next (mem s) (phys_to_virt s a))) i a (rev [order..<j]))"
proof -
  let ?s = "set_free_head s i j (fb_next (mem s) (phys_to_virt s a))" and ?FL = "fm_upd FL i j as"
  note pop = pop_wf[OF wf i j(2) FL]
  have in_fb: "(i, j, a) \<in> free_blocks s FL" using FL i j by (simp add: free_blocks_def)
  note sub = free_bytes_sup[OF in_fb]
  have "brange a j \<inter> free_bytes ?s ?FL = {}" using pop(2) by blast
  then obtain FL' where sp: "buddy_wf (split_blocks ?s i a (rev [order..<j])) FL'"
    "free_bytes (split_blocks ?s i a (rev [order..<j])) FL' = free_bytes ?s ?FL \<union> (brange a j - brange a order)"
    "same_shape ?s (split_blocks ?s i a (rev [order..<j]))"
    "writes_only ?s (split_blocks ?s i a (rev [order..<j])) (brange a j)"
    using split_wf[OF pop(1) _ j(1), of i a] i wf_block_ok[OF wf in_fb]
    by (auto simp: same_shape_simps[OF pop(3)])
  have "(2 ^ (12 + order) :: nat) \<le> 2 ^ (12 + j)" using j by (intro power_increasing) simp_all
  then have "brange a order \<subseteq> brange a j" by (auto simp: brange_def)
  then have "free_bytes (split_blocks ?s i a (rev [order..<j])) FL' = free_bytes s FL - brange a order"
    using sp(2) pop(2) sub by blast
  moreover have "writes_only s (split_blocks ?s i a (rev [order..<j])) (free_bytes s FL)"
    using writes_only_trans[OF pop(3) pop(4)[of "{}"] sp(4)] sub by (auto elim: writes_only_mono)
  ultimately show ?thesis
    using sp in_fb j same_shape_trans[OF pop(3) sp(3)] unfolding alloc_post_def by blast
qed

lemma alloc_from_arena_post:
  assumes wf: "buddy_wf s FL" and i: "i < unat (buddy_arena_counter s)" and o: "order \<le> 20"
  shows "case alloc_from_arena s i order of
      None \<Rightarrow> (\<forall>k a. (i, k, a) \<in> free_blocks s FL \<longrightarrow> k < order)
    | Some (p, t) \<Rightarrow> alloc_post s FL order p t"
proof -
  let ?max = "unat (max_arena_order (arena_at s i))"
  have max: "?max \<le> 20" using wf i by (auto simp: buddy_wf_def arenas_wf_def arena_ok_def)
  show ?thesis using wf i o
  proof (cases rule: wf_head_cases)
    case (block a as)
    then show ?thesis using alloc_split_post[OF wf i order.refl o block(2)]
      by (simp add: alloc_from_arena_def Let_def)
  next
    case empty
    show ?thesis
    proof (cases "find (\<lambda>j. free_list (arena_at s i) ! j \<noteq> NULL) [order + 1..<?max + 1]")
      case None
      have "k < order" if "(i, k, a) \<in> free_blocks s FL" for k a
      proof (rule ccontr)
        assume "\<not> k < order"
        moreover have "k \<le> ?max" using wf_block_ok[OF wf that] by (simp add: block_ok_def)
        moreover have "k \<noteq> order" using that empty(2) by (auto simp: free_blocks_def)
        ultimately have "free_list (arena_at s i) ! k = NULL"
          using find_not_in_upt[OF None, of k] by simp
        then show False using that lseg_NULL[of "fl_slot i k s" Head] wf_lseg[OF wf i, of k]
          by (auto simp: free_blocks_def)
      qed
      then show ?thesis using empty None by (simp add: alloc_from_arena_def Let_def)
    next
      case (Some j)
      then have j: "free_list (arena_at s i) ! j \<noteq> NULL" "order \<le> j" "j \<le> 20"
        using find_in_upt[OF Some] max by auto
      from wf i j(3) show ?thesis
      proof (cases rule: wf_head_cases)
        case (block a as)
        then show ?thesis using alloc_split_post[OF wf i j(2,3) block(2)] Some empty
          by (simp add: alloc_from_arena_def Let_def)
      qed (use j in simp)
    qed
  qed
qed

lemma alloc_arenas_post:
  assumes wf: "buddy_wf s FL" and o: "order \<le> 20" 
  shows "set is \<subseteq> {..<unat (buddy_arena_counter s)} \<Longrightarrow> 
    (case alloc_arenas s order is of (p, t) \<Rightarrow>
      (if p = 0 then t = s \<and> (\<forall>i k a. i \<in> set is \<longrightarrow> (i, k, a) \<in> free_blocks s FL \<longrightarrow> k < order)
       else alloc_post s FL order p t))"
proof (induction "is")
  case (Cons i "is")
  then have i: "i < unat (buddy_arena_counter s)" by simp
  show ?case
  proof (cases "alloc_from_arena s i order")
    case None
    then show ?thesis using Cons alloc_from_arena_post[OF wf i o]
      by (auto split: prod.splits if_splits)
  next
    case (Some r)
    then obtain p t where r: "r = (p, t)" "alloc_post s FL order p t"
      using alloc_from_arena_post[OF wf i o] by (cases r) auto
    moreover have "p \<noteq> 0" using r(2) wf_nonzero[OF wf] by (auto simp: alloc_post_def)
    ultimately show ?thesis using Some by simp
  qed
qed simp

lemma buddy_alloc_pages_post:
  assumes wf: "buddy_wf s FL" and o: "unat order \<le> 20" and r: "buddy_alloc_pages s order = (p, t)"
  shows "if p = 0 then t = s \<and> (\<forall>i k a. (i, k, a) \<in> free_blocks s FL \<longrightarrow> k < unat order)
         else alloc_post s FL (unat order) p t"
proof -
  have "set [0..<unat (buddy_arena_counter s)] \<subseteq> {..<unat (buddy_arena_counter s)}" by auto
  moreover have "alloc_arenas s (unat order) [0..<unat (buddy_arena_counter s)] = (p, t)"
    using r o by (simp add: buddy_alloc_pages_def MAX_SUPPORTED_ORDER_def)
  ultimately show ?thesis
    using alloc_arenas_post[OF wf o, of "[0..<unat (buddy_arena_counter s)]"]
    by (auto split: if_splits) (blast dest: free_blocks_arena)
qed

lemma alloc_post_block:
  assumes wf: "buddy_wf s FL" and post: "alloc_post s FL order p t"
  shows "\<exists>i<unat (buddy_arena_counter s). block_ok s i order p" and "brange p order \<subseteq> free_bytes s FL"
    and "aligned (12 + order) p"
proof -
  obtain i j where ij: "order \<le> j" "(i, j, p) \<in> free_blocks s FL" using post by (auto simp: alloc_post_def)
  have ok: "block_ok s i j p" using wf ij(2) by (rule wf_block_ok)
  have le: "(2 :: nat) ^ (12 + order) \<le> 2 ^ (12 + j)" using ij(1) by (intro power_increasing) simp_all
  have "block_ok s i order p"
    using ok ij(1) le_trans[OF add_left_mono[OF le, of "unat p"]] aligned_le[of "12 + j" p "12 + order"]
    by (simp add: block_ok_def)
  then show "\<exists>i<unat (buddy_arena_counter s). block_ok s i order p" and "aligned (12 + order) p"
    using free_blocks_arena[OF ij(2)] by (auto simp: block_ok_def)
  have "brange p order \<subseteq> brange p j" using le by (auto simp: brange_def)
  then show "brange p order \<subseteq> free_bytes s FL" using free_bytes_sup[OF ij(2)] by blast
qed

lemma buddy_range:
  assumes "aligned (12 + k) p" "k \<le> 20" 
  shows "unat (p XOR block_size k) = (if aligned (13 + k) p then unat p + 2 ^ (12 + k) else unat p - 2 ^ (12 + k))"
    and "\<not> aligned (13 + k) p \<Longrightarrow> 2 ^ (12 + k) \<le> unat p"
    and "aligned (12 + k) (p XOR block_size k)"
    and "aligned (13 + k) (p XOR block_size k) \<longleftrightarrow> \<not> aligned (13 + k) p"
proof -
  have bit: "aligned (13 + k) p \<longleftrightarrow> \<not> bit (unat p) (12 + k)"
    using aligned_Suc_iff[of "12 + k" p] assms(1) by simp
  show u: "unat (p XOR block_size k) = (if aligned (13 + k) p then unat p + 2 ^ (12 + k) else unat p - 2 ^ (12 + k))"
    using unat_xor_pow2[of "12 + k" p] assms(2) bit by (simp add: block_size_pow)
  show ge: "2 ^ (12 + k) \<le> unat p" if "\<not> aligned (13 + k) p"
  proof -
    have "odd (unat p div 2 ^ (12 + k))" using that bit by (simp add: bit_nat_iff_odd)
    then have "0 < unat p div 2 ^ (12 + k)" by (rule odd_pos)
    then show ?thesis by (simp add: div_greater_zero_iff)
  qed
  show al: "aligned (12 + k) (p XOR block_size k)"
    using assms(1) u by (auto simp: aligned_def)
  have "bit (unat (p XOR block_size k)) (12 + k) \<longleftrightarrow> \<not> bit (unat p) (12 + k)"
    using assms(2) by (simp add: block_size_pow bit_unsigned_iff bit_simps)
  then show "aligned (13 + k) (p XOR block_size k) \<longleftrightarrow> \<not> aligned (13 + k) p"
    using aligned_Suc_iff[of "12 + k" "p XOR block_size k"] al bit by simp
qed

lemma merge_ok:
  assumes p: "block_ok s i k p" and b: "block_ok s i k (p XOR block_size k)"
    and k: "k < unat (max_arena_order (arena_at s i))" "unat (max_arena_order (arena_at s i)) \<le> 20"
  defines "m \<equiv> (if p XOR block_size k < p then p XOR block_size k else p)"
  shows "block_ok s i (Suc k) m" "brange m (Suc k) = brange p k \<union> brange (p XOR block_size k) k"
proof -
  have al: "aligned (12 + k) p" and k20: "k \<le> 20" using p k by (auto simp: block_ok_def)
  note r = buddy_range[OF al k20]
  have "unat p - 2 ^ (12 + k) < unat p" if "\<not> aligned (13 + k) p"
    using p by (simp add: block_ok_def)
  then have m: "m = (if aligned (13 + k) p then p else p XOR block_size k)"
    using r(1,2) by (auto simp: m_def word_less_nat_alt split: if_splits)
  show "brange m (Suc k) = brange p k \<union> brange (p XOR block_size k) k"
    using r(1,2) unfolding m brange_def by (cases "aligned (13 + k) p") (auto simp: pow13)
  have fits: "unat m + 2 * 2 ^ (12 + k) \<le> unat (base (arena_at s i)) + unat (arena_length (arena_at s i))"
    using p b r(1,2) unfolding m block_ok_def by (cases "aligned (13 + k) p") simp_all
  have "aligned (13 + k) m" using r(4) unfolding m by simp
  moreover have "block_ok s i k m" using p b unfolding m by simp
  ultimately show "block_ok s i (Suc k) m"
    using k(1) fits by (simp add: block_ok_def pow13)
qed

definition fm_sub :: "free_map \<Rightarrow> free_map \<Rightarrow> bool" where
  "fm_sub FL' FL \<longleftrightarrow> (\<forall>j l. set (FL' j l) \<subseteq> set (FL j l))"

text \<open>No free block below its arena's maximal order has a free buddy.\<close>

definition coalesced :: "'a buddy_state_scheme \<Rightarrow> free_map \<Rightarrow> bool" where
  "coalesced s FL \<longleftrightarrow> (\<forall>(i, k, a)\<in>free_blocks s FL.
     k < unat (max_arena_order (arena_at s i)) \<longrightarrow> a XOR block_size k \<notin> set (FL i k))"

lemma unlink_buddy_spec:
  assumes wf: "buddy_wf s FL" and i: "i < unat (buddy_arena_counter s)" and k: "k \<le> 20"
  shows "b \<notin> set (FL i k) \<Longrightarrow> unlink_buddy s i k b = Some (False, s)"
    and "b \<in> set (FL i k) \<Longrightarrow> \<exists>t FL'. unlink_buddy s i k b = Some (True, t) \<and> buddy_wf t FL'
      \<and> free_bytes t FL' = free_bytes s FL - brange b k \<and> same_shape s t \<and> writes_only s t (free_bytes s FL)
      \<and> fm_sub FL' FL"
proof -
  note seg = wf_lseg[OF wf i k]
  have phys: "fb_phys_addr (mem s) (phys_to_virt s a) = a" if "a \<in> set (FL i k)" for a
    using wf_phys_addr[OF wf, of i k a] that i k by (simp add: free_blocks_def)
  show "unlink_buddy s i k b = Some (False, s)" if "b \<notin> set (FL i k)"
  proof -
    have "\<forall>x\<in>set (map (phys_to_virt s) (FL i k)). fb_phys_addr (mem s) x \<noteq> b"
      using phys that by auto
    from find_slot_None[OF seg this] show ?thesis by (simp add: unlink_buddy_def)
  qed
  show "\<exists>t FL'. unlink_buddy s i k b = Some (True, t) \<and> buddy_wf t FL'
      \<and> free_bytes t FL' = free_bytes s FL - brange b k \<and> same_shape s t \<and> writes_only s t (free_bytes s FL)
      \<and> fm_sub FL' FL"
    if b: "b \<in> set (FL i k)"
  proof -
    obtain ys zs where FL: "FL i k = ys @ b # zs" "b \<notin> set ys" using split_list_first[OF b] by blast
    let ?l = "slot_after Head (map (phys_to_virt s) ys)"
    have "find_slot (fl_slot i k s) (\<lambda>p. fb_phys_addr (mem s) p = b) Head = Some (Some ?l)"
      using seg phys FL by (intro find_slot_Some[of _ _ _ "phys_to_virt s b" "map (phys_to_virt s) zs"]) auto
    moreover have "fl_slot i k s ?l = phys_to_virt s b"
      using lseg_suffix[of "fl_slot i k s" Head "map (phys_to_virt s) ys"] seg FL(1) by fastforce
    ultimately have "unlink_buddy s i k b = Some (True, set_fl_slot i k s ?l (fb_next (mem s) (phys_to_virt s b)))"
      by (simp add: unlink_buddy_def)
    moreover have "fm_sub (fm_upd FL i k (ys @ zs)) FL" using FL(1) by (auto simp: fm_sub_def fm_upd_apply)
    ultimately show ?thesis using unlink_wf[OF wf i k FL(1)] writes_only_unlink[OF wf i k FL(1)] by blast
  qed
qed

definition coalesce_post ::
  "'a buddy_state_scheme \<Rightarrow> free_map \<Rightarrow> nat \<Rightarrow> u64 \<Rightarrow> nat \<Rightarrow> 'a buddy_state_scheme \<times> u64 \<times> nat \<Rightarrow> bool" where
  "coalesce_post s FL i p order r \<longleftrightarrow> (case r of (t, a, k) \<Rightarrow>
     order \<le> k \<and> same_shape s t \<and> writes_only s t (free_bytes s FL) \<and> block_ok s i k a
     \<and> (\<exists>FL'. buddy_wf t FL' \<and> fm_sub FL' FL \<and> brange a k \<inter> free_bytes t FL' = {}
          \<and> brange a k \<union> free_bytes t FL' = brange p order \<union> free_bytes s FL
          \<and> (k < unat (max_arena_order (arena_at s i)) \<longrightarrow> a XOR block_size k \<notin> set (FL' i k))))"

lemma coalesce_loop_post:
  assumes "buddy_wf s FL" "i < unat (buddy_arena_counter s)" "block_ok s i order p"
    and "brange p order \<inter> free_bytes s FL = {}"
  shows "\<exists>r. coalesce_loop s i p order = Some r \<and> coalesce_post s FL i p order r"
  using assms
proof (induction "unat (max_arena_order (arena_at s i)) - order" arbitrary: s FL p order)
  case 0
  then have "coalesce_loop s i p order = Some (s, p, order)"
    by (simp add: coalesce_loop.simps)
  then show ?case using 0 by (auto simp: coalesce_post_def fm_sub_def)
next
  case (Suc n)
  let ?max = "unat (max_arena_order (arena_at s i))" and ?b = "p XOR block_size order"
  have max: "order < ?max" "?max \<le> 20"
    using Suc.hyps(2) Suc.prems(1,2) by (auto simp: buddy_wf_def arenas_wf_def arena_ok_def)
  then have o: "order \<le> 20" by simp
  note un = unlink_buddy_spec[OF Suc.prems(1,2) o, of ?b]
  show ?case
  proof (cases "?b \<in> set (FL i order)")
    case False
    then have "coalesce_loop s i p order = Some (s, p, order)"
      using un(1) max by (simp add: coalesce_loop.simps)
    then show ?thesis using Suc.prems False by (auto simp: coalesce_post_def fm_sub_def)
  next
    case True
    then obtain t FL' where t: "unlink_buddy s i order ?b = Some (True, t)" "buddy_wf t FL'"
      "free_bytes t FL' = free_bytes s FL - brange ?b order" "same_shape s t" "writes_only s t (free_bytes s FL)"
      "fm_sub FL' FL" using un(2) by blast
    have b: "(i, order, ?b) \<in> free_blocks s FL" using True Suc.prems(2) o by (simp add: free_blocks_def)
    define m where "m = (if ?b < p then ?b else p)"
    note mg = merge_ok[OF Suc.prems(3) wf_block_ok[OF Suc.prems(1) b] max, folded m_def]
    have "\<exists>r. coalesce_loop t i m (Suc order) = Some r \<and> coalesce_post t FL' i m (Suc order) r"
    proof (rule Suc.hyps(1))
      show "n = unat (max_arena_order (arena_at t i)) - Suc order"
        using Suc.hyps(2) t(4) by (simp add: same_shape_def)
      show "brange m (Suc order) \<inter> free_bytes t FL' = {}"
        using mg(2) t(3) Suc.prems(4) by blast
    qed (use mg(1) t Suc.prems(2) in \<open>simp_all add: same_shape_simps[OF t(4)]\<close>)
    then obtain r where r: "coalesce_loop t i m (Suc order) = Some r" "coalesce_post t FL' i m (Suc order) r"
      by blast
    have "coalesce_loop s i p order = Some r"
      using r(1) t(1) max(1) by (simp add: coalesce_loop.simps[of s i p order] m_def)
    moreover have "coalesce_post s FL i p order r"
    proof -
      obtain u a k where rr: "r = (u, a, k)" by (cases r) auto
      have un: "brange m (Suc order) \<union> free_bytes t FL' = brange p order \<union> free_bytes s FL"
        using mg(2) t(3) free_bytes_sup[OF b] by blast
      have "writes_only t u (free_bytes t FL')" using r(2) by (simp add: rr coalesce_post_def)
      from writes_only_trans[OF t(4,5) this] have "writes_only s u (free_bytes s FL)"
        by (rule writes_only_mono) (simp add: t(3) Diff_subset)
      moreover have "fm_sub FL'' FL" if "fm_sub FL'' FL'" for FL'' using that t(6) unfolding fm_sub_def by blast
      ultimately show ?thesis
        using r(2) t(4) same_shape_trans[OF t(4)] unfolding rr coalesce_post_def un
        by (auto simp: same_shape_simps[OF t(4)] same_shape_def)
    qed
    ultimately show ?thesis by blast
  qed
qed

lemma find_arena_Some:
  assumes "buddy_wf s FL" "i < unat (buddy_arena_counter s)" "block_ok s i k a"
  shows "find_arena s a = Some i"
proof -
  let ?in = "\<lambda>j. a \<ge> base (arena_at s j) \<and> a < base (arena_at s j) + arena_length (arena_at s j)"
  have range: "?in j \<longleftrightarrow> unat a \<in> arena_range s j" if "j < unat (buddy_arena_counter s)" for j
  proof -
    have "unat (base (arena_at s j)) + unat (arena_length (arena_at s j)) < 2 ^ 64"
      using assms(1) that by (auto simp: buddy_wf_def arenas_wf_def arena_ok_def)
    then have "unat (base (arena_at s j) + arena_length (arena_at s j))
        = unat (base (arena_at s j)) + unat (arena_length (arena_at s j))"
      by (intro unat_plus64) simp
    then show ?thesis by (auto simp: arena_range_def word_le_nat_alt word_less_nat_alt)
  qed
  have "0 < (2 :: nat) ^ (12 + k)" by simp
  then have "unat a < unat (base (arena_at s i)) + unat (arena_length (arena_at s i))"
    using assms(3) unfolding block_ok_def by linarith
  then have "unat a \<in> arena_range s i"
    using assms(3) by (simp add: block_ok_def arena_range_def)
  moreover have "j = i" if "j < unat (buddy_arena_counter s)" "unat a \<in> arena_range s j" for j
    using assms(1,2) that \<open>unat a \<in> arena_range s i\<close> unfolding buddy_wf_def arenas_wf_def by blast
  ultimately show ?thesis
    unfolding find_arena_def using range assms(2) by (intro find_upt_unique) blast+
qed

lemma xor_block_size_cancel: "(a XOR block_size k) XOR block_size k = a"
  by (simp add: xor.assoc)

lemma xor_block_size_neq: "k \<le> 20 \<Longrightarrow> a XOR block_size k \<noteq> a"
proof
  assume k: "k \<le> 20" and "a XOR block_size k = a"
  then have "block_size k = 0" by (metis xor.left_neutral xor_self_eq xor.assoc)
  then show False using unat_block_size[OF k] by simp
qed

text \<open>Linking a block whose buddy is not free keeps the lists coalesced.\<close>

lemma coalesced_push:
  assumes c: "coalesced s FL" and sub: "fm_sub FL' FL" and sh: "same_shape s t" and k: "k \<le> 20"
    and nb: "k < unat (max_arena_order (arena_at s i)) \<Longrightarrow> a XOR block_size k \<notin> set (FL' i k)"
  shows "coalesced t (fm_upd FL' i k (a # FL' i k))"
proof -
  have max: "max_arena_order (arena_at t j) = max_arena_order (arena_at s j)" for j
    using sh by (simp add: same_shape_def)
  have "b XOR block_size l \<notin> set (fm_upd FL' i k (a # FL' i k) j l)"
    if b: "(j, l, b) \<in> free_blocks t (fm_upd FL' i k (a # FL' i k))"
      and l: "l < unat (max_arena_order (arena_at s j))" for j l b
  proof -
    have old: "b XOR block_size l \<notin> set (FL' j l)" if "b \<in> set (FL' j l)"
    proof -
      have "(j, l, b) \<in> free_blocks s FL"
        using b that sub sh by (auto simp: free_blocks_def fm_sub_def same_shape_def)
      then have "b XOR block_size l \<notin> set (FL j l)" using c l unfolding coalesced_def by blast
      then show ?thesis using sub unfolding fm_sub_def by blast
    qed
    show ?thesis
    proof (cases "j = i \<and> l = k")
      case True
      then have kmax: "k < unat (max_arena_order (arena_at s i))" using l by simp
      consider "b = a" | "b \<in> set (FL' i k)" using b True by (auto simp: free_blocks_def fm_upd_apply)
      then show ?thesis
      proof cases
        case 1
        then show ?thesis using nb[OF kmax] True xor_block_size_neq[OF k] by (simp add: fm_upd_apply)
      next
        case 2
        then have "b XOR block_size k \<noteq> a"
          using nb[OF kmax] xor_block_size_cancel[of b k] by metis
        then show ?thesis using old 2 True by (simp add: fm_upd_apply)
      qed
    next
      case False
      then show ?thesis using b old by (auto simp: free_blocks_def fm_upd_apply split: if_splits)
    qed
  qed
  then show ?thesis unfolding coalesced_def max by blast
qed

definition free_post :: "'a buddy_state_scheme \<Rightarrow> free_map \<Rightarrow> nat \<Rightarrow> u64 \<Rightarrow> 'a buddy_state_scheme \<Rightarrow> bool" where
  "free_post s FL order p t \<longleftrightarrow>
     (\<exists>FL'. buddy_wf t FL' \<and> free_bytes t FL' = free_bytes s FL \<union> brange p order
        \<and> (coalesced s FL \<longrightarrow> coalesced t FL'))
     \<and> same_shape s t \<and> writes_only s t (free_bytes s FL \<union> brange p order)"

lemma buddy_free_pages_post:
  assumes wf: "buddy_wf s FL" and i: "i < unat (buddy_arena_counter s)"
    and ok: "block_ok s i (unat order) p" and disj: "brange p (unat order) \<inter> free_bytes s FL = {}"
  shows "\<exists>t. buddy_free_pages s p order = Some t \<and> free_post s FL (unat order) p t"
proof -
  have o: "unat order \<le> 20" using wf i ok by (auto simp: buddy_wf_def arenas_wf_def arena_ok_def block_ok_def)
  obtain u a k where c: "coalesce_loop s i p (unat order) = Some (u, a, k)"
    and post: "coalesce_post s FL i p (unat order) (u, a, k)"
    using coalesce_loop_post[OF assms] by auto
  let ?t = "push_free_block u i k a"
  have eq: "buddy_free_pages s p order = Some ?t"
    using c o find_arena_Some[OF wf i ok] by (simp add: buddy_free_pages_def MAX_SUPPORTED_ORDER_def)
  obtain FL' where FL': "buddy_wf u FL'" "brange a k \<inter> free_bytes u FL' = {}"
    "brange a k \<union> free_bytes u FL' = brange p (unat order) \<union> free_bytes s FL"
    "fm_sub FL' FL" "k < unat (max_arena_order (arena_at s i)) \<Longrightarrow> a XOR block_size k \<notin> set (FL' i k)"
    and sh: "same_shape s u" and wr: "writes_only s u (free_bytes s FL)" and aok: "block_ok s i k a"
    using post by (auto simp: coalesce_post_def)
  have k20: "k \<le> 20" using wf i aok by (auto simp: buddy_wf_def arenas_wf_def arena_ok_def block_ok_def)
  note push = push_wf[OF FL'(1) _ _ FL'(2), of i]
  have "writes_only s ?t (free_bytes s FL \<union> brange a k)"
    using aok by (intro writes_only_trans[OF sh wr] writes_only_push) (simp add: block_ok_def)
  then have "writes_only s ?t (free_bytes s FL \<union> brange p (unat order))"
    by (rule writes_only_mono) (use FL'(3) in blast)
  moreover have sht: "same_shape s ?t" using sh same_shape_push by (rule same_shape_trans)
  moreover have "coalesced s FL \<Longrightarrow> coalesced ?t (fm_upd FL' i k (a # FL' i k))"
    using coalesced_push[OF _ FL'(4) sht k20] FL'(5) by blast
  moreover have "buddy_wf ?t (fm_upd FL' i k (a # FL' i k))"
    "free_bytes ?t (fm_upd FL' i k (a # FL' i k)) = free_bytes s FL \<union> brange p (unat order)"
    using push FL'(3) i aok by (auto simp: same_shape_simps[OF sh])
  ultimately show ?thesis using eq unfolding free_post_def by blast
qed

section \<open>A concrete arena\<close>

text \<open>One arena of four pages at 1 MiB, all free, seen through the direct map of x86-64.\<close>

definition sample_arena :: buddy_state where
  "sample_arena = \<lparr>mem = (\<lambda>_. 0), hhdm_offset = 0xFFFF800000000000,
     buddy_arenas = (replicate 32 \<lparr>base = 0, arena_length = 0, max_arena_order = 0,
       free_list = replicate 21 NULL\<rparr>)[0 := \<lparr>base = 0x100000, arena_length = 0x4000,
       max_arena_order = 2, free_list = replicate 21 NULL\<rparr>],
     buddy_arena_counter = 1\<rparr>"

definition sample_buddy :: buddy_state where
  "sample_buddy = push_free_block sample_arena 0 2 0x100000"

definition sample_free :: free_map where
  "sample_free = fm_upd (\<lambda>_ _. []) 0 2 [0x100000]"

lemma sample_arena_wf: "buddy_wf sample_arena (\<lambda>_ _. [])"
  by (simp add: buddy_wf_def arenas_wf_def arena_ok_def free_blocks_def sample_arena_def
      disjoint_family_on_def)

lemma sample_wf: "buddy_wf sample_buddy sample_free"
    and sample_bytes: "free_bytes sample_buddy sample_free = {0x100000..<0x104000}"
proof -
  have ok: "block_ok sample_arena 0 2 0x100000"
    by (simp add: block_ok_def aligned_def sample_arena_def)
  have fb: "free_bytes sample_arena (\<lambda>_ _. []) = {}" by (simp add: free_bytes_def free_blocks_def)
  note p = push_wf[OF sample_arena_wf _ ok]
  show "buddy_wf sample_buddy sample_free"
    unfolding sample_buddy_def sample_free_def using p(1) fb by (simp add: sample_arena_def)
  show "free_bytes sample_buddy sample_free = {0x100000..<0x104000}"
    unfolding sample_buddy_def sample_free_def using p(2) fb by (simp add: sample_arena_def brange_def)
qed

section \<open>The allocator's contract\<close>

text \<open>C4: \<^verbatim>\<open>buddy_alloc_pages\<close> on a well-formed allocator. It returns 0 only when no free
  block of the requested order or above exists, and then changes nothing. Otherwise the returned
  block is aligned to its size, was entirely free before, and afterwards exactly its bytes are no
  longer free; the free lists stay well formed and no byte outside free memory is written.\<close>

theorem buddy_alloc_pages_correct:
  assumes "buddy_wf s FL" "unat order \<le> 20" "buddy_alloc_pages s order = (p, t)"
  shows "(p = 0 \<longrightarrow> t = s \<and> (\<forall>i k a. (i, k, a) \<in> free_blocks s FL \<longrightarrow> k < unat order))
    \<and> (p \<noteq> 0 \<longrightarrow> aligned (12 + unat order) p \<and> brange p (unat order) \<subseteq> free_bytes s FL
        \<and> (\<exists>FL'. buddy_wf t FL' \<and> free_bytes t FL' = free_bytes s FL - brange p (unat order))
        \<and> writes_only s t (free_bytes s FL))"
  using buddy_alloc_pages_post[OF assms] alloc_post_block[OF assms(1), of "unat order" p t]
  by (auto simp: alloc_post_def)

theorem buddy_alloc_pages_correct_witness:
  "buddy_wf sample_buddy sample_free \<and> fst (buddy_alloc_pages sample_buddy 0) = 0x100000
    \<and> (\<exists>FL'. buddy_wf (snd (buddy_alloc_pages sample_buddy 0)) FL'
        \<and> free_bytes (snd (buddy_alloc_pages sample_buddy 0)) FL' = {0x101000..<0x104000})"
proof -
  have p: "fst (buddy_alloc_pages sample_buddy 0) = 0x100000" by code_simp
  have "{0x100000..<0x104000} - brange 0x100000 0 = {0x101000..<0x104000}" by (auto simp: brange_def)
  then show ?thesis
    using buddy_alloc_pages_correct[OF sample_wf, of 0 "0x100000" "snd (buddy_alloc_pages sample_buddy 0)"] p sample_wf
    by (simp add: sample_bytes prod_eq_iff)
qed

text \<open>C5: \<^verbatim>\<open>buddy_free_pages\<close> of an allocated block (aligned, inside an arena, not overlapping
  free memory) always returns; exactly the block's bytes become free again, the lists stay well
  formed, and if no free block had a free buddy before, none has one afterwards: merging is
  maximal. Only free memory and the freed block are written.\<close>

theorem buddy_free_pages_correct:
  assumes "buddy_wf s FL" "i < unat (buddy_arena_counter s)" "block_ok s i (unat order) p"
    and "brange p (unat order) \<inter> free_bytes s FL = {}"
  shows "\<exists>t FL'. buddy_free_pages s p order = Some t \<and> buddy_wf t FL'
    \<and> free_bytes t FL' = free_bytes s FL \<union> brange p (unat order)
    \<and> (coalesced s FL \<longrightarrow> coalesced t FL')
    \<and> writes_only s t (free_bytes s FL \<union> brange p (unat order))"
  using buddy_free_pages_post[OF assms] unfolding free_post_def by blast

theorem buddy_free_pages_correct_witness:
  "\<exists>t FL'. buddy_free_pages sample_arena 0x102000 1 = Some t \<and> buddy_wf t FL'
    \<and> free_bytes t FL' = {0x102000..<0x104000} \<and> coalesced t FL'"
proof -
  have fb: "free_bytes sample_arena (\<lambda>_ _. []) = {}" "coalesced sample_arena (\<lambda>_ _. [])"
    by (simp_all add: free_bytes_def free_blocks_def coalesced_def)
  have "block_ok sample_arena 0 (unat (1 :: u8)) 0x102000" "0 < unat (buddy_arena_counter sample_arena)"
    by (simp_all add: sample_arena_def block_ok_def aligned_def)
  then show ?thesis
    using buddy_free_pages_correct[OF sample_arena_wf, of 0 1 "0x102000"] fb by (auto simp: brange_def)
qed

text \<open>C6: Allocating a block and freeing it again always succeeds and restores the set of free
  bytes, whatever splitting and merging happened in between.\<close>

theorem buddy_alloc_free_roundtrip:
  assumes "buddy_wf s FL" "unat order \<le> 20" "buddy_alloc_pages s order = (p, t)" "p \<noteq> 0"
  shows "\<exists>u FL'. buddy_free_pages t p order = Some u \<and> buddy_wf u FL' \<and> free_bytes u FL' = free_bytes s FL"
proof -
  have post: "alloc_post s FL (unat order) p t" using buddy_alloc_pages_post[OF assms(1-3)] assms(4) by simp
  then obtain FL' where FL': "buddy_wf t FL'" "free_bytes t FL' = free_bytes s FL - brange p (unat order)"
    and sh: "same_shape s t" by (auto simp: alloc_post_def)
  obtain i where i: "i < unat (buddy_arena_counter s)" "block_ok s i (unat order) p"
    and sub: "brange p (unat order) \<subseteq> free_bytes s FL"
    using alloc_post_block[OF assms(1) post] by blast
  have "\<exists>u. buddy_free_pages t p order = Some u \<and> free_post t FL' (unat order) p u"
    using i FL'(2) by (intro buddy_free_pages_post[OF FL'(1), of i]) (auto simp: same_shape_simps[OF sh])
  moreover have "free_bytes t FL' \<union> brange p (unat order) = free_bytes s FL" using FL'(2) sub by blast
  ultimately show ?thesis unfolding free_post_def by metis
qed

theorem buddy_alloc_free_roundtrip_witness:
  "\<exists>u FL'. buddy_free_pages (snd (buddy_alloc_pages sample_buddy 1)) 0x100000 1 = Some u
     \<and> buddy_wf u FL' \<and> free_bytes u FL' = {0x100000..<0x104000}"
proof -
  have "fst (buddy_alloc_pages sample_buddy 1) = 0x100000" by code_simp
  then show ?thesis
    using buddy_alloc_free_roundtrip[OF sample_wf, of 1 "0x100000" "snd (buddy_alloc_pages sample_buddy 1)"]
    by (simp add: sample_bytes prod_eq_iff)
qed

end
