(* ===== verification/Klib.thy ===== *)
theory Klib
  imports Memory "HOL-Library.Signed_Division"
begin

text \<open>
  The kernel's C library (\<^verbatim>\<open>kernel/kernel/klib/string.c\<close>, \<^verbatim>\<open>utils.c\<close>, \<^verbatim>\<open>stdio.c\<close>) over byte memory:
  block operations, C strings, tokenising and number formatting. \<open>write_bytes\<close> (a list of bytes
  placed in memory) and \<open>cstr\<close> (a terminated string) are the specification vocabulary; the loops
  over strings return \<open>None\<close> when no terminator is ever met.
\<close>

section \<open>Memory blocks\<close>

definition memcpy :: "memory \<Rightarrow> u64 \<Rightarrow> u64 \<Rightarrow> u64 \<Rightarrow> memory" where
  "memcpy m dst src sz =
     foldl (\<lambda>m i. store8 m (dst + of_nat i) (load8 m (src + of_nat i))) m [0..<unat sz]"

definition memset :: "memory \<Rightarrow> u64 \<Rightarrow> 32 word \<Rightarrow> u64 \<Rightarrow> memory" where
  "memset m buf val sz = foldl (\<lambda>m i. store8 m (buf + of_nat i) (ucast val)) m [0..<unat sz]"

fun memcmp_loop :: "memory \<Rightarrow> u64 \<Rightarrow> u64 \<Rightarrow> nat list \<Rightarrow> int" where
  "memcmp_loop m a b [] = 0"
| "memcmp_loop m a b (i # is) =
     (if load8 m (a + of_nat i) < load8 m (b + of_nat i) then -1
      else if load8 m (b + of_nat i) < load8 m (a + of_nat i) then 1
      else memcmp_loop m a b is)"

definition memcmp :: "memory \<Rightarrow> u64 \<Rightarrow> u64 \<Rightarrow> u64 \<Rightarrow> int" where
  "memcmp m aptr bptr sz = memcmp_loop m aptr bptr [0..<unat sz]"

definition memmove :: "memory \<Rightarrow> u64 \<Rightarrow> u64 \<Rightarrow> u64 \<Rightarrow> memory" where
  "memmove m dst src sz =
     (if dst < src
      then foldl (\<lambda>m i. store8 m (dst + of_nat i) (load8 m (src + of_nat i))) m [0..<unat sz]
      else foldl (\<lambda>m i. store8 m (dst + of_nat (i - 1)) (load8 m (src + of_nat (i - 1)))) m
             (rev [1..<unat sz + 1]))"

section \<open>Strings\<close>

partial_function (option) strlen_loop :: "memory \<Rightarrow> u64 \<Rightarrow> u64 \<Rightarrow> u64 option" where
  "strlen_loop m str len =
     (if load8 m (str + len) \<noteq> 0 then strlen_loop m str (len + 1) else Some len)"

definition strlen :: "memory \<Rightarrow> u64 \<Rightarrow> u64 option" where
  "strlen m str = strlen_loop m str 0"

partial_function (option) strcmp :: "memory \<Rightarrow> u64 \<Rightarrow> u64 \<Rightarrow> int option" where
  "strcmp m s1 s2 =
     (if load8 m s1 = load8 m s2 \<and> load8 m s1 \<noteq> 0 then strcmp m (s1 + 1) (s2 + 1)
      else Some (uint (load8 m s1) - uint (load8 m s2)))"

partial_function (option) strchr :: "memory \<Rightarrow> u64 \<Rightarrow> u8 \<Rightarrow> u64 option" where
  "strchr m str ch =
     (if load8 m str = ch then Some str
      else if load8 m str = 0 then Some NULL
      else strchr m (str + 1) ch)"

text \<open>The scan \<^verbatim>\<open>while (*token && !strchr(delim, *token)) token++\<close>.\<close>

partial_function (option) tok_scan :: "memory \<Rightarrow> u64 \<Rightarrow> u64 \<Rightarrow> u64 option" where
  "tok_scan m delim token =
     (if load8 m token = 0 then Some token
      else do {
        hit \<leftarrow> strchr m delim (load8 m token);
        (if hit = NULL then tok_scan m delim (token + 1) else Some token)
      })"

text \<open>\<^verbatim>\<open>kstrtok_r\<close>: the returned token, the new \<^verbatim>\<open>*saveptr\<close> and the memory.\<close>

definition kstrtok_r ::
  "memory \<Rightarrow> u64 \<Rightarrow> u64 \<Rightarrow> u64 \<Rightarrow> (u64 \<times> u64 \<times> memory) option" where
  "kstrtok_r m str delim saveptr =
     (if str = NULL \<and> (saveptr = NULL \<or> load8 m saveptr = 0) then Some (NULL, saveptr, m)
      else
        (let saveptr = (if str \<noteq> NULL then str else saveptr) in
         do {
           token \<leftarrow> tok_scan m delim saveptr;
           let result = saveptr;
           (if load8 m token = 0 then Some (result, token, m)
            else Some (result, token + 1, store8 m token 0))
         }))"

section \<open>Number formatting\<close>

function reverse_loop :: "memory \<Rightarrow> u64 \<Rightarrow> u64 \<Rightarrow> u64 \<Rightarrow> memory" where
  "reverse_loop m str start en =
     (if start < en
      then reverse_loop (store8 (store8 m (str + start) (load8 m (str + en))) (str + en)
             (load8 m (str + start))) str (start + 1) (en - 1)
      else m)"
  by auto
termination
  by (relation "measure (\<lambda>(m, str, start, en). unat en - unat start)")
     (auto simp: unat_add1_less unat_sub1 le_less_trans word_less_nat_alt intro: le_less_trans)

declare reverse_loop.simps [simp del]

definition reverse_str :: "memory \<Rightarrow> u64 \<Rightarrow> memory option" where
  "reverse_str m str = do {
     n \<leftarrow> strlen m str;
     Some (reverse_loop m str 0 (n - 1))
   }"

definition hex_digits :: "u8 list" where
  "hex_digits = [0x30, 0x31, 0x32, 0x33, 0x34, 0x35, 0x36, 0x37, 0x38, 0x39,
     0x41, 0x42, 0x43, 0x44, 0x45, 0x46]"

function hex_loop :: "memory \<Rightarrow> u64 \<Rightarrow> u64 \<Rightarrow> nat \<Rightarrow> memory \<times> nat" where
  "hex_loop m val str index =
     (if val > 0
      then hex_loop (store8 m (str + of_nat index) (hex_digits ! unat (val AND 0xF)))
             (drop_bit 4 val) str (index + 1)
      else (m, index))"
  by auto
termination
  by (relation "measure (\<lambda>(m, val, str, index). unat val)")
     (auto simp: word_less_nat_alt unat_drop_bit_eq drop_bit_nat_def)

declare hex_loop.simps [simp del]

definition ui64_to_hex_str :: "memory \<Rightarrow> u64 \<Rightarrow> u64 \<Rightarrow> (nat \<times> memory) option" where
  "ui64_to_hex_str m val str =
     (if val = 0 then Some (1, store8 (store8 m str 0x30) (str + 1) 0)
      else
        (let (m1, index) = hex_loop m val str 0;
             m2 = store8 m1 (str + of_nat index) 0
         in do {
           m3 \<leftarrow> reverse_str m2 str;
           Some (index, m3)
         }))"

function dec_loop :: "memory \<Rightarrow> u64 \<Rightarrow> u64 \<Rightarrow> nat \<Rightarrow> memory \<times> nat" where
  "dec_loop m val str index =
     (if val > 0
      then dec_loop (store8 m (str + of_nat index) (0x30 + ucast (val mod 10)))
             (val div 10) str (index + 1)
      else (m, index))"
  by auto
termination
  by (relation "measure (\<lambda>(m, val, str, index). unat val)")
     (auto simp: word_less_nat_alt unat_div)

declare dec_loop.simps [simp del]

definition ul_to_str :: "memory \<Rightarrow> u64 \<Rightarrow> u64 \<Rightarrow> (nat \<times> memory) option" where
  "ul_to_str m val str =
     (let (m1, i) = (if val = 0 then (store8 m str 0x30, 1) else dec_loop m val str 0);
          m2 = store8 m1 (str + of_nat i) 0
      in do {
        m3 \<leftarrow> reverse_str m2 str;
        Some (i, m3)
      })"

text \<open>The loop \<^verbatim>\<open>do str[index++] = i % 10 + '0'; while ((i /= 10) > 0)\<close> with C's truncating division.\<close>

function itoa_loop :: "memory \<Rightarrow> int \<Rightarrow> u64 \<Rightarrow> nat \<Rightarrow> memory \<times> nat" where
  "itoa_loop m i str index =
     (let m1 = store8 m (str + of_nat index) (of_int (i smod 10 + 0x30)) in
      if i sdiv 10 > 0 then itoa_loop m1 (i sdiv 10) str (index + 1) else (m1, index + 1))"
  by auto
termination
  by (relation "measure (\<lambda>(m, i, str, index). nat i)")
     (auto simp: signed_divide_int_def sgn_if split: if_splits)

declare itoa_loop.simps [simp del]

text \<open>\<^verbatim>\<open>itoa\<close>: the negation wraps at 32 bits, as compiled code does for the smallest int.\<close>

definition itoa :: "memory \<Rightarrow> int \<Rightarrow> u64 \<Rightarrow> (nat \<times> memory) option" where
  "itoa m i str =
     (let neg = i < 0;
          i1 = (if neg then signed_take_bit 31 (- i) else i);
          (m1, n1) = itoa_loop m i1 str 0;
          (m2, n2) = (if neg then (store8 m1 (str + of_nat n1) 0x2D, n1 + 1) else (m1, n1));
          m3 = store8 m2 (str + of_nat n2) 0
      in do {
        m4 \<leftarrow> reverse_str m3 str;
        Some (n2, m4)
      })"


section \<open>Memory blocks as lists of bytes\<close>

definition bytes_at :: "memory \<Rightarrow> u64 \<Rightarrow> nat \<Rightarrow> u8 list" where
  "bytes_at m a n = map (\<lambda>i. m (a + of_nat i)) [0..<n]"

definition write_bytes :: "memory \<Rightarrow> u64 \<Rightarrow> u8 list \<Rightarrow> memory" where
  "write_bytes m a xs = (\<lambda>x. if unat (x - a) < length xs then xs ! unat (x - a) else m x)"

lemma unat_of_nat64: "i < 18446744073709551616 \<Longrightarrow> unat (of_nat i :: u64) = i"
  by (simp add: unat_of_nat)

lemma bytes_at_length [simp]: "length (bytes_at m a n) = n"
  by (simp add: bytes_at_def)

lemma write_bytes_Nil [simp]: "write_bytes m a [] = m"
  by (simp add: write_bytes_def)

lemma write_bytes_at: "i < length xs \<Longrightarrow> length xs \<le> 18446744073709551616 \<Longrightarrow> write_bytes m a xs (a + of_nat i) = xs ! i"
  by (simp add: write_bytes_def unat_of_nat64)

lemma bytes_at_write_bytes: "length xs \<le> 18446744073709551616 \<Longrightarrow> bytes_at (write_bytes m a xs) a (length xs) = xs"
  by (rule nth_equalityI) (simp_all add: bytes_at_def write_bytes_at)

lemma addr_eq_iff: "n < 18446744073709551616 \<Longrightarrow> x = a + of_nat n \<longleftrightarrow> unat (x - a) = n" for x a :: u64
  by (auto simp: unat_of_nat64)

lemma store8_write_bytes:
  "length xs < 18446744073709551616 \<Longrightarrow> store8 (write_bytes m a xs) (a + of_nat (length xs)) v = write_bytes m a (xs @ [v])"
  by (rule ext) (auto simp: store8_def write_bytes_def addr_eq_iff nth_append)

lemma unat_sub_self: "unat (x - a) < n \<Longrightarrow> x = a + of_nat (unat (x - a))" for x a :: u64
  by simp

lemma store_fold_up:
  "n \<le> 18446744073709551616 \<Longrightarrow> foldl (\<lambda>m i. store8 m (a + of_nat i) (f i)) m [0..<n] = write_bytes m a (map f [0..<n])"
proof (induction n)
  case (Suc n)
  then show ?case using store8_write_bytes[of "map f [0..<n]" m a "f n"] by simp
qed simp

lemma memset_write: "memset m buf val sz = write_bytes m buf (replicate (unat sz) (ucast val))"
  using store_fold_up[of "unat sz" buf "\<lambda>_. ucast val" m] less_imp_le[OF unat_lt64[of sz]]
  by (simp add: memset_def map_replicate_const)

section \<open>Overlapping copies\<close>

lemma offset_unat: "unat a + i < 18446744073709551616 \<Longrightarrow> unat (a + of_nat i :: u64) = unat a + i"
  using unat_plus64[of a "of_nat i"] by (simp add: unat_of_nat64)

lemma copy_up:
  assumes "unat dst < unat src \<or> (\<forall>i<n. \<forall>j<n. dst + of_nat i \<noteq> src + of_nat j)"
    and "unat src + n \<le> 18446744073709551616" "unat dst + n \<le> 18446744073709551616"
  shows "foldl (\<lambda>m i. store8 m (dst + of_nat i) (load8 m (src + of_nat i))) m [0..<n]
    = write_bytes m dst (bytes_at m src n)"
  using assms
proof (induction n)
  case (Suc n)
  have small: "n < 18446744073709551616" using Suc.prems(2) by simp
  have "\<not> unat (src + of_nat n - dst) < n"
  proof
    assume lt: "unat (src + of_nat n - dst) < n"
    let ?i = "unat (src + of_nat n - dst)"
    have eq: "src + of_nat n = dst + of_nat ?i" by simp
    then have "unat src + n = unat dst + ?i"
      using offset_unat[of src n] offset_unat[of dst ?i] Suc.prems(2,3) lt by simp
    then have "\<not> unat dst < unat src" using lt by linarith
    then show False using Suc.prems(1) eq lt by (metis less_SucI lessI)
  qed
  then have old: "write_bytes m dst (bytes_at m src n) (src + of_nat n) = m (src + of_nat n)"
    by (simp add: write_bytes_def)
  have "foldl (\<lambda>m i. store8 m (dst + of_nat i) (load8 m (src + of_nat i))) m [0..<n] = write_bytes m dst (bytes_at m src n)"
    using Suc.prems by (intro Suc.IH) auto
  then have "foldl (\<lambda>m i. store8 m (dst + of_nat i) (load8 m (src + of_nat i))) m [0..<Suc n]
    = store8 (write_bytes m dst (bytes_at m src n)) (dst + of_nat n) (m (src + of_nat n))"
    using old by (simp add: load8_def)
  also have "\<dots> = write_bytes m dst (bytes_at m src (Suc n))"
    using store8_write_bytes[of "bytes_at m src n" m dst] small by (simp add: bytes_at_def)
  finally show ?case .
qed (simp add: bytes_at_def)

lemma copy_down:
  assumes "unat src \<le> unat dst" "unat dst + n \<le> 18446744073709551616"
  shows "foldl (\<lambda>m i. store8 m (dst + of_nat (i - 1)) (load8 m (src + of_nat (i - 1)))) m (rev [1..<n + 1])
    = write_bytes m dst (bytes_at m src n)"
  using assms
proof (induction n arbitrary: m)
  case (Suc n)
  let ?m = "store8 m (dst + of_nat n) (m (src + of_nat n))"
  have small: "n < 18446744073709551616" using Suc.prems(2) by simp
  have rev: "rev [1..<Suc n + 1] = Suc n # rev [1..<n + 1]" by simp
  have "src + of_nat j \<noteq> dst + of_nat n" if "j < n" for j
    using offset_unat[of src j] offset_unat[of dst n] Suc.prems that by (auto simp: word_unat_eq_iff)
  then have src: "bytes_at ?m src n = bytes_at m src n"
    by (simp add: bytes_at_def store8_def)
  have "write_bytes ?m dst (bytes_at m src n) = store8 (write_bytes m dst (bytes_at m src n)) (dst + of_nat n) (m (src + of_nat n))"
    using small by (intro ext) (auto simp: store8_def write_bytes_def addr_eq_iff)
  also have "\<dots> = write_bytes m dst (bytes_at m src (Suc n))"
    using store8_write_bytes[of "bytes_at m src n" m dst] small by (simp add: bytes_at_def)
  finally have wr: "write_bytes ?m dst (bytes_at m src n) = write_bytes m dst (bytes_at m src (Suc n))" .
  show ?case
    unfolding rev foldl.simps using Suc.IH[of ?m] Suc.prems src wr by (simp add: load8_def)
qed (simp add: bytes_at_def)

lemma memmove_write:
  assumes "unat src + unat sz \<le> 18446744073709551616" "unat dst + unat sz \<le> 18446744073709551616"
  shows "memmove m dst src sz = write_bytes m dst (bytes_at m src (unat sz))"
proof (cases "dst < src")
  case True
  then show ?thesis using copy_up[of dst src "unat sz" m] assms by (simp add: memmove_def word_less_nat_alt)
next
  case False
  then show ?thesis using copy_down[of src dst "unat sz" m] assms by (simp add: memmove_def word_less_nat_alt not_less)
qed

lemma memcpy_write:
  assumes "unat src + unat sz \<le> 18446744073709551616" "unat dst + unat sz \<le> 18446744073709551616"
    and "\<forall>i<unat sz. \<forall>j<unat sz. dst + of_nat i \<noteq> src + of_nat j"
  shows "memcpy m dst src sz = write_bytes m dst (bytes_at m src (unat sz))"
  using copy_up[of dst src "unat sz" m] assms by (simp add: memcpy_def)

section \<open>C strings\<close>

definition cstr :: "memory \<Rightarrow> u64 \<Rightarrow> u8 list \<Rightarrow> bool" where
  "cstr m a xs \<longleftrightarrow> length xs < 18446744073709551615 \<and> 0 \<notin> set xs
     \<and> bytes_at m a (length xs + 1) = xs @ [0]"

lemma cstr_nth: "cstr m a xs \<Longrightarrow> i \<le> length xs \<Longrightarrow> m (a + of_nat i) = (xs @ [0]) ! i"
proof -
  assume c: "cstr m a xs" and i: "i \<le> length xs"
  have "bytes_at m a (length xs + 1) ! i = m (a + of_nat i)" using i by (simp add: bytes_at_def del: upt_Suc)
  then show ?thesis using c by (simp add: cstr_def)
qed

lemma cstr_end: "cstr m a xs \<Longrightarrow> m (a + of_nat (length xs)) = 0"
  by (simp add: cstr_nth nth_append)

lemma cstr_char: "cstr m a xs \<Longrightarrow> i < length xs \<Longrightarrow> m (a + of_nat i) = xs ! i \<and> m (a + of_nat i) \<noteq> 0"
  by (auto simp: cstr_nth nth_append cstr_def in_set_conv_nth)

lemma cstrI:
  "length xs < 18446744073709551615 \<Longrightarrow> 0 \<notin> set xs \<Longrightarrow> (\<And>i. i < length xs \<Longrightarrow> m (a + of_nat i) = xs ! i)
    \<Longrightarrow> m (a + of_nat (length xs)) = 0 \<Longrightarrow> cstr m a xs"
  unfolding cstr_def by (intro conjI nth_equalityI) (auto simp: bytes_at_def nth_append less_Suc_eq simp del: upt_Suc)

lemma cstr_write_bytes:
  "length xs < 18446744073709551615 \<Longrightarrow> 0 \<notin> set xs \<Longrightarrow> cstr (write_bytes m a (xs @ [0])) a xs"
  by (rule cstrI) (auto simp: write_bytes_at nth_append)

lemma cstr_Nil: "cstr m a [] \<longleftrightarrow> m a = 0"
  by (simp add: cstr_def bytes_at_def)

lemma cstr_Cons: "cstr m a (x # xs) \<longleftrightarrow> m a = x \<and> x \<noteq> 0 \<and> cstr m (a + 1) xs \<and> length xs < 18446744073709551614"
proof -
  have "bytes_at m a (length (x # xs) + 1) = m a # bytes_at m (a + 1) (length xs + 1)"
    by (simp add: bytes_at_def upt_conv_Cons map_Suc_upt[symmetric] add.assoc del: upt_Suc)
  then show ?thesis by (auto simp: cstr_def)
qed

lemma cstr_length: "cstr m a xs \<Longrightarrow> length xs < 18446744073709551615"
  by (simp add: cstr_def)

lemma strlen_loop_cstr:
  assumes c: "cstr m a xs" and "i \<le> length xs"
  shows "strlen_loop m a (of_nat i) = Some (of_nat (length xs))"
  using assms(2)
proof (induction "length xs - i" arbitrary: i)
  case 0
  then show ?case using cstr_end[OF c] by (subst strlen_loop.simps) (simp add: load8_def)
next
  case (Suc n)
  then have "i < length xs" by simp
  then have "m (a + of_nat i) \<noteq> 0" using cstr_char[OF c] by blast
  then have "strlen_loop m a (of_nat i) = strlen_loop m a (of_nat (Suc i))"
    by (subst strlen_loop.simps) (simp add: load8_def algebra_simps)
  then show ?case using Suc.hyps(1)[of "Suc i"] Suc.hyps(2) by simp
qed

lemma strlen_cstr: "cstr m a xs \<Longrightarrow> strlen m a = Some (of_nat (length xs))"
  using strlen_loop_cstr[of m a xs 0] by (simp add: strlen_def)

text \<open>Comparison, by recursion on the two strings.\<close>

fun str_diff :: "u8 list \<Rightarrow> u8 list \<Rightarrow> int" where
  "str_diff [] [] = 0"
| "str_diff [] (y # ys) = - uint y"
| "str_diff (x # xs) [] = uint x"
| "str_diff (x # xs) (y # ys) = (if x = y then str_diff xs ys else uint x - uint y)"

lemma strcmp_cstr: "cstr m a xs \<Longrightarrow> cstr m b ys \<Longrightarrow> strcmp m a b = Some (str_diff xs ys)"
  by (induction xs ys arbitrary: a b rule: str_diff.induct)
     (subst strcmp.simps, auto simp: load8_def cstr_Nil cstr_Cons)+

lemma str_diff_eq_0: "0 \<notin> set xs \<Longrightarrow> 0 \<notin> set ys \<Longrightarrow> str_diff xs ys = 0 \<longleftrightarrow> xs = ys"
  by (induction xs ys rule: str_diff.induct) (auto simp: uint_0_iff dest: word_uint_eqI)

lemma strchr_cstr:
  "cstr m a xs \<Longrightarrow> ch \<noteq> 0 \<Longrightarrow> strchr m a ch =
     Some (if ch \<in> set xs then a + of_nat (length (takeWhile (\<lambda>x. x \<noteq> ch) xs)) else NULL)"
proof (induction xs arbitrary: a)
  case Nil
  then show ?case by (subst strchr.simps) (auto simp: cstr_Nil load8_def)
next
  case (Cons x xs)
  then show ?case by (subst strchr.simps) (auto simp: cstr_Cons load8_def algebra_simps)
qed

section \<open>Reversing\<close>

lemma reverse_loop_spec:
  "reverse_loop m str start en x =
     (if unat start \<le> unat (x - str) \<and> unat (x - str) \<le> unat en then m (str + (start + en - (x - str))) else m x)"
proof (induction m str start en rule: reverse_loop.induct)
  case (1 m str start en)
  let ?k = "x - str"
  show ?case
  proof (cases "start < en")
    case True
    let ?m = "store8 (store8 m (str + start) (load8 m (str + en))) (str + en) (load8 m (str + start))"
    have u: "unat (start + 1) = unat start + 1" "unat (en - 1) = unat en - 1" "unat start < unat en"
      using True by (auto simp: unat_add1_less unat_sub1 word_less_nat_alt intro: le_less_trans)
    have m': "?m (str + y) = (if y = en then m (str + start) else if y = start then m (str + en) else m (str + y))" for y
      by (auto simp: store8_def load8_def)
    have x: "x = str + ?k" by simp
    have rl: "reverse_loop m str start en x = reverse_loop ?m str (start + 1) (en - 1) x"
      using True by (subst reverse_loop.simps) simp
    have *: "unat ?k = unat start \<longleftrightarrow> ?k = start" "unat ?k = unat en \<longleftrightarrow> ?k = en"
      by (auto simp: word_unat_eq_iff)
    have in1: "unat start + 1 \<le> unat ?k \<and> unat ?k \<le> unat en - 1 \<longleftrightarrow>
       unat start \<le> unat ?k \<and> unat ?k \<le> unat en \<and> ?k \<noteq> start \<and> ?k \<noteq> en"
      using u(3) unfolding *[symmetric] by linarith
    have far: "start + en - ?k = en \<longleftrightarrow> ?k = start" "start + en - ?k = start \<longleftrightarrow> ?k = en"
      by (auto simp: algebra_simps)
    have old: "?m x = (if ?k = en then m (str + start) else if ?k = start then m (str + en) else m x)"
      using m'[of ?k] by simp
    have ih: "reverse_loop m str start en x
      = (if unat start + 1 \<le> unat ?k \<and> unat ?k \<le> unat en - 1 then ?m (str + (start + en - ?k)) else ?m x)"
      using 1[OF True] unfolding rl u(1,2) by simp
    consider "?k = start" | "?k = en" | "?k \<noteq> start" "?k \<noteq> en" by blast
    then show ?thesis
    proof cases
      case 1
      then show ?thesis using u(3) True unfolding ih old by simp
    next
      case 2
      then have "unat ?k = unat en" by simp
      then have "\<not> unat ?k \<le> unat en - 1" using u(3) by linarith
      then show ?thesis using 2 u(3) True unfolding ih old by simp
    next
      case 3
      then show ?thesis using in1 far unfolding ih old m' by simp
    qed
  next
    case False
    then have "unat start \<le> unat ?k \<and> unat ?k \<le> unat en \<Longrightarrow> ?k = start \<and> ?k = en"
      by (auto simp: word_less_nat_alt word_unat_eq_iff)
    then show ?thesis using False by (subst reverse_loop.simps) (auto simp: algebra_simps)
  qed
qed

lemma reverse_str_cstr:
  assumes c: "cstr m a xs" and ne: "xs \<noteq> []"
  shows "reverse_str m a = Some (write_bytes m a (rev xs))"
proof -
  let ?n = "length xs"
  have n: "?n < 18446744073709551616" "0 < ?n" using cstr_length[OF c] ne by simp_all
  have u: "unat (of_nat ?n - 1 :: u64) = ?n - 1"
    using n by (subst unat_minus_one) (auto simp: unat_of_nat64 word_unat_eq_iff)
  have "reverse_loop m a 0 (of_nat ?n - 1) x = write_bytes m a (rev xs) x" for x
  proof (cases "unat (x - a) < ?n")
    case True
    let ?k = "unat (x - a)"
    have "(of_nat ?n - 1 - (x - a) :: u64) = of_nat (?n - 1 - ?k)"
      using True n by (simp add: of_nat_diff)
    moreover have "m (a + of_nat (?n - 1 - ?k)) = xs ! (?n - 1 - ?k)" using cstr_char[OF c] n by simp
    moreover have "?k \<le> ?n - 1" using True by simp
    ultimately show ?thesis using True u
      by (simp add: reverse_loop_spec write_bytes_def rev_nth)
  next
    case False
    then have "\<not> unat (x - a) \<le> ?n - 1" using n by linarith
    then show ?thesis using False u by (simp add: reverse_loop_spec write_bytes_def)
  qed
  then show ?thesis using strlen_cstr[OF c] by (simp add: reverse_str_def fun_eq_iff)
qed

section \<open>Digits\<close>

fun digits_le :: "nat \<Rightarrow> nat \<Rightarrow> nat list" where
  "digits_le b n = (if n < b \<or> b < 2 then [n] else n mod b # digits_le b (n div b))"

declare digits_le.simps [simp del]

lemma digits_le_value: "2 \<le> b \<Longrightarrow> foldr (\<lambda>d acc. d + b * acc) (digits_le b n) 0 = n"
proof (induction b n rule: digits_le.induct)
  case (1 b n)
  then show ?case by (subst digits_le.simps) (auto simp: mult.commute)
qed

lemma digits_le_bound: "2 \<le> b \<Longrightarrow> d \<in> set (digits_le b n) \<Longrightarrow> d < b"
proof (induction b n rule: digits_le.induct)
  case (1 b n)
  then show ?case using digits_le.simps[of b n] by (auto split: if_splits)
qed

lemma digits_le_length: "2 \<le> b \<Longrightarrow> n < b ^ k \<Longrightarrow> 0 < k \<Longrightarrow> length (digits_le b n) \<le> k"
proof (induction k arbitrary: n)
  case (Suc k)
  show ?case
  proof (cases "n < b")
    case True
    then show ?thesis by (subst digits_le.simps) simp
  next
    case False
    then have "n div b < b ^ k" using Suc.prems by (simp add: less_mult_imp_div_less mult.commute)
    moreover have "0 < k" using False Suc.prems by (cases k) auto
    ultimately show ?thesis using Suc.IH[of "n div b"] Suc.prems False by (subst digits_le.simps) simp
  qed
qed simp

lemma digits_le_nonempty [simp]: "digits_le b n \<noteq> []"
  by (subst digits_le.simps) simp

definition dec_char :: "nat \<Rightarrow> u8" where "dec_char d = 0x30 + of_nat d"

text \<open>The digit loops write the digits of a positive value, lowest first.\<close>

lemma dec_loop_spec:
  "0 < unat v \<Longrightarrow> length ds + length (digits_le 10 (unat v)) < 18446744073709551616 \<Longrightarrow>
   dec_loop (write_bytes m str ds) v str (length ds) =
     (write_bytes m str (ds @ map dec_char (digits_le 10 (unat v))),
      length ds + length (digits_le 10 (unat v)))"
proof (induction "unat v" arbitrary: v ds rule: less_induct)
  case less
  let ?c = "0x30 + ucast (v mod 10) :: u8"
  have c: "?c = dec_char (unat v mod 10)"
  proof -
    have "(ucast (v mod 10) :: u8) = of_nat (unat (v mod 10))" by (rule of_nat_unat[symmetric])
    also have "unat (v mod 10) = unat v mod 10" by (simp add: unat_mod)
    finally show ?thesis by (simp add: dec_char_def)
  qed
  have pos: "v > 0" using less.prems(1) by (simp add: word_less_nat_alt)
  have len: "length ds < 18446744073709551616" using less.prems(2) by simp
  have step: "dec_loop (write_bytes m str ds) v str (length ds)
    = dec_loop (write_bytes m str (ds @ [?c])) (v div 10) str (length (ds @ [?c]))"
    using pos store8_write_bytes[OF len] by (subst dec_loop.simps) simp
  show ?case
  proof (cases "unat v < 10")
    case True
    then have "v div 10 = 0" by (simp add: word_unat_eq_iff unat_div)
    then have "dec_loop (write_bytes m str (ds @ [?c])) (v div 10) str (length (ds @ [?c]))
      = (write_bytes m str (ds @ [?c]), length (ds @ [?c]))"
      by (subst dec_loop.simps) simp
    then show ?thesis using step c True by (subst (1 2) digits_le.simps) simp
  next
    case False
    have u: "unat (v div 10) = unat v div 10" by (simp add: unat_div)
    have dl: "digits_le 10 (unat v) = unat v mod 10 # digits_le 10 (unat v div 10)"
      using False by (subst digits_le.simps) simp
    show ?thesis
      using less.hyps[of "v div 10" "ds @ [?c]"] less.prems False unfolding step dl u
      by (simp add: c)
  qed
qed

lemma hex_loop_spec:
  "0 < unat v \<Longrightarrow> length ds + length (digits_le 16 (unat v)) < 18446744073709551616 \<Longrightarrow>
   hex_loop (write_bytes m str ds) v str (length ds) =
     (write_bytes m str (ds @ map (\<lambda>d. hex_digits ! d) (digits_le 16 (unat v))),
      length ds + length (digits_le 16 (unat v)))"
proof (induction "unat v" arbitrary: v ds rule: less_induct)
  case less
  let ?c = "hex_digits ! unat (v AND 0xF)"
  have f: "(0xF :: u64) = mask 4" by (simp add: mask_eq_exp_minus_1)
  have c: "?c = hex_digits ! (unat v mod 16)"
    unfolding f by (simp add: unat_take_bit64 flip: take_bit_eq_mask)
  have pos: "v > 0" using less.prems(1) by (simp add: word_less_nat_alt)
  have len: "length ds < 18446744073709551616" using less.prems(2) by simp
  have u: "unat (drop_bit 4 v) = unat v div 16" by (simp add: unat_drop_bit_eq drop_bit_nat_def)
  have step: "hex_loop (write_bytes m str ds) v str (length ds)
    = hex_loop (write_bytes m str (ds @ [?c])) (drop_bit 4 v) str (length (ds @ [?c]))"
    using pos store8_write_bytes[OF len] by (subst hex_loop.simps) simp
  show ?case
  proof (cases "unat v < 16")
    case True
    then have "drop_bit 4 v = 0" using u by (simp add: word_unat_eq_iff)
    then have "hex_loop (write_bytes m str (ds @ [?c])) (drop_bit 4 v) str (length (ds @ [?c]))
      = (write_bytes m str (ds @ [?c]), length (ds @ [?c]))"
      by (subst hex_loop.simps) simp
    then show ?thesis using step c True by (subst (1 2) digits_le.simps) simp
  next
    case False
    have dl: "digits_le 16 (unat v) = unat v mod 16 # digits_le 16 (unat v div 16)"
      using False by (subst digits_le.simps) simp
    show ?thesis
      using less.hyps[of "drop_bit 4 v" "ds @ [?c]"] less.prems False unfolding step dl u
      by (simp add: c)
  qed
qed

lemma itoa_loop_spec:
  "0 \<le> i \<Longrightarrow> length ds + length (digits_le 10 (nat i)) < 18446744073709551616 \<Longrightarrow>
   itoa_loop (write_bytes m str ds) i str (length ds) =
     (write_bytes m str (ds @ map dec_char (digits_le 10 (nat i))),
      length ds + length (digits_le 10 (nat i)))"
proof (induction "nat i" arbitrary: i ds rule: less_induct)
  case less
  let ?c = "of_int (i smod 10 + 0x30) :: u8"
  have dm: "i smod 10 = int (nat i mod 10)" "i sdiv 10 = int (nat i div 10)"
    using less.prems(1) by (simp_all add: signed_divide_int_def signed_modulo_int_def sgn_if zmod_int zdiv_int)
  have c: "?c = dec_char (nat i mod 10)" unfolding dm by (simp add: dec_char_def add.commute)
  have len: "length ds < 18446744073709551616" using less.prems(2) by simp
  show ?case
  proof (cases "nat i < 10")
    case True
    then show ?thesis using c[simplified] dm store8_write_bytes[OF len]
      by (subst itoa_loop.simps, subst (1 2) digits_le.simps) (simp add: Let_def)
  next
    case False
    have dl: "digits_le 10 (nat i) = nat i mod 10 # digits_le 10 (nat i div 10)"
      using False by (subst digits_le.simps) simp
    have "itoa_loop (write_bytes m str ds) i str (length ds)
      = itoa_loop (write_bytes m str (ds @ [dec_char (nat i mod 10)])) (int (nat i div 10)) str
          (length (ds @ [dec_char (nat i mod 10)]))"
      using False dm(2) store8_write_bytes[OF len] by (subst itoa_loop.simps) (simp add: Let_def c[simplified] div_eq_0_iff)
    then show ?thesis
      using less.hyps[of "int (nat i div 10)" "ds @ [dec_char (nat i mod 10)]"] less.prems False unfolding dl
      by simp
  qed
qed

section \<open>Formatted strings\<close>

definition parse :: "nat \<Rightarrow> (u8 \<Rightarrow> nat) \<Rightarrow> u8 list \<Rightarrow> nat" where
  "parse b val s = foldl (\<lambda>acc c. acc * b + val c) 0 s"

definition dec_val :: "u8 \<Rightarrow> nat" where "dec_val c = unat c - 0x30"

definition hex_val :: "u8 \<Rightarrow> nat" where
  "hex_val c = (if unat c < 0x41 then unat c - 0x30 else unat c - 0x37)"

lemma parse_digits:
  assumes "2 \<le> b" and "\<And>d. d < b \<Longrightarrow> val (enc d) = d"
  shows "parse b val (map enc (rev (digits_le b n))) = n"
proof -
  have "parse b val (map enc (rev ds)) = foldr (\<lambda>d acc. d + b * acc) ds 0" if "\<forall>d\<in>set ds. d < b" for ds
    using that assms(2) by (induction ds) (simp_all add: parse_def algebra_simps)
  then show ?thesis using digits_le_bound[OF assms(1)] digits_le_value[OF assms(1)] by simp
qed

lemma less10: "d < 10 \<Longrightarrow> d \<in> {0, 1, 2, 3, 4, 5, 6, 7, 8, 9 :: nat}" by auto
lemma less16: "d < 16 \<Longrightarrow> d \<in> {0, 1, 2, 3, 4, 5, 6, 7, 8, 9, 10, 11, 12, 13, 14, 15 :: nat}"
  by (force simp: numeral_eq_Suc less_Suc_eq)

lemma dec_char: "d < 10 \<Longrightarrow> dec_val (dec_char d) = d" "d < 10 \<Longrightarrow> dec_char d \<noteq> 0"
  using less10[of d] by (auto simp: dec_val_def dec_char_def)

lemma hex_char: "d < 16 \<Longrightarrow> hex_val (hex_digits ! d) = d" "d < 16 \<Longrightarrow> hex_digits ! d \<noteq> 0"
  using less16[of d] by (auto simp: hex_val_def hex_digits_def)

lemma finish_string:
  assumes "ds \<noteq> []" "0 \<notin> set ds" "length ds < 18446744073709551615"
  shows "reverse_str (store8 (write_bytes m str ds) (str + of_nat (length ds)) 0) str
    = Some (write_bytes m str (rev ds @ [0]))"
proof -
  have "store8 (write_bytes m str ds) (str + of_nat (length ds)) 0 = write_bytes m str (ds @ [0])"
    using assms(3) by (simp add: store8_write_bytes)
  moreover have "write_bytes (write_bytes m str (ds @ [0])) str (rev ds) = write_bytes m str (rev ds @ [0])"
    by (auto simp: write_bytes_def fun_eq_iff nth_append)
  ultimately show ?thesis
    using reverse_str_cstr[OF cstr_write_bytes[OF assms(3,2)] assms(1)] by simp
qed

lemma digits_le_20: "length (digits_le 10 (unat (v :: u64))) \<le> 20"
  using less_trans[OF unat_lt64[of v], of "10 ^ 20"] by (intro digits_le_length) simp_all

lemma digits_le_16: "length (digits_le 16 (unat (v :: u64))) \<le> 16"
  by (intro digits_le_length) simp_all

lemma dec_digits_nz: "0 \<notin> set (map dec_char (digits_le 10 n))"
  using digits_le_bound[of 10] dec_char(2) by fastforce

lemma hex_digits_nz: "0 \<notin> set (map (\<lambda>d. hex_digits ! d) (digits_le 16 n))"
  using digits_le_bound[of 16] hex_char(2) by fastforce

lemma ul_to_str_spec:
  "ul_to_str m v str = Some (length (digits_le 10 (unat v)),
     write_bytes m str (map dec_char (rev (digits_le 10 (unat v))) @ [0]))"
proof -
  let ?ds = "map dec_char (digits_le 10 (unat v))"
  have fin: "reverse_str (store8 (write_bytes m str ?ds) (str + of_nat (length ?ds)) 0) str
    = Some (write_bytes m str (rev ?ds @ [0]))"
    using digits_le_20[of v] dec_digits_nz by (intro finish_string) auto
  have "(if v = 0 then (store8 m str 0x30, 1) else dec_loop m v str 0) = (write_bytes m str ?ds, length ?ds)"
  proof (cases "v = 0")
    case True
    have "store8 m str 0x30 = write_bytes m str [0x30]"
      using store8_write_bytes[of "[]" m str] by simp
    then show ?thesis using True by (subst (1 2) digits_le.simps) (simp add: dec_char_def)
  next
    case False
    then show ?thesis
      using dec_loop_spec[of v "[]" m str] digits_le_20[of v] by (simp add: unat_gt_0)
  qed
  then show ?thesis using fin by (simp add: ul_to_str_def rev_map)
qed

lemma ui64_to_hex_str_spec:
  "ui64_to_hex_str m v str = Some (length (digits_le 16 (unat v)),
     write_bytes m str (map (\<lambda>d. hex_digits ! d) (rev (digits_le 16 (unat v))) @ [0]))"
proof (cases "v = 0")
  case True
  have "store8 (store8 m str 0x30) (str + 1) 0 = write_bytes m str [0x30, 0]"
    using store8_write_bytes[of "[]" m str "0x30"] store8_write_bytes[of "[0x30]" m str 0] by simp
  then show ?thesis
    using True by (subst (1 2) digits_le.simps) (simp add: ui64_to_hex_str_def hex_digits_def)
next
  case False
  let ?ds = "map (\<lambda>d. hex_digits ! d) (digits_le 16 (unat v))"
  have "hex_loop m v str 0 = (write_bytes m str ?ds, length ?ds)"
    using hex_loop_spec[of v "[]" m str] False digits_le_16[of v] by (simp add: unat_gt_0)
  moreover have "reverse_str (store8 (write_bytes m str ?ds) (str + of_nat (length ?ds)) 0) str
    = Some (write_bytes m str (rev ?ds @ [0]))"
    using digits_le_16[of v] hex_digits_nz by (intro finish_string) auto
  ultimately show ?thesis using False by (simp add: ui64_to_hex_str_def rev_map)
qed

definition int_string :: "int \<Rightarrow> u8 list" where
  "int_string i = (if i < 0 then [0x2D] else []) @ map dec_char (rev (digits_le 10 (nat \<bar>i\<bar>)))"

lemma itoa_spec:
  assumes i: "- 2147483648 < i" "i < 2147483648"
  shows "itoa m i str = Some (length (int_string i), write_bytes m str (int_string i @ [0]))"
proof -
  let ?a = "\<bar>i\<bar>" and ?ds = "map dec_char (digits_le 10 (nat \<bar>i\<bar>))"
  have abs: "(if i < 0 then signed_take_bit 31 (- i) else i) = ?a"
    using i by (auto simp: signed_take_bit_int_eq_self)
  have l10: "length (digits_le 10 (nat ?a)) \<le> 10" using i by (intro digits_le_length) simp_all
  then have lp: "itoa_loop m ?a str 0 = (write_bytes m str ?ds, length ?ds)"
    using itoa_loop_spec[of ?a "[]" m str] by simp
  let ?es = "?ds @ (if i < 0 then [0x2D] else [])"
  have sgn: "(if i < 0 then (store8 (write_bytes m str ?ds) (str + of_nat (length ?ds)) 0x2D, length ?ds + 1)
      else (write_bytes m str ?ds, length ?ds)) = (write_bytes m str ?es, length ?es)"
    using l10 store8_write_bytes[of ?ds m str "0x2D"] by (cases "i < 0") simp_all
  have fin: "reverse_str (store8 (write_bytes m str ?es) (str + of_nat (length ?es)) 0) str
    = Some (write_bytes m str (rev ?es @ [0]))"
    using l10 dec_digits_nz by (intro finish_string) auto
  have es: "rev ?es = int_string i" "length ?es = length (int_string i)" by (simp_all add: int_string_def rev_map)
  show ?thesis
    unfolding itoa_def Let_def abs lp prod.case sgn fin unfolding es by (simp only: Option.bind_lunit)
qed

section \<open>Tokens\<close>

text \<open>A string that does not reach over the top of the address space.\<close>

definition placed :: "u64 \<Rightarrow> u8 list \<Rightarrow> bool" where
  "placed a xs \<longleftrightarrow> 0 < unat a \<and> unat a + length xs < 18446744073709551616"

lemma placed_nonnull: "placed a xs \<Longrightarrow> i \<le> length xs \<Longrightarrow> a + of_nat i \<noteq> NULL"
  using offset_unat[of a i] by (auto simp: placed_def)

lemma tok_scan_cstr:
  assumes d: "cstr m d ds" "placed d ds"
  shows "cstr m a xs \<Longrightarrow> tok_scan m d a = Some (a + of_nat (length (takeWhile (\<lambda>x. x \<notin> set ds) xs)))"
proof (induction xs arbitrary: a)
  case Nil
  then show ?case by (subst tok_scan.simps) (simp add: cstr_Nil load8_def)
next
  case (Cons x xs)
  then have x: "m a = x" "x \<noteq> 0" and rest: "cstr m (a + 1) xs" by (simp_all add: cstr_Cons)
  have hit: "d + of_nat (length (takeWhile (\<lambda>y. y \<noteq> x) ds)) \<noteq> NULL"
    using d(2) length_takeWhile_le by (rule placed_nonnull)
  show ?case
    using x Cons.IH[OF rest] strchr_cstr[OF d(1) x(2)] hit
    by (subst tok_scan.simps) (simp add: load8_def algebra_simps)
qed

lemma cstr_prefix:
  assumes c: "cstr m a (ts @ y # zs)"
  shows "cstr (store8 m (a + of_nat (length ts)) 0) a ts"
    and "cstr (store8 m (a + of_nat (length ts)) 0) (a + of_nat (length ts) + 1) zs"
proof -
  let ?n = "length ts" and ?xs = "ts @ y # zs"
  have len: "length ?xs < 18446744073709551615" and nz: "0 \<notin> set ?xs" using c by (auto simp: cstr_def)
  have other: "store8 m (a + of_nat ?n) 0 (a + of_nat i) = m (a + of_nat i)" if "i \<noteq> ?n" "i \<le> length ?xs" for i
  proof -
    have "(of_nat i :: u64) \<noteq> of_nat ?n"
      using that len unat_of_nat64[of i] unat_of_nat64[of ?n] by auto
    then show ?thesis by (simp add: store8_def)
  qed
  show "cstr (store8 m (a + of_nat ?n) 0) a ts"
    using len nz cstr_char[OF c] other by (intro cstrI) (auto simp: nth_append store8_def)
  have "store8 m (a + of_nat ?n) 0 (a + of_nat ?n + 1 + of_nat i) = (zs @ [0]) ! i" if "i \<le> length zs" for i
    using other[of "Suc ?n + i"] that cstr_nth[OF c, of "Suc ?n + i"] by (simp add: nth_append algebra_simps)
  then show "cstr (store8 m (a + of_nat ?n) 0) (a + of_nat ?n + 1) zs"
    using len nz by (intro cstrI) (auto simp: nth_append)
qed

lemma split_takeWhile:
  "takeWhile P xs = xs \<or> (\<exists>y zs. xs = takeWhile P xs @ y # zs \<and> \<not> P y)"
  by (induction xs) auto

lemma kstrtok_r_spec:
  assumes c: "cstr m a xs" and a: "a \<noteq> NULL" and first: "str = a \<or> (str = NULL \<and> saveptr = a \<and> xs \<noteq> [])"
    and d: "cstr m d ds" "placed d ds"
  defines "tok \<equiv> takeWhile (\<lambda>x. x \<notin> set ds) xs"
  shows "tok = xs \<Longrightarrow> kstrtok_r m str d saveptr = Some (a, a + of_nat (length xs), m)"
    and "xs = tok @ y # zs \<Longrightarrow> kstrtok_r m str d saveptr
      = Some (a, a + of_nat (length tok) + 1, store8 m (a + of_nat (length tok)) 0)"
proof -
  have cur: "\<not> (str = NULL \<and> (saveptr = NULL \<or> load8 m saveptr = 0))" "(if str \<noteq> NULL then str else saveptr) = a"
    using first a c by (cases xs; auto simp: load8_def cstr_Cons)+
  have "kstrtok_r m str d saveptr = do {
      token \<leftarrow> tok_scan m d a;
      if load8 m token = 0 then Some (a, token, m) else Some (a, token + 1, store8 m token 0) }"
    unfolding kstrtok_r_def Let_def cur(2) using cur(1) by argo
  then have k: "kstrtok_r m str d saveptr = (if m (a + of_nat (length tok)) = 0 then Some (a, a + of_nat (length tok), m)
      else Some (a, a + of_nat (length tok) + 1, store8 m (a + of_nat (length tok)) 0))"
    using tok_scan_cstr[OF d c] by (simp add: tok_def load8_def)
  show "tok = xs \<Longrightarrow> kstrtok_r m str d saveptr = Some (a, a + of_nat (length xs), m)"
    using k cstr_end[OF c] by simp
  show "kstrtok_r m str d saveptr = Some (a, a + of_nat (length tok) + 1, store8 m (a + of_nat (length tok)) 0)"
    if xs: "xs = tok @ y # zs"
  proof -
    have "length tok < length xs" using arg_cong[OF xs, of length] by simp
    then have "m (a + of_nat (length tok)) \<noteq> 0" using cstr_char[OF c] by blast
    then show ?thesis using k by simp
  qed
qed

section \<open>The contracts of the library routines\<close>

text \<open>C30: \<^verbatim>\<open>memmove\<close> copies correctly for every overlap of source and destination: the destination
  holds the bytes the source held before the call, and no other byte of memory changes.\<close>

theorem memmove_correct:
  assumes "unat src + unat sz \<le> 2 ^ 64" "unat dst + unat sz \<le> 2 ^ 64"
  shows "bytes_at (memmove m dst src sz) dst (unat sz) = bytes_at m src (unat sz)
    \<and> (\<forall>x. unat sz \<le> unat (x - dst) \<longrightarrow> memmove m dst src sz x = m x)"
  using memmove_write[of src sz dst m] assms bytes_at_write_bytes[of "bytes_at m src (unat sz)" m dst]
    less_imp_le[OF unat_lt64[of sz]]
  by (auto simp: write_bytes_def)

theorem memmove_correct_witness:
  "bytes_at (memmove (\<lambda>x. ucast x) 0x1002 0x1000 4) 0x1002 4 = [0, 1, 2, 3]"
  using memmove_correct[of "0x1000" 4 "0x1002" "\<lambda>x. ucast x"] by (simp add: bytes_at_def upt_rec)

text \<open>C31: Formatting a 64-bit value. \<^verbatim>\<open>ul_to_str\<close> writes at most 20 decimal digits and
  \<^verbatim>\<open>ui64_to_hex_str\<close> at most 16 hexadecimal digits and a terminator; the returned length is the
  string's length, reading the string back gives the value, and nothing else in memory changes.\<close>

theorem number_format_roundtrip:
  "(\<exists>s. ul_to_str m v str = Some (length s, write_bytes m str (s @ [0]))
     \<and> 0 \<notin> set s \<and> length s \<le> 20 \<and> parse 10 dec_val s = unat v)
   \<and> (\<exists>s. ui64_to_hex_str m v str = Some (length s, write_bytes m str (s @ [0]))
     \<and> 0 \<notin> set s \<and> length s \<le> 16 \<and> parse 16 hex_val s = unat v)"
proof
  let ?d = "map dec_char (rev (digits_le 10 (unat v)))"
  let ?h = "map (\<lambda>d. hex_digits ! d) (rev (digits_le 16 (unat v)))"
  have "0 \<notin> set ?d" "parse 10 dec_val ?d = unat v"
    using dec_digits_nz[of "unat v"] by (auto intro!: parse_digits dec_char)
  then show "\<exists>s. ul_to_str m v str = Some (length s, write_bytes m str (s @ [0]))
     \<and> 0 \<notin> set s \<and> length s \<le> 20 \<and> parse 10 dec_val s = unat v"
    using ul_to_str_spec[of m v str] digits_le_20[of v] by (intro exI[of _ ?d]) simp
  have "0 \<notin> set ?h" "parse 16 hex_val ?h = unat v"
    using hex_digits_nz[of "unat v"] by (auto intro!: parse_digits hex_char)
  then show "\<exists>s. ui64_to_hex_str m v str = Some (length s, write_bytes m str (s @ [0]))
     \<and> 0 \<notin> set s \<and> length s \<le> 16 \<and> parse 16 hex_val s = unat v"
    using ui64_to_hex_str_spec[of m v str] digits_le_16[of v] by (intro exI[of _ ?h]) simp
qed

text \<open>\<^verbatim>\<open>itoa\<close> of every int except the smallest writes the sign and the decimal digits of
  its absolute value, terminated, and returns the length.\<close>

theorem itoa_correct:
  assumes "- (2 ^ 31) < i" "i < 2 ^ 31"
  shows "\<exists>s. itoa m i str = Some (length ((if i < 0 then [0x2D] else []) @ s),
      write_bytes m str ((if i < 0 then [0x2D] else []) @ s @ [0]))
    \<and> parse 10 dec_val s = nat \<bar>i\<bar> \<and> (\<forall>c\<in>set s. 0x30 \<le> c \<and> c \<le> 0x39)"
proof -
  let ?s = "map dec_char (rev (digits_le 10 (nat \<bar>i\<bar>)))"
  have "0x30 \<le> dec_char d \<and> dec_char d \<le> 0x39" if "d < 10" for d
    using less10[OF that] by (auto simp: dec_char_def)
  then have "\<forall>c\<in>set ?s. 0x30 \<le> c \<and> c \<le> 0x39" using digits_le_bound[of 10] by auto
  moreover have "parse 10 dec_val ?s = nat \<bar>i\<bar>" by (auto intro!: parse_digits dec_char)
  ultimately show ?thesis using itoa_spec[of i m str] assms by (intro exI[of _ ?s]) (simp add: int_string_def)
qed

theorem itoa_correct_witness:
  "\<exists>s. itoa (\<lambda>_. 0) (- 2147483647) 0x1000 = Some (length ([0x2D] @ s), write_bytes (\<lambda>_. 0) 0x1000 ([0x2D] @ s @ [0]))
    \<and> parse 10 dec_val s = 2147483647"
  using itoa_correct[of "- 2147483647" "\<lambda>_. 0" "0x1000"] by auto

text \<open>\<^verbatim>\<open>strcmp\<close> on two terminated strings always returns; the result is 0 exactly for equal
  strings, and otherwise the difference of the first bytes that differ.\<close>

theorem strcmp_correct:
  assumes "cstr m a xs" "cstr m b ys"
  shows "strcmp m a b = Some (str_diff xs ys) \<and> (strcmp m a b = Some 0 \<longleftrightarrow> xs = ys)"
  using strcmp_cstr[OF assms] str_diff_eq_0[of xs ys] assms by (auto simp: cstr_def)

theorem strcmp_correct_witness:
  "strcmp (write_bytes (write_bytes (\<lambda>_. 0) 0x1000 [1, 2, 0]) 0x2000 [1, 5, 0]) 0x1000 0x2000 = Some (- 3)"
proof -
  let ?m = "write_bytes (write_bytes (\<lambda>_. 0) 0x1000 [1, 2, 0]) 0x2000 [1, 5, 0]"
  have "cstr ?m 0x1000 [1, 2]" "cstr ?m 0x2000 [1, 5]"
    by (simp_all add: cstr_Cons cstr_Nil write_bytes_def)
  from strcmp_correct[OF this] show ?thesis by simp
qed

text \<open>\<^verbatim>\<open>kstrtok_r\<close>, on a first or a following call, returns the string up to the first
  delimiter as a terminated string and leaves the save pointer at the rest: at the final
  terminator if no delimiter occurs, otherwise just behind the delimiter, where the remaining
  characters still form a terminated string.\<close>

theorem kstrtok_r_correct:
  assumes "cstr m a xs" "a \<noteq> NULL" "str = a \<or> (str = NULL \<and> saveptr = a \<and> xs \<noteq> [])"
    and "cstr m d ds" "placed d ds"
  shows "if \<forall>x\<in>set xs. x \<notin> set ds
    then kstrtok_r m str d saveptr = Some (a, a + of_nat (length xs), m)
    else \<exists>tok y rest m'. xs = tok @ y # rest \<and> y \<in> set ds \<and> set tok \<inter> set ds = {}
      \<and> kstrtok_r m str d saveptr = Some (a, a + of_nat (length tok) + 1, m')
      \<and> cstr m' a tok \<and> cstr m' (a + of_nat (length tok) + 1) rest"
proof -
  let ?tok = "takeWhile (\<lambda>x. x \<notin> set ds) xs"
  note k = kstrtok_r_spec[OF assms]
  show ?thesis
  proof (cases "\<forall>x\<in>set xs. x \<notin> set ds")
    case True
    then have "?tok = xs" by simp
    then show ?thesis using k(1) True by simp
  next
    case False
    then obtain y zs where xs: "xs = ?tok @ y # zs" "y \<in> set ds"
      using split_takeWhile[of "\<lambda>x. x \<notin> set ds" xs] by (metis takeWhile_eq_all_conv)
    have "set ?tok \<inter> set ds = {}" by (auto dest: set_takeWhileD)
    moreover have "cstr m a (?tok @ y # zs)" using assms(1) xs(1) by simp
    ultimately show ?thesis using k(2)[OF xs(1)] xs cstr_prefix[of m a ?tok y zs] False by (auto simp del: set_takeWhileD)
  qed
qed

theorem kstrtok_r_correct_witness:
  "\<exists>m'. kstrtok_r (write_bytes (write_bytes (\<lambda>_. 0) 0x1000 [0x61, 0x2F, 0x62, 0]) 0x2000 [0x2F, 0]) 0x1000 0x2000 0
     = Some (0x1000, 0x1002, m') \<and> cstr m' 0x1000 [0x61] \<and> cstr m' 0x1002 [0x62]"
proof -
  let ?m = "write_bytes (write_bytes (\<lambda>_. 0) 0x1000 [0x61, 0x2F, 0x62, 0]) 0x2000 [0x2F, 0]"
  have "cstr ?m 0x1000 [0x61, 0x2F, 0x62]" "cstr ?m 0x2000 [0x2F]" "placed 0x2000 [0x2F]"
    by (simp_all add: cstr_Cons cstr_Nil write_bytes_def placed_def)
  from kstrtok_r_correct[OF this(1) _ _ this(2,3), of "0x1000" 0] show ?thesis
    by (auto simp: Cons_eq_append_conv)
qed

end
