(* ===== verification/Buddy_Frame.thy ===== *)
theory Buddy_Frame
  imports Buddy_Correct Klib
begin

text \<open>
  What the clients of the buddy allocator rely on beyond its contract: the allocator changes only
  memory and the arena array, and it does not depend on bytes that are not free. The locale
  \<open>page_pool\<close> states the contract as an interface; the page-table code is verified against it.
\<close>

section \<open>The rest of the state is left alone\<close>

definition same_ext :: "'a buddy_state_scheme \<Rightarrow> 'a buddy_state_scheme \<Rightarrow> bool" where
  "same_ext s t \<longleftrightarrow> (\<exists>m as. t = s\<lparr>mem := m, buddy_arenas := as\<rparr>)"

lemma same_ext_refl [simp]: "same_ext s s"
  by (auto simp: same_ext_def intro!: exI[of _ "mem s"] exI[of _ "buddy_arenas s"])

lemma same_ext_trans: "same_ext s t \<Longrightarrow> same_ext t u \<Longrightarrow> same_ext s u"
  unfolding same_ext_def by (elim exE) (intro exI, simp)

lemma same_ext_set_free_head: "same_ext s (set_free_head s i k v)"
  by (auto simp: same_ext_def set_free_head_def set_arena_def intro!: exI[of _ "mem s"])

lemma same_ext_mem: "same_ext s (s\<lparr>mem := m\<rparr>)"
  by (auto simp: same_ext_def intro!: exI[of _ "buddy_arenas s"])

lemma same_ext_push: "same_ext s (push_free_block s i k a)"
  unfolding push_free_block_def Let_def by (rule same_ext_trans[OF same_ext_mem same_ext_set_free_head])

lemma same_ext_set_fl_slot: "same_ext s (set_fl_slot i k s l v)"
  by (cases l) (simp_all add: same_ext_set_free_head same_ext_mem)

lemma same_ext_split: "same_ext s (split_blocks s i a ks)"
  by (induction ks arbitrary: s) (auto intro: same_ext_trans[OF same_ext_push])

lemma same_ext_alloc_from_arena: "alloc_from_arena s i k = Some (p, t) \<Longrightarrow> same_ext s t"
  by (auto simp: alloc_from_arena_def Let_def same_ext_set_free_head split: if_splits option.splits
      intro: same_ext_trans[OF same_ext_set_free_head same_ext_split])

lemma same_ext_alloc_arenas: "alloc_arenas s k is = (p, t) \<Longrightarrow> same_ext s t"
  by (induction "is") (auto split: option.splits dest: same_ext_alloc_from_arena)

lemma same_ext_alloc: "buddy_alloc_pages s k = (p, t) \<Longrightarrow> same_ext s t"
  by (auto simp: buddy_alloc_pages_def split: if_splits dest: same_ext_alloc_arenas)

lemma same_ext_unlink: "unlink_buddy s i k b = Some (f, t) \<Longrightarrow> same_ext s t"
  by (auto simp: unlink_buddy_def Let_def same_ext_set_fl_slot split: option.splits bind_splits)

lemma same_ext_coalesce: "coalesce_loop s i a k = Some r \<Longrightarrow> same_ext s (fst r)"
  by (erule coalesce_loop.raw_induct[rotated])
     (auto simp: Let_def split: if_splits bind_splits dest!: same_ext_unlink intro: same_ext_trans)

lemma same_ext_free: "buddy_free_pages s p k = Some t \<Longrightarrow> same_ext s t"
  by (auto simp: buddy_free_pages_def split: if_splits option.splits bind_splits
      dest!: same_ext_coalesce intro: same_ext_trans[OF _ same_ext_push])

section \<open>Bytes that are not free do not matter\<close>

lemma free_bytes_mem [simp]: "free_bytes (s\<lparr>mem := m\<rparr>) FL = free_bytes s FL"
  by (simp add: free_bytes_def free_blocks_def)

lemma free_blocks_mem [simp]: "free_blocks (s\<lparr>mem := m\<rparr>) FL = free_blocks s FL"
  by (simp add: free_blocks_def)

lemma phys_to_virt_mem [simp]: "phys_to_virt (s\<lparr>mem := m\<rparr>) = phys_to_virt s"
  by (simp add: phys_to_virt_def fun_eq_iff)

lemma load64_in_block:
  assumes "aligned (12 + k) a" "unat off + 8 \<le> 4096"
    and "\<And>x. unat (x - h) \<in> brange a k \<Longrightarrow> m' x = m x"
  shows "load64 m' (a + h + off) = load64 m (a + h + off)"
proof (rule load64_cong)
  fix d :: u64 assume "d < 8"
  then have "a + h + off + d - (a + h + off) < 8" by simp
  then have "unat (a + h + off + d - h) \<in> brange a k"
    using assms(2) by (intro in_page_block_field[OF assms(1), where n = 8 and off = off]) simp_all
  then show "m' (a + h + off + d) = m (a + h + off + d)" by (rule assms(3))
qed

lemma buddy_wf_frame:
  assumes wf: "buddy_wf s FL" and same: "\<And>x. unat (x - hhdm_offset s) \<in> free_bytes s FL \<Longrightarrow> m x = mem s x"
  shows "buddy_wf (s\<lparr>mem := m\<rparr>) FL"
proof -
  have fld: "load64 m (phys_to_virt s a + off) = load64 (mem s) (phys_to_virt s a + off)"
    if "(i, k, a) \<in> free_blocks s FL" "unat off + 8 \<le> 4096" for i k a off
    unfolding phys_to_virt_def
    using wf_block_ok[OF wf that(1)] that(2) same free_bytes_sup[OF that(1)]
    by (intro load64_in_block[where k = k]) (auto simp: block_ok_def)
  have nx: "fb_next m (phys_to_virt s a) = fb_next (mem s) (phys_to_virt s a)"
    and ph: "fb_phys_addr m (phys_to_virt s a) = fb_phys_addr (mem s) (phys_to_virt s a)"
    if "(i, k, a) \<in> free_blocks s FL" for i k a
    using fld[OF that] by (simp_all add: fb_next_def fb_phys_addr_def)
  have "lseg (fl_slot i k (s\<lparr>mem := m\<rparr>)) Head (map (phys_to_virt s) (FL i k))"
    if "i < unat (buddy_arena_counter s)" "k \<le> 20" for i k
    using wf_lseg[OF wf that] by (rule lseg_cong) (use nx that in \<open>auto simp: free_blocks_def\<close>)
  then show ?thesis
    using wf ph by (auto simp: buddy_wf_def arenas_wf_def arena_ok_def arena_range_def block_ok_def)
qed

section \<open>The interface of a pool of pages\<close>

text \<open>
  \<open>pool s F\<close>: in state \<open>s\<close> exactly the physical bytes \<open>F\<close> are free. Allocation hands out an aligned
  page of them or fails because there is none; it writes free bytes only; other code may write
  whatever is not free.
\<close>

locale page_pool =
  fixes pool :: "'s \<Rightarrow> nat set \<Rightarrow> bool"
    and alloc :: "'s \<Rightarrow> u64 \<times> 's"
    and memory_of :: "'s \<Rightarrow> memory"
    and with_mem :: "'s \<Rightarrow> memory \<Rightarrow> 's"
    and offset :: "'s \<Rightarrow> u64"
  assumes alloc_fail: "pool s F \<Longrightarrow> alloc s = (0, t) \<Longrightarrow> t = s \<and> F = {}"
    and alloc_page: "pool s F \<Longrightarrow> alloc s = (p, t) \<Longrightarrow> p \<noteq> 0 \<Longrightarrow>
      page_aligned p \<and> brange p 0 \<subseteq> F \<and> pool t (F - brange p 0) \<and> offset t = offset s
      \<and> p + offset s \<noteq> 0 \<and> unat p + unat (offset s) + 4096 \<le> 2 ^ 64
      \<and> (\<forall>x. unat (x - offset s) \<notin> F \<longrightarrow> memory_of t x = memory_of s x)"
    and pool_frame: "pool s F \<Longrightarrow> (\<And>x. unat (x - offset s) \<in> F \<Longrightarrow> m x = memory_of s x) \<Longrightarrow> pool (with_mem s m) F"
    and memory_with_mem: "memory_of (with_mem s m) = m"
    and offset_with_mem: "offset (with_mem s m) = offset s"
begin

text \<open>Allocating a page and clearing it, as the page-table allocator does.\<close>

definition alloc_zeroed :: "'s \<Rightarrow> u64 \<times> 's" where
  "alloc_zeroed s = (let (p, t) = alloc s in
     if p = 0 then (0, t) else (p, with_mem t (memset (memory_of t) (p + offset t) 0 4096)))"

lemma memset_page:
  assumes "page_aligned p"
  shows "unat (x - h) \<notin> brange p 0 \<Longrightarrow> memset m (p + h) 0 4096 x = m x"
    and "unat (x - h) \<in> brange p 0 \<Longrightarrow> memset m (p + h) 0 4096 x = 0"
proof -
  have w: "memset m (p + h) 0 4096 = write_bytes m (p + h) (replicate 4096 0)"
    by (simp add: memset_write)
  have iff: "unat (x - (p + h)) < 4096 \<longleftrightarrow> unat (x - h) \<in> brange p 0"
  proof
    assume "unat (x - (p + h)) < 4096"
    then have "x - (p + h + 0) < 4096" by (simp add: word_less_nat_alt)
    then show "unat (x - h) \<in> brange p 0" using assms by (intro in_page_block_field[where n = 4096 and off = 0]) simp_all
  next
    assume "unat (x - h) \<in> brange p 0"
    then have le: "unat p \<le> unat (x - h)" "unat (x - h) < unat p + 4096" by (auto simp: brange_def)
    then have "unat (x - h - p) = unat (x - h) - unat p" by (intro unat_sub) (simp add: word_le_nat_alt)
    then show "unat (x - (p + h)) < 4096" using le by (simp add: algebra_simps)
  qed
  show "unat (x - h) \<notin> brange p 0 \<Longrightarrow> memset m (p + h) 0 4096 x = m x"
    and "unat (x - h) \<in> brange p 0 \<Longrightarrow> memset m (p + h) 0 4096 x = 0"
    unfolding w using iff by (auto simp: write_bytes_def)
qed

lemma alloc_zeroed_page:
  assumes pool: "pool s F" and r: "alloc_zeroed s = (p, t)" "p \<noteq> 0"
  shows "page_aligned p" "brange p 0 \<subseteq> F" "pool t (F - brange p 0)" "offset t = offset s" "p + offset s \<noteq> 0"
    and "unat p + unat (offset s) + 4096 \<le> 2 ^ 64"
    and "unat (x - offset s) \<notin> F \<Longrightarrow> memory_of t x = memory_of s x"
    and "unat (x - offset s) \<in> brange p 0 \<Longrightarrow> memory_of t x = 0"
proof -
  obtain u where u: "alloc s = (p, u)" "t = with_mem u (memset (memory_of u) (p + offset u) 0 4096)"
    using r by (auto simp: alloc_zeroed_def split: prod.splits if_splits)
  note a = alloc_page[OF pool u(1) r(2)]
  show al: "page_aligned p" "brange p 0 \<subseteq> F" "p + offset s \<noteq> 0" "unat p + unat (offset s) + 4096 \<le> 2 ^ 64"
    using a by auto
  show "offset t = offset s" using a u(2) by (simp add: offset_with_mem)
  show "pool t (F - brange p 0)"
    unfolding u(2) using a by (intro pool_frame) (auto simp: memset_page[OF al(1)])
  show "memory_of t x = memory_of s x" if "unat (x - offset s) \<notin> F"
  proof -
    have "unat (x - offset s) \<notin> brange p 0" using that al(2) by blast
    then show ?thesis using a that unfolding u(2) memory_with_mem by (simp add: memset_page[OF al(1)])
  qed
  show "unat (x - offset s) \<in> brange p 0 \<Longrightarrow> memory_of t x = 0"
    using a unfolding u(2) memory_with_mem by (simp add: memset_page[OF al(1)])
qed

end

lemma buddy_pool_alloc_fail:
  assumes "buddy_wf s FL" "buddy_alloc_page s = (0, t)"
  shows "t = s" "free_bytes s FL = {}"
proof -
  have p: "t = s \<and> (\<forall>i k a. (i, k, a) \<in> free_blocks s FL \<longrightarrow> k < unat (0 :: u8))"
    using buddy_alloc_pages_post[OF assms(1), of 0 0 t] assms(2) by (simp add: buddy_alloc_page_def)
  then show "t = s" by simp
  have "free_blocks s FL = {}" using p by auto
  then show "free_bytes s FL = {}" by (simp add: free_bytes_def)
qed

lemma buddy_pool_alloc_page:
  assumes "buddy_wf s FL" "buddy_alloc_page s = (p, t)" "p \<noteq> 0"
  shows "page_aligned p" "brange p 0 \<subseteq> free_bytes s FL" "\<exists>FL'. buddy_wf t FL' \<and> free_bytes t FL' = free_bytes s FL - brange p 0"
    "hhdm_offset t = hhdm_offset s" "p + hhdm_offset s \<noteq> 0" "writes_only s t (free_bytes s FL)"
    "unat p + unat (hhdm_offset s) + 4096 \<le> 2 ^ 64"
proof -
  have post: "alloc_post s FL 0 p t"
    using buddy_alloc_pages_post[OF assms(1), of 0 p t] assms(2,3) by (simp add: buddy_alloc_page_def)
  note blk = alloc_post_block[OF assms(1) post]
  show "page_aligned p" "brange p 0 \<subseteq> free_bytes s FL" using blk by simp_all
  show "\<exists>FL'. buddy_wf t FL' \<and> free_bytes t FL' = free_bytes s FL - brange p 0" "hhdm_offset t = hhdm_offset s"
    "writes_only s t (free_bytes s FL)"
    using post by (auto simp: alloc_post_def same_shape_def)
  obtain i where i: "i < unat (buddy_arena_counter s)" "block_ok s i 0 p" using blk(1) by blast
  show "unat p + unat (hhdm_offset s) + 4096 \<le> 2 ^ 64"
    using i assms(1) by (auto simp: buddy_wf_def arenas_wf_def arena_ok_def block_ok_def)
  show "p + hhdm_offset s \<noteq> 0"
    using block_ok_virt[OF _ i] assms(1) by (simp add: buddy_wf_def phys_to_virt_def)
qed

interpretation bp: page_pool "\<lambda>s F. \<exists>FL. buddy_wf s FL \<and> F = free_bytes s FL" buddy_alloc_page mem "\<lambda>s m. s\<lparr>mem := m\<rparr>" hhdm_offset
proof unfold_locales
  fix s :: "'a buddy_state_scheme" and F t p m
  assume "\<exists>FL. buddy_wf s FL \<and> F = free_bytes s FL"
  then obtain FL where FL: "buddy_wf s FL" "F = free_bytes s FL" by blast
  show "buddy_alloc_page s = (0, t) \<Longrightarrow> t = s \<and> F = {}" using buddy_pool_alloc_fail[OF FL(1)] FL(2) by blast
  show "buddy_alloc_page s = (p, t) \<Longrightarrow> p \<noteq> 0 \<Longrightarrow> page_aligned p \<and> brange p 0 \<subseteq> F
      \<and> (\<exists>FL. buddy_wf t FL \<and> F - brange p 0 = free_bytes t FL) \<and> hhdm_offset t = hhdm_offset s
      \<and> p + hhdm_offset s \<noteq> 0 \<and> unat p + unat (hhdm_offset s) + 4096 \<le> 2 ^ 64
      \<and> (\<forall>x. unat (x - hhdm_offset s) \<notin> F \<longrightarrow> mem t x = mem s x)"
    using buddy_pool_alloc_page[OF FL(1)] FL(2) unfolding writes_only_def by metis
  show "(\<And>x. unat (x - hhdm_offset s) \<in> F \<Longrightarrow> m x = mem s x) \<Longrightarrow> \<exists>FL. buddy_wf (s\<lparr>mem := m\<rparr>) FL \<and> F = free_bytes (s\<lparr>mem := m\<rparr>) FL"
    using buddy_wf_frame[OF FL(1), of m] FL(2) by auto
qed simp_all

end
