(* ===== verification/Slab_Cache.thy ===== *)
theory Slab_Cache
  imports Slab Buddy_Frame
begin

text \<open>
  The invariant of one slab cache. \<open>slab_wf\<close>: the three lists of the cache are linked lists of disjoint
  slabs, each slab's header and free list agree with a list of free object indices, and the list a
  slab is on says how many of its objects are free. Taking an object from a slab and putting one
  back keep it. The lists are an instance of the locale \<open>slot_heap\<close>.
\<close>

section \<open>Fields of a slab\<close>

text \<open>A slab is two pages, aligned to their size; its fields are eight-byte words at offsets that are
  multiples of eight. Distinct fields, of one slab or of two, do not overlap.\<close>

definition fld :: "memory \<Rightarrow> u64 \<Rightarrow> nat \<Rightarrow> u64" where
  "fld m p i = load64 m (p + of_nat i)"

definition slab_off :: "nat \<Rightarrow> bool" where
  "slab_off i \<longleftrightarrow> 8 dvd i \<and> i < 8192"

lemma unat_field:
  assumes "aligned 13 p" "i < 8192"
  shows "unat (p + of_nat i) = unat p + i"
proof -
  obtain d where d: "unat p = 8192 * d" using assms(1) by (auto simp: aligned_def)
  have "8192 * d < 18446744073709551616" using unat_lt64[of p] d by simp
  then have "d \<le> 2251799813685247" by linarith
  then show ?thesis using d assms(2) by (intro offset_unat) linarith
qed

lemma field_eq_iff:
  assumes "aligned 13 p" "aligned 13 q" "i < 8192" "j < 8192"
  shows "unat p + i = unat q + j \<longleftrightarrow> p = q \<and> i = j"
proof
  obtain d where d: "unat p = 8192 * d" using assms(1) by (auto simp: aligned_def)
  obtain e where e: "unat q = 8192 * e" using assms(2) by (auto simp: aligned_def)
  assume "unat p + i = unat q + j"
  then have "(i + 8192 * d) div 8192 = (j + 8192 * e) div 8192" using d e by (simp add: add.commute)
  then have "d = e" using assms(3,4) by simp
  then show "p = q \<and> i = j" using d e \<open>unat p + i = unat q + j\<close> by (simp add: word_unat_eq_iff)
qed simp

lemma disj_words:
  assumes "8 dvd unat a" "8 dvd unat b" "a \<noteq> b"
  shows "disj_range a 8 b 8"
proof -
  obtain x y where x: "unat a = 8 * x" and y: "unat b = 8 * y" using assms(1,2) by (auto simp: dvd_def)
  have "x \<noteq> y" using assms(3) x y by (metis word_unat_eq_iff)
  moreover have "8 * x < 18446744073709551616" "8 * y < 18446744073709551616" using unat_lt64[of a] unat_lt64[of b] x y by simp_all
  ultimately show ?thesis
    unfolding disj_range_def word_le_nat_alt unat_sub_if_size word_size x y by (cases "y \<le> x") (simp_all, linarith+)
qed

lemma fld_store:
  assumes "aligned 13 p" "aligned 13 q" "slab_off i" "slab_off j"
  shows "fld (store64 m (p + of_nat i) v) q j = (if p = q \<and> i = j then v else fld m q j)"
proof -
  have i: "8 dvd i" "i < 8192" and j: "8 dvd j" "j < 8192" using assms(3,4) by (simp_all add: slab_off_def)
  have "8 dvd unat p" "8 dvd unat q" using assms(1,2) by (auto simp: aligned_def dvd_def)
  then have "8 dvd unat (p + of_nat i)" "8 dvd unat (q + of_nat j)"
    using unat_field[OF assms(1) i(2)] unat_field[OF assms(2) j(2)] i j by simp_all
  moreover have "p + of_nat i = q + of_nat j \<longleftrightarrow> p = q \<and> i = j"
    using field_eq_iff[OF assms(1,2) i(2) j(2)] unat_field[OF assms(1) i(2)] unat_field[OF assms(2) j(2)] by (metis word_unat_eq_iff)
  ultimately show ?thesis using disj_words[of "p + of_nat i" "q + of_nat j"] by (auto simp: fld_def load64_store64_disj)
qed

text \<open>The accessors of the code are fields.\<close>

lemma fld_header:
  "sl_magic m p = fld m p 0" "sl_cache m p = fld m p 8" "sl_phys_addr m p = fld m p 16" "sl_free_count m p = fld m p 24"
  "sl_free_list m p = fld m p 32" "sl_next m p = fld m p 40"
  by (simp_all add: fld_def sl_magic_def sl_cache_def sl_phys_addr_def sl_free_count_def sl_free_list_def sl_next_def)

lemma store_fields:
  "store s p v = s\<lparr>mem := store64 (mem s) (p + of_nat 0) v\<rparr>" "store s (p + 8) v = s\<lparr>mem := store64 (mem s) (p + of_nat 8) v\<rparr>"
  "store s (p + 24) v = s\<lparr>mem := store64 (mem s) (p + of_nat 24) v\<rparr>"
  "store s (p + 32) v = s\<lparr>mem := store64 (mem s) (p + of_nat 32) v\<rparr>" "store s (p + 40) v = s\<lparr>mem := store64 (mem s) (p + of_nat 40) v\<rparr>"
  by (simp_all add: store_def)

lemma slab_off_header [simp]: "slab_off 0" "slab_off 8" "slab_off 16" "slab_off 24" "slab_off 32" "slab_off 40"
  by (simp_all add: slab_off_def)

section \<open>The lists of a cache\<close>

definition slab_sep :: "u64 \<Rightarrow> u64 \<Rightarrow> bool" where
  "slab_sep p q \<longleftrightarrow> disj_range (p + 40) 8 (q + 40) 8"

lemma list_head_set [simp]: "list_head w (set_list_head w v c) = v"
  by (cases w) simp_all

lemma list_head_set_other: "w \<noteq> w' \<Longrightarrow> list_head w' (set_list_head w v c) = list_head w' c"
  by (cases w; cases w') simp_all

lemma cache_at_set [simp]: "c < length (slab_caches s) \<Longrightarrow> cache_at (set_cache s c x) c = x"
  by (simp add: set_cache_def)

lemma set_cache_fields [simp]: "mem (set_cache s c x) = mem s" "length (slab_caches (set_cache s c x)) = length (slab_caches s)"
  "slab_caches_addr (set_cache s c x) = slab_caches_addr s"
  by (simp_all add: set_cache_def)

lemma store_simps [simp]: "mem (store s a v) = store64 (mem s) a v" "slab_caches (store s a v) = slab_caches s"
  "slab_caches_addr (store s a v) = slab_caches_addr s"
  by (simp_all add: store_def)

interpretation sl: slot_heap "sl_slot c w" "set_sl_slot c w" slab_sep "\<lambda>s. c < length (slab_caches s)" for c w
proof unfold_locales
  fix s :: "'a slab_state_scheme" and l v p q
  assume c: "c < length (slab_caches s)"
  show "sl_slot c w (set_sl_slot c w s l v) l = v" using c by (cases l) (simp_all add: sl_next_def)
  show "sl_slot c w (set_sl_slot c w s Head v) (NextOf p) = sl_slot c w s (NextOf p)" by simp
  show "sl_slot c w (set_sl_slot c w s (NextOf p) v) Head = sl_slot c w s Head" by simp
  show "slab_sep p q \<Longrightarrow> sl_slot c w (set_sl_slot c w s (NextOf p) v) (NextOf q) = sl_slot c w s (NextOf q)"
    by (simp add: sl_next_def slab_sep_def load64_store64_disj)
qed

type_synonym slab_map = "slab_list \<Rightarrow> u64 list"

definition all_slabs :: "slab_map \<Rightarrow> u64 set" where
  "all_slabs L = (\<Union>w. set (L w))"

definition slab_lists :: "'a slab_state_scheme \<Rightarrow> nat \<Rightarrow> slab_map \<Rightarrow> bool" where
  "slab_lists s c L \<longleftrightarrow> c < length (slab_caches s) \<and> (\<forall>w. lseg (sl_slot c w s) Head (L w))
     \<and> (\<forall>w w'. w \<noteq> w' \<longrightarrow> set (L w) \<inter> set (L w') = {}) \<and> (\<forall>p\<in>all_slabs L. aligned 13 p)"

lemma slab_sep_aligned:
  assumes "aligned 13 p" "aligned 13 q" "p \<noteq> q"
  shows "slab_sep p q"
proof -
  have "8 dvd unat p" "8 dvd unat q" using assms(1,2) by (auto simp: aligned_def dvd_def)
  moreover have "unat (p + 40) = unat p + 40" "unat (q + 40) = unat q + 40"
    using unat_field[OF assms(1), of 40] unat_field[OF assms(2), of 40] by simp_all
  ultimately show ?thesis unfolding slab_sep_def using assms(3) by (intro disj_words) simp_all
qed

lemma slab_lists_cong:
  assumes "slab_lists s c L" "length (slab_caches s') = length (slab_caches s)"
    and "\<And>w. list_head w (cache_at s' c) = list_head w (cache_at s c)"
    and "\<And>q. q \<in> all_slabs L \<Longrightarrow> fld (mem s') q 40 = fld (mem s) q 40"
  shows "slab_lists s' c L"
proof -
  have "lseg (sl_slot c w s') Head (L w)" for w
  proof (rule lseg_cong[of "sl_slot c w s"])
    show "lseg (sl_slot c w s) Head (L w)" using assms(1) by (simp add: slab_lists_def)
    show "sl_slot c w s Head = sl_slot c w s' Head" using assms(3)[of w] by simp
    show "sl_slot c w s (NextOf x) = sl_slot c w s' (NextOf x)" if "x \<in> set (L w)" for x
    proof -
      have "x \<in> all_slabs L" using that by (auto simp: all_slabs_def)
      then show ?thesis using assms(4) by (simp add: fld_header)
    qed
  qed
  then show ?thesis using assms(1,2) by (simp add: slab_lists_def)
qed

text \<open>What moving slabs between lists may change: the heads of the lists and the \<^verbatim>\<open>next\<close> fields.\<close>

definition relinked :: "'a slab_state_scheme \<Rightarrow> 'a slab_state_scheme \<Rightarrow> nat \<Rightarrow> u64 set \<Rightarrow> bool" where
  "relinked s t c A \<longleftrightarrow>
     t = s\<lparr>mem := mem t, slab_caches := slab_caches t\<rparr>
     \<and> (\<exists>x y z. slab_caches t = (slab_caches s)[c := (cache_at s c)\<lparr>full_slabs := x, partial_slabs := y, empty_slabs := z\<rparr>])
     \<and> (\<forall>x. (\<forall>p\<in>A. \<not> x - (p + 40) < 8) \<longrightarrow> mem t x = mem s x)"

lemma relinked_refl: "c < length (slab_caches s) \<Longrightarrow> relinked s s c A"
proof -
  assume c: "c < length (slab_caches s)"
  have "cache_at s c = (cache_at s c)\<lparr>full_slabs := full_slabs (cache_at s c), partial_slabs := partial_slabs (cache_at s c), empty_slabs := empty_slabs (cache_at s c)\<rparr>"
    by simp
  then have "slab_caches s = (slab_caches s)[c := (cache_at s c)\<lparr>full_slabs := full_slabs (cache_at s c),
      partial_slabs := partial_slabs (cache_at s c), empty_slabs := empty_slabs (cache_at s c)\<rparr>]" by simp
  then show ?thesis unfolding relinked_def by (intro conjI) (simp, blast, simp)
qed

lemma relinked_trans:
  assumes "c < length (slab_caches s)" "relinked s t c A" "relinked t u c A"
  shows "relinked s u c A"
proof -
  obtain x y z where t: "slab_caches t = (slab_caches s)[c := (cache_at s c)\<lparr>full_slabs := x, partial_slabs := y, empty_slabs := z\<rparr>]"
    using assms(2) unfolding relinked_def by blast
  obtain x' y' z' where u: "slab_caches u = (slab_caches t)[c := (cache_at t c)\<lparr>full_slabs := x', partial_slabs := y', empty_slabs := z'\<rparr>]"
    using assms(3) unfolding relinked_def by blast
  have "slab_caches u = (slab_caches s)[c := (cache_at s c)\<lparr>full_slabs := x', partial_slabs := y', empty_slabs := z'\<rparr>]"
    unfolding u t using assms(1) by simp
  moreover have "u = s\<lparr>mem := mem u, slab_caches := slab_caches u\<rparr>"
    using assms(2,3) unfolding relinked_def by (cases s; cases t; cases u) simp
  ultimately show ?thesis using assms(2,3) unfolding relinked_def by (intro conjI) (assumption, blast, metis)
qed

lemma relinked_set_head: "c < length (slab_caches s) \<Longrightarrow> relinked s (set_cache s c (set_list_head w v (cache_at s c))) c A"
proof -
  assume c: "c < length (slab_caches s)"
  have "\<exists>x y z. set_list_head w v k = k\<lparr>full_slabs := x, partial_slabs := y, empty_slabs := z\<rparr>" for k
  proof (cases w)
    case Partial
    then show ?thesis by (intro exI[of _ "full_slabs k"] exI[of _ v] exI[of _ "empty_slabs k"]) simp
  next
    case Full
    then show ?thesis by (intro exI[of _ v] exI[of _ "partial_slabs k"] exI[of _ "empty_slabs k"]) simp
  next
    case Empty
    then show ?thesis by (intro exI[of _ "full_slabs k"] exI[of _ "partial_slabs k"] exI[of _ v]) simp
  qed
  then obtain x y z where "set_list_head w v (cache_at s c) = (cache_at s c)\<lparr>full_slabs := x, partial_slabs := y, empty_slabs := z\<rparr>" by blast
  then have "slab_caches (set_cache s c (set_list_head w v (cache_at s c))) = (slab_caches s)[c := (cache_at s c)\<lparr>full_slabs := x, partial_slabs := y, empty_slabs := z\<rparr>]"
    by (simp add: set_cache_def)
  then show ?thesis unfolding relinked_def by (intro conjI) (simp add: set_cache_def, blast, simp)
qed

lemma relinked_next: "c < length (slab_caches s) \<Longrightarrow> p \<in> A \<Longrightarrow> relinked s (store s (p + 40) v) c A"
  using relinked_refl[of c s A] by (auto simp: relinked_def store_def store64_outside)

lemma relinked_fields:
  assumes "relinked s t c A" "c < length (slab_caches s)"
  shows "length (slab_caches t) = length (slab_caches s)" "slab_caches_addr t = slab_caches_addr s"
    "object_size (cache_at t c) = object_size (cache_at s c)" "objects_per_slab (cache_at t c) = objects_per_slab (cache_at s c)"
    "allocated_objects (cache_at t c) = allocated_objects (cache_at s c)" "total_objects (cache_at t c) = total_objects (cache_at s c)"
    "total_slabs (cache_at t c) = total_slabs (cache_at s c)"
proof -
  obtain x y z where t: "slab_caches t = (slab_caches s)[c := (cache_at s c)\<lparr>full_slabs := x, partial_slabs := y, empty_slabs := z\<rparr>]"
    using assms(1) unfolding relinked_def by blast
  show "slab_caches_addr t = slab_caches_addr s" using assms(1) unfolding relinked_def by (cases s; cases t) simp
  show "length (slab_caches t) = length (slab_caches s)"
    "object_size (cache_at t c) = object_size (cache_at s c)" "objects_per_slab (cache_at t c) = objects_per_slab (cache_at s c)"
    "allocated_objects (cache_at t c) = allocated_objects (cache_at s c)" "total_objects (cache_at t c) = total_objects (cache_at s c)"
    "total_slabs (cache_at t c) = total_slabs (cache_at s c)"
    unfolding t using assms(2) by simp_all
qed

lemma relinked_fld:
  assumes "relinked s t c A" "\<forall>p\<in>A. aligned 13 p" "aligned 13 q" "slab_off i" "i \<noteq> 40 \<or> q \<notin> A"
  shows "fld (mem t) q i = fld (mem s) q i"
  unfolding fld_def
proof (rule load64_cong)
  fix k :: u64 assume k: "k < 8"
  have "\<not> q + of_nat i + k - (p + 40) < 8" if "p \<in> A" for p
  proof -
    have al: "aligned 13 p" using assms(2) that by blast
    have i: "8 dvd i" "i < 8192" using assms(4) by (simp_all add: slab_off_def)
    have d: "8 dvd unat p" "8 dvd unat q" using al assms(3) by (auto simp: aligned_def dvd_def)
    have u: "unat (q + of_nat i) = unat q + i" "unat (p + 40) = unat p + 40"
      using unat_field[OF assms(3) i(2)] unat_field[OF al, of 40] by simp_all
    have "unat p + 40 \<noteq> unat q + i" using field_eq_iff[OF al assms(3), of 40 i] assms(5) that i(2) by auto
    then have "p + 40 \<noteq> q + of_nat i" using u by metis
    then have "disj_range (p + 40) 8 (q + of_nat i) 8" using d i(1) u by (intro disj_words) simp_all
    then show ?thesis using k by (rule disj_range_outside)
  qed
  then show "mem t (q + of_nat i + k) = mem s (q + of_nat i + k)" using assms(1) unfolding relinked_def by blast
qed

section \<open>Moving a slab between lists\<close>

lemma all_slabs_eq: "all_slabs L = set (L Partial) \<union> set (L Full) \<union> set (L Empty)"
proof -
  have "UNIV = {Partial, Full, Empty}" using slab_list.exhaust by auto
  from arg_cong[OF this, of "\<lambda>W. \<Union>w\<in>W. set (L w)"] show ?thesis by (simp add: all_slabs_def Un_assoc)
qed

lemma in_all_slabs: "p \<in> set (L w) \<Longrightarrow> p \<in> all_slabs L"
  by (auto simp: all_slabs_def)

lemma slab_lists_mem:
  assumes "slab_lists s c L" "p \<in> all_slabs L"
  shows "aligned 13 p" "p \<noteq> NULL"
  using assms lseg_nonnull[of "sl_slot c w s" Head "L w" for w] by (fastforce simp: slab_lists_def all_slabs_def)+

lemma slab_lists_store_next:
  assumes "slab_lists s c L" "aligned 13 p" "p \<notin> all_slabs L"
  shows "slab_lists (store s (p + 40) v) c L"
proof (rule slab_lists_cong[OF assms(1)])
  fix q assume q: "q \<in> all_slabs L"
  have "fld (store64 (mem s) (p + of_nat 40) v) q 40 = fld (mem s) q 40"
    using fld_store[OF assms(2) slab_lists_mem(1)[OF assms(1) q], of 40 40 "mem s" v] assms(3) q by auto
  then show "fld (mem (store s (p + 40) v)) q 40 = fld (mem s) q 40" by simp
qed simp_all

lemma push_slab_lists:
  assumes "slab_lists s c L" "aligned 13 p" "p \<noteq> NULL" "p \<notin> all_slabs L"
  shows "slab_lists (push_slab s p c w) c (L(w := p # L w))" "p \<in> A \<Longrightarrow> relinked s (push_slab s p c w) c A"
proof -
  let ?s1 = "store s (p + 40) (list_head w (cache_at s c))" and ?t = "push_slab s p c w"
  have c: "c < length (slab_caches s)" using assms(1) by (simp add: slab_lists_def)
  note l1 = slab_lists_store_next[OF assms(1,2,4), of "list_head w (cache_at s c)"]
  have t: "?t = set_cache ?s1 c (set_list_head w p (cache_at s c))" by (simp add: push_slab_def Let_def)
  have ls: "lseg (sl_slot c v ?s1) Head (L v)" for v using l1 by (simp add: slab_lists_def)
  have nx: "sl_slot c v ?t (NextOf q) = sl_slot c v ?s1 (NextOf q)" for v q by (simp add: t)
  have "lseg (sl_slot c v ?t) Head ((L(w := p # L w)) v)" for v
  proof (cases "v = w")
    case True
    have "lseg (sl_slot c w ?t) (NextOf p) (L w)"
    proof (cases "L w")
      case Nil
      then show ?thesis using ls[of w] by (simp add: t sl_next_def)
    next
      case (Cons q qs)
      then have "sl_slot c w ?s1 Head = q" "q \<noteq> NULL" "lseg (sl_slot c w ?s1) (NextOf q) qs" using ls[of w] by (simp_all only: lseg.simps simp_thms not_False_eq_True)
      moreover have "lseg (sl_slot c w ?t) (NextOf q) qs"
        using calculation(3) by (rule lseg_cong) (simp_all only: nx)
      moreover have "sl_slot c w ?t (NextOf p) = sl_slot c w ?s1 Head" by (simp add: t sl_next_def)
      ultimately show ?thesis using Cons by (simp only: lseg.simps simp_thms not_False_eq_True)
    qed
    then show ?thesis using True assms(3) c by (simp add: t)
  next
    case False
    then have "sl_slot c v ?t Head = sl_slot c v ?s1 Head" using c by (simp add: t list_head_set_other)
    then show ?thesis using False ls[of v] lseg_cong[OF ls[of v], of "sl_slot c v ?t"] nx by simp
  qed
  moreover have "all_slabs (L(w := p # L w)) = insert p (all_slabs L)" by (auto simp: all_slabs_def split: if_splits)
  ultimately show "slab_lists ?t c (L(w := p # L w))"
    using assms c by (auto simp: slab_lists_def t all_slabs_def)
  show "relinked s ?t c A" if "p \<in> A"
    unfolding t using relinked_trans[OF c relinked_next[OF c that] relinked_set_head[of c ?s1 w p A]] c by simp
qed

lemma remove_from_absent:
  assumes "slab_lists s c L" "p \<notin> set (L w)"
  shows "remove_from s p c w = Some (False, s)"
proof -
  have "find_slot (sl_slot c w s) (\<lambda>q. q = p) Head = Some None"
    using assms by (intro find_slot_None[of _ _ "L w"]) (auto simp: slab_lists_def)
  then show ?thesis by (simp add: remove_from_def)
qed

lemma remove_from_present:
  assumes "slab_lists s c L" "p \<in> set (L w)"
  shows "\<exists>t. remove_from s p c w = Some (True, t) \<and> slab_lists t c (L(w := remove1 p (L w))) \<and> relinked s t c (all_slabs L)"
proof -
  obtain ys zs where L: "L w = ys @ p # zs" "p \<notin> set ys" using assms(2) by (meson split_list_first)
  have c: "c < length (slab_caches s)" using assms(1) by (simp add: slab_lists_def)
  have ls: "lseg (sl_slot c v s) Head (L v)" for v using assms(1) by (simp add: slab_lists_def)
  have dist: "p \<notin> set zs" using lseg_distinct[OF ls[of w]] L by simp
  have pall: "p \<in> all_slabs L" using assms(2) by (auto simp: all_slabs_def)
  let ?l = "slot_after Head ys" let ?s1 = "set_sl_slot c w s ?l (sl_next (mem s) p)" let ?t = "store ?s1 (p + 40) NULL"
  let ?L = "L(w := ys @ zs)"
  have sep: "slab_sep q r" if "q \<in> all_slabs L" "r \<in> all_slabs L" "q \<noteq> r" for q r
    using that slab_lists_mem(1)[OF assms(1)] by (intro slab_sep_aligned)
  have "find_slot (sl_slot c w s) (\<lambda>q. q = p) Head = Some (Some ?l)"
    using ls[of w] L by (intro find_slot_Some[of _ _ ys p zs]) auto
  then have r: "remove_from s p c w = Some (True, ?t)" by (simp add: remove_from_def Let_def)
  have l: "?l = Head \<or> (\<exists>q\<in>set ys. ?l = NextOf q)" by (auto simp: slot_after_cases)
  have in_L: "q \<in> all_slabs L" if "q \<in> set (ys @ p # zs)" for q using that in_all_slabs[of q L w] L(1) by simp
  have "lseg (sl_slot c w ?s1) Head (ys @ zs)"
    using sl.lseg_unlink[OF c ls[of w, unfolded L(1)]] sep in_L by simp
  moreover have "lseg (sl_slot c v ?s1) Head (L v)" if "v \<noteq> w" for v
  proof (rule lseg_cong[OF ls])
    show "sl_slot c v s Head = sl_slot c v ?s1 Head" using l c that by (auto simp: list_head_set_other)
    fix x assume x: "x \<in> set (L v)"
    have "set (L v) \<inter> set (L w) = {}" using assms(1) that unfolding slab_lists_def by blast
    then have "q \<noteq> x" if "q \<in> set ys" for q using x L(1) that by auto
    moreover have "x \<in> all_slabs L" "\<And>q. q \<in> set ys \<Longrightarrow> q \<in> all_slabs L" using in_all_slabs[of x L v] x in_L by simp_all
    ultimately show "sl_slot c v s (NextOf x) = sl_slot c v ?s1 (NextOf x)"
      using l sep by (auto simp: sl_next_def slab_sep_def load64_store64_disj)
  qed
  moreover have "all_slabs ?L = all_slabs L - {p}"
  proof -
    have "p \<notin> set (L v)" if "v \<noteq> w" for v using assms(1,2) that by (auto simp: slab_lists_def)
    from this[of Partial] this[of Full] this[of Empty] show ?thesis using L dist by (cases w) (auto simp: all_slabs_eq)
  qed
  moreover have "set (?L v) \<inter> set (?L v') = {}" if "v \<noteq> v'" for v v'
  proof -
    have "set (?L u) \<subseteq> set (L u)" for u using L(1) by auto
    moreover have "set (L v) \<inter> set (L v') = {}" using assms(1) that unfolding slab_lists_def by blast
    ultimately show ?thesis by blast
  qed
  moreover have "c < length (slab_caches ?s1)" using c l by auto
  moreover have "\<forall>q\<in>all_slabs L. aligned 13 q" using assms(1) by (simp add: slab_lists_def)
  ultimately have l1: "slab_lists ?s1 c ?L" and pn: "p \<notin> all_slabs ?L"
    unfolding slab_lists_def by simp_all
  have rel: "relinked s ?s1 c (all_slabs L)"
    using l relinked_set_head[OF c, of w _ "all_slabs L"] relinked_next[OF c in_L] by auto
  have c1: "c < length (slab_caches ?s1)" using l1 by (simp add: slab_lists_def)
  have "slab_lists ?t c ?L" using slab_lists_store_next[OF l1 slab_lists_mem(1)[OF assms(1) pall] pn] by simp
  moreover have "relinked s ?t c (all_slabs L)" by (rule relinked_trans[OF c rel relinked_next[OF c1 pall]])
  ultimately show ?thesis using r L dist by (simp add: remove1_append)
qed

lemma slab_remove_correct:
  assumes "slab_lists s c L" "p \<in> set (L w)"
  shows "\<exists>t. slab_remove_from_list s p c = Some t \<and> slab_lists t c (L(w := remove1 p (L w))) \<and> relinked s t c (all_slabs L)"
proof -
  have other: "remove_from s p c v = Some (False, s)" if "v \<noteq> w" for v
    using assms that by (intro remove_from_absent) (auto simp: slab_lists_def)
  show ?thesis
    using remove_from_present[OF assms] other[of Partial] other[of Full] other[of Empty]
    by (cases w) (auto simp: slab_remove_from_list_def)
qed

text \<open>Unlinking a slab and linking it at the head of a list, as allocation and freeing do.\<close>

definition moved :: "slab_map \<Rightarrow> u64 \<Rightarrow> slab_list \<Rightarrow> slab_list \<Rightarrow> slab_map" where
  "moved L p w v = (let L' = L(w := remove1 p (L w)) in L'(v := p # L' v))"

lemma moved_slabs:
  assumes "p \<in> set (L w)"
  shows "all_slabs (moved L p w v) = all_slabs L"
proof -
  have "set (remove1 p (L w)) \<subseteq> set (L w)" "\<And>q. q \<in> set (L w) \<Longrightarrow> q \<noteq> p \<Longrightarrow> q \<in> set (remove1 p (L w))"
    by (simp_all add: set_remove1_subset)
  then show ?thesis using assms by (cases w; cases v) (auto simp: all_slabs_eq moved_def Let_def)
qed

lemma move_slab:
  assumes "slab_lists s c L" "p \<in> set (L w)"
  shows "\<exists>t u. slab_remove_from_list s p c = Some t \<and> push_slab t p c v = u \<and> slab_lists u c (moved L p w v) \<and> relinked s u c (all_slabs L)"
proof -
  obtain t where t: "slab_remove_from_list s p c = Some t" "slab_lists t c (L(w := remove1 p (L w)))" "relinked s t c (all_slabs L)"
    using slab_remove_correct[OF assms] by blast
  have c: "c < length (slab_caches s)" using assms(1) by (simp add: slab_lists_def)
  have p: "p \<in> all_slabs L" using assms(2) by (auto simp: all_slabs_def)
  have "distinct (L w)" using assms(1) by (intro lseg_distinct[of "sl_slot c w s" Head]) (simp add: slab_lists_def)
  moreover have "p \<notin> set (L v)" if "v \<noteq> w" for v using assms that by (auto simp: slab_lists_def)
  ultimately have "p \<notin> all_slabs (L(w := remove1 p (L w)))" by (auto simp: all_slabs_def split: if_splits)
  note push = push_slab_lists[OF t(2) slab_lists_mem[OF assms(1) p] this]
  show ?thesis using t(1) push(1)[of v] relinked_trans[OF c t(3) push(2)[OF p, of v]] by (auto simp: moved_def Let_def)
qed

section \<open>The free objects of a slab\<close>

text \<open>Object \<open>k\<close> of a slab of objects of \<open>z\<close> bytes.\<close>

definition obj_off :: "nat \<Rightarrow> nat \<Rightarrow> nat" where
  "obj_off z k = 48 + k * z"

definition slab_obj :: "u64 \<Rightarrow> nat \<Rightarrow> nat \<Rightarrow> u64" where
  "slab_obj p z k = p + of_nat (obj_off z k)"

fun free_chain :: "memory \<Rightarrow> u64 \<Rightarrow> nat \<Rightarrow> u64 \<Rightarrow> nat list \<Rightarrow> bool" where
  "free_chain m p z v [] \<longleftrightarrow> v = NULL"
| "free_chain m p z v (k # ks) \<longleftrightarrow> v = slab_obj p z k \<and> free_chain m p z (fld m p (obj_off z k + 8)) ks"

text \<open>The layout: objects of at least 16 bytes, in multiples of 16, at least two of them, in two pages.\<close>

definition layout_ok :: "nat \<Rightarrow> nat \<Rightarrow> bool" where
  "layout_ok z n \<longleftrightarrow> 16 dvd z \<and> 0 < z \<and> 2 \<le> n \<and> 48 + n * z \<le> 8192"

definition slab_ok :: "memory \<Rightarrow> u64 \<Rightarrow> nat \<Rightarrow> nat \<Rightarrow> u64 \<Rightarrow> nat list \<Rightarrow> bool" where
  "slab_ok m p z n cp ks \<longleftrightarrow> fld m p 0 = SLAB_MAGIC \<and> fld m p 8 = cp \<and> fld m p 24 = of_nat (length ks)
     \<and> free_chain m p z (fld m p 32) ks \<and> distinct ks \<and> set ks \<subseteq> {..<n}"

lemma obj_room:
  assumes "layout_ok z n" "k < n"
  shows "slab_off (obj_off z k)" "slab_off (obj_off z k + 8)" "obj_off z k + 16 \<le> 8192" "48 \<le> obj_off z k"
proof -
  have z: "16 dvd z" "0 < z" using assms(1) by (simp_all add: layout_ok_def)
  have "Suc k * z \<le> n * z" using assms(2) by (intro mult_le_mono1) simp
  moreover have "16 \<le> z" using z by (intro dvd_imp_le)
  ultimately have "obj_off z k + 16 \<le> 8192" using assms(1) by (simp add: layout_ok_def obj_off_def)
  moreover have "8 dvd z" using z(1) by (rule dvd_trans[rotated]) simp
  ultimately show "slab_off (obj_off z k)" "slab_off (obj_off z k + 8)" "obj_off z k + 16 \<le> 8192" "48 \<le> obj_off z k"
    by (simp_all add: slab_off_def obj_off_def)
qed

lemma obj_off_inj:
  assumes "layout_ok z n"
  shows "obj_off z k = obj_off z l \<longleftrightarrow> k = l" "obj_off z k \<noteq> obj_off z l + 8"
proof -
  have z: "16 dvd z" "0 < z" using assms by (simp_all add: layout_ok_def)
  show "obj_off z k = obj_off z l \<longleftrightarrow> k = l" using z by (simp add: obj_off_def)
  have "16 dvd k * z" "16 dvd l * z" using z(1) by simp_all
  then show "obj_off z k \<noteq> obj_off z l + 8" unfolding obj_off_def by presburger
qed

lemma unat_slab_obj: "aligned 13 p \<Longrightarrow> layout_ok z n \<Longrightarrow> k < n \<Longrightarrow> unat (slab_obj p z k) = unat p + obj_off z k"
  unfolding slab_obj_def using obj_room(3)[of z n k] by (intro unat_field) simp_all

lemma slab_obj_inj:
  assumes "aligned 13 p" "layout_ok z n" "k < n" "l < n"
  shows "slab_obj p z k = slab_obj p z l \<longleftrightarrow> k = l"
  using unat_slab_obj[OF assms(1,2,3)] unat_slab_obj[OF assms(1,2,4)] obj_off_inj(1)[OF assms(2), of k l]
  by (metis add_left_cancel)

lemma slab_obj_nonnull: "aligned 13 p \<Longrightarrow> layout_ok z n \<Longrightarrow> k < n \<Longrightarrow> slab_obj p z k \<noteq> NULL"
  using unat_slab_obj[of p z n k] obj_room(4)[of z n k] by auto

lemma free_chain_cong:
  "free_chain m p z v ks \<Longrightarrow> (\<And>k. k \<in> set ks \<Longrightarrow> fld m' p (obj_off z k + 8) = fld m p (obj_off z k + 8)) \<Longrightarrow> free_chain m' p z v ks"
  by (induction ks arbitrary: v) auto

lemma slab_ok_cong:
  assumes "slab_ok m p z n cp ks" "\<And>i. i \<in> {0, 8, 24, 32} \<Longrightarrow> fld m' p i = fld m p i"
    "\<And>k. k \<in> set ks \<Longrightarrow> fld m' p (obj_off z k + 8) = fld m p (obj_off z k + 8)"
  shows "slab_ok m' p z n cp ks"
  using assms free_chain_cong[of m p z "fld m p 32" ks m'] by (simp add: slab_ok_def)

text \<open>A write to another slab, or to the \<^verbatim>\<open>next\<close> field, or to an object that is not free, keeps a slab.\<close>

lemma slab_ok_store_other:
  assumes "slab_ok m p z n cp ks" "layout_ok z n" "aligned 13 p" "aligned 13 q" "slab_off i" "p \<noteq> q \<or> i = 40"
  shows "slab_ok (store64 m (q + of_nat i) v) p z n cp ks"
proof (rule slab_ok_cong[OF assms(1)])
  show "fld (store64 m (q + of_nat i) v) p j = fld m p j" if "j \<in> {0, 8, 24, 32}" for j
    using that fld_store[OF assms(4,3,5), of j m v] assms(6) by auto
  show "fld (store64 m (q + of_nat i) v) p (obj_off z k + 8) = fld m p (obj_off z k + 8)" if "k \<in> set ks" for k
  proof -
    have "k < n" using that assms(1) by (auto simp: slab_ok_def)
    then show ?thesis using fld_store[OF assms(4,3,5), of "obj_off z k + 8" m v] obj_room[OF assms(2)] assms(6) by fastforce
  qed
qed

lemma slab_ok_pop:
  assumes "slab_ok m p z n cp (k # ks)" "layout_ok z n" "aligned 13 p"
  shows "fld m p 32 = slab_obj p z k"
    and "slab_ok (store64 (store64 m (p + of_nat 32) (fld m p (obj_off z k + 8))) (p + of_nat 24) (fld m p 24 - 1)) p z n cp ks"
proof -
  show "fld m p 32 = slab_obj p z k" using assms(1) by (simp add: slab_ok_def)
  let ?m1 = "store64 m (p + of_nat 32) (fld m p (obj_off z k + 8))" let ?m2 = "store64 ?m1 (p + of_nat 24) (fld m p 24 - 1)"
  have f: "fld ?m2 p j = (if j = 24 then fld m p 24 - 1 else if j = 32 then fld m p (obj_off z k + 8) else fld m p j)" if "slab_off j" for j
    using fld_store[OF assms(3,3) _ that, of 24 ?m1] fld_store[OF assms(3,3) _ that, of 32 m] by auto
  have "free_chain m p z (fld m p (obj_off z k + 8)) ks" using assms(1) by (simp add: slab_ok_def)
  moreover have "fld ?m2 p (obj_off z l + 8) = fld m p (obj_off z l + 8)" if "l \<in> set ks" for l
  proof -
    have "l < n" using that assms(1) by (auto simp: slab_ok_def)
    then show ?thesis using f[OF obj_room(2)[OF assms(2)]] obj_room(4)[OF assms(2), of l] by auto
  qed
  ultimately have "free_chain ?m2 p z (fld m p (obj_off z k + 8)) ks" by (rule free_chain_cong)
  then show "slab_ok ?m2 p z n cp ks" using assms(1) f by (simp add: slab_ok_def)
qed

lemma slab_ok_push:
  assumes "slab_ok m p z n cp ks" "layout_ok z n" "aligned 13 p" "k < n" "k \<notin> set ks"
  defines "m1 \<equiv> store64 m (p + of_nat (obj_off z k)) OBJECT_POISON"
  defines "m2 \<equiv> store64 m1 (p + of_nat (obj_off z k + 8)) (fld m1 p 32)"
  defines "m3 \<equiv> store64 m2 (p + of_nat 32) (slab_obj p z k)"
  shows "slab_ok (store64 m3 (p + of_nat 24) (fld m3 p 24 + 1)) p z n cp (k # ks)"
proof -
  note room = obj_room[OF assms(2,4)]
  let ?m4 = "store64 m3 (p + of_nat 24) (fld m3 p 24 + 1)"
  have f1: "fld m1 p j = (if j = obj_off z k then OBJECT_POISON else fld m p j)" if "slab_off j" for j
    unfolding m1_def using fld_store[OF assms(3,3) room(1) that, of m] by auto
  have f2: "fld m2 p j = (if j = obj_off z k + 8 then fld m p 32 else fld m1 p j)" if "slab_off j" for j
    unfolding m2_def using fld_store[OF assms(3,3) room(2) that, of m1] f1[of 32] room(4) by auto
  have f3: "fld m3 p j = (if j = 32 then slab_obj p z k else fld m2 p j)" if "slab_off j" for j
    unfolding m3_def using fld_store[OF assms(3,3) _ that, of 32 m2] by auto
  have f4: "fld ?m4 p j = (if j = 24 then fld m p 24 + 1 else fld m3 p j)" if "slab_off j" for j
    using fld_store[OF assms(3,3) _ that, of 24 m3] f3[of 24] f2[of 24] f1[of 24] room(4) by auto
  have kept: "fld ?m4 p (obj_off z l + 8) = fld m p (obj_off z l + 8)" if "l \<in> set ks" for l
  proof -
    have l: "l < n" "l \<noteq> k" using that assms(1,5) by (auto simp: slab_ok_def)
    note r = obj_room(2)[OF assms(2) l(1)]
    show ?thesis
      using obj_room(4)[OF assms(2) l(1)] f4[OF r] f3[OF r] f2[OF r] f1[OF r] l(2) obj_off_inj(1)[OF assms(2), of l k] obj_off_inj(2)[OF assms(2), of k l]
      by auto
  qed
  have "free_chain m p z (fld m p 32) ks" using assms(1) by (simp add: slab_ok_def)
  then have "free_chain ?m4 p z (fld m p 32) ks" using kept by (rule free_chain_cong)
  moreover have "fld ?m4 p (obj_off z k + 8) = fld m p 32" "fld ?m4 p 32 = slab_obj p z k"
    using f4[OF room(2)] f3[OF room(2)] f2[OF room(2)] f4[of 32] f3[of 32] room(4) by simp_all
  moreover have "fld ?m4 p 0 = fld m p 0" "fld ?m4 p 8 = fld m p 8"
    using f4[of 0] f3[of 0] f2[of 0] f1[of 0] f4[of 8] f3[of 8] f2[of 8] f1[of 8] room(4) by (simp_all split: if_splits)
  moreover have "fld ?m4 p 24 = fld m p 24 + 1" using f4[of 24] by simp
  ultimately show ?thesis using assms(1,4,5) unfolding slab_ok_def by (simp only: free_chain.simps list.size distinct.simps list.set) simp
qed

section \<open>The invariant of a cache\<close>

abbreviation csize :: "'a slab_state_scheme \<Rightarrow> nat \<Rightarrow> nat" where
  "csize s c \<equiv> unat (object_size (cache_at s c))"

abbreviation ccount :: "'a slab_state_scheme \<Rightarrow> nat \<Rightarrow> nat" where
  "ccount s c \<equiv> unat (objects_per_slab (cache_at s c))"

text \<open>How many of its \<open>n\<close> objects a slab on a list may have free.\<close>

fun level :: "nat \<Rightarrow> slab_list \<Rightarrow> nat \<Rightarrow> bool" where
  "level n Partial l \<longleftrightarrow> 0 < l \<and> l < n"
| "level n Full l \<longleftrightarrow> l = 0"
| "level n Empty l \<longleftrightarrow> l = n"

text \<open>\<open>fr p\<close> are the indices of the free objects of slab \<open>p\<close>, in the order of its free list.\<close>

definition contents :: "'a slab_state_scheme \<Rightarrow> nat \<Rightarrow> slab_map \<Rightarrow> (u64 \<Rightarrow> nat list) \<Rightarrow> bool" where
  "contents s c L fr \<longleftrightarrow> layout_ok (csize s c) (ccount s c) \<and> slab_lists s c L
     \<and> (\<forall>p\<in>all_slabs L. slab_ok (mem s) p (csize s c) (ccount s c) (cache_ptr s c) (fr p))
     \<and> allocated_objects (cache_at s c) = of_nat (\<Sum>p\<in>all_slabs L. ccount s c - length (fr p))"

definition levels :: "nat \<Rightarrow> slab_map \<Rightarrow> (u64 \<Rightarrow> nat list) \<Rightarrow> bool" where
  "levels n L fr \<longleftrightarrow> (\<forall>w. \<forall>p\<in>set (L w). level n w (length (fr p)))"

definition slab_wf :: "'a slab_state_scheme \<Rightarrow> nat \<Rightarrow> slab_map \<Rightarrow> (u64 \<Rightarrow> nat list) \<Rightarrow> bool" where
  "slab_wf s c L fr \<longleftrightarrow> contents s c L fr \<and> levels (ccount s c) L fr"

lemma finite_all_slabs [simp]: "finite (all_slabs L)"
  by (simp add: all_slabs_eq)

lemma contents_relinked:
  assumes "contents s c L fr" "relinked s u c (all_slabs L)" "slab_lists u c L'" "all_slabs L' = all_slabs L"
  shows "contents u c L' fr" "ccount u c = ccount s c"
proof -
  have c: "c < length (slab_caches s)" and lay: "layout_ok (csize s c) (ccount s c)" and sl: "slab_lists s c L"
    using assms(1) by (simp_all add: contents_def slab_lists_def)
  note f = relinked_fields[OF assms(2) c]
  show "ccount u c = ccount s c" using f by simp
  have al: "\<forall>p\<in>all_slabs L. aligned 13 p" using sl by (simp add: slab_lists_def)
  have cp: "cache_ptr u c = cache_ptr s c" using f by (simp add: cache_ptr_def)
  have "slab_ok (mem u) p (csize s c) (ccount s c) (cache_ptr s c) (fr p)" if p: "p \<in> all_slabs L" for p
  proof (rule slab_ok_cong)
    show ok: "slab_ok (mem s) p (csize s c) (ccount s c) (cache_ptr s c) (fr p)" using assms(1) p by (simp add: contents_def)
    have same: "fld (mem u) p i = fld (mem s) p i" if "slab_off i" "i \<noteq> 40" for i
      using relinked_fld[OF assms(2) al _ that(1)] that(2) al p by blast
    show "fld (mem u) p i = fld (mem s) p i" if "i \<in> {0, 8, 24, 32}" for i using that by (intro same) auto
    show "fld (mem u) p (obj_off (csize s c) k + 8) = fld (mem s) p (obj_off (csize s c) k + 8)" if "k \<in> set (fr p)" for k
    proof -
      have "k < ccount s c" using ok that by (auto simp: slab_ok_def)
      then show ?thesis using obj_room[OF lay, of k] by (intro same) auto
    qed
  qed
  then show "contents u c L' fr" using assms(1,3,4) f cp unfolding contents_def by simp
qed

lemma levels_moved:
  assumes "\<And>v q. q \<in> set (L v) \<Longrightarrow> q \<noteq> p \<Longrightarrow> level n v (length (fr q))" "p \<in> set (L w)" "level n v (length (fr p))" "slab_lists s c L"
  shows "levels n (moved L p w v) fr"
proof -
  have d: "distinct (L w)" using assms(4) by (intro lseg_distinct[of "sl_slot c w s" Head]) (simp add: slab_lists_def)
  have only: "q \<noteq> p" if "u \<noteq> w" "q \<in> set (L u)" for u q
  proof -
    have "set (L u) \<inter> set (L w) = {}" using assms(4) that(1) unfolding slab_lists_def by blast
    then show ?thesis using that(2) assms(2) by auto
  qed
  have "level n u (length (fr q))" if q: "q \<in> set (moved L p w v u)" for u q
  proof (cases "q = p")
    case True
    have "u = v" using q True d only[of u p] by (auto simp: moved_def Let_def split: if_splits)
    then show ?thesis using True assms(3) by simp
  next
    case False
    then have "q \<in> set (L u)" using q set_remove1_subset[of p "L w"] by (auto simp: moved_def Let_def split: if_splits)
    then show ?thesis using False assms(1) by blast
  qed
  then show ?thesis by (simp add: levels_def)
qed

text \<open>The memory outside the headers.\<close>

definition outside_headers :: "u64 set \<Rightarrow> u64 \<Rightarrow> bool" where
  "outside_headers A x \<longleftrightarrow> (\<forall>p\<in>A. \<not> x - p < 48)"

lemma outside_next: "outside_headers A x \<Longrightarrow> p \<in> A \<Longrightarrow> \<not> x - (p + 40) < 8"
proof
  assume o: "outside_headers A x" "p \<in> A" and lt: "x - (p + 40) < 8"
  define d where "d = x - (p + 40)"
  have d: "unat d < 8" using lt by (simp add: word_less_nat_alt d_def)
  have "x - p = d + 40" by (simp add: d_def)
  then have "unat (x - p) < 48" using d by (simp add: unat_word_ariths(1))
  then show False using o by (auto simp: outside_headers_def word_less_nat_alt)
qed

lemma relinked_outside: "relinked s u c A \<Longrightarrow> outside_headers A x \<Longrightarrow> mem u x = mem s x"
  using outside_next unfolding relinked_def by blast

text \<open>Nothing but the memory and the caches changes, and the cache keeps its layout.\<close>

definition same_frame :: "'a slab_state_scheme \<Rightarrow> 'a slab_state_scheme \<Rightarrow> nat \<Rightarrow> bool" where
  "same_frame s t c \<longleftrightarrow> t = s\<lparr>mem := mem t, slab_caches := slab_caches t\<rparr> \<and> object_size (cache_at t c) = object_size (cache_at s c)
     \<and> objects_per_slab (cache_at t c) = objects_per_slab (cache_at s c)"

lemma same_frame_trans: "same_frame s t c \<Longrightarrow> same_frame t u c \<Longrightarrow> same_frame s u c"
  unfolding same_frame_def by (cases s; cases t; cases u) simp

lemma same_frame_fields: "same_frame s t c \<Longrightarrow> hhdm_offset t = hhdm_offset s \<and> slab_caches_addr t = slab_caches_addr s \<and> csize t c = csize s c \<and> ccount t c = ccount s c"
  unfolding same_frame_def by (cases s; cases t) simp

lemma relinked_frame: "relinked s t c A \<Longrightarrow> c < length (slab_caches s) \<Longrightarrow> same_frame s t c"
  using relinked_fields[of s t c A] by (simp add: same_frame_def relinked_def)

text \<open>The last step of allocation and freeing: the slab moves to the list of its new level.\<close>

lemma settle:
  assumes "contents s c L fr" "p \<in> set (L w)" "level (ccount s c) v (length (fr p))"
    and "\<And>v q. q \<in> set (L v) \<Longrightarrow> q \<noteq> p \<Longrightarrow> level (ccount s c) v (length (fr q))"
  shows "\<exists>t. slab_remove_from_list s p c = Some t \<and> slab_wf (push_slab t p c v) c (moved L p w v) fr \<and> same_frame s (push_slab t p c v) c
    \<and> (\<forall>x. outside_headers (all_slabs L) x \<longrightarrow> mem (push_slab t p c v) x = mem s x)"
proof -
  have sl: "slab_lists s c L" using assms(1) by (simp add: contents_def)
  obtain t u where t: "slab_remove_from_list s p c = Some t" "push_slab t p c v = u" "slab_lists u c (moved L p w v)" "relinked s u c (all_slabs L)"
    using move_slab[OF sl assms(2)] by blast
  note cr = contents_relinked[OF assms(1) t(4,3) moved_slabs[of p L w v, OF assms(2)]]
  have "levels (ccount u c) (moved L p w v) fr" unfolding cr(2) using assms(3,4) by (intro levels_moved[OF _ assms(2) _ sl])
  moreover have "same_frame s u c" using relinked_frame[OF t(4)] sl by (simp add: slab_lists_def)
  ultimately show ?thesis using t cr(1) relinked_outside[OF t(4)] by (auto simp: slab_wf_def)
qed

section \<open>Allocation and freeing\<close>

lemma of_nat_balance: "a + e = b + d \<Longrightarrow> (of_nat a :: u64) = of_nat b + of_nat d - of_nat e"
  by (metis add_diff_cancel_right' of_nat_add)

lemma slab_ok_bound: "slab_ok m p z n cp ks \<Longrightarrow> length ks \<le> n"
  using card_mono[of "{..<n}" "set ks"] by (auto simp: slab_ok_def distinct_card)

lemma count_of_nat: "layout_ok z n \<Longrightarrow> l \<le> n \<Longrightarrow> (of_nat l :: u64) = of_nat i \<longleftrightarrow> l = i" if "i \<le> n"
proof -
  assume lay: "layout_ok z n" and l: "l \<le> n"
  have "n \<le> n * z" using lay by (simp add: layout_ok_def)
  also have "\<dots> \<le> 8192" using lay by (simp add: layout_ok_def)
  finally show ?thesis using l that by (auto simp: word_unat_eq_iff unat_of_nat)
qed

lemma slab_lists_content:
  assumes "slab_lists s c L" "\<And>q. q \<in> all_slabs L \<Longrightarrow> fld m q 40 = fld (mem s) q 40"
  shows "slab_lists (set_cache (s\<lparr>mem := m\<rparr>) c ((cache_at s c)\<lparr>allocated_objects := a\<rparr>)) c L"
proof (rule slab_lists_cong[OF assms(1)])
  have c: "c < length (slab_caches s)" using assms(1) by (simp add: slab_lists_def)
  show "list_head w (cache_at (set_cache (s\<lparr>mem := m\<rparr>) c ((cache_at s c)\<lparr>allocated_objects := a\<rparr>)) c) = list_head w (cache_at s c)" for w
    using c by (cases w) simp_all
qed (use assms(2) in simp_all)

text \<open>A change of one slab's memory and of the count of allocated objects.\<close>

lemma contents_update:
  assumes "contents s c L fr" "p \<in> all_slabs L" "length ks' + d = length (fr p) + e"
    and ok: "slab_ok m p (csize s c) (ccount s c) (cache_ptr s c) ks'"
    and others: "\<And>q. q \<in> all_slabs L \<Longrightarrow> q \<noteq> p \<Longrightarrow> slab_ok m q (csize s c) (ccount s c) (cache_ptr s c) (fr q)"
    and nexts: "\<And>q. q \<in> all_slabs L \<Longrightarrow> fld m q 40 = fld (mem s) q 40"
  defines "t \<equiv> set_cache (s\<lparr>mem := m\<rparr>) c ((cache_at s c)\<lparr>allocated_objects := allocated_objects (cache_at s c) + of_nat d - of_nat e\<rparr>)"
  shows "contents t c L (fr(p := ks'))" "ccount t c = ccount s c" "mem t = m"
proof -
  let ?n = "ccount s c"
  have c: "c < length (slab_caches s)" and sl: "slab_lists s c L" using assms(1) by (simp_all add: contents_def slab_lists_def)
  then show "ccount t c = ccount s c" "mem t = m" by (simp_all add: t_def)
  have b: "length (fr p) \<le> ?n" "length ks' \<le> ?n"
    using slab_ok_bound[OF ok] slab_ok_bound[of "mem s" p] assms(1,2) by (auto simp: contents_def)
  let ?S = "\<Sum>q\<in>all_slabs L - {p}. ?n - length (fr q)"
  have s1: "(\<Sum>q\<in>all_slabs L. ?n - length (fr q)) = (?n - length (fr p)) + ?S"
    using assms(2) by (simp add: sum.remove)
  have s2: "(\<Sum>q\<in>all_slabs L. ?n - length ((fr(p := ks')) q)) = (?n - length ks') + ?S"
    using assms(2) by (simp add: sum.remove)
  have "(?n - length ks') + ?S + e = (?n - length (fr p)) + ?S + d" using b assms(3) by linarith
  then have sum: "(of_nat (\<Sum>q\<in>all_slabs L. ?n - length ((fr(p := ks')) q)) :: u64)
      = of_nat (\<Sum>q\<in>all_slabs L. ?n - length (fr q)) + of_nat d - of_nat e"
    unfolding s1 s2 by (rule of_nat_balance)
  have "cache_ptr t c = cache_ptr s c" by (simp add: t_def cache_ptr_def)
  moreover have "slab_lists t c L" unfolding t_def by (rule slab_lists_content[OF sl nexts])
  moreover have "csize t c = csize s c" "ccount t c = ccount s c" "mem t = m"
    "allocated_objects (cache_at t c) = allocated_objects (cache_at s c) + of_nat d - of_nat e"
    using c by (simp_all add: t_def)
  ultimately show "contents t c L (fr(p := ks'))"
    using assms(1,2) ok others sum unfolding contents_def by simp
qed

lemma header_store:
  assumes "outside_headers A x" "p \<in> A" "i + 8 \<le> 48"
  shows "store64 m (p + of_nat i) v x = m x"
proof -
  have "\<not> x - (p + of_nat i) < 8"
  proof
    define d where "d = x - (p + of_nat i)"
    assume "x - (p + of_nat i) < 8"
    then have d: "unat d < 8" by (simp add: d_def word_less_nat_alt)
    have "x - p = d + of_nat i" by (simp add: d_def)
    then have "unat (x - p) < 48" using d assms(3) by (simp add: unat_word_ariths(1) unat_of_nat)
    then show False using assms(1,2) by (auto simp: outside_headers_def word_less_nat_alt)
  qed
  then show ?thesis by (rule store64_outside)
qed

text \<open>The slab the code picks: the first partial one, otherwise the first empty one.\<close>

definition pick :: "slab_map \<Rightarrow> u64" where
  "pick L = hd (if L Partial \<noteq> [] then L Partial else L Empty)"

lemma pick_head:
  assumes "slab_wf s c L fr" "L Partial \<noteq> [] \<or> L Empty \<noteq> []"
  shows "\<exists>w\<in>{Partial, Empty}. pick L \<in> set (L w)"
    and "(if partial_slabs (cache_at s c) \<noteq> NULL then (partial_slabs (cache_at s c), s)
          else if empty_slabs (cache_at s c) \<noteq> NULL then (empty_slabs (cache_at s c), s) else slab_create s c) = (pick L, s)"
    and "pick L \<noteq> NULL"
proof -
  have h: "lseg (sl_slot c w s) Head (L w)" for w using assms(1) by (simp add: slab_wf_def contents_def slab_lists_def)
  show "\<exists>w\<in>{Partial, Empty}. pick L \<in> set (L w)" using assms(2) by (auto simp: pick_def)
  from h[of Partial] h[of Empty] assms(2)
  show "(if partial_slabs (cache_at s c) \<noteq> NULL then (partial_slabs (cache_at s c), s)
          else if empty_slabs (cache_at s c) \<noteq> NULL then (empty_slabs (cache_at s c), s) else slab_create s c) = (pick L, s)" "pick L \<noteq> NULL"
    by (cases "L Partial"; cases "L Empty"; simp add: pick_def)+
qed

text \<open>The state after the head of the free list of slab \<open>p\<close>, object \<open>k\<close>, has been taken off.\<close>

definition popped :: "'a slab_state_scheme \<Rightarrow> nat \<Rightarrow> u64 \<Rightarrow> nat \<Rightarrow> 'a slab_state_scheme" where
  "popped s c p k = set_cache (s\<lparr>mem := store64 (store64 (mem s) (p + of_nat 32) (fld (mem s) p (obj_off (csize s c) k + 8)))
       (p + of_nat 24) (fld (mem s) p 24 - 1)\<rparr>) c
     ((cache_at s c)\<lparr>allocated_objects := allocated_objects (cache_at s c) + 1\<rparr>)"

lemma slab_in:
  assumes "contents s c L fr" "p \<in> all_slabs L"
  shows "layout_ok (csize s c) (ccount s c)" "slab_lists s c L" "c < length (slab_caches s)" "aligned 13 p" "p \<noteq> NULL"
    "slab_ok (mem s) p (csize s c) (ccount s c) (cache_ptr s c) (fr p)"
proof -
  show "layout_ok (csize s c) (ccount s c)" and sl: "slab_lists s c L"
    and "slab_ok (mem s) p (csize s c) (ccount s c) (cache_ptr s c) (fr p)"
    using assms by (simp_all add: contents_def)
  then show "c < length (slab_caches s)" "aligned 13 p" "p \<noteq> NULL" using slab_lists_mem[OF sl assms(2)] by (simp_all add: slab_lists_def)
qed

lemma popped_contents:
  assumes "contents s c L fr" "p \<in> all_slabs L" "fr p = k # ks"
  shows "contents (popped s c p k) c L (fr(p := ks))" "ccount (popped s c p k) c = ccount s c"
    "outside_headers (all_slabs L) x \<Longrightarrow> mem (popped s c p k) x = mem s x"
    "sl_free_count (mem (popped s c p k)) p = of_nat (length ks)"
    "objects_per_slab (cache_at (popped s c p k) c) = of_nat (ccount s c)" "same_frame s (popped s c p k) c"
proof -
  let ?z = "csize s c"
  let ?m1 = "store64 (mem s) (p + of_nat 32) (fld (mem s) p (obj_off ?z k + 8))"
  let ?m = "store64 ?m1 (p + of_nat 24) (fld (mem s) p 24 - 1)"
  note p = slab_in[OF assms(1,2)]
  have oks: "slab_ok ?m q ?z (ccount s c) (cache_ptr s c) (fr q)" if "q \<in> all_slabs L" "q \<noteq> p" for q
    using that(2) slab_in(4,6)[OF assms(1) that(1)] by (intro slab_ok_store_other[OF _ p(1) _ p(4)]) simp_all
  have nexts: "fld ?m q 40 = fld (mem s) q 40" if "q \<in> all_slabs L" for q
    using fld_store[OF p(4) slab_in(4)[OF assms(1) that], of 24 40] fld_store[OF p(4) slab_in(4)[OF assms(1) that], of 32 40] by simp
  have eq: "popped s c p k = set_cache (s\<lparr>mem := ?m\<rparr>) c ((cache_at s c)\<lparr>allocated_objects := allocated_objects (cache_at s c) + of_nat 1 - of_nat 0\<rparr>)"
    by (simp add: popped_def)
  note cu = contents_update[OF assms(1,2) _ slab_ok_pop(2)[OF p(6)[unfolded assms(3)] p(1,4)] oks nexts, of 1 0]
  show co: "contents (popped s c p k) c L (fr(p := ks))" and "ccount (popped s c p k) c = ccount s c"
    unfolding eq using cu(1,2) assms(3) by simp_all
  show "outside_headers (all_slabs L) x \<Longrightarrow> mem (popped s c p k) x = mem s x"
    using header_store[of "all_slabs L" x p 24 ?m1] header_store[of "all_slabs L" x p 32 "mem s"] assms(2) by (simp add: popped_def)
  show "sl_free_count (mem (popped s c p k)) p = of_nat (length ks)"
    using co assms(2) by (simp add: contents_def slab_ok_def fld_header)
  show "objects_per_slab (cache_at (popped s c p k) c) = of_nat (ccount s c)" using p(3) by (simp add: popped_def)
  show "same_frame s (popped s c p k) c" using p(3) by (simp add: popped_def same_frame_def) (simp add: set_cache_def)
qed

lemma slab_alloc_unfold:
  assumes "slab_wf s c L fr" "L Partial \<noteq> [] \<or> L Empty \<noteq> []" "fr (pick L) = k # ks"
  defines "p \<equiv> pick L" and "t \<equiv> popped s c (pick L) k"
  shows "slab_alloc s c =
    (if sl_free_count (mem t) p = 0 then do { u \<leftarrow> slab_remove_from_list t p c; Some (slab_obj p (csize s c) k, push_slab u p c Full) }
     else if sl_free_count (mem t) p = objects_per_slab (cache_at t c) - 1
       then do { u \<leftarrow> slab_remove_from_list t p c; Some (slab_obj p (csize s c) k, push_slab u p c Partial) }
       else Some (slab_obj p (csize s c) k, t))"
proof -
  let ?o = "slab_obj p (csize s c) k"
  have co: "contents s c L fr" using assms(1) by (simp add: slab_wf_def)
  have "p \<in> all_slabs L" using pick_head(1)[OF assms(1,2)] by (auto simp: all_slabs_eq p_def)
  note p = slab_in[OF co this]
  have kn: "k < ccount s c" using p(6) assms(3) by (auto simp: slab_ok_def p_def)
  have "fld (store64 (mem s) (p + of_nat 32) v) p 24 = fld (mem s) p 24" for v using fld_store[OF p(4,4), of 32 24] by simp
  then have st: "store (store s (p + 32) (fo_next (mem s) ?o)) (p + 24) (sl_free_count (mem (store s (p + 32) (fo_next (mem s) ?o))) p - 1)
      = s\<lparr>mem := store64 (store64 (mem s) (p + of_nat 32) (fld (mem s) p (obj_off (csize s c) k + 8))) (p + of_nat 24) (fld (mem s) p 24 - 1)\<rparr>"
    by (simp add: store_def fld_header fo_next_def slab_obj_def add.assoc) (simp add: fld_def add.assoc)
  have o: "sl_free_list (mem s) p = ?o" "?o \<noteq> NULL"
    using slab_ok_pop(1)[OF p(6)[unfolded p_def assms(3)] p(1)] p(4) slab_obj_nonnull[OF p(4,1) kn] by (simp_all add: fld_header p_def)
  show ?thesis
    unfolding slab_alloc_def Let_def pick_head(2)[OF assms(1,2)] p_def[symmetric] prod.case o(1) st
    using o(2) p(5) by (simp add: t_def popped_def p_def)
qed

lemma slab_alloc_from_slab:
  assumes wf: "slab_wf s c L fr" and av: "L Partial \<noteq> [] \<or> L Empty \<noteq> []"
  shows "\<exists>t L' k. slab_alloc s c = Some (slab_obj (pick L) (csize s c) k, t) \<and> fr (pick L) = k # tl (fr (pick L))
    \<and> slab_wf t c L' (fr(pick L := tl (fr (pick L))))
    \<and> all_slabs L' = all_slabs L \<and> same_frame s t c \<and> (\<forall>x. outside_headers (all_slabs L) x \<longrightarrow> mem t x = mem s x)"
proof -
  let ?n = "ccount s c" and ?p = "pick L"
  have co: "contents s c L fr" and lv: "levels ?n L fr" using wf by (simp_all add: slab_wf_def)
  obtain w where w: "w = Partial \<or> w = Empty" "?p \<in> set (L w)" using pick_head(1)[OF wf av] by auto
  have pall: "?p \<in> all_slabs L" using in_all_slabs[of ?p L w] w(2) by simp
  note p = slab_in[OF co pall]
  have "level ?n w (length (fr ?p))" using lv w(2) by (simp add: levels_def)
  then have "fr ?p \<noteq> []" using w(1) p(1) by (auto simp: layout_ok_def)
  then obtain k ks where ks: "fr ?p = k # ks" by (cases "fr ?p") simp_all
  let ?t = "popped s c ?p k"
  note cu = popped_contents[OF co pall ks] and eq = slab_alloc_unfold[where k = k and ks = ks, OF wf av ks]
  have len: "length ks < ?n" using slab_ok_bound[OF p(6)] ks by simp
  have zero: "sl_free_count (mem ?t) ?p = 0 \<longleftrightarrow> ks = []"
    unfolding cu(4) using count_of_nat[OF _ p(1), of 0 "length ks"] len by simp
  have last: "sl_free_count (mem ?t) ?p = objects_per_slab (cache_at ?t c) - 1 \<longleftrightarrow> length ks = ?n - 1"
    using count_of_nat[OF _ p(1), of "?n - 1" "length ks"] len unfolding cu(4,5) by (simp add: of_nat_diff)
  have lvq: "level (ccount ?t c) v (length ((fr(?p := ks)) q))" if "q \<in> set (L v)" "q \<noteq> ?p" for v q
    using lv that by (simp add: levels_def cu(2))
  have move: "\<exists>u L'. slab_remove_from_list ?t ?p c = Some u \<and> slab_wf (push_slab u ?p c v) c L' (fr(?p := ks)) \<and> all_slabs L' = all_slabs L \<and> same_frame s (push_slab u ?p c v) c
      \<and> (\<forall>x. outside_headers (all_slabs L) x \<longrightarrow> mem (push_slab u ?p c v) x = mem s x)" if "level ?n v (length ks)" for v
    using settle[OF cu(1) w(2) _ lvq, of v] that moved_slabs[of ?p L w v, OF w(2)] cu(3) same_frame_trans[OF cu(6)] unfolding cu(2) by fastforce
  consider "ks = []" | "ks \<noteq> []" "length ks = ?n - 1" | "ks \<noteq> []" "length ks \<noteq> ?n - 1" by blast
  then show ?thesis
  proof cases
    case 1
    then show ?thesis using eq zero move[of Full] ks by fastforce
  next
    case 2
    then show ?thesis using eq zero last move[of Partial] ks len by fastforce
  next
    case 3
    have "level ?n v (length ks)" if "?p \<in> set (L v)" for v
    proof -
      have "level ?n v (length (fr ?p))" using lv that by (simp add: levels_def)
      then show ?thesis using 3 ks by (cases v) auto
    qed
    then have "slab_wf ?t c L (fr(?p := ks))" using lvq cu(1,2) by (auto simp: slab_wf_def levels_def)
    then show ?thesis using eq zero last 3 cu(3,6) ks by fastforce
  qed
qed

text \<open>The state after object \<open>k\<close> of slab \<open>p\<close> has been put back on the free list.\<close>

definition pushed :: "'a slab_state_scheme \<Rightarrow> nat \<Rightarrow> u64 \<Rightarrow> nat \<Rightarrow> 'a slab_state_scheme" where
  "pushed s c p k =
     (let z = csize s c;
          m1 = store64 (mem s) (p + of_nat (obj_off z k)) OBJECT_POISON;
          m2 = store64 m1 (p + of_nat (obj_off z k + 8)) (fld m1 p 32);
          m3 = store64 m2 (p + of_nat 32) (slab_obj p z k)
      in set_cache (s\<lparr>mem := store64 m3 (p + of_nat 24) (fld m3 p 24 + 1)\<rparr>) c
           ((cache_at s c)\<lparr>allocated_objects := allocated_objects (cache_at s c) - 1\<rparr>))"

definition outside_object :: "u64 \<Rightarrow> nat \<Rightarrow> nat \<Rightarrow> u64 \<Rightarrow> bool" where
  "outside_object p z k x \<longleftrightarrow> \<not> x - slab_obj p z k < 16"

lemma object_store:
  assumes "outside_object p z k x" "i = 0 \<or> i = 8"
  shows "store64 m (p + of_nat (obj_off z k + i)) v x = m x"
proof -
  have "\<not> x - (p + of_nat (obj_off z k + i)) < 8"
  proof
    define d where "d = x - (p + of_nat (obj_off z k + i))"
    assume "x - (p + of_nat (obj_off z k + i)) < 8"
    then have d: "unat d < 8" by (simp add: d_def word_less_nat_alt)
    have "x - slab_obj p z k = d + of_nat i" by (simp add: d_def slab_obj_def)
    then have "unat (x - slab_obj p z k) < 16" using d assms(2) by (auto simp: unat_word_ariths(1))
    then show False using assms(1) by (auto simp: outside_object_def word_less_nat_alt)
  qed
  then show ?thesis by (rule store64_outside)
qed

lemma pushed_contents:
  assumes "contents s c L fr" "p \<in> all_slabs L" "k < ccount s c" "k \<notin> set (fr p)"
  shows "contents (pushed s c p k) c L (fr(p := k # fr p))" "ccount (pushed s c p k) c = ccount s c"
    "outside_headers (all_slabs L) x \<Longrightarrow> outside_object p (csize s c) k x \<Longrightarrow> mem (pushed s c p k) x = mem s x"
    "sl_free_count (mem (pushed s c p k)) p = of_nat (Suc (length (fr p)))"
    "objects_per_slab (cache_at (pushed s c p k) c) = of_nat (ccount s c)" "same_frame s (pushed s c p k) c"
proof -
  let ?z = "csize s c"
  let ?m1 = "store64 (mem s) (p + of_nat (obj_off ?z k)) OBJECT_POISON"
  let ?m2 = "store64 ?m1 (p + of_nat (obj_off ?z k + 8)) (fld ?m1 p 32)"
  let ?m3 = "store64 ?m2 (p + of_nat 32) (slab_obj p ?z k)"
  let ?m = "store64 ?m3 (p + of_nat 24) (fld ?m3 p 24 + 1)"
  note p = slab_in[OF assms(1,2)]
  note room = obj_room[OF p(1) assms(3)]
  have oks: "slab_ok ?m q ?z (ccount s c) (cache_ptr s c) (fr q)" if "q \<in> all_slabs L" "q \<noteq> p" for q
    using that(2) slab_in(4,6)[OF assms(1) that(1)] room(1,2) by (intro slab_ok_store_other[OF _ p(1) _ p(4)]) simp_all
  have nexts: "fld ?m q 40 = fld (mem s) q 40" if "q \<in> all_slabs L" for q
  proof -
    note st = fld_store[OF p(4) slab_in(4)[OF assms(1) that] _ slab_off_header(6)]
    show ?thesis using st[of 24 ?m3] st[of 32 ?m2] st[OF room(2), of ?m1] st[OF room(1), of "mem s"] room(4) by simp
  qed
  have eq: "pushed s c p k = set_cache (s\<lparr>mem := ?m\<rparr>) c ((cache_at s c)\<lparr>allocated_objects := allocated_objects (cache_at s c) + of_nat 0 - of_nat 1\<rparr>)"
    by (simp add: pushed_def Let_def)
  note cu = contents_update[OF assms(1,2) _ slab_ok_push[OF p(6,1,4) assms(3,4)] oks nexts, of 0 1]
  show co: "contents (pushed s c p k) c L (fr(p := k # fr p))" and "ccount (pushed s c p k) c = ccount s c"
    unfolding eq using cu(1,2) by simp_all
  show "outside_headers (all_slabs L) x \<Longrightarrow> outside_object p ?z k x \<Longrightarrow> mem (pushed s c p k) x = mem s x"
    using header_store[of "all_slabs L" x p 24 ?m3] header_store[of "all_slabs L" x p 32 ?m2] assms(2)
      object_store[of p ?z k x 8 ?m1] object_store[of p ?z k x 0 "mem s"] by (simp add: pushed_def Let_def)
  show "sl_free_count (mem (pushed s c p k)) p = of_nat (Suc (length (fr p)))"
    using co assms(2) by (simp add: contents_def slab_ok_def fld_header)
  show "objects_per_slab (cache_at (pushed s c p k) c) = of_nat (ccount s c)" using p(3) by (simp add: pushed_def Let_def)
  show "same_frame s (pushed s c p k) c" using p(3) by (simp add: pushed_def Let_def same_frame_def) (simp add: set_cache_def)
qed

lemma cache_index_ptr: "c < 256 \<Longrightarrow> cache_index s (cache_ptr s c) = c"
proof -
  assume c: "c < 256"
  have "unat (of_nat c * 72 :: u64) = c * 72" using c by (simp add: unat_word_ariths(2) unat_of_nat)
  then show ?thesis by (simp add: cache_index_def cache_ptr_def sizeof_slab_cache_def unat_div)
qed

lemma slab_free_unfold:
  assumes "contents s c L fr" "p \<in> all_slabs L" "k < ccount s c" "c < 256"
  defines "t \<equiv> pushed s c p k"
  shows "slab_free s p (slab_obj p (csize s c) k) =
    (if sl_free_count (mem t) p = 1 then do { u \<leftarrow> slab_remove_from_list t p c; Some (push_slab u p c Partial) }
     else if sl_free_count (mem t) p = objects_per_slab (cache_at t c)
       then do { u \<leftarrow> slab_remove_from_list t p c; Some (push_slab u p c Empty) }
       else Some t)"
proof -
  let ?z = "csize s c" let ?o = "slab_obj p ?z k"
  note p = slab_in[OF assms(1,2)]
  have cc: "cache_index s (sl_cache (mem s) p) = c" using p(6) cache_index_ptr[OF assms(4)] by (simp add: fld_header slab_ok_def)
  let ?m1 = "store64 (mem s) (p + of_nat (obj_off ?z k)) OBJECT_POISON"
  let ?m2 = "store64 ?m1 (p + of_nat (obj_off ?z k + 8)) (fld ?m1 p 32)"
  let ?m3 = "store64 ?m2 (p + of_nat 32) (slab_obj p ?z k)"
  let ?s1 = "store s ?o OBJECT_POISON" let ?s2 = "store ?s1 (?o + 8) (sl_free_list (mem ?s1) p)" let ?s3 = "store ?s2 (p + 32) ?o"
  have st: "store ?s3 (p + 24) (sl_free_count (mem ?s3) p + 1) = s\<lparr>mem := store64 ?m3 (p + of_nat 24) (fld ?m3 p 24 + 1)\<rparr>"
    unfolding fld_header by (simp add: store_def slab_obj_def add.assoc)
  show ?thesis
    unfolding slab_free_def Let_def cc st
    using slab_obj_nonnull[OF p(4,1) assms(3)] p(5) by (simp add: t_def pushed_def Let_def)
qed

lemma slab_free_to_slab:
  assumes wf: "slab_wf s c L fr" and "p \<in> all_slabs L" "k < ccount s c" "k \<notin> set (fr p)" "c < 256"
  shows "\<exists>t L'. slab_free s p (slab_obj p (csize s c) k) = Some t \<and> slab_wf t c L' (fr(p := k # fr p))
    \<and> all_slabs L' = all_slabs L \<and> same_frame s t c
    \<and> (\<forall>x. outside_headers (all_slabs L) x \<and> outside_object p (csize s c) k x \<longrightarrow> mem t x = mem s x)"
proof -
  let ?n = "ccount s c" and ?t = "pushed s c p k" and ?fr = "fr(p := k # fr p)"
  have co: "contents s c L fr" and lv: "levels ?n L fr" using wf by (simp_all add: slab_wf_def)
  obtain w where w: "p \<in> set (L w)" using assms(2) by (auto simp: all_slabs_def)
  note p = slab_in[OF co assms(2)]
  note cu = pushed_contents[OF co assms(2-4)] and eq = slab_free_unfold[OF co assms(2,3,5)]
  have n2: "2 \<le> ?n" using p(1) by (simp add: layout_ok_def)
  have len: "Suc (length (fr p)) \<le> ?n" using slab_ok_bound[OF slab_in(6)[OF cu(1) assms(2)]] by (simp add: cu(2))
  have one: "sl_free_count (mem ?t) p = 1 \<longleftrightarrow> fr p = []"
    unfolding cu(4) using count_of_nat[OF _ p(1) len, of 1] n2 by simp
  have all: "sl_free_count (mem ?t) p = objects_per_slab (cache_at ?t c) \<longleftrightarrow> Suc (length (fr p)) = ?n"
    unfolding cu(4,5) using count_of_nat[OF _ p(1) len, of ?n] by simp
  have lvq: "level (ccount ?t c) v (length (?fr q))" if "q \<in> set (L v)" "q \<noteq> p" for v q
    using lv that by (simp add: levels_def cu(2))
  have move: "\<exists>u L'. slab_remove_from_list ?t p c = Some u \<and> slab_wf (push_slab u p c v) c L' ?fr \<and> all_slabs L' = all_slabs L \<and> same_frame s (push_slab u p c v) c
      \<and> (\<forall>x. outside_headers (all_slabs L) x \<and> outside_object p (csize s c) k x \<longrightarrow> mem (push_slab u p c v) x = mem s x)"
    if "level ?n v (Suc (length (fr p)))" for v
    using settle[OF cu(1) w _ lvq, of v] that moved_slabs[of p L w v, OF w] cu(3) same_frame_trans[OF cu(6)] unfolding cu(2) by fastforce
  consider "fr p = []" | "fr p \<noteq> []" "Suc (length (fr p)) = ?n" | "fr p \<noteq> []" "Suc (length (fr p)) \<noteq> ?n" by blast
  then show ?thesis
  proof cases
    case 1
    then show ?thesis using eq one move[of Partial] n2 by fastforce
  next
    case 2
    then show ?thesis using eq one all move[of Empty] by fastforce
  next
    case 3
    have "level ?n v (Suc (length (fr p)))" if "p \<in> set (L v)" for v
    proof -
      have "level ?n v (length (fr p))" using lv that by (simp add: levels_def)
      then show ?thesis using 3 len by (cases v) auto
    qed
    then have "slab_wf ?t c L ?fr" using lvq cu(1,2) by (auto simp: slab_wf_def levels_def)
    then show ?thesis using eq one all 3 cu(3,6) by fastforce
  qed
qed

end
