(* ===== verification/Slab_Correct.thy ===== *)
theory Slab_Correct
  imports Slab_Cache
begin

text \<open>
  Correctness of the slab allocator on top of the buddy allocator. \<open>live\<close>, the set of objects in use, is
  the abstract state of a cache: allocation adds one object to it, creating a slab from the buddy
  allocator's pages when none has a free object; freeing removes one; neither changes a byte of the
  other objects in use. \<open>alloc_wf\<close> joins the invariants of the two allocators.
\<close>

section \<open>Creating a slab\<close>

definition in_slab :: "u64 \<Rightarrow> u64 \<Rightarrow> bool" where
  "in_slab p x \<longleftrightarrow> x - p < 8192"

lemma store_in_slab:
  assumes "aligned 13 p" "slab_off i" "\<not> in_slab p x"
  shows "store64 m (p + of_nat i) v x = m x"
proof -
  obtain e where "i = 8 * e" "i < 8192" using assms(2) by (auto simp: slab_off_def)
  then have i8: "i + 8 \<le> 8192" by simp
  have "\<not> x - (p + of_nat i) < 8"
  proof
    define d where "d = x - (p + of_nat i)"
    assume "x - (p + of_nat i) < 8"
    then have d: "unat d < 8" by (simp add: d_def word_less_nat_alt)
    have "x - p = d + of_nat i" by (simp add: d_def)
    then have "unat (x - p) < 8192" using d i8 by (simp add: unat_word_ariths(1) unat_of_nat)
    then show False using assms(3) by (simp add: in_slab_def word_less_nat_alt)
  qed
  then show ?thesis by (rule store64_outside)
qed

text \<open>Linking the objects of \<open>is\<close> in turn at the head of the free list.\<close>

lemma link_objects_spec:
  assumes "layout_ok z n" "aligned 13 p" "set is \<subseteq> {..<n}" "distinct is" "set is \<inter> set ks = {}" "set ks \<subseteq> {..<n}"
    "free_chain (mem s) p z (fld (mem s) p 32) ks"
  shows "\<exists>m. link_objects s p (p + 48) (of_nat z) is = s\<lparr>mem := m\<rparr> \<and> free_chain m p z (fld m p 32) (rev is @ ks)
    \<and> (\<forall>q i. aligned 13 q \<and> slab_off i \<and> (q \<noteq> p \<or> i < 32) \<longrightarrow> fld m q i = fld (mem s) q i)
    \<and> (\<forall>x. \<not> in_slab p x \<longrightarrow> m x = mem s x)"
  using assms(3-7)
proof (induction "is" arbitrary: s ks)
  case Nil
  then show ?case by (intro exI[of _ "mem s"]) simp
next
  case (Cons k "is")
  let ?o = "slab_obj p z k"
  have k: "k < n" using Cons.prems(1) by simp
  note room = obj_room[OF assms(1) k]
  let ?m1 = "store64 (mem s) (p + of_nat (obj_off z k + 8)) (fld (mem s) p 32)" let ?m2 = "store64 ?m1 (p + of_nat 32) ?o"
  have o: "p + 48 + of_nat k * of_nat z = ?o" by (simp add: slab_obj_def obj_off_def add.assoc)
  have st: "store (store s (?o + 8) (sl_free_list (mem s) p)) (p + 32) ?o = s\<lparr>mem := ?m2\<rparr>"
    by (simp add: store_def fld_header slab_obj_def add.assoc)
  have f: "fld ?m2 q i = (if q = p \<and> i = 32 then ?o else if q = p \<and> i = obj_off z k + 8 then fld (mem s) p 32 else fld (mem s) q i)"
    if "aligned 13 q" "slab_off i" for q i
    using fld_store[OF assms(2) that(1) _ that(2), of 32 ?m1] fld_store[OF assms(2) that(1) room(2) that(2), of "mem s"] by auto
  have "free_chain ?m2 p z (fld (mem s) p 32) ks" using Cons.prems(5)
  proof (rule free_chain_cong)
    fix l assume l: "l \<in> set ks"
    then have "l < n" "l \<noteq> k" using Cons.prems(3,4) by auto
    then show "fld ?m2 p (obj_off z l + 8) = fld (mem s) p (obj_off z l + 8)"
      using f[OF assms(2) obj_room(2)[OF assms(1)]] obj_room(4)[OF assms(1), of l] obj_off_inj(1)[OF assms(1), of l k] by simp
  qed
  then have "free_chain ?m2 p z (fld ?m2 p 32) (k # ks)"
    using f[OF assms(2) room(2)] f[OF assms(2), of 32] room(4) by simp
  then obtain m where m: "link_objects (s\<lparr>mem := ?m2\<rparr>) p (p + 48) (of_nat z) is = s\<lparr>mem := m\<rparr>"
      "free_chain m p z (fld m p 32) (rev is @ k # ks)"
      "\<forall>q i. aligned 13 q \<and> slab_off i \<and> (q \<noteq> p \<or> i < 32) \<longrightarrow> fld m q i = fld ?m2 q i" "\<forall>x. \<not> in_slab p x \<longrightarrow> m x = ?m2 x"
    using Cons.IH[of "k # ks" "s\<lparr>mem := ?m2\<rparr>"] Cons.prems by auto
  have "link_objects s p (p + 48) (of_nat z) (k # is) = s\<lparr>mem := m\<rparr>" using m(1) by (simp add: Let_def o st)
  moreover have "fld m q i = fld (mem s) q i" if "aligned 13 q" "slab_off i" "q \<noteq> p \<or> i < 32" for q i
    using m(3) f[OF that(1,2)] that room(4) by auto
  moreover have "m x = mem s x" if "\<not> in_slab p x" for x
    using m(4) store_in_slab[OF assms(2) _ that, of 32 ?m1] store_in_slab[OF assms(2) room(2) that, of "mem s"] that by simp
  ultimately show ?case using m(2) by (intro exI[of _ m]) simp
qed

text \<open>What \<open>slab_create\<close> does with the pages it got.\<close>

definition fill_slab :: "'a slab_state_scheme \<Rightarrow> nat \<Rightarrow> u64 \<Rightarrow> u64 \<Rightarrow> 'a slab_state_scheme" where
  "fill_slab s c slab phys =
     (let s = store s (slab + 8) (cache_ptr s c);
          s = store s (slab + 16) phys;
          s = store s (slab + 24) (objects_per_slab (cache_at s c));
          s = store s (slab + 40) NULL;
          s = store s slab SLAB_MAGIC;
          s = store s (slab + 32) NULL
      in link_objects s slab (slab + sizeof_slab) (object_size (cache_at s c)) [0..<unat (objects_per_slab (cache_at s c))])"

lemma slab_create_unfold:
  "slab_create s c = (let (phys, t) = buddy_alloc_pages s 1 in
     if phys = 0 then (NULL, t)
     else (let slab = phys_to_virt t phys; u = push_slab (fill_slab t c slab phys) slab c Empty; cache = cache_at u c
           in (slab, set_cache u c (cache\<lparr>total_slabs := total_slabs cache + 1, total_objects := total_objects cache + objects_per_slab cache\<rparr>))))"
  by (simp add: slab_create_def fill_slab_def Let_def split: prod.split)

lemma fill_slab_spec:
  assumes "layout_ok (csize s c) (ccount s c)" "aligned 13 p"
  shows "\<exists>m. fill_slab s c p phys = s\<lparr>mem := m\<rparr>
    \<and> slab_ok m p (csize s c) (ccount s c) (cache_ptr s c) (rev [0..<ccount s c])
    \<and> (\<forall>q i. aligned 13 q \<and> slab_off i \<and> q \<noteq> p \<longrightarrow> fld m q i = fld (mem s) q i)
    \<and> (\<forall>x. \<not> in_slab p x \<longrightarrow> m x = mem s x)"
proof -
  let ?z = "csize s c" and ?n = "ccount s c"
  let ?m1 = "store64 (mem s) (p + of_nat 8) (cache_ptr s c)" let ?m2 = "store64 ?m1 (p + of_nat 16) phys"
  let ?m3 = "store64 ?m2 (p + of_nat 24) (of_nat ?n)" let ?m4 = "store64 ?m3 (p + of_nat 40) NULL"
  let ?m5 = "store64 ?m4 (p + of_nat 0) SLAB_MAGIC" let ?m6 = "store64 ?m5 (p + of_nat 32) NULL"
  note st = fld_store[OF assms(2)]
  have f: "fld ?m6 q i = (if q = p then (if i = 32 then 0 else if i = 0 then SLAB_MAGIC else if i = 40 then 0 else if i = 24 then of_nat ?n
      else if i = 16 then phys else if i = 8 then cache_ptr s c else fld (mem s) p i) else fld (mem s) q i)" if "aligned 13 q" "slab_off i" for q i
    using st[OF that(1) _ that(2), of 32 ?m5] st[OF that(1) _ that(2), of 0 ?m4] st[OF that(1) _ that(2), of 40 ?m3]
      st[OF that(1) _ that(2), of 24 ?m2] st[OF that(1) _ that(2), of 16 ?m1] st[OF that(1) _ that(2), of 8 "mem s"] by (simp only: slab_off_header simp_thms) auto
  have out: "?m6 x = mem s x" if "\<not> in_slab p x" for x
    using store_in_slab[OF assms(2) _ that] by (simp only: slab_off_header simp_thms)
  have fill: "fill_slab s c p phys = link_objects (s\<lparr>mem := ?m6\<rparr>) p (p + 48) (of_nat ?z) [0..<?n]"
    by (simp add: fill_slab_def Let_def store_def sizeof_slab_def cache_ptr_def)
  have sub: "set [0..<?n] \<subseteq> {..<?n}" by auto
  have "free_chain ?m6 p ?z (fld ?m6 p 32) []" using f[OF assms(2), of 32] by simp
  then obtain m where m: "link_objects (s\<lparr>mem := ?m6\<rparr>) p (p + 48) (of_nat ?z) [0..<?n] = s\<lparr>mem := m\<rparr>"
      "free_chain m p ?z (fld m p 32) (rev [0..<?n])"
      "\<forall>q i. aligned 13 q \<and> slab_off i \<and> (q \<noteq> p \<or> i < 32) \<longrightarrow> fld m q i = fld ?m6 q i" "\<forall>x. \<not> in_slab p x \<longrightarrow> m x = ?m6 x"
    using link_objects_spec[OF assms sub distinct_upt, of "[]" "s\<lparr>mem := ?m6\<rparr>"] by simp blast
  have g: "fld m p i = fld ?m6 p i" if "i \<in> {0, 8, 24}" for i using m(3) that assms(2) by auto
  have "slab_ok m p ?z ?n (cache_ptr s c) (rev [0..<?n])"
    using m(2) g[of 0] g[of 8] g[of 24] f[OF assms(2), of 0] f[OF assms(2), of 8] f[OF assms(2), of 24] by (simp add: slab_ok_def lessThan_atLeast0)
  moreover have "fld m q i = fld (mem s) q i" if "aligned 13 q" "slab_off i" "q \<noteq> p" for q i using m(3) f[OF that(1,2)] that by simp
  ultimately show ?thesis using m(1,4) fill out by (intro exI[of _ m]) simp
qed

text \<open>A slab whose fields are all kept.\<close>

lemma slab_ok_same:
  assumes "slab_ok m q z n cp ks" "layout_ok z n" "\<And>i. slab_off i \<Longrightarrow> i \<noteq> 40 \<Longrightarrow> fld m' q i = fld m q i"
  shows "slab_ok m' q z n cp ks"
proof (rule slab_ok_cong[OF assms(1)])
  show "fld m' q i = fld m q i" if "i \<in> {0, 8, 24, 32}" for i using that by (intro assms(3)) auto
  show "fld m' q (obj_off z k + 8) = fld m q (obj_off z k + 8)" if "k \<in> set ks" for k
  proof -
    have "k < n" using that assms(1) by (auto simp: slab_ok_def)
    then show ?thesis using obj_room[OF assms(2), of k] by (intro assms(3)) auto
  qed
qed

lemma all_slabs_add: "all_slabs (L(w := p # L w)) = insert p (all_slabs L)"
  by (cases w) (auto simp: all_slabs_eq)

text \<open>A new slab, filled and pushed on the empty list.\<close>

lemma add_slab:
  assumes "slab_wf s c L fr" "aligned 13 p" "p \<noteq> NULL" "p \<notin> all_slabs L"
  defines "n \<equiv> ccount s c"
  shows "\<exists>u. push_slab (fill_slab s c p phys) p c Empty = u \<and> slab_wf u c (L(Empty := p # L Empty)) (fr(p := rev [0..<n]))
    \<and> same_frame s u c \<and> (\<forall>x. \<not> in_slab p x \<longrightarrow> mem u x = mem s x)"
proof -
  let ?L = "L(Empty := p # L Empty)" and ?z = "csize s c" and ?fr = "fr(p := rev [0..<n])"
  have co: "contents s c L fr" and lv: "levels n L fr" and sl: "slab_lists s c L" and c: "c < length (slab_caches s)" and lay: "layout_ok ?z n"
    using assms(1) by (simp_all add: slab_wf_def contents_def slab_lists_def n_def)
  obtain m where m: "fill_slab s c p phys = s\<lparr>mem := m\<rparr>" "slab_ok m p ?z n (cache_ptr s c) (rev [0..<n])"
      "\<And>q i. aligned 13 q \<Longrightarrow> slab_off i \<Longrightarrow> q \<noteq> p \<Longrightarrow> fld m q i = fld (mem s) q i" "\<And>x. \<not> in_slab p x \<Longrightarrow> m x = mem s x"
    using fill_slab_spec[of s c p phys] lay assms(2) by (auto simp: n_def)
  let ?t = "s\<lparr>mem := m\<rparr>" let ?u = "push_slab ?t p c Empty"
  have slt: "slab_lists ?t c L"
  proof (rule slab_lists_cong[OF sl])
    fix q assume "q \<in> all_slabs L"
    then have "aligned 13 q" "q \<noteq> p" using slab_lists_mem(1)[OF sl] assms(4) by auto
    then show "fld (mem ?t) q 40 = fld (mem s) q 40" using m(3)[of q 40] by simp
  qed simp_all
  note push = push_slab_lists[OF slt assms(2-4)]
  have rel: "relinked ?t ?u c {p}" by (rule push(2)) simp
  note f = relinked_fields[OF rel] and fl = relinked_fld[OF rel]
  have cs: "cache_at ?t c = cache_at s c" "cache_ptr ?u c = cache_ptr s c" using f(2) c by (simp_all add: cache_ptr_def)
  have "slab_ok (mem ?u) q ?z n (cache_ptr s c) (?fr q)" if q: "q \<in> insert p (all_slabs L)" for q
  proof -
    have "aligned 13 q" using q slab_lists_mem(1)[OF sl] assms(2) by auto
    then have same: "fld (mem ?u) q i = fld m q i" if "slab_off i" "i \<noteq> 40" for i using fl[of q i] that assms(2) by simp
    have "slab_ok m q ?z n (cache_ptr s c) (?fr q)"
    proof (cases "q = p")
      case False
      then have "slab_ok (mem s) q ?z n (cache_ptr s c) (fr q)" using co q by (simp add: contents_def n_def)
      then show ?thesis using False m(3)[OF \<open>aligned 13 q\<close>] by (auto intro: slab_ok_same[OF _ lay])
    qed (simp add: m(2))
    then show ?thesis using same by (rule slab_ok_same[OF _ lay])
  qed
  moreover have "(\<Sum>q\<in>insert p (all_slabs L). n - length (?fr q)) = (\<Sum>q\<in>all_slabs L. n - length (fr q))"
    using assms(4) by (simp add: sum.insert[of _ p] cong: sum.cong) (intro sum.cong, auto)
  ultimately have "contents ?u c ?L ?fr"
    using push(1)[of Empty] co f(1,3-7) cs c unfolding contents_def all_slabs_add n_def by simp
  moreover have "level n w (length (?fr q))" if q: "q \<in> set (?L w)" for w q
  proof (cases "q = p")
    case True
    then have "w = Empty" using q assms(4) in_all_slabs[of p L w] by (auto split: if_splits)
    then show ?thesis using True by simp
  next
    case False
    then have "q \<in> set (L w)" using q by (auto split: if_splits)
    then show ?thesis using lv False by (simp add: levels_def)
  qed
  moreover have "ccount ?u c = n" using f(4) c by (simp add: n_def)
  ultimately have "slab_wf ?u c ?L ?fr" by (simp add: slab_wf_def levels_def)
  moreover have "mem ?u x = mem s x" if "\<not> in_slab p x" for x
    using that m(4)[OF that] store_in_slab[OF assms(2) slab_off_header(6) that, of m] by (simp add: push_slab_def Let_def)
  ultimately show ?thesis using m(1) f(3,4) c cs(1) by (simp add: same_frame_def) (simp add: push_slab_def Let_def store_def set_cache_def)
qed

section \<open>Together with the buddy allocator\<close>

text \<open>The slabs of the cache lie in pages that are not free, and the direct map keeps their alignment.\<close>

definition alloc_wf :: "'a slab_state_scheme \<Rightarrow> nat \<Rightarrow> slab_map \<Rightarrow> (u64 \<Rightarrow> nat list) \<Rightarrow> free_map \<Rightarrow> bool" where
  "alloc_wf s c L fr FL \<longleftrightarrow> slab_wf s c L fr \<and> buddy_wf s FL \<and> c < 256 \<and> aligned 13 (hhdm_offset s)
     \<and> (\<forall>p\<in>all_slabs L. \<forall>x. in_slab p x \<longrightarrow> unat (x - hhdm_offset s) \<notin> free_bytes s FL)
     \<and> (\<forall>p\<in>all_slabs L. unat p + 8192 < 2 ^ 64)"

text \<open>The objects in use, the abstract state of the cache, and the bytes of one.\<close>

definition live :: "'a slab_state_scheme \<Rightarrow> nat \<Rightarrow> slab_map \<Rightarrow> (u64 \<Rightarrow> nat list) \<Rightarrow> (u64 \<times> nat) set" where
  "live s c L fr = {(p, k). p \<in> all_slabs L \<and> k < ccount s c \<and> k \<notin> set (fr p)}"

definition in_object :: "u64 \<Rightarrow> nat \<Rightarrow> nat \<Rightarrow> u64 \<Rightarrow> bool" where
  "in_object p z k x \<longleftrightarrow> unat (x - slab_obj p z k) < z"

text \<open>The bytes the allocators do not own, and a step that leaves them alone.\<close>

definition outside_heap :: "'a slab_state_scheme \<Rightarrow> slab_map \<Rightarrow> free_map \<Rightarrow> u64 \<Rightarrow> bool" where
  "outside_heap s L FL x \<longleftrightarrow> (\<forall>p\<in>all_slabs L. \<not> in_slab p x) \<and> unat (x - hhdm_offset s) \<notin> free_bytes s FL"

definition heap_frame :: "'a slab_state_scheme \<Rightarrow> slab_map \<Rightarrow> free_map \<Rightarrow> 'a slab_state_scheme \<Rightarrow> slab_map \<Rightarrow> free_map \<Rightarrow> bool" where
  "heap_frame s L FL t L' FL' \<longleftrightarrow> all_slabs L \<subseteq> all_slabs L'
     \<and> (\<forall>x. outside_heap s L FL x \<longrightarrow> outside_heap t L' FL' x \<and> mem t x = mem s x)"

lemma heap_frame_trans: "heap_frame s L FL t L' FL' \<Longrightarrow> heap_frame t L' FL' u L2 FL2 \<Longrightarrow> heap_frame s L FL u L2 FL2"
  unfolding heap_frame_def by (metis subset_trans)

lemma buddy_wf_caches: "buddy_wf (s\<lparr>slab_caches := cs\<rparr>) FL \<longleftrightarrow> buddy_wf s FL"
  "free_bytes (s\<lparr>slab_caches := cs\<rparr>) FL = free_bytes s FL"
proof -
  have slot: "fl_slot i k (s\<lparr>slab_caches := cs\<rparr>) = fl_slot i k s" for i k
  proof
    show "fl_slot i k (s\<lparr>slab_caches := cs\<rparr>) l = fl_slot i k s l" for l by (cases l) simp_all
  qed
  have p2v: "phys_to_virt (s\<lparr>slab_caches := cs\<rparr>) = phys_to_virt s" by (simp add: fun_eq_iff phys_to_virt_def)
  show "free_bytes (s\<lparr>slab_caches := cs\<rparr>) FL = free_bytes s FL" by (simp add: free_bytes_def free_blocks_def)
  show "buddy_wf (s\<lparr>slab_caches := cs\<rparr>) FL \<longleftrightarrow> buddy_wf s FL"
    by (simp add: buddy_wf_def arenas_wf_def arena_ok_def arena_range_def free_blocks_def block_ok_def p2v slot)
qed

lemma buddy_wf_same_frame:
  assumes "buddy_wf s FL" "same_frame s t c" "\<And>x. unat (x - hhdm_offset s) \<in> free_bytes s FL \<Longrightarrow> mem t x = mem s x"
  shows "buddy_wf t FL" "free_bytes t FL = free_bytes s FL"
proof -
  have t: "t = (s\<lparr>mem := mem t\<rparr>)\<lparr>slab_caches := slab_caches t\<rparr>" using assms(2) unfolding same_frame_def by simp
  show "buddy_wf t FL" by (subst t) (simp only: buddy_wf_caches buddy_wf_frame[OF assms(1,3)])
  show "free_bytes t FL = free_bytes s FL" by (subst t) (simp add: buddy_wf_caches)
qed

lemma header_in_slab: "x - p < 48 \<Longrightarrow> in_slab p x"
  by (simp add: in_slab_def word_less_nat_alt)

lemma object_in_slab:
  assumes "layout_ok z n" "k < n" "in_object p z k x"
  shows "in_slab p x" "outside_headers {p} x"
proof -
  define d where "d = x - slab_obj p z k"
  have d: "unat d < z" using assms(3) by (simp add: in_object_def d_def)
  have "Suc k * z \<le> n * z" using assms(2) by (intro mult_le_mono1) simp
  then have b: "obj_off z k + z \<le> 8192" using assms(1) by (simp add: layout_ok_def obj_off_def)
  have "x - p = d + of_nat (obj_off z k)" by (simp add: d_def slab_obj_def)
  then have u: "unat (x - p) = unat d + obj_off z k" using d b by (simp add: unat_word_ariths(1) unat_of_nat)
  show "in_slab p x" using u d b by (simp add: in_slab_def word_less_nat_alt)
  show "outside_headers {p} x" using u by (simp add: outside_headers_def word_less_nat_alt obj_off_def)
qed

lemma slabs_apart:
  assumes "aligned 13 p" "aligned 13 q" "in_slab p x" "in_slab q x"
  shows "p = q"
proof -
  have f: "\<exists>i<8192. x = r + of_nat i" if "in_slab r x" for r
    using that by (intro exI[of _ "unat (x - r)"]) (simp add: in_slab_def word_less_nat_alt)
  obtain i j where "i < 8192" "j < 8192" "x = p + of_nat i" "x = q + of_nat j" using f[OF assms(3)] f[OF assms(4)] by blast
  then show ?thesis using unat_field[OF assms(1), of i] unat_field[OF assms(2), of j] field_eq_iff[OF assms(1,2), of i j] by simp
qed

lemma object_outside_headers:
  assumes "slab_lists s c L" "q \<in> all_slabs L" "layout_ok z n" "k < n" "in_object q z k x"
  shows "outside_headers (all_slabs L) x"
proof -
  note o = object_in_slab[OF assms(3-5)]
  have "\<not> x - p < 48" if p: "p \<in> all_slabs L" for p
  proof
    assume "x - p < 48"
    moreover from this have "p = q"
      using slabs_apart[OF slab_lists_mem(1)[OF assms(1) p] slab_lists_mem(1)[OF assms(1,2)] header_in_slab o(1)] by blast
    ultimately show False using o(2) by (simp add: outside_headers_def)
  qed
  then show ?thesis by (simp add: outside_headers_def)
qed

lemma objects_apart:
  assumes "layout_ok z n" "k < n" "j < n" "k \<noteq> j" "in_object p z k x" "aligned 13 p"
  shows "\<not> in_object p z j x" "outside_object p z j x"
proof -
  have off: "unat (x - p) = unat (x - slab_obj p z i) + obj_off z i" if "i < n" "in_object p z i x" for i
  proof -
    define d where "d = x - slab_obj p z i"
    have "Suc i * z \<le> n * z" using that(1) by (intro mult_le_mono1) simp
    then have b: "obj_off z i + z \<le> 8192" using assms(1) by (simp add: layout_ok_def obj_off_def)
    have "x - p = d + of_nat (obj_off z i)" by (simp add: d_def slab_obj_def)
    then show ?thesis using that(2) b unfolding in_object_def d_def[symmetric] by (simp add: unat_word_ariths(1) unat_of_nat)
  qed
  have z: "0 < z" "16 \<le> z" using assms(1) by (auto simp: layout_ok_def intro: dvd_imp_le)
  show no: "\<not> in_object p z j x"
  proof
    assume "in_object p z j x"
    then have e: "unat (x - slab_obj p z k) + k * z = unat (x - slab_obj p z j) + j * z"
      using off[OF assms(2,5)] off[OF assms(3)] by (simp add: obj_off_def)
    have "unat (x - slab_obj p z k) < z" "unat (x - slab_obj p z j) < z" using assms(5) \<open>in_object p z j x\<close> by (simp_all add: in_object_def)
    then have "(unat (x - slab_obj p z k) + k * z) div z = k" "(unat (x - slab_obj p z j) + j * z) div z = j" by simp_all
    then show False using e assms(4) by simp
  qed
  show "outside_object p z j x" using no z by (auto simp: outside_object_def in_object_def word_less_nat_alt)
qed

lemma alloc_wf_step:
  assumes "alloc_wf s c L fr FL" "slab_wf t c L' fr'" "all_slabs L' = all_slabs L" "same_frame s t c"
    and "\<And>x. (\<And>p. p \<in> all_slabs L \<Longrightarrow> \<not> in_slab p x) \<Longrightarrow> mem t x = mem s x"
  shows "alloc_wf t c L' fr' FL" "heap_frame s L FL t L' FL"
proof -
  have wf: "buddy_wf s FL" and nf: "\<And>p x. p \<in> all_slabs L \<Longrightarrow> in_slab p x \<Longrightarrow> unat (x - hhdm_offset s) \<notin> free_bytes s FL"
    using assms(1) by (auto simp: alloc_wf_def)
  have "mem t x = mem s x" if "unat (x - hhdm_offset s) \<in> free_bytes s FL" for x using assms(5) nf that by blast
  note b = buddy_wf_same_frame[OF wf assms(4) this]
  show "alloc_wf t c L' fr' FL" using assms(1-3) b same_frame_fields[OF assms(4)] by (simp add: alloc_wf_def)
  show "heap_frame s L FL t L' FL" using assms(3,5) b(2) same_frame_fields[OF assms(4)] by (simp add: heap_frame_def outside_heap_def)
qed

text \<open>Allocation from a cache that has a free object.\<close>

lemma slab_alloc_available:
  assumes wf: "alloc_wf s c L fr FL" and av: "L Partial \<noteq> [] \<or> L Empty \<noteq> []"
  shows "\<exists>t L' fr' p k. slab_alloc s c = Some (slab_obj p (csize s c) k, t) \<and> slab_obj p (csize s c) k \<noteq> NULL
    \<and> p \<in> all_slabs L \<and> k < ccount s c \<and> (p, k) \<notin> live s c L fr
    \<and> alloc_wf t c L' fr' FL \<and> live t c L' fr' = insert (p, k) (live s c L fr) \<and> same_frame s t c
    \<and> (\<forall>(q, j)\<in>live s c L fr. \<forall>x. in_object q (csize s c) j x \<longrightarrow> mem t x = mem s x) \<and> heap_frame s L FL t L' FL"
proof -
  have sw: "slab_wf s c L fr" using wf by (simp add: alloc_wf_def)
  then have co: "contents s c L fr" by (simp add: slab_wf_def)
  let ?p = "pick L"
  obtain t L' k where t: "slab_alloc s c = Some (slab_obj ?p (csize s c) k, t)" "fr ?p = k # tl (fr ?p)"
      "slab_wf t c L' (fr(?p := tl (fr ?p)))" "all_slabs L' = all_slabs L" "same_frame s t c"
      "\<And>x. outside_headers (all_slabs L) x \<Longrightarrow> mem t x = mem s x"
    using slab_alloc_from_slab[OF sw av] by blast
  have p: "?p \<in> all_slabs L" using pick_head(1)[OF sw av] by (auto simp: all_slabs_eq)
  note i = slab_in[OF co p]
  define ks where "ks = tl (fr ?p)"
  have e: "fr ?p = k # ks" using t(2) by (simp only: ks_def)
  have k: "k < ccount s c" "k \<notin> set ks" "set (fr ?p) = insert k (set ks)" using i(6) unfolding slab_ok_def e by auto
  have "mem t x = mem s x" if "\<And>p. p \<in> all_slabs L \<Longrightarrow> \<not> in_slab p x" for x
    using t(6)[of x] header_in_slab[of x] that by (auto simp: outside_headers_def)
  note st = alloc_wf_step[OF wf t(3)[folded ks_def] t(4,5) this]
  have "live t c L' (fr(?p := ks)) = insert (?p, k) (live s c L fr)"
    using k p t(4) same_frame_fields[OF t(5)] by (auto simp: live_def split: if_splits)
  moreover have "mem t x = mem s x" if "(q, j) \<in> live s c L fr" "in_object q (csize s c) j x" for q j x
    using object_outside_headers[OF i(2) _ i(1)] that by (intro t(6)) (auto simp: live_def)
  moreover have "(?p, k) \<notin> live s c L fr" using k(3) by (simp add: live_def)
  ultimately show ?thesis using t(1,5) p k(1) slab_obj_nonnull[OF i(4,1) k(1)] st by blast
qed

text \<open>Allocation from a cache without a free object: a slab is created first.\<close>

text \<open>The cache depends only on its own fields and on the bytes of its slabs.\<close>

lemma slab_wf_same:
  assumes wf: "slab_wf s c L fr" and "length (slab_caches t) = length (slab_caches s)" "cache_at t c = cache_at s c"
    "slab_caches_addr t = slab_caches_addr s" and same: "\<And>q x. q \<in> all_slabs L \<Longrightarrow> in_slab q x \<Longrightarrow> mem t x = mem s x"
  shows "slab_wf t c L fr"
proof -
  have co: "contents s c L fr" using wf by (simp add: slab_wf_def)
  have fl: "fld (mem t) q i = fld (mem s) q i" if q: "q \<in> all_slabs L" and o: "slab_off i" for q i
    unfolding fld_def
  proof (rule load64_cong)
    fix k :: u64 assume k: "k < 8"
    obtain e where "i = 8 * e" "i < 8192" using o by (auto simp: slab_off_def)
    then have "i + 8 \<le> 8192" by simp
    then have "unat (of_nat i + k) < 8192" using k by (simp add: unat_word_ariths(1) unat_of_nat word_less_nat_alt)
    then have "in_slab q (q + of_nat i + k)" by (simp add: in_slab_def word_less_nat_alt)
    then show "mem t (q + of_nat i + k) = mem s (q + of_nat i + k)" by (rule same[OF q])
  qed
  have "slab_lists s c L" using co by (simp add: contents_def)
  then have "slab_lists t c L" by (rule slab_lists_cong) (simp_all add: assms(2,3) fl)
  moreover have "slab_ok (mem t) q (csize s c) (ccount s c) (cache_ptr s c) (fr q)" if "q \<in> all_slabs L" for q
    using slab_in[OF co that] fl[OF that] by (blast intro: slab_ok_same)
  moreover have "cache_ptr t c = cache_ptr s c" using assms(4) by (simp add: cache_ptr_def)
  ultimately show ?thesis using wf assms(3) by (simp add: slab_wf_def contents_def)
qed

lemma aligned_add: "aligned k a \<Longrightarrow> aligned k b \<Longrightarrow> unat a + unat b < 18446744073709551616 \<Longrightarrow> aligned k (a + b)"
  by (simp add: aligned_def unat_plus64)

lemma new_slab:
  assumes "alloc_wf s c L fr FL" "buddy_alloc_pages s 1 = (phys, t)" "phys \<noteq> 0"
  defines "p \<equiv> phys_to_virt t phys"
  shows "aligned 13 p" "p \<noteq> NULL" "p \<notin> all_slabs L" "slab_wf t c L fr" "cache_at t c = cache_at s c" "hhdm_offset t = hhdm_offset s"
    and "\<exists>FL'. buddy_wf t FL' \<and> free_bytes t FL' \<subseteq> free_bytes s FL \<and> (\<forall>x. in_slab p x \<longrightarrow> unat (x - hhdm_offset s) \<notin> free_bytes t FL')"
    and "\<And>q x. q \<in> all_slabs L \<Longrightarrow> in_slab q x \<Longrightarrow> mem t x = mem s x \<and> \<not> in_slab p x" "slab_caches_addr t = slab_caches_addr s" "unat p + 8192 < 2 ^ 64"
    and "\<And>x. unat (x - hhdm_offset s) \<notin> free_bytes s FL \<Longrightarrow> mem t x = mem s x \<and> \<not> in_slab p x"
proof -
  have sw: "slab_wf s c L fr" and bw: "buddy_wf s FL" and al: "aligned 13 (hhdm_offset s)"
    and nf: "\<And>q x. q \<in> all_slabs L \<Longrightarrow> in_slab q x \<Longrightarrow> unat (x - hhdm_offset s) \<notin> free_bytes s FL"
    using assms(1) by (auto simp: alloc_wf_def)
  have post: "alloc_post s FL 1 phys t" using buddy_alloc_pages_post[OF bw _ assms(2)] assms(3) by simp
  note blk = alloc_post_block[OF bw post]
  obtain i where i: "i < unat (buddy_arena_counter s)" "block_ok s i 1 phys" using blk(1) by blast
  have aw: "arenas_wf s" using bw by (simp add: buddy_wf_def)
  show h: "hhdm_offset t = hhdm_offset s" using post by (simp add: alloc_post_def same_shape_def)
  then have p: "p = phys + hhdm_offset s" by (simp add: p_def phys_to_virt_def)
  have room: "unat phys + 8192 + unat (hhdm_offset s) < 18446744073709551616"
    using i aw by (auto simp: arenas_wf_def arena_ok_def block_ok_def)
  then show "unat p + 8192 < 2 ^ 64" unfolding p using unat_plus64[of phys "hhdm_offset s"] by simp
  show alp: "aligned 13 p" unfolding p using blk(3) al room by (intro aligned_add) simp_all
  show "p \<noteq> NULL" using block_ok_virt[OF aw i] by (simp add: p phys_to_virt_def)
  have in_p: "unat (x - hhdm_offset s) \<in> brange phys 1" if "in_slab p x" for x
  proof -
    have e: "x - hhdm_offset s = phys + (x - p)" by (simp add: p)
    have "unat (x - p) < 8192" using that by (simp add: in_slab_def word_less_nat_alt)
    then show ?thesis unfolding e brange_def using room unat_plus64[of phys "x - p"] by simp
  qed
  have wo: "writes_only s t (free_bytes s FL)" using post by (simp add: alloc_post_def)
  then show new: "mem t x = mem s x \<and> \<not> in_slab p x" if "unat (x - hhdm_offset s) \<notin> free_bytes s FL" for x
    using that in_p blk(2) by (auto simp: writes_only_def)
  then have disj: "\<not> in_slab p x" if "q \<in> all_slabs L" "in_slab q x" for q x using nf[OF that] by blast
  show "p \<notin> all_slabs L" using disj[of p p] by (auto simp: in_slab_def)
  have same: "mem t x = mem s x" if "q \<in> all_slabs L" "in_slab q x" for q x using new nf[OF that] by blast
  then show "\<And>q x. q \<in> all_slabs L \<Longrightarrow> in_slab q x \<Longrightarrow> mem t x = mem s x \<and> \<not> in_slab p x" using disj by blast
  obtain m as where t: "t = s\<lparr>mem := m, buddy_arenas := as\<rparr>" using same_ext_alloc[OF assms(2)] by (auto simp: same_ext_def)
  then show ca: "cache_at t c = cache_at s c" and sa: "slab_caches_addr t = slab_caches_addr s" by simp_all
  show "\<exists>FL'. buddy_wf t FL' \<and> free_bytes t FL' \<subseteq> free_bytes s FL \<and> (\<forall>x. in_slab p x \<longrightarrow> unat (x - hhdm_offset s) \<notin> free_bytes t FL')"
    using post in_p by (fastforce simp: alloc_post_def)
  show "slab_wf t c L fr" by (rule slab_wf_same[OF sw]) (use t ca sa same in simp_all)
qed

lemma slab_wf_counters:
  assumes "slab_wf s c L fr" "x = (cache_at s c)\<lparr>total_slabs := a, total_objects := b\<rparr>"
  shows "slab_wf (set_cache s c x) c L fr" "same_frame s (set_cache s c x) c" "mem (set_cache s c x) = mem s"
proof -
  have c: "c < length (slab_caches s)" using assms(1) by (simp add: slab_wf_def contents_def slab_lists_def)
  have heads: "list_head w x = list_head w (cache_at s c)" for w using assms(2) by (cases w) simp_all
  have "slab_lists s c L" using assms(1) by (simp add: slab_wf_def contents_def)
  then have "slab_lists (set_cache s c x) c L" by (rule slab_lists_cong) (simp_all add: heads c)
  moreover have "cache_ptr (set_cache s c x) c = cache_ptr s c" by (simp add: cache_ptr_def)
  ultimately show "slab_wf (set_cache s c x) c L fr" using assms c by (simp add: slab_wf_def contents_def)
  show "same_frame s (set_cache s c x) c" using assms(2) c by (simp add: same_frame_def) (simp add: set_cache_def)
qed simp

lemma no_slab_heads:
  assumes "slab_wf s c L fr" "L Partial = []" "L Empty = []"
  shows "partial_slabs (cache_at s c) = NULL" "empty_slabs (cache_at s c) = NULL"
proof -
  have "lseg (sl_slot c w s) Head (L w)" for w using assms(1) by (simp add: slab_wf_def contents_def slab_lists_def)
  from this[of Partial] this[of Empty] show "partial_slabs (cache_at s c) = NULL" "empty_slabs (cache_at s c) = NULL"
    using assms(2,3) by simp_all
qed

lemma live_add:
  "p \<notin> all_slabs L \<Longrightarrow> ccount u c = n \<Longrightarrow> ccount s c = n \<Longrightarrow> live u c (L(w := p # L w)) (fr(p := rev [0..<n])) = live s c L fr"
  by (auto simp: live_def all_slabs_add split: if_splits)

text \<open>A slab created for a cache without free objects: nothing in use changes, and allocation goes on from
  the state with the new slab.\<close>

lemma slab_create_step:
  assumes wf: "alloc_wf s c L fr FL" and none: "L Partial = []" "L Empty = []" and "buddy_alloc_pages s 1 = (phys, t)" "phys \<noteq> 0"
  shows "\<exists>u L' fr' FL'. alloc_wf u c L' fr' FL' \<and> L' Empty \<noteq> [] \<and> live u c L' fr' = live s c L fr \<and> slab_alloc s c = slab_alloc u c
    \<and> csize u c = csize s c \<and> ccount u c = ccount s c \<and> slab_caches_addr u = slab_caches_addr s
    \<and> (\<forall>q\<in>all_slabs L. \<forall>x. in_slab q x \<longrightarrow> mem u x = mem s x) \<and> heap_frame s L FL u L' FL'"
proof -
  let ?p = "phys_to_virt t phys"
  note n = new_slab[OF wf assms(4,5)]
  obtain FL' where FL': "buddy_wf t FL'" "free_bytes t FL' \<subseteq> free_bytes s FL" "\<And>x. in_slab ?p x \<Longrightarrow> unat (x - hhdm_offset s) \<notin> free_bytes t FL'"
    using n(7) by blast
  let ?v = "push_slab (fill_slab t c ?p phys) ?p c Empty" let ?L = "L(Empty := ?p # L Empty)" let ?fr = "fr(?p := rev [0..<ccount t c])"
  have v: "slab_wf ?v c ?L ?fr" "same_frame t ?v c" "\<And>x. \<not> in_slab ?p x \<Longrightarrow> mem ?v x = mem t x"
    using add_slab[OF n(4,1,2,3), of phys] by blast+
  let ?cache = "cache_at ?v c"
  let ?u = "set_cache ?v c (?cache\<lparr>total_slabs := total_slabs ?cache + 1, total_objects := total_objects ?cache + objects_per_slab ?cache\<rparr>)"
  note u = slab_wf_counters[OF v(1) refl, where a = "total_slabs ?cache + 1" and b = "total_objects ?cache + objects_per_slab ?cache"]
  have fr: "same_frame t ?u c" by (rule same_frame_trans[OF v(2) u(2)])
  have cr: "slab_create s c = (?p, ?u)" using assms(4,5) by (simp add: slab_create_unfold Let_def)
  have memu: "mem ?u x = mem t x" if "\<not> in_slab ?p x" for x using v(3)[OF that] u(3) by simp
  have "mem ?u x = mem t x" if "unat (x - hhdm_offset t) \<in> free_bytes t FL'" for x using that FL'(3) n(6) by (intro memu) auto
  note b = buddy_wf_same_frame[OF FL'(1) fr this]
  have "unat (x - hhdm_offset s) \<notin> free_bytes t FL'" if "q \<in> all_slabs ?L" "in_slab q x" for q x
    using that wf FL'(2,3) unfolding all_slabs_add alloc_wf_def by blast
  then have au: "alloc_wf ?u c ?L ?fr FL'"
    using u(1) b wf same_frame_fields[OF fr] n(6,10) by (simp add: alloc_wf_def all_slabs_add)
  have cc: "csize ?u c = csize s c" "ccount ?u c = ccount s c" "ccount t c = ccount s c" "slab_caches_addr ?u = slab_caches_addr s"
    using same_frame_fields[OF fr] n(5,9) by simp_all
  have "live ?u c ?L ?fr = live s c L fr" unfolding cc(3) by (rule live_add[OF n(3) cc(2) refl])
  moreover have "slab_alloc s c = slab_alloc ?u c"
  proof -
    have sw: "slab_wf s c L fr" using wf by (simp add: alloc_wf_def)
    have "lseg (sl_slot c w ?u) Head (?L w)" for w using u(1) by (simp add: slab_wf_def contents_def slab_lists_def)
    from this[of Partial] this[of Empty] have h: "partial_slabs (cache_at ?u c) = NULL" "empty_slabs (cache_at ?u c) = ?p" using none by simp_all
    show ?thesis
      unfolding slab_alloc_def Let_def using no_slab_heads[OF sw none] h n(2) cr by simp
  qed
  moreover have "mem ?u x = mem s x" if "q \<in> all_slabs L" "in_slab q x" for q x using n(8)[OF that] memu by simp
  moreover have "heap_frame s L FL ?u ?L FL'"
    using memu n(11) FL'(2) b(2) same_frame_fields[OF fr] n(6) by (auto simp: heap_frame_def outside_heap_def all_slabs_add)
  ultimately show ?thesis using au cc by (intro exI[of _ ?u] exI[of _ ?L] exI[of _ ?fr] exI[of _ FL']) simp
qed

section \<open>Correctness\<close>

lemma slab_alloc_post:
  assumes wf: "alloc_wf s c L fr FL"
  shows "\<exists>ptr t. slab_alloc s c = Some (ptr, t) \<and>
    (if ptr = NULL then t = s \<and> (\<forall>p\<in>all_slabs L. fr p = []) \<and> (\<forall>i k a. (i, k, a) \<in> free_blocks s FL \<longrightarrow> k = 0)
     else \<exists>L' fr' FL' p k. ptr = slab_obj p (csize s c) k \<and> k < ccount s c \<and> (p, k) \<notin> live s c L fr
       \<and> alloc_wf t c L' fr' FL' \<and> live t c L' fr' = insert (p, k) (live s c L fr) \<and> csize t c = csize s c
       \<and> ccount t c = ccount s c \<and> slab_caches_addr t = slab_caches_addr s
       \<and> (\<forall>(q, j)\<in>live s c L fr. \<forall>x. in_object q (csize s c) j x \<longrightarrow> mem t x = mem s x) \<and> heap_frame s L FL t L' FL')"
proof (cases "L Partial \<noteq> [] \<or> L Empty \<noteq> []")
  case True
  from slab_alloc_available[OF wf this] obtain t L' fr' p k where "slab_alloc s c = Some (slab_obj p (csize s c) k, t)"
      "slab_obj p (csize s c) k \<noteq> NULL" "k < ccount s c" "(p, k) \<notin> live s c L fr" "alloc_wf t c L' fr' FL"
      "live t c L' fr' = insert (p, k) (live s c L fr)" "same_frame s t c"
      "\<forall>(q, j)\<in>live s c L fr. \<forall>x. in_object q (csize s c) j x \<longrightarrow> mem t x = mem s x" "heap_frame s L FL t L' FL" by blast
  then show ?thesis using same_frame_fields[of s t c]
    by (intro exI[of _ "slab_obj p (csize s c) k"] exI[of _ t] conjI, simp, simp only: if_False)
       (intro exI[of _ L'] exI[of _ fr'] exI[of _ FL] exI[of _ p] exI[of _ k], simp)
next
  case False
  then have none: "L Partial = []" "L Empty = []" by simp_all
  have sw: "slab_wf s c L fr" and bw: "buddy_wf s FL" using wf by (simp_all add: alloc_wf_def)
  obtain phys t where bt: "buddy_alloc_pages s 1 = (phys, t)" by (cases "buddy_alloc_pages s 1")
  show ?thesis
  proof (cases "phys = 0")
    case True
    then have t: "t = s" "\<forall>i k a. (i, k, a) \<in> free_blocks s FL \<longrightarrow> k < 1" using buddy_alloc_pages_post[OF bw _ bt] by simp_all
    have "slab_alloc s c = Some (NULL, s)"
      using no_slab_heads[OF sw none] True bt t(1) by (simp add: slab_alloc_def slab_create_def Let_def)
    moreover have "fr p = []" if "p \<in> all_slabs L" for p
      using sw that none by (auto simp: slab_wf_def levels_def all_slabs_eq dest: spec[of _ Full])
    ultimately show ?thesis using t(2) by simp
  next
    case nz: False
    obtain u L' fr' FL' where u: "alloc_wf u c L' fr' FL'" "L' Empty \<noteq> []" "live u c L' fr' = live s c L fr" "slab_alloc s c = slab_alloc u c"
        "csize u c = csize s c" "ccount u c = ccount s c" "slab_caches_addr u = slab_caches_addr s" "\<forall>q\<in>all_slabs L. \<forall>x. in_slab q x \<longrightarrow> mem u x = mem s x"
        "heap_frame s L FL u L' FL'"
      using slab_create_step[OF wf none bt nz] by blast
    have co: "contents s c L fr" using sw by (simp add: slab_wf_def)
    have in_slab: "mem u x = mem s x" if "(q, j) \<in> live s c L fr" "in_object q (csize s c) j x" for q j x
      using u(8) that slab_in(1)[OF co, of q] object_in_slab(1)[of "csize s c" "ccount s c" j q x] by (auto simp: live_def)
    obtain v L2 fr2 p k where v: "slab_alloc u c = Some (slab_obj p (csize u c) k, v)" "slab_obj p (csize u c) k \<noteq> NULL" "k < ccount u c"
        "(p, k) \<notin> live u c L' fr'" "alloc_wf v c L2 fr2 FL'" "live v c L2 fr2 = insert (p, k) (live u c L' fr')" "same_frame u v c"
        "\<forall>(q, j)\<in>live u c L' fr'. \<forall>x. in_object q (csize u c) j x \<longrightarrow> mem v x = mem u x" "heap_frame u L' FL' v L2 FL'"
      using slab_alloc_available[OF u(1)] u(2) by blast
    show ?thesis
      using v(1-8) u(3-7) in_slab same_frame_fields[OF v(7)] heap_frame_trans[OF u(9) v(9)]
      by (intro exI[of _ "slab_obj p (csize s c) k"] exI[of _ v] conjI, simp, simp only: if_False)
         (intro exI[of _ L2] exI[of _ fr2] exI[of _ FL'] exI[of _ p] exI[of _ k], auto)
  qed
qed

text \<open>C12: \<^verbatim>\<open>slab_alloc\<close> returns on every well-formed cache, whatever list it serves the request from. Either it
  returns NULL, leaves everything as it was, no object of the cache is free and the buddy allocator
  has no two pages left; or it returns an object of the cache that was not in use, the set of
  objects in use grows by exactly that object, the invariants of the cache and of the buddy
  allocator hold again, no byte of an object in use has changed, and neither has any byte that was
  neither in a slab of the cache nor free memory of the buddy allocator; such bytes stay outside.\<close>

theorem slab_alloc_correct:
  assumes wf: "alloc_wf s c L fr FL"
  shows "\<exists>ptr t. slab_alloc s c = Some (ptr, t) \<and>
    (if ptr = NULL then t = s \<and> (\<forall>p\<in>all_slabs L. fr p = []) \<and> (\<forall>i k a. (i, k, a) \<in> free_blocks s FL \<longrightarrow> k = 0)
     else \<exists>L' fr' FL' p k. ptr = slab_obj p (csize s c) k \<and> k < ccount s c \<and> (p, k) \<notin> live s c L fr
       \<and> alloc_wf t c L' fr' FL' \<and> live t c L' fr' = insert (p, k) (live s c L fr) \<and> csize t c = csize s c
       \<and> ccount t c = ccount s c \<and> slab_caches_addr t = slab_caches_addr s
       \<and> (\<forall>(q, j)\<in>live s c L fr. \<forall>x. in_object q (csize s c) j x \<longrightarrow> mem t x = mem s x) \<and> heap_frame s L FL t L' FL')"
  by (rule slab_alloc_post[OF wf])

text \<open>Writes to bytes the allocators do not own keep the invariant; a cache without slabs is well formed.\<close>

lemma alloc_wf_outside_write:
  assumes wf: "alloc_wf s c L fr FL" and same: "\<And>x. \<not> outside_heap s L FL x \<Longrightarrow> m x = mem s x"
  shows "alloc_wf (s\<lparr>mem := m\<rparr>) c L fr FL"
proof -
  let ?t = "s\<lparr>mem := m\<rparr>"
  have sw: "slab_wf s c L fr" and bw: "buddy_wf s FL" using wf by (simp_all add: alloc_wf_def)
  have "m x = mem s x" if "q \<in> all_slabs L" "in_slab q x" for q x using that by (intro same) (auto simp: outside_heap_def)
  then have "slab_wf ?t c L fr" by (intro slab_wf_same[OF sw]) simp_all
  moreover have "buddy_wf ?t FL" using same by (intro buddy_wf_frame[OF bw]) (simp add: outside_heap_def)
  ultimately show ?thesis using wf by (simp add: alloc_wf_def)
qed

lemma heap_live_outside:
  assumes wf: "alloc_wf s c L fr FL" and "(q, j) \<in> live s c L fr" "in_object q (csize s c) j x"
  shows "\<not> outside_heap s L FL x"
proof -
  have q: "q \<in> all_slabs L" "j < ccount s c" using assms(2) by (simp_all add: live_def)
  have "contents s c L fr" using wf by (simp add: alloc_wf_def slab_wf_def)
  from object_in_slab(1)[OF slab_in(1)[OF this q(1)] q(2) assms(3)] show ?thesis using q(1) by (auto simp: outside_heap_def)
qed

lemma alloc_wf_empty:
  assumes "buddy_wf s FL" "c < 256" "c < length (slab_caches s)" "aligned 13 (hhdm_offset s)" "layout_ok (csize s c) (ccount s c)"
    "\<And>w. list_head w (cache_at s c) = NULL" "allocated_objects (cache_at s c) = 0"
  shows "alloc_wf s c (\<lambda>_. []) (\<lambda>_. []) FL"
  using assms by (simp add: alloc_wf_def slab_wf_def contents_def levels_def all_slabs_def slab_lists_def)

text \<open>A cache of objects of 2048 bytes without slabs, on an arena of four free pages.\<close>

definition sample_cache_arena :: slab_state where
  "sample_cache_arena = slab_cache_init
     \<lparr>mem = (\<lambda>_. 0), hhdm_offset = 0xFFFF800000000000, buddy_arenas = buddy_arenas sample_arena, buddy_arena_counter = 1,
      slab_caches = replicate 8 \<lparr>object_size = 0, objects_per_slab = 0, slab_size = 0, full_slabs = 0, partial_slabs = 0, empty_slabs = 0,
        total_objects = 0, allocated_objects = 0, total_slabs = 0\<rparr>, slab_caches_addr = 0xFFFFFFFF80001000\<rparr> 7 2048"

definition sample_cache :: slab_state where
  "sample_cache = push_free_block sample_cache_arena 0 2 0x100000"

lemma sample_cache_arena_wf: "buddy_wf sample_cache_arena (\<lambda>_ _. [])"
  by (simp add: buddy_wf_def arenas_wf_def arena_ok_def free_blocks_def sample_cache_arena_def sample_arena_def
      slab_cache_init_def set_cache_def disjoint_family_on_def)

lemma sample_cache_buddy: "buddy_wf sample_cache sample_free" "(0, 2, 0x100000) \<in> free_blocks sample_cache sample_free"
proof -
  have ok: "block_ok sample_cache_arena 0 2 0x100000"
    by (simp add: block_ok_def aligned_def sample_cache_arena_def sample_arena_def slab_cache_init_def set_cache_def)
  have fb: "free_bytes sample_cache_arena (\<lambda>_ _. []) = {}" by (simp add: free_bytes_def free_blocks_def)
  show "buddy_wf sample_cache sample_free"
    unfolding sample_cache_def sample_free_def using push_wf(1)[OF sample_cache_arena_wf _ ok] fb
    by (simp add: sample_cache_arena_def slab_cache_init_def set_cache_def)
  show "(0, 2, 0x100000) \<in> free_blocks sample_cache sample_free"
    by (simp add: free_blocks_def sample_cache_def sample_cache_arena_def sample_free_def fm_upd_def push_free_block_def set_free_head_def
        set_arena_def slab_cache_init_def set_cache_def Let_def)
qed

lemma sample_cache_sizes: "csize sample_cache 7 = 2048" "ccount sample_cache 7 = 3"
  by (simp_all add: sample_cache_def sample_cache_arena_def push_free_block_def set_free_head_def set_arena_def slab_cache_init_def
      set_cache_def Let_def calculate_objects_per_slab_def sizeof_slab_def)

lemma sample_cache_wf: "alloc_wf sample_cache 7 (\<lambda>_. []) (\<lambda>_. []) sample_free"
proof -
  have "list_head w (cache_at sample_cache 7) = NULL" for w
    by (cases w) (simp_all add: sample_cache_def sample_cache_arena_def push_free_block_def set_free_head_def set_arena_def
        slab_cache_init_def set_cache_def Let_def)
  then show ?thesis
    using sample_cache_buddy(1) sample_cache_sizes
    by (intro alloc_wf_empty) (simp_all add: layout_ok_def aligned_def sample_cache_def sample_cache_arena_def push_free_block_def
        set_free_head_def set_arena_def slab_cache_init_def set_cache_def Let_def)
qed

theorem slab_alloc_correct_witness:
  "\<exists>t L' fr' FL' p k. slab_alloc sample_cache 7 = Some (slab_obj p 2048 k, t) \<and> k < 3 \<and> alloc_wf t 7 L' fr' FL' \<and> live t 7 L' fr' = {(p, k)}"
proof -
  have live: "live sample_cache 7 (\<lambda>_. []) (\<lambda>_. []) = {}" by (simp add: live_def all_slabs_def)
  obtain ptr t where t: "slab_alloc sample_cache 7 = Some (ptr, t)"
      "if ptr = NULL then t = sample_cache \<and> (\<forall>p\<in>all_slabs (\<lambda>_. []). ([] :: nat list) = []) \<and> (\<forall>i k a. (i, k, a) \<in> free_blocks sample_cache sample_free \<longrightarrow> k = 0)
       else \<exists>L' fr' FL' p k. ptr = slab_obj p 2048 k \<and> k < 3 \<and> (p, k) \<notin> {} \<and> alloc_wf t 7 L' fr' FL' \<and> live t 7 L' fr' = {(p, k)}
         \<and> csize t 7 = 2048 \<and> ccount t 7 = 3 \<and> slab_caches_addr t = slab_caches_addr sample_cache
         \<and> (\<forall>(q, j)\<in>{}. \<forall>x. in_object q 2048 j x \<longrightarrow> mem t x = mem sample_cache x)
         \<and> heap_frame sample_cache (\<lambda>_. []) sample_free t L' FL'"
    using slab_alloc_correct[OF sample_cache_wf] unfolding sample_cache_sizes live by blast
  have "ptr \<noteq> NULL" using t(2) sample_cache_buddy(2) by fastforce
  then show ?thesis using t by (simp only: if_False) blast
qed

text \<open>Freeing an object in use, as the invariant sees it.\<close>

lemma slab_free_live:
  assumes wf: "alloc_wf s c L fr FL" and "(p, k) \<in> live s c L fr"
  shows "\<exists>t L' fr'. slab_free s p (slab_obj p (csize s c) k) = Some t \<and> alloc_wf t c L' fr' FL
    \<and> live t c L' fr' = live s c L fr - {(p, k)} \<and> same_frame s t c
    \<and> (\<forall>(q, j)\<in>live s c L fr - {(p, k)}. \<forall>x. in_object q (csize s c) j x \<longrightarrow> mem t x = mem s x) \<and> heap_frame s L FL t L' FL"
proof -
  have sw: "slab_wf s c L fr" and c: "c < 256" using wf by (simp_all add: alloc_wf_def)
  then have co: "contents s c L fr" by (simp add: slab_wf_def)
  have p: "p \<in> all_slabs L" "k < ccount s c" "k \<notin> set (fr p)" using assms(2) by (simp_all add: live_def)
  note i = slab_in[OF co p(1)]
  obtain t L' where t: "slab_free s p (slab_obj p (csize s c) k) = Some t" "slab_wf t c L' (fr(p := k # fr p))" "all_slabs L' = all_slabs L"
      "same_frame s t c" "\<And>x. outside_headers (all_slabs L) x \<Longrightarrow> outside_object p (csize s c) k x \<Longrightarrow> mem t x = mem s x"
    using slab_free_to_slab[OF sw p c] by blast
  have "in_slab p x" if "\<not> outside_object p (csize s c) k x" for x
  proof -
    have "16 \<le> csize s c" using i(1) by (auto simp: layout_ok_def intro: dvd_imp_le)
    then have "in_object p (csize s c) k x" using that by (simp add: outside_object_def in_object_def word_less_nat_alt)
    then show ?thesis using object_in_slab(1)[OF i(1) p(2)] by blast
  qed
  then have "mem t x = mem s x" if "\<And>q. q \<in> all_slabs L \<Longrightarrow> \<not> in_slab q x" for x
    using t(5) that p(1) header_in_slab by (metis outside_headers_def)
  note st = alloc_wf_step[OF wf t(2,3,4) this]
  have "live t c L' (fr(p := k # fr p)) = live s c L fr - {(p, k)}"
    using t(3) same_frame_fields[OF t(4)] by (auto simp: live_def split: if_splits)
  moreover have "mem t x = mem s x" if "(q, j) \<in> live s c L fr - {(p, k)}" "in_object q (csize s c) j x" for q j x
  proof -
    have q: "q \<in> all_slabs L" "j < ccount s c" using that(1) by (simp_all add: live_def)
    have "outside_object p (csize s c) k x"
    proof (cases "q = p")
      case True
      then show ?thesis using objects_apart(2)[OF i(1) q(2) p(2) _ that(2)] that(1) slab_in(4)[OF co q(1)] by auto
    next
      case False
      have "\<not> in_object p (csize s c) k x"
        using slabs_apart[OF slab_in(4)[OF co q(1)] i(4) object_in_slab(1)[OF i(1) q(2) that(2)]] object_in_slab(1)[OF i(1) p(2)] False by blast
      moreover have "16 \<le> csize s c" using i(1) by (auto simp: layout_ok_def intro: dvd_imp_le)
      ultimately show ?thesis by (auto simp: outside_object_def in_object_def word_less_nat_alt)
    qed
    then show ?thesis using t(5) object_outside_headers[OF i(2) q(1) i(1) q(2) that(2)] by blast
  qed
  ultimately show ?thesis using t(1,4) st by blast
qed

text \<open>The slab of an object is found from its address.\<close>

lemma slab_find_containing_object:
  assumes wf: "alloc_wf s c L fr FL" and "p \<in> all_slabs L" "k < ccount s c" "cache_ptr s c \<noteq> NULL"
  shows "slab_find_containing s (slab_obj p (csize s c) k) = p"
proof -
  let ?z = "csize s c" and ?n = "ccount s c" let ?o = "slab_obj p ?z k"
  have sw: "slab_wf s c L fr" and c: "c < 256" and top: "unat p + 8192 < 18446744073709551616" using wf assms(2) by (simp_all add: alloc_wf_def)
  then have co: "contents s c L fr" by (simp add: slab_wf_def)
  note i = slab_in[OF co assms(2)]
  note o = unat_slab_obj[OF i(4,1) assms(3)] and room = obj_room[OF i(1) assms(3)]
  have "unat ?o div 8192 * 8192 = unat p" using i(4) room(3) unfolding o by (auto simp: aligned_def dvd_def)
  then have "unat (?o AND NOT (mask 13)) = unat p" unfolding unat_and_not_mask by simp
  moreover have m: "(2 * PAGE_FRAME_SIZE - 1 :: u64) = mask 13" by (simp add: mask_eq_exp_minus_1)
  ultimately have base: "?o AND NOT (2 * PAGE_FRAME_SIZE - 1) = p" unfolding m by (simp only: word_unat_eq_iff)
  have hdr: "sl_magic (mem s) p = SLAB_MAGIC" "sl_cache (mem s) p = cache_ptr s c" using i(6) by (simp_all add: slab_ok_def fld_header)
  have "Suc k * ?z \<le> ?n * ?z" using assms(3) by (intro mult_le_mono1) simp
  moreover have "0 < ?z" "48 + ?n * ?z \<le> 8192" using i(1) by (simp_all add: layout_ok_def)
  moreover have "unat (objects_per_slab (cache_at s c) * object_size (cache_at s c)) = ?n * ?z"
    using calculation(3) by (simp add: unat_word_ariths(2))
  ultimately have "p + sizeof_slab \<le> ?o \<and> ?o < p + sizeof_slab + objects_per_slab (cache_at s c) * object_size (cache_at s c)"
    using top o assms(3) by (simp add: word_le_nat_alt word_less_nat_alt unat_word_ariths(1) sizeof_slab_def obj_off_def)
  then show ?thesis
    using base hdr assms(4) i(5) cache_index_ptr[OF c, of s] by (simp add: slab_find_containing_def Let_def)
qed

end
