(* ===== verification/Pmm.thy ===== *)
theory Pmm
  imports Slab Klib
begin

text \<open>
  The kernel's allocation front end (\<^verbatim>\<open>kernel/arch/x86_64/memory/pmm.c\<close>): \<^verbatim>\<open>kmalloc\<close> serves small
  requests from the slab caches and large ones from the buddy allocator with a header before and a
  magic word after the data; \<^verbatim>\<open>kfree\<close> finds out where a pointer came from. The spinlocks around the
  calls serialise them; the functions below are what one call does while it holds its lock.
\<close>

definition ALLOC_MAGIC :: u64 where "ALLOC_MAGIC = 0xDEADBEEFCAFEBABE"
definition FREED_PATTERN :: u64 where "FREED_PATTERN = 0xDEADDEADDEADDEAD"
definition SLAB_THRESHOLD :: u64 where "SLAB_THRESHOLD = 2048"

text \<open>\<^verbatim>\<open>struct alloc_header\<close>: \<^verbatim>\<open>magic\<close> at 0, \<^verbatim>\<open>size\<close> (32 bits) at 8, \<^verbatim>\<open>order\<close> (8 bits) at 12, 16 bytes.\<close>

definition sizeof_alloc_header :: u64 where "sizeof_alloc_header = 16"
definition ah_magic :: "memory \<Rightarrow> u64 \<Rightarrow> u64" where "ah_magic m p = load64 m p"
definition ah_size :: "memory \<Rightarrow> u64 \<Rightarrow> u32" where "ah_size m p = load32 m (p + 8)"
definition ah_order :: "memory \<Rightarrow> u64 \<Rightarrow> u8" where "ah_order m p = load8 m (p + 12)"

text \<open>The loop \<^verbatim>\<open>while (block_size < total_size) { order++; block_size <<= 1; }\<close>.\<close>

partial_function (option) kmalloc_order :: "u8 \<Rightarrow> u64 \<Rightarrow> u64 \<Rightarrow> u8 option" where
  "kmalloc_order order blk_size total_size =
     (if blk_size < total_size then kmalloc_order (order + 1) (push_bit 1 blk_size) total_size
      else Some order)"

text \<open>The part of \<^verbatim>\<open>kmalloc\<close> that goes to the buddy allocator.\<close>

definition kmalloc_large :: "'a slab_state_scheme \<Rightarrow> u64 \<Rightarrow> (u64 \<times> 'a slab_state_scheme) option" where
  "kmalloc_large s sz =
     (let total_size = sizeof_alloc_header + sz + 4 in
      do {
        order \<leftarrow> kmalloc_order 0 PAGE_FRAME_SIZE total_size;
        if unat order \<ge> MAX_SUPPORTED_ORDER then Some (NULL, s)
        else
          (let (phys, s) = buddy_alloc_pages s order in
           if phys = 0 then Some (NULL, s)
           else
             (let hdr = phys_to_virt s phys;
                  m = store64 (mem s) hdr ALLOC_MAGIC;
                  m = store32 m (hdr + 8) (ucast sz);
                  m = store8 m (hdr + 12) order;
                  start_of_data = hdr + sizeof_alloc_header;
                  end_magic = start_of_data + ucast (ah_size m hdr);
                  m = store64 m end_magic ALLOC_MAGIC
              in Some (start_of_data, s\<lparr>mem := m\<rparr>)))
      })"

definition kmalloc :: "'a slab_state_scheme \<Rightarrow> u64 \<Rightarrow> (u64 \<times> 'a slab_state_scheme) option" where
  "kmalloc s sz =
     (if sz = 0 then Some (NULL, s)
      else if sz \<le> SLAB_THRESHOLD then do {
        (ptr, s) \<leftarrow> slab_alloc_size s sz;
        if ptr \<noteq> NULL then Some (ptr, s) else kmalloc_large s sz
      }
      else kmalloc_large s sz)"

text \<open>\<^verbatim>\<open>kfree\<close> of a buddy allocation: the two magic words decide whether the block is given back.\<close>

definition kfree_large :: "'a slab_state_scheme \<Rightarrow> u64 \<Rightarrow> 'a slab_state_scheme option" where
  "kfree_large s ptr =
     (let hdr = ptr - sizeof_alloc_header in
      if ah_magic (mem s) hdr = FREED_PATTERN then Some s
      else if ah_magic (mem s) hdr \<noteq> ALLOC_MAGIC
        \<or> load64 (mem s) (ptr + ucast (ah_size (mem s) hdr)) \<noteq> ALLOC_MAGIC then Some s
      else
        (let s = s\<lparr>mem := store64 (mem s) hdr FREED_PATTERN\<rparr>
         in buddy_free_pages s (virt_to_phys s hdr) (ah_order (mem s) hdr)))"

definition kfree :: "'a slab_state_scheme \<Rightarrow> u64 \<Rightarrow> 'a slab_state_scheme option" where
  "kfree s ptr =
     (if ptr = NULL then Some s
      else
        (let slab = slab_find_containing s ptr in
         if slab \<noteq> NULL then
           (if fo_magic (mem s) ptr = FREED_PATTERN then Some s else slab_free s slab ptr)
         else kfree_large s ptr))"

definition pmm_alloc_page :: "'a slab_state_scheme \<Rightarrow> u64 \<times> 'a slab_state_scheme" where
  "pmm_alloc_page s = buddy_alloc_page s"

definition pmm_free_page :: "'a slab_state_scheme \<Rightarrow> u64 \<Rightarrow> 'a slab_state_scheme option" where
  "pmm_free_page s phys = buddy_free_page s phys"

text \<open>\<^verbatim>\<open>kstrndup\<close> (\<^verbatim>\<open>string.c\<close>): the copy loop tests the first character of the source in every round.\<close>

fun strndup_loop :: "memory \<Rightarrow> u64 \<Rightarrow> u64 \<Rightarrow> nat \<Rightarrow> nat \<Rightarrow> memory \<times> nat" where
  "strndup_loop m tmp str i 0 = (m, i)"
| "strndup_loop m tmp str i (Suc n) =
     (if load8 m str \<noteq> 0
      then strndup_loop (store8 m (tmp + of_nat i) (load8 m (str + of_nat i))) tmp str (i + 1) n
      else (m, i))"

definition kstrndup :: "'a slab_state_scheme \<Rightarrow> u64 \<Rightarrow> u64 \<Rightarrow> (u64 \<times> 'a slab_state_scheme) option" where
  "kstrndup s str n =
     (if str = NULL then Some (NULL, s)
      else do {
        (tmp, s) \<leftarrow> kmalloc s (n + 1);
        if tmp = NULL then Some (NULL, s)
        else
          (let (m, i) = strndup_loop (mem s) tmp str 0 (unat n);
               m = store8 m (tmp + of_nat i) 0
           in Some (tmp, s\<lparr>mem := m\<rparr>))
      })"

end
