(* ===== verification/Pmm_Correct.thy ===== *)
theory Pmm_Correct
  imports Slab_Correct Pmm
begin

text \<open>
  Correctness of \<^verbatim>\<open>kmalloc\<close> and \<^verbatim>\<open>kfree\<close>: what the owner of an object may write, small allocations through
  the slab caches, and large ones from the buddy allocator with their header and end magic.
\<close>

section \<open>What the owner of an object may write\<close>

lemma header_not_in_object:
  assumes "contents s c L fr" "p \<in> all_slabs L" "q \<in> all_slabs L" "k < ccount s c" "i + 8 \<le> 48" "d < 8"
  shows "\<not> in_object p (csize s c) k (q + of_nat i + d)"
proof
  note sp = slab_in[OF assms(1,2)]
  assume "in_object p (csize s c) k (q + of_nat i + d)"
  then have "outside_headers (all_slabs L) (q + of_nat i + d)" by (rule object_outside_headers[OF sp(2) assms(2) sp(1) assms(4)])
  moreover have "unat (of_nat i + d :: u64) < 48" using assms(5,6) by (simp add: unat_word_ariths(1) unat_of_nat word_less_nat_alt)
  ultimately show False using assms(3) by (auto simp: outside_headers_def word_less_nat_alt add.assoc)
qed

lemma free_link_not_in_object:
  assumes "contents s c L fr" "p \<in> all_slabs L" "q \<in> all_slabs L" "k < ccount s c" "k \<notin> set (fr p)" "j \<in> set (fr q)" "d < 8"
  shows "\<not> in_object p (csize s c) k (q + of_nat (obj_off (csize s c) j + 8) + d)"
proof
  let ?z = "csize s c" let ?x = "q + of_nat (obj_off ?z j + 8) + d"
  assume in_p: "in_object p ?z k ?x"
  note sp = slab_in[OF assms(1,2)] and sq = slab_in[OF assms(1,3)]
  have j: "j < ccount s c" using sq(6) assms(6) by (auto simp: slab_ok_def)
  have "16 \<le> ?z" using sp(1) by (auto simp: layout_ok_def intro: dvd_imp_le)
  moreover have "unat (8 + d) < 16" using assms(7) by (simp add: unat_word_ariths(1) word_less_nat_alt)
  moreover have "?x - slab_obj q ?z j = 8 + d" by (simp add: slab_obj_def)
  ultimately have in_q: "in_object q ?z j ?x" unfolding in_object_def by (simp only:)
  have "p = q" using slabs_apart[OF sp(4) sq(4) object_in_slab(1)[OF sp(1) assms(4) in_p] object_in_slab(1)[OF sp(1) j in_q]] .
  then show False using objects_apart(1)[OF sp(1) assms(4) j _ in_p sp(4)] in_q assms(5,6) by auto
qed

lemma live_objects_apart:
  assumes wf: "alloc_wf s c L fr FL" and qj: "(q, j) \<in> live s c L fr" and pk: "(p, k) \<in> live s c L fr" and "(q, j) \<noteq> (p, k)"
    and x: "in_object q (csize s c) j x"
  shows "\<not> in_object p (csize s c) k x"
proof
  assume x': "in_object p (csize s c) k x"
  have co: "contents s c L fr" using wf by (simp add: alloc_wf_def slab_wf_def)
  have q: "q \<in> all_slabs L" "j < ccount s c" and p: "p \<in> all_slabs L" "k < ccount s c" using qj pk by (simp_all add: live_def)
  note sp = slab_in[OF co p(1)] and sq = slab_in[OF co q(1)]
  have "q = p" using slabs_apart[OF sq(4) sp(4) object_in_slab(1)[OF sp(1) q(2) x] object_in_slab(1)[OF sp(1) p(2) x']] .
  then show False using objects_apart(1)[OF sp(1) q(2) p(2) _ x sq(4)] x' assms(4) by auto
qed

text \<open>Writes to bytes of objects in use, and to bytes outside the heap, keep the invariant: the allocator keeps nothing
  there.\<close>

lemma alloc_wf_live_write:
  assumes wf: "alloc_wf s c L fr FL"
    and same: "\<And>x. \<not> outside_heap s L FL x \<Longrightarrow> (\<And>p k. (p, k) \<in> live s c L fr \<Longrightarrow> \<not> in_object p (csize s c) k x) \<Longrightarrow> m x = mem s x"
  shows "alloc_wf (s\<lparr>mem := m\<rparr>) c L fr FL"
proof -
  let ?t = "s\<lparr>mem := m\<rparr>" let ?z = "csize s c"
  have sw: "slab_wf s c L fr" and bw: "buddy_wf s FL" using wf by (simp_all add: alloc_wf_def)
  then have co: "contents s c L fr" by (simp add: slab_wf_def)
  have in_q: "\<not> outside_heap s L FL (q + of_nat i + d)" if "q \<in> all_slabs L" "i + 8 \<le> 8192" "d < 8" for q i d
  proof -
    have "unat (of_nat i + d :: u64) < 8192" using that(2,3) by (simp add: unat_word_ariths(1) unat_of_nat word_less_nat_alt)
    then have "in_slab q (q + of_nat i + d)" by (simp add: in_slab_def word_less_nat_alt add.assoc)
    then show ?thesis using that(1) by (auto simp: outside_heap_def)
  qed
  have hd: "fld m q i = fld (mem s) q i" if q: "q \<in> all_slabs L" "i + 8 \<le> 48" for q i
    unfolding fld_def
  proof (intro load64_cong same)
    fix d :: u64 assume d: "d < 8"
    show "\<not> outside_heap s L FL (q + of_nat i + d)" using q d by (intro in_q) simp_all
    show "\<not> in_object p ?z k (q + of_nat i + d)" if "(p, k) \<in> live s c L fr" for p k
      using header_not_in_object[OF co _ q(1) _ q(2) d, of p k] that by (simp add: live_def)
  qed
  have lk: "fld m q (obj_off ?z j + 8) = fld (mem s) q (obj_off ?z j + 8)" if q: "q \<in> all_slabs L" "j \<in> set (fr q)" for q j
    unfolding fld_def
  proof (intro load64_cong same)
    fix d :: u64 assume d: "d < 8"
    have "j < ccount s c" using slab_in(6)[OF co q(1)] q(2) by (auto simp: slab_ok_def)
    then show "\<not> outside_heap s L FL (q + of_nat (obj_off ?z j + 8) + d)"
      using obj_room[OF slab_in(1)[OF co q(1)], of j] q(1) d by (intro in_q) (simp_all add: slab_off_def)
    show "\<not> in_object p ?z k (q + of_nat (obj_off ?z j + 8) + d)" if "(p, k) \<in> live s c L fr" for p k
      using free_link_not_in_object[OF co _ q(1) _ _ q(2) d, of p k] that by (simp add: live_def)
  qed
  have "slab_lists s c L" using co by (simp add: contents_def)
  then have "slab_lists ?t c L" by (rule slab_lists_cong) (simp_all add: hd)
  moreover have "slab_ok m q ?z (ccount s c) (cache_ptr s c) (fr q)" if "q \<in> all_slabs L" for q
    by (rule slab_ok_cong[OF slab_in(6)[OF co that]]) (use hd[OF that] lk[OF that] in auto)
  moreover have "cache_ptr ?t c = cache_ptr s c" by (simp add: cache_ptr_def)
  ultimately have "slab_wf ?t c L fr" using sw by (simp add: slab_wf_def contents_def)
  moreover have "m x = mem s x" if "unat (x - hhdm_offset s) \<in> free_bytes s FL" for x
  proof (rule same)
    show n: "\<not> outside_heap s L FL x" using that by (simp add: outside_heap_def)
    show "\<not> in_object p ?z k x" if "(p, k) \<in> live s c L fr" for p k
    proof
      assume "in_object p ?z k x"
      then have "in_slab p x" "p \<in> all_slabs L" using that object_in_slab(1)[OF slab_in(1)[OF co]] by (auto simp: live_def)
      then show False using wf \<open>unat (x - hhdm_offset s) \<in> free_bytes s FL\<close> by (auto simp: alloc_wf_def)
    qed
  qed
  then have "buddy_wf ?t FL" by (intro buddy_wf_frame[OF bw])
  ultimately show ?thesis using wf by (simp add: alloc_wf_def)
qed

lemma alloc_wf_user_write:
  assumes wf: "alloc_wf s c L fr FL" and pk: "(p, k) \<in> live s c L fr"
    and same: "\<And>x. \<not> in_object p (csize s c) k x \<Longrightarrow> m x = mem s x"
  shows "alloc_wf (s\<lparr>mem := m\<rparr>) c L fr FL"
  by (rule alloc_wf_live_write[OF wf]) (use pk same in blast)

section \<open>Size classes\<close>

text \<open>The class that serves a request of up to 2048 bytes: the first that is large enough.\<close>

definition size_class :: "u64 \<Rightarrow> nat" where
  "size_class sz = length (takeWhile (\<lambda>z. z < sz) slab_sizes)"

lemma size_class:
  assumes "sz \<le> SLAB_THRESHOLD"
  shows "size_class sz < 8" "sz \<le> slab_sizes ! size_class sz" "slab_alloc_size s sz = slab_alloc s (size_class sz)"
proof -
  have "\<exists>z\<in>set slab_sizes. \<not> z < sz" using assms by (auto simp: SLAB_THRESHOLD_def slab_sizes_def not_less)
  then have "takeWhile (\<lambda>z. z < sz) slab_sizes \<noteq> slab_sizes" by (auto simp: takeWhile_eq_all_conv)
  moreover have "takeWhile (\<lambda>z. z < sz) slab_sizes @ dropWhile (\<lambda>z. z < sz) slab_sizes = slab_sizes" by simp
  ultimately have lt: "size_class sz < length slab_sizes"
    unfolding size_class_def by (metis append_self_conv length_append length_greater_0_conv less_add_same_cancel1)
  then show "size_class sz < 8" by (simp add: slab_sizes_def)
  have le: "\<not> slab_sizes ! size_class sz < sz" using nth_length_takeWhile[of "\<lambda>z. z < sz" slab_sizes] lt by (simp only: size_class_def not_False_eq_True simp_thms)
  then show "sz \<le> slab_sizes ! size_class sz" by (simp only: not_less)
  have before: "slab_sizes ! j < sz" if "j < size_class sz" for j
    using that takeWhile_nth[of j "\<lambda>z. z < sz" slab_sizes] nth_mem[of j "takeWhile (\<lambda>z. z < sz) slab_sizes"]
    by (auto simp: size_class_def dest: set_takeWhileD)
  have "find (\<lambda>i. sz \<le> slab_sizes ! i) [0..<length slab_sizes] = Some (size_class sz)"
    unfolding find_Some_iff using lt le before by (intro exI[of _ "size_class sz"]) (auto simp: not_less not_le)
  then show "slab_alloc_size s sz = slab_alloc s (size_class sz)" by (simp add: slab_alloc_size_def)
qed

section \<open>Small allocations\<close>

text \<open>Freeing an object in use through \<^verbatim>\<open>kfree\<close>: unless its first word is the pattern of a freed object, the
  object goes back to its slab.\<close>

lemma kfree_object:
  assumes wf: "alloc_wf s c L fr FL" and pk: "(p, k) \<in> live s c L fr" and "cache_ptr s c \<noteq> NULL"
    and o: "ptr = slab_obj p (csize s c) k"
  shows "kfree s ptr = (if load64 (mem s) ptr = FREED_PATTERN then Some s else slab_free s p ptr)"
proof -
  have p: "p \<in> all_slabs L" "k < ccount s c" using pk by (simp_all add: live_def)
  have co: "contents s c L fr" using wf by (simp add: alloc_wf_def slab_wf_def)
  note i = slab_in[OF co p(1)]
  have "slab_find_containing s ptr = p" unfolding o by (rule slab_find_containing_object[OF wf p assms(3)])
  moreover have "ptr \<noteq> NULL" unfolding o by (rule slab_obj_nonnull[OF i(4,1) p(2)])
  ultimately show ?thesis using i(5) by (simp add: kfree_def fo_magic_def)
qed

lemma kmalloc_small:
  assumes wf: "alloc_wf s c L fr FL" and sz: "c = size_class sz" "0 < sz" "sz \<le> SLAB_THRESHOLD"
    and free: "(\<exists>p\<in>all_slabs L. fr p \<noteq> []) \<or> (\<exists>i k a. (i, k, a) \<in> free_blocks s FL \<and> 0 < k)"
  obtains p k t L' fr' FL' where "kmalloc s sz = Some (slab_obj p (csize s c) k, t)" "(p, k) \<notin> live s c L fr" "(p, k) \<in> live t c L' fr'"
    "alloc_wf t c L' fr' FL'" "live t c L' fr' = insert (p, k) (live s c L fr)" "csize t c = csize s c" "ccount t c = ccount s c"
    "slab_caches_addr t = slab_caches_addr s"
    "\<And>q j x. (q, j) \<in> live s c L fr \<Longrightarrow> in_object q (csize s c) j x \<Longrightarrow> mem t x = mem s x" "heap_frame s L FL t L' FL'"
proof -
  obtain ptr t where r: "slab_alloc s c = Some (ptr, t)"
      "if ptr = NULL then t = s \<and> (\<forall>p\<in>all_slabs L. fr p = []) \<and> (\<forall>i k a. (i, k, a) \<in> free_blocks s FL \<longrightarrow> k = 0)
       else \<exists>L' fr' FL' p k. ptr = slab_obj p (csize s c) k \<and> k < ccount s c \<and> (p, k) \<notin> live s c L fr
         \<and> alloc_wf t c L' fr' FL' \<and> live t c L' fr' = insert (p, k) (live s c L fr) \<and> csize t c = csize s c
         \<and> ccount t c = ccount s c \<and> slab_caches_addr t = slab_caches_addr s
         \<and> (\<forall>(q, j)\<in>live s c L fr. \<forall>x. in_object q (csize s c) j x \<longrightarrow> mem t x = mem s x) \<and> heap_frame s L FL t L' FL'"
    using slab_alloc_post[OF wf] by blast
  have nz: "ptr \<noteq> NULL" using r(2) free by (metis less_numeral_extra(3))
  have "kmalloc s sz = Some (ptr, t)" using sz nz r(1) size_class(3)[OF sz(3), of s] by (simp add: kmalloc_def)
  then show ?thesis using r(2) nz that by (simp only: if_False) blast
qed

text \<open>C13: A request of at most 2048 bytes is served, on a well-formed heap with a free object of its size
  class or a free block of two pages, by an object that was not in use and is large enough. Whatever
  the caller then writes to the bytes it asked for, \<^verbatim>\<open>kfree\<close> returns: the heap is well formed again, the objects
  in use are those from before the request, and their bytes are as they were. The exception is an object
  whose first word is the pattern of freed memory: \<^verbatim>\<open>kfree\<close> takes it for a double free and leaves it
  allocated.\<close>

theorem kmalloc_kfree_roundtrip:
  assumes wf: "alloc_wf s c L fr FL" and sz: "c = size_class sz" "0 < sz" "sz \<le> SLAB_THRESHOLD"
    and z: "object_size (cache_at s c) = slab_sizes ! c" "cache_ptr s c \<noteq> NULL"
    and free: "(\<exists>p\<in>all_slabs L. fr p \<noteq> []) \<or> (\<exists>i k a. (i, k, a) \<in> free_blocks s FL \<and> 0 < k)"
  shows "\<exists>ptr t p k. kmalloc s sz = Some (ptr, t) \<and> ptr = slab_obj p (csize s c) k \<and> (p, k) \<notin> live s c L fr \<and> unat sz \<le> csize s c
    \<and> (\<forall>m. (\<forall>x. unat sz \<le> unat (x - ptr) \<longrightarrow> m x = mem t x) \<longrightarrow>
         (if load64 m ptr = FREED_PATTERN then kfree (t\<lparr>mem := m\<rparr>) ptr = Some (t\<lparr>mem := m\<rparr>)
          else \<exists>u L' fr' FL'. kfree (t\<lparr>mem := m\<rparr>) ptr = Some u \<and> alloc_wf u c L' fr' FL' \<and> live u c L' fr' = live s c L fr
            \<and> (\<forall>(q, j)\<in>live s c L fr. \<forall>x. in_object q (csize s c) j x \<longrightarrow> mem u x = mem s x)))"
proof -
  obtain p k t L' fr' FL' where t: "kmalloc s sz = Some (slab_obj p (csize s c) k, t)" "(p, k) \<notin> live s c L fr" "(p, k) \<in> live t c L' fr'"
      "alloc_wf t c L' fr' FL'" "live t c L' fr' = insert (p, k) (live s c L fr)" "csize t c = csize s c" "ccount t c = ccount s c"
      "slab_caches_addr t = slab_caches_addr s" "\<And>q j x. (q, j) \<in> live s c L fr \<Longrightarrow> in_object q (csize s c) j x \<Longrightarrow> mem t x = mem s x"
      "heap_frame s L FL t L' FL'"
    by (rule kmalloc_small[OF wf sz free]) (rule that)
  let ?o = "slab_obj p (csize s c) k"
  have big: "unat sz \<le> csize s c" using size_class(2)[OF sz(3)] sz(1) z(1) by (simp add: word_le_nat_alt)
  have "if load64 m ?o = FREED_PATTERN then kfree (t\<lparr>mem := m\<rparr>) ?o = Some (t\<lparr>mem := m\<rparr>)
      else \<exists>u L' fr' FL'. kfree (t\<lparr>mem := m\<rparr>) ?o = Some u \<and> alloc_wf u c L' fr' FL' \<and> live u c L' fr' = live s c L fr
        \<and> (\<forall>(q, j)\<in>live s c L fr. \<forall>x. in_object q (csize s c) j x \<longrightarrow> mem u x = mem s x)"
    if m: "\<And>x. unat sz \<le> unat (x - ?o) \<Longrightarrow> m x = mem t x" for m
  proof -
    let ?t = "t\<lparr>mem := m\<rparr>"
    have out: "m x = mem t x" if "\<not> in_object p (csize s c) k x" for x using that big by (intro m) (simp add: in_object_def)
    have tw: "alloc_wf ?t c L' fr' FL'" using out t(6) by (intro alloc_wf_user_write[OF t(4,3)]) simp
    have tl: "live ?t c L' fr' = live t c L' fr'" by (simp add: live_def)
    have "cache_ptr ?t c \<noteq> NULL" using z(2) t(8) by (simp add: cache_ptr_def)
    then have kf: "kfree ?t ?o = (if load64 m ?o = FREED_PATTERN then Some ?t else slab_free ?t p ?o)"
      using kfree_object[OF tw, of p k ?o] t(3,6) tl by simp
    obtain u L2 fr2 where u: "slab_free ?t p ?o = Some u" "alloc_wf u c L2 fr2 FL'" "live u c L2 fr2 = live t c L' fr' - {(p, k)}"
        "\<forall>(q, j)\<in>live t c L' fr' - {(p, k)}. \<forall>x. in_object q (csize s c) j x \<longrightarrow> mem u x = m x"
      using slab_free_live[OF tw, of p k] t(3,6) tl by auto
    have lv: "live t c L' fr' - {(p, k)} = live s c L fr" using t(2,5) by auto
    have "mem u x = mem s x" if q: "(q, j) \<in> live s c L fr" "in_object q (csize s c) j x" for q j x
    proof -
      have "\<not> in_object p (csize s c) k x" using live_objects_apart[OF t(4), of q j p k x] q t(2,3,5,6) by auto
      then show ?thesis using u(4) q out t(9)[OF q] unfolding lv by auto
    qed
    then show ?thesis using kf u(1-3) unfolding lv by (cases "load64 m ?o = FREED_PATTERN") (simp, simp only: if_False, blast)
  qed
  then show ?thesis using t(1,2) big by blast
qed

theorem kmalloc_kfree_roundtrip_witness:
  "\<exists>ptr t u L' fr' FL'. kmalloc sample_cache 2000 = Some (ptr, t) \<and> kfree (t\<lparr>mem := store64 (mem t) ptr 42\<rparr>) ptr = Some u
     \<and> alloc_wf u 7 L' fr' FL' \<and> live u 7 L' fr' = {}"
proof -
  have c: "7 = size_class 2000" by (simp add: size_class_def slab_sizes_def)
  have z: "object_size (cache_at sample_cache 7) = slab_sizes ! 7" "cache_ptr sample_cache 7 \<noteq> NULL"
    by (simp_all add: sample_cache_def sample_cache_arena_def push_free_block_def set_free_head_def set_arena_def
        slab_cache_init_def set_cache_def Let_def slab_sizes_def cache_ptr_def sizeof_slab_cache_def)
  have live: "live sample_cache 7 (\<lambda>_. []) (\<lambda>_. []) = {}" by (simp add: live_def all_slabs_def)
  have f: "(\<exists>p\<in>all_slabs (\<lambda>_. []). ([] :: nat list) \<noteq> []) \<or> (\<exists>i k a. (i, k, a) \<in> free_blocks sample_cache sample_free \<and> 0 < k)"
    using sample_cache_buddy(2) by (intro disjI2 exI[of _ 0] exI[of _ 2] exI[of _ "0x100000"]) simp
  obtain ptr t where r: "kmalloc sample_cache 2000 = Some (ptr, t)"
    "\<forall>m. (\<forall>x. unat (2000 :: u64) \<le> unat (x - ptr) \<longrightarrow> m x = mem t x) \<longrightarrow>
         (if load64 m ptr = FREED_PATTERN then kfree (t\<lparr>mem := m\<rparr>) ptr = Some (t\<lparr>mem := m\<rparr>)
          else \<exists>u L' fr' FL'. kfree (t\<lparr>mem := m\<rparr>) ptr = Some u \<and> alloc_wf u 7 L' fr' FL' \<and> live u 7 L' fr' = {}
            \<and> (\<forall>(q, j)\<in>{}. \<forall>x. in_object q (csize sample_cache 7) j x \<longrightarrow> mem u x = mem sample_cache x))"
    using kmalloc_kfree_roundtrip[OF sample_cache_wf c _ _ z f] unfolding live by (auto simp: SLAB_THRESHOLD_def)
  have "store64 (mem t) ptr 42 x = mem t x" if "unat (2000 :: u64) \<le> unat (x - ptr)" for x
    using that by (intro store64_outside) (simp add: word_less_nat_alt)
  moreover have "load64 (store64 (mem t) ptr 42) ptr \<noteq> FREED_PATTERN" by (simp add: FREED_PATTERN_def)
  ultimately show ?thesis using r(1) spec[OF r(2), of "store64 (mem t) ptr 42"] by auto
qed

section \<open>The order of a large allocation\<close>

lemma kmalloc_order_returns:
  assumes "unat total_size \<le> 2 ^ 63" "j \<le> 51" "j = 0 \<or> 2 ^ (11 + j) < unat total_size"
  shows "\<exists>k\<le>51. kmalloc_order (of_nat j) (2 ^ (12 + j)) total_size = Some (of_nat k) \<and> unat total_size \<le> 2 ^ (12 + k)
    \<and> (k = 0 \<or> 2 ^ (11 + k) < unat total_size)"
  using assms(2,3)
proof (induction "51 - j" arbitrary: j)
  case 0
  then have "j = 51" by simp
  moreover have "\<not> (2 ^ 63 :: u64) < total_size" using assms(1) by (simp add: word_less_nat_alt)
  ultimately show ?case using assms(1) 0 by (subst kmalloc_order.simps) (intro exI[of _ 51], simp)
next
  case (Suc n)
  show ?case
  proof (cases "(2 ^ (12 + j) :: u64) < total_size")
    case True
    have j: "j < 51" using Suc(2) by simp
    then have "unat (2 ^ (12 + j) :: u64) = 2 ^ (12 + j)" by (intro unat_pow2) simp
    then have "2 ^ (11 + Suc j) < unat total_size" using True by (simp add: word_less_nat_alt)
    moreover have "n = 51 - Suc j" "Suc j \<le> 51" using Suc(2) j by simp_all
    ultimately obtain k where
      "k \<le> 51" "kmalloc_order (of_nat (Suc j)) (2 ^ (12 + Suc j)) total_size = Some (of_nat k)"
      "unat total_size \<le> 2 ^ (12 + k)" "k = 0 \<or> 2 ^ (11 + k) < unat total_size"
      using Suc(1)[of "Suc j"] by blast
    moreover have "push_bit 1 (2 ^ (12 + j) :: u64) = 2 ^ (12 + Suc j)" by (simp add: push_bit_eq_mult power_add)
    ultimately show ?thesis using True by (subst kmalloc_order.simps) (intro exI[of _ k], simp add: add.commute)
  next
    case False
    then have "unat total_size \<le> 2 ^ (12 + j)" using Suc(3) unat_pow2[of "12 + j"] by (simp add: word_less_nat_alt not_less)
    then show ?thesis using False Suc(3,4) by (subst kmalloc_order.simps) (intro exI[of _ j], simp)
  qed
qed

lemma unat_push_bit_1: "unat (push_bit n 1 :: u64) \<le> 2 ^ 63"
proof (cases "n < 64")
  case True
  then have "unat (push_bit n 1 :: u64) = 2 ^ n" using unat_pow2[of n] by (simp add: push_bit_eq_mult)
  moreover have "(2 :: nat) ^ n \<le> 2 ^ 63" using True by (intro power_increasing) simp_all
  ultimately show ?thesis by simp
next
  case False
  then have "(push_bit n 1 :: u64) = 0" by (simp add: push_bit_eq_mult exp_eq_zero_iff)
  then show ?thesis by (simp only: unat_0)
qed

lemma kmalloc_order_bounded:
  "kmalloc_order order blk total_size = Some r \<Longrightarrow> \<forall>n. blk = push_bit n 1 \<longrightarrow> unat total_size \<le> 2 ^ 63"
proof (erule kmalloc_order.raw_induct[rotated], intro allI impI)
  fix f :: "u8 \<Rightarrow> u64 \<Rightarrow> u64 \<Rightarrow> u8 option" and order blk total_size r n
  assume IH: "\<And>order blk total_size r. f order blk total_size = Some r \<Longrightarrow> \<forall>n. blk = push_bit n 1 \<longrightarrow> unat total_size \<le> 2 ^ 63"
    and r: "(if blk < total_size then f (order + 1) (push_bit 1 blk) total_size else Some order) = Some r" and blk: "blk = push_bit n 1"
  show "unat total_size \<le> 2 ^ 63"
  proof (cases "blk < total_size")
    case True
    moreover have "push_bit 1 blk = push_bit (n + 1) 1" using blk by (simp add: push_bit_eq_mult)
    ultimately show ?thesis using IH[of "order + 1" "push_bit 1 blk" total_size r] r by (metis)
  next
    case False
    then have "unat total_size \<le> unat blk" by (simp add: not_less word_le_nat_alt)
    then show ?thesis using unat_push_bit_1[of n] blk by (simp only: order_trans)
  qed
qed

lemma kmalloc_order_spec:
  "case kmalloc_order 0 PAGE_FRAME_SIZE total_size of
     Some order \<Rightarrow> unat total_size \<le> 2 ^ 63 \<and> unat total_size \<le> 4096 * 2 ^ unat order
       \<and> (order = 0 \<or> 4096 * 2 ^ unat order < 2 * unat total_size)
   | None \<Rightarrow> 2 ^ 63 < unat total_size"
proof (cases "unat total_size \<le> 2 ^ 63")
  case True
  then obtain k where k: "k \<le> 51" "kmalloc_order 0 PAGE_FRAME_SIZE total_size = Some (of_nat k)" "unat total_size \<le> 2 ^ (12 + k)"
      "k = 0 \<or> 2 ^ (11 + k) < unat total_size"
    using kmalloc_order_returns[of total_size 0] by auto
  then have "unat (of_nat k :: u8) = k" by (simp add: unat_of_nat)
  then show ?thesis using k True by (auto simp: power_add)
next
  case False
  have "kmalloc_order 0 PAGE_FRAME_SIZE total_size \<noteq> Some r" for r
    using kmalloc_order_bounded[of 0 "push_bit 12 1" total_size r, THEN spec, of 12] False by auto
  then have "kmalloc_order 0 PAGE_FRAME_SIZE total_size = None" by blast
  then show ?thesis using False by simp
qed

section \<open>Large allocations\<close>

lemma load32_store8_disj: "disj_range a 1 b 4 \<Longrightarrow> load32 (store8 m a v) b = load32 m b"
  by (intro load_disj_intros)

text \<open>The header and the end magic that \<^verbatim>\<open>kmalloc\<close> writes around the data.\<close>

definition framed :: "memory \<Rightarrow> u64 \<Rightarrow> u64 \<Rightarrow> u8 \<Rightarrow> memory" where
  "framed m hdr sz order =
     (let m = store8 (store32 (store64 m hdr ALLOC_MAGIC) (hdr + 8) (ucast sz)) (hdr + 12) order
      in store64 m (hdr + 16 + ucast (ah_size m hdr)) ALLOC_MAGIC)"

lemma end_magic_apart:
  fixes off n :: u64
  assumes "unat sz < 2 ^ 32" "unat off + unat n \<le> 16" "0 < n"
  shows "disj_range (16 + sz) 8 off n"
proof -
  have e: "unat (16 + sz) = 16 + unat sz" using assms(1) by (intro unat_plus64[of 16 sz, simplified]) simp
  have "disj_range off n (16 + sz) 8" using assms e by (intro disj_range_ordered) simp_all
  then show ?thesis by (simp add: disj_range_sym)
qed

lemma framed_fields:
  assumes "unat sz < 2 ^ 32"
  shows "framed m hdr sz order = store64 (store8 (store32 (store64 m hdr ALLOC_MAGIC) (hdr + 8) (ucast sz)) (hdr + 12) order) (hdr + 16 + sz) ALLOC_MAGIC"
    "load64 (framed m hdr sz order) (hdr + 16 + sz) = ALLOC_MAGIC"
    "ah_magic (framed m hdr sz order) hdr = ALLOC_MAGIC" "ah_size (framed m hdr sz order) hdr = ucast sz" "ah_order (framed m hdr sz order) hdr = order"
proof -
  let ?m = "store8 (store32 (store64 m hdr ALLOC_MAGIC) (hdr + 8) (ucast sz)) (hdr + 12) order"
  have u: "ucast (ucast sz :: u32) = sz" using assms by (simp add: word_unat_eq_iff unsigned_ucast_eq unat_take_bit64)
  have r: "disj_range (hdr + 12) 1 hdr 8" "disj_range (hdr + 8) 4 hdr 8" "disj_range (hdr + 12) 1 (hdr + 8) 4"
    unfolding disj_range_same_base by code_simp+
  have f: "ah_magic ?m hdr = ALLOC_MAGIC" "ah_size ?m hdr = ucast sz" "ah_order ?m hdr = order"
    using r by (simp_all add: ah_magic_def ah_size_def ah_order_def load64_store8_disj load64_store32_disj load32_store8_disj)
  then show e: "framed m hdr sz order = store64 ?m (hdr + 16 + sz) ALLOC_MAGIC" by (simp add: framed_def Let_def u)
  show "load64 (framed m hdr sz order) (hdr + 16 + sz) = ALLOC_MAGIC" by (simp add: e)
  have a: "hdr + 16 + sz = hdr + (16 + sz)" by simp
  have d: "disj_range (hdr + (16 + sz)) 8 hdr 8" "disj_range (hdr + (16 + sz)) 8 (hdr + 8) 4" "disj_range (hdr + (16 + sz)) 8 (hdr + 12) 1"
    unfolding disj_range_same_base using assms by (intro end_magic_apart; simp)+
  show "ah_magic (framed m hdr sz order) hdr = ALLOC_MAGIC" "ah_size (framed m hdr sz order) hdr = ucast sz" "ah_order (framed m hdr sz order) hdr = order"
    unfolding e a using f d by (simp_all only: ah_magic_def ah_size_def ah_order_def load64_store64_disj load32_store64_disj load8_store64_disj)
qed

lemma kmalloc_large_cases:
  assumes wf: "buddy_wf s FL" and sz: "unat sz + 20 \<le> 2 ^ 63"
  obtains (none) "kmalloc_large s sz = Some (NULL, s)" "\<And>i k a. (i, k, a) \<in> free_blocks s FL \<Longrightarrow> k < 20 \<Longrightarrow> 4096 * 2 ^ k < unat sz + 20"
  | (block) order phys t0 where "unat order < 20" "unat sz + 20 \<le> 4096 * 2 ^ unat order" "order = 0 \<or> 4096 * 2 ^ unat order < 2 * (unat sz + 20)"
    "buddy_alloc_pages s order = (phys, t0)" "phys \<noteq> 0"
    "kmalloc_large s sz = Some (phys_to_virt t0 phys + 16, t0\<lparr>mem := framed (mem t0) (phys_to_virt t0 phys) sz order\<rparr>)"
proof -
  have tot: "unat (sizeof_alloc_header + sz + 4) = unat sz + 20" using sz by (simp add: sizeof_alloc_header_def unat_word_ariths(1))
  obtain order where o: "kmalloc_order 0 PAGE_FRAME_SIZE (sizeof_alloc_header + sz + 4) = Some order"
    and fit: "unat sz + 20 \<le> 4096 * 2 ^ unat order" and least: "order = 0 \<or> 4096 * 2 ^ unat order < 2 * (unat sz + 20)"
    using kmalloc_order_spec[of "sizeof_alloc_header + sz + 4"] sz unfolding tot by (auto split: option.splits)
  have small: "4096 * 2 ^ k < unat sz + 20" if "k < unat order" for k
  proof -
    have "(2 :: nat) ^ Suc k \<le> 2 ^ unat order" using that by (intro power_increasing) simp_all
    then show ?thesis using least that by auto
  qed
  obtain phys t0 where b: "buddy_alloc_pages s order = (phys, t0)" by (cases "buddy_alloc_pages s order")
  consider "20 \<le> unat order" | "unat order < 20" "phys = 0" | "unat order < 20" "phys \<noteq> 0" by linarith
  then show ?thesis
  proof cases
    case 1
    then have "kmalloc_large s sz = Some (NULL, s)" using o by (simp add: kmalloc_large_def Let_def MAX_SUPPORTED_ORDER_def)
    then show ?thesis using small 1 by (intro none) simp_all
  next
    case 2
    then have "t0 = s" "\<And>i k a. (i, k, a) \<in> free_blocks s FL \<Longrightarrow> k < unat order" using buddy_alloc_pages_post[OF wf _ b] by auto
    moreover from this have "kmalloc_large s sz = Some (NULL, s)" using o b 2 by (simp add: kmalloc_large_def Let_def MAX_SUPPORTED_ORDER_def)
    ultimately show ?thesis using small by (intro none) blast+
  next
    case 3
    then have "kmalloc_large s sz = Some (phys_to_virt t0 phys + 16, t0\<lparr>mem := framed (mem t0) (phys_to_virt t0 phys) sz order\<rparr>)"
      using o b by (simp add: kmalloc_large_def Let_def framed_def sizeof_alloc_header_def MAX_SUPPORTED_ORDER_def)
    then show ?thesis using 3 fit least b by (intro block[of order phys t0])
  qed
qed

lemma in_field:
  fixes off n x p :: u64
  assumes "x - (p + off) < n" "unat off + unat n < 2 ^ 64"
  shows "unat off \<le> unat (x - p) \<and> unat (x - p) < unat off + unat n"
proof -
  define d where "d = x - (p + off)"
  have "unat d < unat n" using assms(1) by (simp add: d_def word_less_nat_alt)
  moreover have "x - p = off + d" by (simp add: d_def)
  ultimately show ?thesis using assms(2) unat_plus64[of off d] by simp
qed

lemma framed_outside:
  assumes "unat sz < 2 ^ 32" "16 \<le> unat (x - hdr)" "unat (x - hdr) < 16 + unat sz \<or> unat sz + 24 \<le> unat (x - hdr)"
  shows "framed m hdr sz order x = m x"
proof -
  have e: "unat (16 + sz) = 16 + unat sz" using assms(1) by (intro unat_plus64[of 16 sz, simplified]) simp
  have "\<not> x - (hdr + (16 + sz)) < 8" using in_field[of x hdr "16 + sz" 8] e assms by auto
  moreover have "\<not> x - (hdr + 12) < 1" "\<not> x - (hdr + 8) < 4" "\<not> x - hdr < 8"
    using in_field[of x hdr 12 1] in_field[of x hdr 8 4] in_field[of x hdr 0 8] assms(2) by auto
  ultimately show ?thesis by (simp add: framed_fields(1)[OF assms(1)] add.assoc store64_outside store32_outside store8_outside)
qed

text \<open>The block behind a header, seen through the direct map.\<close>

lemma in_block:
  assumes "unat phys + n + unat h < 2 ^ 64" "unat (x - (phys + h)) < n" "n = 2 ^ (12 + k)"
  shows "unat (x - h) \<in> brange phys k"
proof -
  have e: "x - h = phys + (x - (phys + h))" by simp
  show ?thesis unfolding e brange_def using assms unat_plus64[of phys "x - (phys + h)"] by simp
qed

lemma large_not_in_slab:
  assumes "aligned 13 hdr" "load64 (mem s) hdr = ALLOC_MAGIC" "unat hdr + 16 < 2 ^ 64"
  shows "slab_find_containing s (hdr + 16) = NULL"
proof -
  have u: "unat (hdr + 16) = unat hdr + 16" using assms(3) unat_plus64[of hdr 16] by simp
  have "(unat hdr + 16) div 8192 * 8192 = unat hdr" using assms(1) by (auto simp: aligned_def dvd_def)
  then have "unat ((hdr + 16) AND NOT (mask 13)) = unat hdr" unfolding unat_and_not_mask u by simp
  moreover have m: "(2 * PAGE_FRAME_SIZE - 1 :: u64) = mask 13" by (simp add: mask_eq_exp_minus_1)
  ultimately have "(hdr + 16) AND NOT (2 * PAGE_FRAME_SIZE - 1) = hdr" unfolding m by (simp only: word_unat_eq_iff)
  then show ?thesis using assms(2) by (simp add: slab_find_containing_def Let_def sl_magic_def ALLOC_MAGIC_def SLAB_MAGIC_def)
qed

text \<open>Writes to the data leave the header and the end magic alone.\<close>

lemma framed_data_write:
  assumes sz: "unat sz < 2 ^ 32" and m: "\<And>x. unat sz \<le> unat (x - (hdr + 16)) \<Longrightarrow> m x = framed m0 hdr sz order x"
  shows "ah_magic m hdr = ALLOC_MAGIC" "ah_size m hdr = ucast sz" "ah_order m hdr = order" "load64 m (hdr + 16 + sz) = ALLOC_MAGIC"
    "\<And>x. unat sz + 24 \<le> unat (x - hdr) \<Longrightarrow> m x = m0 x"
proof -
  have mm: "m x = framed m0 hdr sz order x" if "unat (x - hdr) < 16 \<or> 16 + unat sz \<le> unat (x - hdr)" for x
  proof (rule m)
    define d where "d = x - hdr"
    have e: "x - (hdr + 16) = d - 16" by (simp add: d_def)
    have "unat d < 16 \<or> 16 + unat sz \<le> unat d" using that by (simp add: d_def)
    then show "unat sz \<le> unat (x - (hdr + 16))" unfolding e unat_sub_if_size word_size word_le_nat_alt using sz by auto
  qed
  have hd: "m (hdr + off + k) = framed m0 hdr sz order (hdr + off + k)" if "k < n" "unat off + unat n \<le> 16" for off k n
    using that in_field[of "hdr + off + k" hdr off n] by (intro mm disjI1) simp
  have u16: "unat (16 + sz) = 16 + unat sz" using sz by (intro unat_plus64[of 16 sz, simplified]) simp
  have tl: "m (hdr + 16 + sz + k) = framed m0 hdr sz order (hdr + 16 + sz + k)" if "k < 8" for k
    using that in_field[of "hdr + (16 + sz) + k" hdr "16 + sz" 8] u16 sz by (intro mm disjI2) (simp add: add.assoc)
  note f = framed_fields[OF sz, of m0 hdr order]
  show "ah_magic m hdr = ALLOC_MAGIC" unfolding f(3)[symmetric] ah_magic_def by (intro load64_cong) (use hd[of _ 8 0] in simp)
  show "ah_size m hdr = ucast sz" unfolding f(4)[symmetric] ah_size_def by (intro load32_cong) (use hd[of _ 4 8] in simp)
  show "ah_order m hdr = order" using f(5) hd[of 0 1 12] by (simp add: ah_order_def load8_def)
  show "load64 m (hdr + 16 + sz) = ALLOC_MAGIC" unfolding f(2)[symmetric] by (intro load64_cong tl)
  show "m x = m0 x" if "unat sz + 24 \<le> unat (x - hdr)" for x using that mm[of x] framed_outside[OF sz, of x hdr m0 order] by simp
qed

text \<open>The header of a block that was just allocated.\<close>

lemma block_header:
  assumes wf: "buddy_wf s FL" and al: "buddy_alloc_pages s order = (phys, t0)" "phys \<noteq> 0" "unat order \<le> 20" and hdr: "hdr = phys_to_virt t0 phys"
  shows "hdr = phys + hhdm_offset s" "unat phys + 2 ^ (12 + unat order) + unat (hhdm_offset s) < 2 ^ 64"
    "unat hdr = unat phys + unat (hhdm_offset s)" "unat hdr + 16 < 2 ^ 64" "hdr + 16 \<noteq> NULL"
    "alloc_post s FL (unat order) phys t0" "hhdm_offset t0 = hhdm_offset s" "aligned (12 + unat order) phys" "brange phys (unat order) \<subseteq> free_bytes s FL"
proof -
  show post: "alloc_post s FL (unat order) phys t0" using buddy_alloc_pages_post[OF wf al(3,1)] al(2) by simp
  note blk = alloc_post_block[OF wf post]
  show "aligned (12 + unat order) phys" "brange phys (unat order) \<subseteq> free_bytes s FL" by (fact blk)+
  obtain i where i: "i < unat (buddy_arena_counter s)" "block_ok s i (unat order) phys" using blk(1) by blast
  show hh: "hhdm_offset t0 = hhdm_offset s" using post by (simp add: alloc_post_def same_shape_def)
  show h: "hdr = phys + hhdm_offset s" by (simp add: hdr phys_to_virt_def hh)
  show room: "unat phys + 2 ^ (12 + unat order) + unat (hhdm_offset s) < 2 ^ 64"
    using i wf by (auto simp: buddy_wf_def arenas_wf_def arena_ok_def block_ok_def)
  show uh: "unat hdr = unat phys + unat (hhdm_offset s)" unfolding h using room unat_plus64[of phys "hhdm_offset s"] by simp
  have "(2 :: nat) ^ 12 \<le> 2 ^ (12 + unat order)" by (intro power_increasing) simp_all
  moreover have "(4096 :: nat) = 2 ^ 12" by simp
  ultimately have "4096 \<le> (2 :: nat) ^ (12 + unat order)" by (simp only:)
  then show top: "unat hdr + 16 < 2 ^ 64" using uh room by linarith
  show "hdr + 16 \<noteq> NULL"
  proof
    assume "hdr + 16 = NULL"
    then show False using unat_plus64[of hdr 16] top by simp
  qed
qed

lemma kfree_large_block:
  assumes wf: "buddy_wf s FL" and al: "buddy_alloc_pages s order = (phys, t0)" "phys \<noteq> 0" "unat order \<le> 20" "0 < order"
    and h: "aligned 13 (hhdm_offset s)" and fit: "unat sz + 24 \<le> 4096 * 2 ^ unat order"
    and m: "\<And>x. unat sz \<le> unat (x - (phys_to_virt t0 phys + 16)) \<Longrightarrow> m x = framed (mem t0) (phys_to_virt t0 phys) sz order x"
  shows "\<exists>u FL'. kfree (t0\<lparr>mem := m\<rparr>) (phys_to_virt t0 phys + 16) = Some u \<and> buddy_wf u FL' \<and> free_bytes u FL' = free_bytes s FL"
proof -
  let ?t = "t0\<lparr>mem := m\<rparr>"
  define hdr where "hdr = phys_to_virt t0 phys"
  note bh = block_header[OF wf al(1-3) hdr_def]
  obtain i where i: "i < unat (buddy_arena_counter s)" "block_ok s i (unat order) phys" using alloc_post_block(1)[OF wf bh(6)] by blast
  obtain FL' where FL': "buddy_wf t0 FL'" "free_bytes t0 FL' = free_bytes s FL - brange phys (unat order)" and sh: "same_shape s t0"
    using bh(6) by (auto simp: alloc_post_def)
  have "(2 :: nat) ^ unat order \<le> 2 ^ 20" using al(3) by (intro power_increasing) simp_all
  then have sz: "unat sz < 2 ^ 32" using fit by simp
  note d = framed_data_write[OF sz m[folded hdr_def]]
  have "13 \<le> 12 + unat order" using al(4) by (simp add: word_less_nat_alt)
  from aligned_le[OF bh(8) this] have "aligned 13 hdr" unfolding bh(1) using h bh(3) unat_lt64[of hdr] by (intro aligned_add) simp_all
  moreover have "load64 (mem ?t) hdr = ALLOC_MAGIC" using d(1) by (simp add: ah_magic_def)
  ultimately have "slab_find_containing ?t (hdr + 16) = NULL" using bh(4) by (intro large_not_in_slab)
  moreover have u: "ucast (ucast sz :: u32) = sz" using sz by (simp add: word_unat_eq_iff unsigned_ucast_eq unat_take_bit64)
  ultimately have k: "kfree ?t (hdr + 16) = buddy_free_pages (t0\<lparr>mem := store64 m hdr FREED_PATTERN\<rparr>) phys order" (is "_ = buddy_free_pages ?f _ _")
  proof -
    have "disj_range hdr 8 (hdr + 12) 1" unfolding disj_range_same_base by code_simp
    then have o: "ah_order (store64 m hdr FREED_PATTERN) hdr = order" using d(3) by (simp add: ah_order_def load8_store64_disj)
    have "virt_to_phys ?f hdr = phys" by (simp add: virt_to_phys_def bh(1,7))
    moreover assume "slab_find_containing ?t (hdr + 16) = NULL"
    ultimately show ?thesis
      using bh(5) d(1,2,4) u o by (simp add: kfree_def kfree_large_def Let_def sizeof_alloc_header_def ALLOC_MAGIC_def FREED_PATTERN_def)
  qed
  have fr: "store64 m hdr FREED_PATTERN x = mem t0 x" if x: "unat (x - hhdm_offset t0) \<in> free_bytes t0 FL'" for x
  proof -
    have "\<not> unat (x - hdr) < 2 ^ (12 + unat order)" using in_block[OF bh(2) _ refl, of x] x FL'(2) unfolding bh(1,7) by blast
    then have "unat sz + 24 \<le> unat (x - hdr)" using fit by (simp add: power_add)
    then show ?thesis using d(5)[of x] by (simp add: store64_outside word_less_nat_alt)
  qed
  have wf': "buddy_wf ?f FL'" by (rule buddy_wf_frame[OF FL'(1) fr])
  have "\<exists>u. buddy_free_pages ?f phys order = Some u \<and> free_post ?f FL' (unat order) phys u"
    using i FL'(2) same_shape_simps[OF sh] by (intro buddy_free_pages_post[OF wf', of i]) (auto simp: block_ok_def)
  moreover have "free_bytes ?f FL' \<union> brange phys (unat order) = free_bytes s FL" using FL'(2) bh(9) by auto
  ultimately show ?thesis unfolding hdr_def[symmetric] k free_post_def by metis
qed

text \<open>What a large allocation writes: free memory, and up to four bytes behind its block.\<close>

lemma framed_footprint:
  assumes wf: "buddy_wf s FL" and al: "buddy_alloc_pages s order = (phys, t0)" "phys \<noteq> 0" "unat order \<le> 20"
    and sz: "unat sz < 2 ^ 32" and hdr: "hdr = phys_to_virt t0 phys" and x: "framed (mem t0) hdr sz order x \<noteq> mem s x"
  shows "unat (x - hhdm_offset s) \<in> free_bytes s FL \<or> (4096 * 2 ^ unat order \<le> unat (x - hdr) \<and> unat (x - hdr) < unat sz + 24)"
proof (rule ccontr)
  assume n: "\<not> ?thesis"
  note bh = block_header[OF wf al hdr]
  have wo: "writes_only s t0 (free_bytes s FL)" using bh(6) by (simp add: alloc_post_def)
  have "\<not> unat (x - hdr) < 2 ^ (12 + unat order)" using in_block[OF bh(2) _ refl, of x] n bh(9) unfolding bh(1) by blast
  then have far: "4096 * 2 ^ unat order \<le> unat (x - hdr)" by (simp add: power_add)
  moreover have "(1 :: nat) \<le> 2 ^ unat order" by simp
  ultimately have "16 \<le> unat (x - hdr)" "unat sz + 24 \<le> unat (x - hdr)" using n by linarith+
  then have "framed (mem t0) hdr sz order x = mem t0 x" by (intro framed_outside[OF sz]) simp_all
  moreover have "mem t0 x = mem s x" using wo n by (simp add: writes_only_def)
  ultimately show False using x by simp
qed

text \<open>C26: A request of more than 2048 and at most \<open>2^63 - 20\<close> bytes always returns (for a larger one the loop that looks for the
  order does not end). NULL means that nothing
  changed and that no free block below order 20 holds the data with 20 bytes of overhead. Otherwise the data
  lies in a block that was free, the end magic follows the data, and all that is written is free memory and, where the block
  has less than 24 bytes of overhead (the code reserves four bytes for an end magic of eight), the bytes of the end magic
  that run over the end of the block. When the end magic fits and the request has more than 4076 bytes, so that the block has two pages or
  more, \<^verbatim>\<open>kfree\<close> gives the block back, whatever the caller wrote to its data, and the free memory is what it was. Blocks of one page are
  not covered by this last part: \<^verbatim>\<open>kfree\<close> can take one for an object of a slab.\<close>

theorem kmalloc_large_correct:
  assumes wf: "buddy_wf s FL" and sz: "SLAB_THRESHOLD < sz" "unat sz + 20 \<le> 2 ^ 63" and h: "aligned 13 (hhdm_offset s)"
  shows "\<exists>ptr t. kmalloc s sz = Some (ptr, t) \<and>
    (if ptr = NULL then t = s \<and> (\<forall>i k a. (i, k, a) \<in> free_blocks s FL \<longrightarrow> k < 20 \<longrightarrow> 4096 * 2 ^ k < unat sz + 20)
     else let hdr = ptr - 16; n = 4096 * 2 ^ unat (ah_order (mem t) hdr) in
       unat sz + 20 \<le> n \<and> load64 (mem t) (ptr + sz) = ALLOC_MAGIC
       \<and> (\<forall>x. mem t x \<noteq> mem s x \<longrightarrow> unat (x - hhdm_offset s) \<in> free_bytes s FL \<or> (n \<le> unat (x - hdr) \<and> unat (x - hdr) < unat sz + 24))
       \<and> (4076 < unat sz \<and> unat sz + 24 \<le> n \<longrightarrow> (\<forall>m. (\<forall>x. unat sz \<le> unat (x - ptr) \<longrightarrow> m x = mem t x) \<longrightarrow>
            (\<exists>u FL'. kfree (t\<lparr>mem := m\<rparr>) ptr = Some u \<and> buddy_wf u FL' \<and> free_bytes u FL' = free_bytes s FL))))"
proof -
  have k: "kmalloc s sz = kmalloc_large s sz" using sz(1) by (auto simp: kmalloc_def)
  from wf sz(2) show ?thesis
  proof (cases rule: kmalloc_large_cases)
    case none
    then show ?thesis unfolding k by auto
  next
    case (block order phys t0)
    define hdr where "hdr = phys_to_virt t0 phys"
    let ?m = "framed (mem t0) hdr sz order" let ?t = "t0\<lparr>mem := ?m\<rparr>"
    have "(2 :: nat) ^ unat order \<le> 2 ^ 20" using block(1) by (intro power_increasing) simp_all
    then have s32: "unat sz < 2 ^ 32" using block(2) by simp
    note f = framed_fields[OF s32, of "mem t0" hdr order]
    have foot: "unat (x - hhdm_offset s) \<in> free_bytes s FL \<or> (4096 * 2 ^ unat order \<le> unat (x - hdr) \<and> unat (x - hdr) < unat sz + 24)"
      if "?m x \<noteq> mem s x" for x using framed_footprint[OF wf block(4,5) _ s32 hdr_def that] block(1) by simp
    have free: "\<exists>u FL'. kfree (?t\<lparr>mem := m\<rparr>) (hdr + 16) = Some u \<and> buddy_wf u FL' \<and> free_bytes u FL' = free_bytes s FL"
      if "4076 < unat sz" "unat sz + 24 \<le> 4096 * 2 ^ unat order" and m: "\<And>x. unat sz \<le> unat (x - (hdr + 16)) \<Longrightarrow> m x = ?m x" for m
    proof -
      have "order \<noteq> 0" using block(2) that(1) by auto
      then have "0 < order" by (simp add: word_neq_0_conv)
      from kfree_large_block[OF wf block(4,5) _ this h that(2), folded hdr_def, of m] m block(1) show ?thesis by simp
    qed
    have "hdr + 16 \<noteq> NULL" using block_header(5)[OF wf block(4,5) _ hdr_def] block(1) by simp
    then show ?thesis
      unfolding k using block(2,6) f(2,5) foot free unfolding hdr_def[symmetric]
      by (intro exI[of _ "hdr + 16"] exI[of _ ?t]) (simp add: Let_def)
  qed
qed

theorem kmalloc_large_correct_witness:
  "\<exists>ptr t u FL'. kmalloc sample_cache 5000 = Some (ptr, t) \<and> ptr \<noteq> NULL \<and> load64 (mem t) (ptr + 5000) = ALLOC_MAGIC
     \<and> kfree t ptr = Some u \<and> buddy_wf u FL' \<and> free_bytes u FL' = free_bytes sample_cache sample_free"
proof -
  have h: "aligned 13 (hhdm_offset sample_cache)" using sample_cache_wf by (simp add: alloc_wf_def)
  have sz: "SLAB_THRESHOLD < 5000" "unat (5000 :: u64) + 20 \<le> 2 ^ 63" by (simp_all add: SLAB_THRESHOLD_def)
  obtain ptr t where r: "kmalloc sample_cache 5000 = Some (ptr, t)"
    and nl: "ptr = NULL \<longrightarrow> (\<forall>i k a. (i, k, a) \<in> free_blocks sample_cache sample_free \<longrightarrow> k < 20 \<longrightarrow> 4096 * 2 ^ k < unat (5000 :: u64) + 20)"
    and p: "ptr \<noteq> NULL \<longrightarrow> unat (5000 :: u64) + 20 \<le> 4096 * 2 ^ unat (ah_order (mem t) (ptr - 16)) \<and> load64 (mem t) (ptr + 5000) = ALLOC_MAGIC
      \<and> (4076 < unat (5000 :: u64) \<and> unat (5000 :: u64) + 24 \<le> 4096 * 2 ^ unat (ah_order (mem t) (ptr - 16)) \<longrightarrow>
        (\<forall>m. (\<forall>x. unat (5000 :: u64) \<le> unat (x - ptr) \<longrightarrow> m x = mem t x) \<longrightarrow>
            (\<exists>u FL'. kfree (t\<lparr>mem := m\<rparr>) ptr = Some u \<and> buddy_wf u FL' \<and> free_bytes u FL' = free_bytes sample_cache sample_free)))"
    using kmalloc_large_correct[OF sample_cache_buddy(1) sz h] unfolding Let_def if_bool_eq_conj by blast
  have nz: "ptr \<noteq> NULL" using nl sample_cache_buddy(2) by fastforce
  define e where "e = unat (ah_order (mem t) (ptr - 16))"
  have q: "5020 \<le> (4096 * 2 ^ e :: nat)" "load64 (mem t) (ptr + 5000) = ALLOC_MAGIC"
    "5024 \<le> (4096 * 2 ^ e :: nat) \<longrightarrow> (\<exists>u FL'. kfree t ptr = Some u \<and> buddy_wf u FL' \<and> free_bytes u FL' = free_bytes sample_cache sample_free)"
  proof -
    have id: "t\<lparr>mem := mem t\<rparr> = t" by simp
    show "5020 \<le> (4096 * 2 ^ e :: nat)" "load64 (mem t) (ptr + 5000) = ALLOC_MAGIC" using p nz by (auto simp: e_def)
    show "5024 \<le> (4096 * 2 ^ e :: nat) \<longrightarrow> (\<exists>u FL'. kfree t ptr = Some u \<and> buddy_wf u FL' \<and> free_bytes u FL' = free_bytes sample_cache sample_free)"
    proof
      assume "5024 \<le> (4096 * 2 ^ e :: nat)"
      then have "\<forall>m. (\<forall>x. unat (5000 :: u64) \<le> unat (x - ptr) \<longrightarrow> m x = mem t x) \<longrightarrow>
            (\<exists>u FL'. kfree (t\<lparr>mem := m\<rparr>) ptr = Some u \<and> buddy_wf u FL' \<and> free_bytes u FL' = free_bytes sample_cache sample_free)"
        using p nz by (simp add: e_def)
      from spec[OF this, of "mem t"] show "\<exists>u FL'. kfree t ptr = Some u \<and> buddy_wf u FL' \<and> free_bytes u FL' = free_bytes sample_cache sample_free"
        unfolding id by blast
    qed
  qed
  have "e \<noteq> 0" using q(1) by (cases e) simp_all
  then have "(2 :: nat) ^ 1 \<le> 2 ^ e" by (intro power_increasing) simp_all
  then show ?thesis using q(2,3) r nz by auto
qed

end
