(* ===== verification/Kernel_Heap.thy ===== *)
theory Kernel_Heap
  imports Pmm_Correct
begin

text \<open>
  The eight slab caches on one buddy allocator. \<open>heap_wf\<close> joins the invariants of all caches, whose slabs are
  disjoint; an operation on one cache, a page allocation, and a write of an owner keep it, and none of them
  touches an object in use of any cache or memory that the allocators have given away.
\<close>

section \<open>What an operation on one cache leaves alone\<close>

definition other_caches :: "'a slab_state_scheme \<Rightarrow> 'a slab_state_scheme \<Rightarrow> nat \<Rightarrow> bool" where
  "other_caches s t c \<longleftrightarrow> same_shape s t \<and> length (slab_caches t) = length (slab_caches s)
     \<and> slab_caches_addr t = slab_caches_addr s \<and> slab_state.more t = slab_state.more s \<and> (\<forall>d. d \<noteq> c \<longrightarrow> cache_at t d = cache_at s d)"

named_theorems oc_intros "what a step on one cache leaves alone"

lemma other_caches_trans: "other_caches s t c \<Longrightarrow> other_caches t u c \<Longrightarrow> other_caches s u c"
  by (auto simp: other_caches_def intro: same_shape_trans)

lemma oc_refl [oc_intros]: "other_caches s s c"
  by (simp add: other_caches_def)

lemma oc_store [oc_intros]: "other_caches s t c \<Longrightarrow> other_caches s (store t a v) c"
  by (erule other_caches_trans) (simp add: other_caches_def store_def)

lemma oc_mem [oc_intros]: "other_caches s t c \<Longrightarrow> other_caches s (t\<lparr>mem := m\<rparr>) c"
  by (erule other_caches_trans) (simp add: other_caches_def)

lemma oc_set_cache [oc_intros]: "other_caches s t c \<Longrightarrow> other_caches s (set_cache t c x) c"
  by (erule other_caches_trans) (simp add: other_caches_def set_cache_def same_shape_def)

lemma oc_push_slab [oc_intros]: "other_caches s t c \<Longrightarrow> other_caches s (push_slab t p c w) c"
  unfolding push_slab_def Let_def by (intro oc_intros)

lemma oc_link_objects [oc_intros]: "other_caches s t c \<Longrightarrow> other_caches s (link_objects t p o' z is) c"
  by (induction "is" arbitrary: t) (simp_all add: Let_def oc_store)

lemma oc_remove_from: "remove_from s p c w = Some (b, t) \<Longrightarrow> other_caches s t c"
  unfolding remove_from_def
  by (auto simp: Let_def split: bind_splits option.splits intro!: oc_intros elim!: sl_slot.elims)
     (metis oc_refl oc_set_cache oc_store set_sl_slot.elims)+

lemma oc_remove: "slab_remove_from_list t p c = Some u \<Longrightarrow> other_caches s t c \<Longrightarrow> other_caches s u c"
  unfolding slab_remove_from_list_def
  by (auto split: bind_splits if_splits dest!: oc_remove_from) (meson other_caches_trans)+

lemma oc_slab_alloc:
  assumes "buddy_wf s FL" "slab_alloc s c = Some (ptr, t)"
  shows "other_caches s t c"
proof -
  have cr: "other_caches s (snd (slab_create s c)) c"
  proof -
    obtain phys u where u: "buddy_alloc_pages s 1 = (phys, u)" by (cases "buddy_alloc_pages s 1")
    have "same_shape s u" using buddy_alloc_pages_post[OF assms(1) _ u] by (cases "phys = 0") (simp_all add: alloc_post_def)
    then have "other_caches s u c" using same_ext_alloc[OF u] by (auto simp: other_caches_def same_ext_def)
    then show ?thesis using u by (auto simp: slab_create_def Let_def intro!: oc_intros)
  qed
  then show ?thesis using assms(2)
    by (auto simp: slab_alloc_def Let_def split: if_splits bind_splits prod.splits intro!: oc_intros elim!: oc_remove)
qed

lemma oc_slab_free:
  assumes "slab_free s p ptr = Some t" "cache_index s (sl_cache (mem s) p) = c"
  shows "other_caches s t c"
  using assms by (auto simp: slab_free_def Let_def split: if_splits bind_splits intro!: oc_intros elim!: oc_remove)

section \<open>The heap\<close>

definition heap_wf :: "'a slab_state_scheme \<Rightarrow> (nat \<Rightarrow> slab_map) \<Rightarrow> (nat \<Rightarrow> u64 \<Rightarrow> nat list) \<Rightarrow> free_map \<Rightarrow> bool" where
  "heap_wf s L fr FL \<longleftrightarrow>
     (\<forall>c<8. alloc_wf s c (L c) (fr c) FL \<and> object_size (cache_at s c) = slab_sizes ! c \<and> cache_ptr s c \<noteq> NULL)
     \<and> (\<forall>c<8. \<forall>d<8. c \<noteq> d \<longrightarrow> all_slabs (L c) \<inter> all_slabs (L d) = {})"

definition unmanaged :: "'a slab_state_scheme \<Rightarrow> (nat \<Rightarrow> slab_map) \<Rightarrow> free_map \<Rightarrow> u64 \<Rightarrow> bool" where
  "unmanaged s L FL x \<longleftrightarrow> (\<forall>c<8. \<forall>p\<in>all_slabs (L c). \<not> in_slab p x) \<and> unat (x - hhdm_offset s) \<notin> free_bytes s FL"

definition heap_live :: "'a slab_state_scheme \<Rightarrow> (nat \<Rightarrow> slab_map) \<Rightarrow> (nat \<Rightarrow> u64 \<Rightarrow> nat list) \<Rightarrow> (nat \<times> u64 \<times> nat) set" where
  "heap_live s L fr = {(c, p, k). c < 8 \<and> (p, k) \<in> live s c (L c) (fr c)}"

lemma heap_wf_cache:
  assumes "heap_wf s L fr FL" "c < 8"
  shows "alloc_wf s c (L c) (fr c) FL" "object_size (cache_at s c) = slab_sizes ! c" "cache_ptr s c \<noteq> NULL"
    "contents s c (L c) (fr c)" "buddy_wf s FL" "aligned 13 (hhdm_offset s)"
  using assms by (auto simp: heap_wf_def alloc_wf_def slab_wf_def)

lemma heap_slab:
  assumes "heap_wf s L fr FL" "c < 8" "p \<in> all_slabs (L c)"
  shows "aligned 13 p" "in_slab p x \<Longrightarrow> unat (x - hhdm_offset s) \<notin> free_bytes s FL"
  using heap_wf_cache[OF assms(1,2)] assms(3) slab_in(4) by (auto simp: alloc_wf_def)

lemma slab_cache_unique:
  assumes wf: "heap_wf s L fr FL" and "c < 8" "d < 8" "p \<in> all_slabs (L c)" "q \<in> all_slabs (L d)" "in_slab p x" "in_slab q x"
  shows "c = d" "p = q"
proof -
  show e: "p = q" by (rule slabs_apart[OF heap_slab(1)[OF wf assms(2,4)] heap_slab(1)[OF wf assms(3,5)] assms(6,7)])
  have "all_slabs (L c) \<inter> all_slabs (L d) = {}" if "c \<noteq> d" using wf assms(2,3) that unfolding heap_wf_def by blast
  then show "c = d" using assms(4,5) e by blast
qed

lemma other_slab_outside:
  assumes wf: "heap_wf s L fr FL" and "c < 8" "d < 8" "d \<noteq> c" "p \<in> all_slabs (L d)" "in_slab p x"
  shows "outside_heap s (L c) FL x"
  using slab_cache_unique(1)[OF wf assms(2,3) _ assms(5) _ assms(6)] heap_slab(2)[OF wf assms(3,5,6)] assms(4)
  by (auto simp: outside_heap_def)

text \<open>A step on one cache that is right for that cache is right for the heap.\<close>

lemma heap_step_cache:
  assumes wf: "heap_wf s L fr FL" and c: "c < 8" and t: "alloc_wf t c L' fr' FL'" and fra: "heap_frame s (L c) FL t L' FL'"
    and oc: "other_caches s t c" and z: "csize t c = csize s c"
  shows "heap_wf t (L(c := L')) (fr(c := fr')) FL'"
    "\<And>d p x. d < 8 \<Longrightarrow> d \<noteq> c \<Longrightarrow> p \<in> all_slabs (L d) \<Longrightarrow> in_slab p x \<Longrightarrow> mem t x = mem s x"
    "\<And>x. unmanaged s L FL x \<Longrightarrow> unmanaged t (L(c := L')) FL' x \<and> mem t x = mem s x"
proof -
  have f: "outside_heap t L' FL' x \<and> mem t x = mem s x" if "outside_heap s (L c) FL x" for x
    using fra that by (simp add: heap_frame_def)
  have h: "hhdm_offset t = hhdm_offset s" using oc by (simp add: other_caches_def same_shape_def)
  have o: "outside_heap t L' FL' x \<and> mem t x = mem s x" if "d < 8" "d \<noteq> c" "p \<in> all_slabs (L d)" "in_slab p x" for d p x
    by (rule f[OF other_slab_outside[OF wf c that]])
  then show other: "mem t x = mem s x" if "d < 8" "d \<noteq> c" "p \<in> all_slabs (L d)" "in_slab p x" for d p x using that by blast
  have bt: "buddy_wf t FL'" using t by (simp add: alloc_wf_def)
  have self: "in_slab p p" for p by (simp add: in_slab_def)
  have disj: "all_slabs L' \<inter> all_slabs (L d) = {}" if "d < 8" "d \<noteq> c" for d
    using o[OF that _ self] self unfolding outside_heap_def by blast
  have d_wf: "alloc_wf t d (L d) (fr d) FL'" if d: "d < 8" "d \<noteq> c" for d
  proof -
    note w = heap_wf_cache(1)[OF wf d(1)]
    have "slab_wf s d (L d) (fr d)" using w by (simp add: alloc_wf_def)
    then have sw: "slab_wf t d (L d) (fr d)" by (rule slab_wf_same) (use oc d other[OF d] in \<open>simp_all add: other_caches_def\<close>)
    have "unat (x - hhdm_offset t) \<notin> free_bytes t FL'" if "p \<in> all_slabs (L d)" "in_slab p x" for p x
      using o[OF d that] by (simp add: outside_heap_def)
    then show ?thesis using w bt h sw by (simp add: alloc_wf_def)
  qed
  have cp: "cache_ptr t d = cache_ptr s d" for d using oc by (simp add: cache_ptr_def other_caches_def)
  have os: "object_size (cache_at t d) = object_size (cache_at s d)" for d
    using oc z by (cases "d = c") (auto simp: other_caches_def word_unat_eq_iff)
  show "heap_wf t (L(c := L')) (fr(c := fr')) FL'"
    unfolding heap_wf_def
  proof (intro conjI allI impI)
    fix d :: nat assume d: "d < 8"
    show "alloc_wf t d ((L(c := L')) d) ((fr(c := fr')) d) FL'" using t d_wf[OF d] by simp
    show "object_size (cache_at t d) = slab_sizes ! d" "cache_ptr t d \<noteq> NULL" using os cp heap_wf_cache[OF wf d] by simp_all
  next
    fix d e :: nat assume "d < 8" "e < 8" "d \<noteq> e"
    then show "all_slabs ((L(c := L')) d) \<inter> all_slabs ((L(c := L')) e) = {}"
      using disj wf unfolding heap_wf_def by (cases "d = c"; cases "e = c") auto
  qed
  show "unmanaged t (L(c := L')) FL' x \<and> mem t x = mem s x" if x: "unmanaged s L FL x" for x
  proof -
    have "outside_heap s (L c) FL x" using x c by (simp add: unmanaged_def outside_heap_def)
    from f[OF this] show ?thesis using x h by (auto simp: unmanaged_def outside_heap_def)
  qed
qed

fun in_obj :: "'a slab_state_scheme \<Rightarrow> nat \<times> u64 \<times> nat \<Rightarrow> u64 \<Rightarrow> bool" where
  "in_obj s (c, p, k) x = in_object p (csize s c) k x"

fun obj_ptr :: "'a slab_state_scheme \<Rightarrow> nat \<times> u64 \<times> nat \<Rightarrow> u64" where
  "obj_ptr s (c, p, k) = slab_obj p (csize s c) k"

text \<open>What every operation on the heap keeps: the invariant, the layout of arenas and caches, and the
  bytes of the given objects and of memory that the allocators do not manage.\<close>

definition heap_goes :: "'a slab_state_scheme \<Rightarrow> (nat \<times> u64 \<times> nat) set
    \<Rightarrow> 'a slab_state_scheme \<Rightarrow> (nat \<Rightarrow> slab_map) \<Rightarrow> (nat \<Rightarrow> u64 \<Rightarrow> nat list) \<Rightarrow> free_map \<Rightarrow> bool" where
  "heap_goes s A t L' fr' FL' \<longleftrightarrow> heap_wf t L' fr' FL' \<and> same_shape s t \<and> slab_state.more t = slab_state.more s \<and> (\<forall>c<8. csize t c = csize s c)
     \<and> (\<forall>o'\<in>A. \<forall>x. in_obj s o' x \<longrightarrow> mem t x = mem s x)"

lemma heap_object:
  assumes wf: "heap_wf s L fr FL" and "(c, p, k) \<in> heap_live s L fr"
  shows "c < 8" "(p, k) \<in> live s c (L c) (fr c)" "p \<in> all_slabs (L c)" "k < ccount s c" "in_object p (csize s c) k x \<Longrightarrow> in_slab p x"
    "layout_ok (csize s c) (ccount s c)"
proof -
  show c: "c < 8" "(p, k) \<in> live s c (L c) (fr c)" using assms(2) by (simp_all add: heap_live_def)
  then show p: "p \<in> all_slabs (L c)" "k < ccount s c" by (simp_all add: live_def)
  show "layout_ok (csize s c) (ccount s c)" by (rule slab_in(1)[OF heap_wf_cache(4)[OF wf c(1)] p(1)])
  from object_in_slab(1)[OF this p(2)] show "in_object p (csize s c) k x \<Longrightarrow> in_slab p x" .
qed

lemma heap_objects_apart:
  assumes wf: "heap_wf s L fr FL" and o: "o1 \<in> heap_live s L fr" "o2 \<in> heap_live s L fr" "o1 \<noteq> o2" and x: "in_obj s o1 x"
  shows "\<not> in_obj s o2 x"
proof
  assume x2: "in_obj s o2 x"
  obtain c p k where o1: "o1 = (c, p, k)" by (cases o1)
  obtain d q j where o2: "o2 = (d, q, j)" by (cases o2)
  note h1 = heap_object[OF wf o(1)[unfolded o1]] and h2 = heap_object[OF wf o(2)[unfolded o2]]
  have "c = d" using slab_cache_unique(1)[OF wf h1(1) h2(1) h1(3) h2(3) h1(5) h2(5)] x x2 by (simp add: o1 o2)
  then show False
    using live_objects_apart[OF heap_wf_cache(1)[OF wf h1(1)] h1(2), of q j x] h2(2) x x2 o(3) by (auto simp: o1 o2)
qed

lemma heap_object_managed:
  assumes "heap_wf s L fr FL" "o1 \<in> heap_live s L fr" "in_obj s o1 x"
  shows "\<not> unmanaged s L FL x"
proof -
  obtain c p k where o1: "o1 = (c, p, k)" by (cases o1)
  note h = heap_object[OF assms(1) assms(2)[unfolded o1]]
  show ?thesis using h(1,3) h(5)[of x] assms(3) by (auto simp: o1 unmanaged_def)
qed

lemma heap_live_step:
  assumes c: "c < 8" and oc: "other_caches s t c"
  shows "heap_live t (L(c := L')) (fr(c := fr')) = {(d, x). (d, x) \<in> heap_live s L fr \<and> d \<noteq> c} \<union> {c} \<times> live t c L' fr'"
  using assms by (auto simp: heap_live_def live_def other_caches_def split: if_splits)

lemma heap_objects_kept:
  assumes wf: "heap_wf s L fr FL" and same: "\<forall>(q, j)\<in>live s c (L c) (fr c) - X. \<forall>x. in_object q (csize s c) j x \<longrightarrow> mem t x = mem s x"
    and other: "\<And>d p x. d < 8 \<Longrightarrow> d \<noteq> c \<Longrightarrow> p \<in> all_slabs (L d) \<Longrightarrow> in_slab p x \<Longrightarrow> mem t x = mem s x"
  shows "\<forall>o'\<in>heap_live s L fr - {c} \<times> X. \<forall>x. in_obj s o' x \<longrightarrow> mem t x = mem s x"
proof (intro ballI allI impI)
  fix o' x assume o': "o' \<in> heap_live s L fr - {c} \<times> X" "in_obj s o' x"
  obtain d q j where e: "o' = (d, q, j)" by (cases o')
  have l: "(d, q, j) \<in> heap_live s L fr" using o'(1) e by simp
  note h = heap_object[OF wf l]
  show "mem t x = mem s x"
  proof (cases "d = c")
    case True
    then show ?thesis using same o' h(2) by (auto simp: e)
  next
    case False
    then show ?thesis using other[OF h(1) False h(3) h(5)] o'(2) by (simp add: e)
  qed
qed

lemma heap_slab_alloc:
  assumes wf: "heap_wf s L fr FL" and c: "c < 8"
  obtains (none) "slab_alloc s c = Some (NULL, s)" "\<And>i k a. (i, k, a) \<in> free_blocks s FL \<Longrightarrow> k = 0" "\<And>p. p \<in> all_slabs (L c) \<Longrightarrow> fr c p = []"
  | (object) p k t L' fr' FL' where "slab_alloc s c = Some (obj_ptr s (c, p, k), t)" "obj_ptr s (c, p, k) \<noteq> NULL"
    "(c, p, k) \<notin> heap_live s L fr" "heap_live t L' fr' = insert (c, p, k) (heap_live s L fr)"
    "heap_goes s (heap_live s L fr) t L' fr' FL'" "\<And>x. unmanaged s L FL x \<Longrightarrow> unmanaged t L' FL' x \<and> mem t x = mem s x"
proof -
  obtain ptr t where r: "slab_alloc s c = Some (ptr, t)"
      "if ptr = NULL then t = s \<and> (\<forall>p\<in>all_slabs (L c). fr c p = []) \<and> (\<forall>i k a. (i, k, a) \<in> free_blocks s FL \<longrightarrow> k = 0)
       else \<exists>L' fr' FL' p k. ptr = slab_obj p (csize s c) k \<and> k < ccount s c \<and> (p, k) \<notin> live s c (L c) (fr c)
         \<and> alloc_wf t c L' fr' FL' \<and> live t c L' fr' = insert (p, k) (live s c (L c) (fr c)) \<and> csize t c = csize s c
         \<and> ccount t c = ccount s c \<and> slab_caches_addr t = slab_caches_addr s
         \<and> (\<forall>(q, j)\<in>live s c (L c) (fr c). \<forall>x. in_object q (csize s c) j x \<longrightarrow> mem t x = mem s x) \<and> heap_frame s (L c) FL t L' FL'"
    using slab_alloc_post[OF heap_wf_cache(1)[OF wf c]] by blast
  show thesis
  proof (cases "ptr = NULL")
    case True
    then have "t = s" "\<forall>p\<in>all_slabs (L c). fr c p = []" "\<forall>i k a. (i, k, a) \<in> free_blocks s FL \<longrightarrow> k = 0" using r(2) by simp_all
    then show thesis using r(1) True by (intro none) blast+
  next
    case False
    then obtain L' fr' FL' p k where a: "ptr = slab_obj p (csize s c) k" "(p, k) \<notin> live s c (L c) (fr c)"
         "alloc_wf t c L' fr' FL'" "live t c L' fr' = insert (p, k) (live s c (L c) (fr c))" "csize t c = csize s c"
         and same: "\<forall>(q, j)\<in>live s c (L c) (fr c). \<forall>x. in_object q (csize s c) j x \<longrightarrow> mem t x = mem s x"
         and fra: "heap_frame s (L c) FL t L' FL'"
      using r(2) by (simp only: if_False) blast
    have oc: "other_caches s t c" by (rule oc_slab_alloc[OF heap_wf_cache(5)[OF wf c] r(1)])
    note st = heap_step_cache[OF wf c a(3) fra oc a(5)]
    have keep: "\<forall>o'\<in>heap_live s L fr. \<forall>x. in_obj s o' x \<longrightarrow> mem t x = mem s x"
      using heap_objects_kept[OF wf, of c "{}" t, OF _ st(2)] same by simp
    have z: "\<forall>d<8. csize t d = csize s d" using oc a(5) by (auto simp: other_caches_def)
    show thesis
    proof (rule object)
      show "slab_alloc s c = Some (obj_ptr s (c, p, k), t)" "obj_ptr s (c, p, k) \<noteq> NULL" using r(1) a(1) False by simp_all
      show "(c, p, k) \<notin> heap_live s L fr" using a(2) by (simp add: heap_live_def)
      show "heap_live t (L(c := L')) (fr(c := fr')) = insert (c, p, k) (heap_live s L fr)"
        unfolding heap_live_step[OF c oc] a(4) using c by (auto simp: heap_live_def)
      show "heap_goes s (heap_live s L fr) t (L(c := L')) (fr(c := fr')) FL'"
        unfolding heap_goes_def using st(1) oc z keep by (simp add: other_caches_def)
    qed (rule st(3))
  qed
qed

lemma heap_slab_free:
  assumes wf: "heap_wf s L fr FL" and o: "(c, p, k) \<in> heap_live s L fr"
  obtains t L' fr' where "slab_free s p (obj_ptr s (c, p, k)) = Some t" "heap_live t L' fr' = heap_live s L fr - {(c, p, k)}"
    "heap_goes s (heap_live s L fr - {(c, p, k)}) t L' fr' FL" "\<And>x. unmanaged s L FL x \<Longrightarrow> unmanaged t L' FL x \<and> mem t x = mem s x"
proof -
  note h = heap_object[OF wf o]
  obtain t L' fr' where t: "slab_free s p (slab_obj p (csize s c) k) = Some t" "alloc_wf t c L' fr' FL"
      "live t c L' fr' = live s c (L c) (fr c) - {(p, k)}" "same_frame s t c"
      "\<forall>(q, j)\<in>live s c (L c) (fr c) - {(p, k)}. \<forall>x. in_object q (csize s c) j x \<longrightarrow> mem t x = mem s x" "heap_frame s (L c) FL t L' FL"
    using slab_free_live[OF heap_wf_cache(1)[OF wf h(1)] h(2)] by blast
  have "sl_cache (mem s) p = cache_ptr s c" using slab_in(6)[OF heap_wf_cache(4)[OF wf h(1)] h(3)] by (simp add: slab_ok_def fld_header)
  then have "cache_index s (sl_cache (mem s) p) = c" using cache_index_ptr[of c s] h(1) by simp
  from oc_slab_free[OF t(1) this] have oc: "other_caches s t c" .
  have zc: "csize t c = csize s c" using same_frame_fields[OF t(4)] by simp
  note st = heap_step_cache[OF wf h(1) t(2,6) oc zc]
  have keep: "\<forall>o'\<in>heap_live s L fr - {(c, p, k)}. \<forall>x. in_obj s o' x \<longrightarrow> mem t x = mem s x"
    using heap_objects_kept[OF wf, of c "{(p, k)}" t, OF t(5) st(2)] by simp
  have z: "\<forall>d<8. csize t d = csize s d" using oc zc by (auto simp: other_caches_def)
  show thesis
  proof (rule that)
    show "slab_free s p (obj_ptr s (c, p, k)) = Some t" using t(1) by simp
    show "heap_live t (L(c := L')) (fr(c := fr')) = heap_live s L fr - {(c, p, k)}"
      unfolding heap_live_step[OF h(1) oc] t(3) using h(1) by (auto simp: heap_live_def)
    show "heap_goes s (heap_live s L fr - {(c, p, k)}) t (L(c := L')) (fr(c := fr')) FL"
      unfolding heap_goes_def using st(1) oc z keep by (simp add: other_caches_def)
  qed (rule st(3))
qed

lemma heap_live_same: "(\<And>c. c < 8 \<Longrightarrow> cache_at t c = cache_at s c) \<Longrightarrow> heap_live t L fr = heap_live s L fr"
  by (auto simp: heap_live_def live_def)

text \<open>A step of the buddy allocator that keeps away from the slabs.\<close>

lemma heap_buddy_step:
  assumes wf: "heap_wf s L fr FL" and ext: "same_ext s t" and sh: "same_shape s t" and bw: "buddy_wf t FL'"
    and slabs: "\<And>c p x. c < 8 \<Longrightarrow> p \<in> all_slabs (L c) \<Longrightarrow> in_slab p x \<Longrightarrow> mem t x = mem s x \<and> unat (x - hhdm_offset s) \<notin> free_bytes t FL'"
  shows "heap_goes s (heap_live s L fr) t L fr FL'" "heap_live t L fr = heap_live s L fr"
proof -
  have e: "slab_caches t = slab_caches s" "slab_caches_addr t = slab_caches_addr s" "hhdm_offset t = hhdm_offset s" "slab_state.more t = slab_state.more s"
    using ext by (auto simp: same_ext_def)
  show "heap_live t L fr = heap_live s L fr" by (rule heap_live_same) (simp add: e)
  have "alloc_wf t c (L c) (fr c) FL'" if c: "c < 8" for c
  proof -
    have sw: "slab_wf s c (L c) (fr c)" using heap_wf_cache(1)[OF wf c] by (simp add: alloc_wf_def)
    have "slab_wf t c (L c) (fr c)" by (rule slab_wf_same[OF sw]) (use e slabs[OF c] in simp_all)
    then show ?thesis using heap_wf_cache(1)[OF wf c] bw slabs[OF c] e(3) by (simp add: alloc_wf_def)
  qed
  moreover have "cache_ptr t c = cache_ptr s c" for c by (simp add: cache_ptr_def e)
  ultimately have "heap_wf t L fr FL'" using wf by (simp add: heap_wf_def e)
  moreover have "mem t x = mem s x" if o: "o' \<in> heap_live s L fr" "in_obj s o' x" for o' x
  proof -
    obtain c p k where e: "o' = (c, p, k)" by (cases o')
    note h = heap_object[OF wf o(1)[unfolded e]]
    show ?thesis using slabs[OF h(1,3) h(5)] o(2) by (simp add: e)
  qed
  ultimately show "heap_goes s (heap_live s L fr) t L fr FL'" using sh by (simp add: heap_goes_def e)
qed

lemma heap_buddy_alloc:
  assumes wf: "heap_wf s L fr FL" and al: "unat order \<le> 20" "buddy_alloc_pages s order = (phys, t)" "phys \<noteq> 0"
  obtains FL' i where "heap_goes s (heap_live s L fr) t L fr FL'" "heap_live t L fr = heap_live s L fr"
    "i < unat (buddy_arena_counter s)" "block_ok s i (unat order) phys" "brange phys (unat order) \<subseteq> free_bytes s FL"
    "\<And>x. unmanaged s L FL x \<Longrightarrow> unmanaged t L FL' x \<and> mem t x = mem s x \<and> unat (x - hhdm_offset s) \<notin> brange phys (unat order)"
    "\<And>x. unat (x - hhdm_offset s) \<in> brange phys (unat order) \<Longrightarrow> unmanaged t L FL' x"
proof -
  note bw = heap_wf_cache(5)[OF wf, of 0, simplified]
  have post: "alloc_post s FL (unat order) phys t" using buddy_alloc_pages_post[OF bw al(1,2)] al(3) by simp
  then obtain FL' where FL': "buddy_wf t FL'" "free_bytes t FL' = free_bytes s FL - brange phys (unat order)"
    and sh: "same_shape s t" and wo: "writes_only s t (free_bytes s FL)" by (auto simp: alloc_post_def)
  note blk = alloc_post_block[OF bw post]
  obtain i where i: "i < unat (buddy_arena_counter s)" "block_ok s i (unat order) phys" using blk(1) by blast
  have h: "hhdm_offset t = hhdm_offset s" using sh by (simp add: same_shape_def)
  have "mem t x = mem s x \<and> unat (x - hhdm_offset s) \<notin> free_bytes t FL'" if "c < 8" "p \<in> all_slabs (L c)" "in_slab p x" for c p x
    using heap_slab(2)[OF wf that] wo FL'(2) by (simp add: writes_only_def)
  note st = heap_buddy_step[OF wf same_ext_alloc[OF al(2)] sh FL'(1) this]
  show thesis
  proof (rule that[OF st i blk(2)])
    show "unmanaged t L FL' x \<and> mem t x = mem s x \<and> unat (x - hhdm_offset s) \<notin> brange phys (unat order)" if "unmanaged s L FL x" for x
      using that wo FL'(2) blk(2) h by (auto simp: unmanaged_def writes_only_def)
    show "unmanaged t L FL' x" if "unat (x - hhdm_offset s) \<in> brange phys (unat order)" for x
    proof -
      have f: "unat (x - hhdm_offset s) \<in> free_bytes s FL" using that blk(2) by blast
      have "\<not> in_slab p x" if "c < 8" "p \<in> all_slabs (L c)" for c p using heap_slab(2)[OF wf that, of x] f by blast
      then show ?thesis using that FL'(2) h by (simp add: unmanaged_def)
    qed
  qed
qed

lemma heap_buddy_free:
  assumes wf: "heap_wf s L fr FL" and i: "i < unat (buddy_arena_counter s)" "block_ok s i (unat order) phys"
    and um: "\<And>x. unat (x - hhdm_offset s) \<in> brange phys (unat order) \<Longrightarrow> unmanaged s L FL x"
  obtains t FL' where "buddy_free_pages s phys order = Some t" "heap_goes s (heap_live s L fr) t L fr FL'" "heap_live t L fr = heap_live s L fr"
    "\<And>x. unmanaged s L FL x \<Longrightarrow> unat (x - hhdm_offset s) \<notin> brange phys (unat order) \<Longrightarrow> unmanaged t L FL' x \<and> mem t x = mem s x"
proof -
  note bw = heap_wf_cache(5)[OF wf, of 0, simplified]
  have small: "brange phys (unat order) \<subseteq> {..<2 ^ 64}" using i bw by (auto simp: buddy_wf_def arenas_wf_def arena_ok_def block_ok_def brange_def)
  have "y \<notin> free_bytes s FL" if y: "y \<in> brange phys (unat order)" for y
  proof -
    have "unat (of_nat y + hhdm_offset s - hhdm_offset s) = y" using y small by (auto simp: unat_of_nat)
    then show ?thesis using um[of "of_nat y + hhdm_offset s"] y by (simp add: unmanaged_def)
  qed
  then have "brange phys (unat order) \<inter> free_bytes s FL = {}" by blast
  then obtain t where t: "buddy_free_pages s phys order = Some t" "free_post s FL (unat order) phys t"
    using buddy_free_pages_post[OF bw i] by blast
  then obtain FL' where FL': "buddy_wf t FL'" "free_bytes t FL' = free_bytes s FL \<union> brange phys (unat order)"
    and sh: "same_shape s t" and wo: "writes_only s t (free_bytes s FL \<union> brange phys (unat order))" by (auto simp: free_post_def)
  have h: "hhdm_offset t = hhdm_offset s" using sh by (simp add: same_shape_def)
  have "mem t x = mem s x \<and> unat (x - hhdm_offset s) \<notin> free_bytes t FL'" if "c < 8" "p \<in> all_slabs (L c)" "in_slab p x" for c p x
  proof -
    have "unat (x - hhdm_offset s) \<notin> brange phys (unat order)" using um[of x] that unfolding unmanaged_def by blast
    then show ?thesis using heap_slab(2)[OF wf that] wo FL'(2) by (simp add: writes_only_def)
  qed
  note st = heap_buddy_step[OF wf same_ext_free[OF t(1)] sh FL'(1) this]
  show thesis
  proof (rule that[OF t(1) st])
    show "unmanaged t L FL' x \<and> mem t x = mem s x" if "unmanaged s L FL x" "unat (x - hhdm_offset s) \<notin> brange phys (unat order)" for x
      using that wo FL'(2) h by (simp add: unmanaged_def writes_only_def)
  qed
qed

text \<open>Writes of the owners: to memory the allocators do not manage, or to one object in use.\<close>

lemma heap_wf_write:
  assumes wf: "heap_wf s L fr FL" and "\<And>c. c < 8 \<Longrightarrow> alloc_wf (s\<lparr>mem := m\<rparr>) c (L c) (fr c) FL"
  shows "heap_wf (s\<lparr>mem := m\<rparr>) L fr FL"
  using assms by (simp add: heap_wf_def cache_ptr_def)

text \<open>A byte that belongs to somebody: not managed by the allocators, or in an object in use.\<close>

definition client_byte :: "'a slab_state_scheme \<Rightarrow> (nat \<Rightarrow> slab_map) \<Rightarrow> (nat \<Rightarrow> u64 \<Rightarrow> nat list) \<Rightarrow> free_map \<Rightarrow> u64 \<Rightarrow> bool" where
  "client_byte s L fr FL x \<longleftrightarrow> unmanaged s L FL x \<or> (\<exists>o'\<in>heap_live s L fr. in_obj s o' x)"

lemma unmanaged_mem [simp]: "unmanaged (s\<lparr>mem := m\<rparr>) L FL x = unmanaged s L FL x"
  by (simp add: unmanaged_def)

lemma heap_live_mem [simp]: "heap_live (s\<lparr>mem := m\<rparr>) L fr = heap_live s L fr"
  by (simp add: heap_live_def live_def)

lemma client_byte_mem [simp]: "client_byte (s\<lparr>mem := m\<rparr>) L fr FL x = client_byte s L fr FL x"
proof -
  have "in_obj (s\<lparr>mem := m\<rparr>) o' x = in_obj s o' x" for o' by (cases o') simp
  then show ?thesis by (simp add: client_byte_def)
qed

lemma heap_write_client:
  assumes wf: "heap_wf s L fr FL" and same: "\<And>x. \<not> client_byte s L fr FL x \<Longrightarrow> m x = mem s x"
  shows "heap_wf (s\<lparr>mem := m\<rparr>) L fr FL"
proof (rule heap_wf_write[OF wf])
  fix c :: nat assume c: "c < 8"
  show "alloc_wf (s\<lparr>mem := m\<rparr>) c (L c) (fr c) FL"
  proof (rule alloc_wf_live_write[OF heap_wf_cache(1)[OF wf c]])
    fix x assume n: "\<not> outside_heap s (L c) FL x" and no: "\<And>p k. (p, k) \<in> live s c (L c) (fr c) \<Longrightarrow> \<not> in_object p (csize s c) k x"
    have "\<not> unmanaged s L FL x" using n c by (auto simp: outside_heap_def unmanaged_def)
    moreover have "\<not> in_obj s o' x" if o: "o' \<in> heap_live s L fr" for o'
    proof
      assume x: "in_obj s o' x"
      obtain d p k where e: "o' = (d, p, k)" by (cases o')
      note h = heap_object[OF wf o[unfolded e]]
      show False
      proof (cases "d = c")
        case True
        then show False using no h(2) x by (simp add: e)
      next
        case False
        then show False using other_slab_outside[OF wf c h(1) False h(3) h(5)] x n by (simp add: e)
      qed
    qed
    ultimately show "m x = mem s x" by (intro same) (auto simp: client_byte_def)
  qed
qed

lemma heap_write_unmanaged:
  assumes wf: "heap_wf s L fr FL" and "\<And>x. \<not> unmanaged s L FL x \<Longrightarrow> m x = mem s x"
  shows "heap_wf (s\<lparr>mem := m\<rparr>) L fr FL"
  by (rule heap_write_client[OF wf]) (use assms(2) in \<open>auto simp: client_byte_def\<close>)

lemma heap_write_object:
  assumes wf: "heap_wf s L fr FL" and o: "o' \<in> heap_live s L fr" and same: "\<And>x. \<not> in_obj s o' x \<Longrightarrow> m x = mem s x"
  shows "heap_wf (s\<lparr>mem := m\<rparr>) L fr FL"
  by (rule heap_write_client[OF wf]) (use o same in \<open>auto simp: client_byte_def\<close>)

end
