(* ===== verification/Kernel_Owners.thy ===== *)
theory Kernel_Owners
  imports Kernel_Heap
begin

text \<open>
  Owners of memory. Every piece of memory in use is an object of a slab cache, a block of \<^verbatim>\<open>kmalloc\<close> with its
  header, or pages of the buddy allocator. \<open>memory_inv\<close> says that the extents of the owners are disjoint and that the
  allocators keep nothing in them; allocating, freeing and writing to one's own memory keep it and leave
  the bytes of all other owners alone.
\<close>

section \<open>Owners of memory\<close>

text \<open>Where memory comes from: a cache, a block of an order with a header, or pages of an order. An owner is
  known by its pointer; with it goes the number of bytes it may use.\<close>

datatype origin = Object nat | Block nat | Pages nat

type_synonym owners = "u64 \<rightharpoonup> origin \<times> nat"

text \<open>The bytes that belong to an owner, header and padding included.\<close>

fun extent :: "'a slab_state_scheme \<Rightarrow> u64 \<Rightarrow> origin \<Rightarrow> u64 \<Rightarrow> bool" where
  "extent s ptr (Object c) x \<longleftrightarrow> unat (x - ptr) < csize s c"
| "extent s ptr (Block k) x \<longleftrightarrow> unat (x - hhdm_offset s) \<in> brange (ptr - 16 - hhdm_offset s) k"
| "extent s ptr (Pages k) x \<longleftrightarrow> unat (x - hhdm_offset s) \<in> brange (ptr - hhdm_offset s) k"

definition block_owned :: "'a slab_state_scheme \<Rightarrow> (nat \<Rightarrow> slab_map) \<Rightarrow> free_map \<Rightarrow> u64 \<Rightarrow> nat \<Rightarrow> bool" where
  "block_owned s L FL phys k \<longleftrightarrow> (\<exists>i<unat (buddy_arena_counter s). block_ok s i k phys)
     \<and> (\<forall>x. unat (x - hhdm_offset s) \<in> brange phys k \<longrightarrow> unmanaged s L FL x)"

definition framed_as :: "memory \<Rightarrow> u64 \<Rightarrow> nat \<Rightarrow> nat \<Rightarrow> bool" where
  "framed_as m ptr k n \<longleftrightarrow> ah_magic m (ptr - 16) = ALLOC_MAGIC \<and> ah_size m (ptr - 16) = of_nat n \<and> ah_order m (ptr - 16) = of_nat k
     \<and> load64 m (ptr + of_nat n) = ALLOC_MAGIC"

fun owned_ok :: "'a slab_state_scheme \<Rightarrow> (nat \<Rightarrow> slab_map) \<Rightarrow> (nat \<Rightarrow> u64 \<Rightarrow> nat list) \<Rightarrow> free_map \<Rightarrow> u64 \<Rightarrow> origin \<times> nat \<Rightarrow> bool" where
  "owned_ok s L fr FL ptr (Object c, n) \<longleftrightarrow> (\<exists>p k. (c, p, k) \<in> heap_live s L fr \<and> ptr = slab_obj p (csize s c) k) \<and> 0 < n \<and> n \<le> csize s c"
| "owned_ok s L fr FL ptr (Block k, n) \<longleftrightarrow> block_owned s L FL (ptr - 16 - hhdm_offset s) k \<and> framed_as (mem s) ptr k n \<and> 0 < n \<and> n + 24 \<le> 2 ^ (12 + k)"
| "owned_ok s L fr FL ptr (Pages k, n) \<longleftrightarrow> block_owned s L FL (ptr - hhdm_offset s) k \<and> n = 2 ^ (12 + k)"

definition memory_inv :: "'a slab_state_scheme \<Rightarrow> owners \<Rightarrow> (nat \<Rightarrow> slab_map) \<Rightarrow> (nat \<Rightarrow> u64 \<Rightarrow> nat list) \<Rightarrow> free_map \<Rightarrow> bool" where
  "memory_inv s own L fr FL \<longleftrightarrow> heap_wf s L fr FL \<and> (\<forall>ptr a. own ptr = Some a \<longrightarrow> owned_ok s L fr FL ptr a)
     \<and> (\<forall>ptr ptr' a a' x. own ptr = Some a \<longrightarrow> own ptr' = Some a' \<longrightarrow> ptr \<noteq> ptr' \<longrightarrow> extent s ptr (fst a) x \<longrightarrow> \<not> extent s ptr' (fst a') x)"

text \<open>A block seen through the direct map.\<close>

lemma block_room:
  assumes "heap_wf s L fr FL" "i < unat (buddy_arena_counter s)" "block_ok s i k phys"
  shows "unat phys + 2 ^ (12 + k) + unat (hhdm_offset s) < 2 ^ 64" "unat (phys + hhdm_offset s) = unat phys + unat (hhdm_offset s)" "k \<le> 20" "0 < unat phys"
proof -
  have bw: "buddy_wf s FL" using heap_wf_cache(5)[OF assms(1), of 0] by simp
  show r: "unat phys + 2 ^ (12 + k) + unat (hhdm_offset s) < 2 ^ 64" "k \<le> 20" "0 < unat phys"
    using assms(2,3) bw by (auto simp: buddy_wf_def arenas_wf_def arena_ok_def block_ok_def)
  have "unat phys + unat (hhdm_offset s) < 2 ^ 64" using r(1) by linarith
  then show "unat (phys + hhdm_offset s) = unat phys + unat (hhdm_offset s)" using unat_plus64[of phys "hhdm_offset s"] by simp
qed

lemma brange_offset:
  assumes "unat phys + 2 ^ (12 + k) + unat h < 2 ^ 64"
  shows "unat (x - h) \<in> brange phys k \<longleftrightarrow> unat (x - (phys + h)) < 2 ^ (12 + k)"
proof
  assume "unat (x - (phys + h)) < 2 ^ (12 + k)"
  then show "unat (x - h) \<in> brange phys k" using in_block[OF assms _ refl] by blast
next
  define d where "d = x - h"
  assume "unat (x - h) \<in> brange phys k"
  then have "unat phys \<le> unat d" "unat d < unat phys + 2 ^ (12 + k)" by (simp_all add: brange_def d_def)
  moreover have e: "x - (phys + h) = d - phys" by (simp add: d_def)
  ultimately show "unat (x - (phys + h)) < 2 ^ (12 + k)" unfolding e unat_sub_if_size by simp
qed

text \<open>The bytes an owner may use lie in its extent and do not wrap around.\<close>

lemma owned_bytes:
  assumes wf: "heap_wf s L fr FL" and ok: "owned_ok s L fr FL ptr (g, n)"
  shows "0 < n" "unat ptr + n < 2 ^ 64" "ptr \<noteq> NULL" "unat (x - ptr) < n \<Longrightarrow> extent s ptr g x"
proof -
  have "0 < n \<and> unat ptr + n < 2 ^ 64 \<and> ptr \<noteq> NULL \<and> (\<forall>x. unat (x - ptr) < n \<longrightarrow> extent s ptr g x)"
  proof (cases g)
    case (Object c)
    then obtain p k where o: "(c, p, k) \<in> heap_live s L fr" "ptr = slab_obj p (csize s c) k" and n: "0 < n" "n \<le> csize s c" using ok by auto
    note h = heap_object[OF wf o(1)]
    note i = slab_in[OF heap_wf_cache(4)[OF wf h(1)] h(3)]
    have "unat ptr = unat p + obj_off (csize s c) k" using unat_slab_obj[OF i(4,1) h(4)] o(2) by simp
    moreover have "Suc k * csize s c \<le> ccount s c * csize s c" using h(4) by (intro mult_le_mono1) simp
    moreover have "unat p + 8192 < 2 ^ 64" using heap_wf_cache(1)[OF wf h(1)] h(3) by (auto simp: alloc_wf_def)
    ultimately have "unat ptr + n < 2 ^ 64" using h(6) n by (simp add: layout_ok_def obj_off_def)
    moreover have "ptr \<noteq> NULL" unfolding o(2) by (rule slab_obj_nonnull[OF i(4,1) h(4)])
    ultimately show ?thesis using n by (auto simp: Object)
  next
    case (Block k)
    let ?p = "ptr - 16 - hhdm_offset s"
    obtain i where i: "i < unat (buddy_arena_counter s)" "block_ok s i k ?p" and n: "0 < n" "n + 24 \<le> 2 ^ (12 + k)"
      using ok by (auto simp: Block block_owned_def)
    note r = block_room[OF wf i]
    have e: "?p + hhdm_offset s = ptr - 16" by simp
    have h: "unat (ptr - 16) + 2 ^ (12 + k) < 2 ^ 64" using r(1,2) unfolding e by linarith
    then have u: "unat ptr = unat (ptr - 16) + 16" using n unat_plus64[of "ptr - 16" 16] by simp
    have "extent s ptr g x" if "unat (x - ptr) < n" for x
    proof -
      have e2: "x - (ptr - 16) = x - ptr + 16" by simp
      have "unat (x - (ptr - 16)) = unat (x - ptr) + 16" unfolding e2 using that n h unat_plus64[of "x - ptr" 16] by simp
      then show ?thesis using brange_offset[OF r(1), of x] that n unfolding e by (simp add: Block)
    qed
    moreover have "ptr \<noteq> NULL" using u by auto
    ultimately show ?thesis using n h u by (auto simp del: power_Suc)
  next
    case (Pages k)
    let ?p = "ptr - hhdm_offset s"
    obtain i where i: "i < unat (buddy_arena_counter s)" "block_ok s i k ?p" and n: "n = 2 ^ (12 + k)"
      using ok by (auto simp: Pages block_owned_def)
    note r = block_room[OF wf i]
    have e: "?p + hhdm_offset s = ptr" by simp
    have "unat ptr + n < 2 ^ 64" using r(1,2) n unfolding e by linarith
    moreover have "ptr \<noteq> NULL" using r(2,4) unfolding e by auto
    moreover have "extent s ptr g x" if "unat (x - ptr) < n" for x using brange_offset[OF r(1), of x] that n unfolding e by (simp add: Pages)
    ultimately show ?thesis using n by auto
  qed
  then show "0 < n" "unat ptr + n < 2 ^ 64" "ptr \<noteq> NULL" "unat (x - ptr) < n \<Longrightarrow> extent s ptr g x" by blast+
qed


section \<open>Steps that keep what others own\<close>

definition kept :: "'a slab_state_scheme \<Rightarrow> (nat \<Rightarrow> slab_map) \<Rightarrow> (nat \<Rightarrow> u64 \<Rightarrow> nat list)
    \<Rightarrow> 'a slab_state_scheme \<Rightarrow> (nat \<Rightarrow> slab_map) \<Rightarrow> (nat \<Rightarrow> u64 \<Rightarrow> nat list) \<Rightarrow> free_map \<Rightarrow> u64 \<Rightarrow> origin \<Rightarrow> bool" where
  "kept s L fr t L' fr' FL' ptr g \<longleftrightarrow> (\<forall>x. extent s ptr g x \<longrightarrow> mem t x = mem s x)
     \<and> (case g of Object c \<Rightarrow> \<forall>p k. (c, p, k) \<in> heap_live s L fr \<and> ptr = slab_obj p (csize s c) k \<longrightarrow> (c, p, k) \<in> heap_live t L' fr'
        | _ \<Rightarrow> \<forall>x. extent s ptr g x \<longrightarrow> unmanaged t L' FL' x)"

lemma framed_as_cong:
  assumes f: "framed_as m ptr k n" and n: "n + 24 \<le> 2 ^ (12 + k)" "k \<le> 20"
    and same: "\<And>x. unat (x - (ptr - 16)) < n + 24 \<Longrightarrow> unat (x - (ptr - 16)) < 16 \<or> n + 16 \<le> unat (x - (ptr - 16)) \<Longrightarrow> m' x = m x"
  shows "framed_as m' ptr k n"
proof -
  have "(2 :: nat) ^ (12 + k) \<le> 2 ^ 32" using n(2) by (intro power_increasing) simp_all
  then have n32: "n + 24 \<le> 4294967296" using n(1) by simp
  have hd: "m' (ptr - 16 + off + d) = m (ptr - 16 + off + d)" if "d < w" "unat off + unat w \<le> 16" for off d w
    using in_field[of "ptr - 16 + off + d" "ptr - 16" off w] that by (intro same) simp_all
  have "m' (ptr + of_nat n + d) = m (ptr + of_nat n + d)" if d: "d < 8" for d
  proof -
    have e: "ptr + of_nat n + d - (ptr - 16) = of_nat n + 16 + d" by simp
    have "unat (of_nat n + 16 + d) = n + 16 + unat d" using d n32 by (simp add: unat_word_ariths(1) unat_of_nat word_less_nat_alt)
    then show ?thesis using d by (intro same) (simp_all only: e, simp_all add: word_less_nat_alt)
  qed
  then have "load64 m' (ptr + of_nat n) = load64 m (ptr + of_nat n)" by (intro load64_cong)
  moreover have "load64 m' (ptr - 16) = load64 m (ptr - 16)" using hd[of _ 8 0] by (intro load64_cong) simp
  moreover have "load32 m' (ptr - 16 + 8) = load32 m (ptr - 16 + 8)" using hd[of _ 4 8] by (intro load32_cong) simp
  moreover have "load8 m' (ptr - 16 + 12) = load8 m (ptr - 16 + 12)" using hd[of 0 1 12] by (simp add: load8_def)
  ultimately show ?thesis using f by (simp add: framed_as_def ah_magic_def ah_size_def ah_order_def)
qed

lemma block_ok_shape: "same_shape s t \<Longrightarrow> block_ok t i k a \<longleftrightarrow> block_ok s i k a"
  by (simp add: same_shape_def block_ok_def)

lemma owned_ok_kept:
  assumes wf: "heap_wf s L fr FL" and ok: "owned_ok s L fr FL ptr (g, n)" and k: "kept s L fr t L' fr' FL' ptr g"
    and sh: "same_shape s t" and z: "\<And>c. c < 8 \<Longrightarrow> csize t c = csize s c"
  shows "owned_ok t L' fr' FL' ptr (g, n)" "\<And>x. extent t ptr g x \<longleftrightarrow> extent s ptr g x" "\<And>x. unat (x - ptr) < n \<Longrightarrow> mem t x = mem s x"
proof -
  have h: "hhdm_offset t = hhdm_offset s" "buddy_arena_counter t = buddy_arena_counter s" using sh by (simp_all add: same_shape_def)
  show "mem t x = mem s x" if "unat (x - ptr) < n" for x using k owned_bytes(4)[OF wf ok that] by (simp add: kept_def)
  have "owned_ok t L' fr' FL' ptr (g, n) \<and> (\<forall>x. extent t ptr g x \<longleftrightarrow> extent s ptr g x)"
  proof (cases g)
    case (Object c)
    then obtain p j where o: "(c, p, j) \<in> heap_live s L fr" "ptr = slab_obj p (csize s c) j" and n: "0 < n" "n \<le> csize s c" using ok by auto
    have "csize t c = csize s c" by (rule z) (rule heap_object(1)[OF wf o(1)])
    moreover have "(c, p, j) \<in> heap_live t L' fr'" using k o by (simp add: kept_def Object)
    ultimately show ?thesis using o n Object by auto
  next
    case (Block j)
    obtain i where i: "i < unat (buddy_arena_counter s)" "block_ok s i j (ptr - 16 - hhdm_offset s)"
      and n: "0 < n" "n + 24 \<le> 2 ^ (12 + j)" and f: "framed_as (mem s) ptr j n" using ok by (auto simp: Block block_owned_def)
    note r = block_room[OF wf i]
    have "framed_as (mem t) ptr j n"
    proof (rule framed_as_cong[OF f n(2) r(3)])
      fix x assume "unat (x - (ptr - 16)) < n + 24"
      then have "extent s ptr g x" using brange_offset[OF r(1), of x] n by (simp add: Block)
      then show "mem t x = mem s x" using k by (simp add: kept_def)
    qed
    moreover have "block_owned t L' FL' (ptr - 16 - hhdm_offset t) j"
      using i k by (auto simp: block_owned_def h block_ok_shape[OF sh] kept_def Block)
    ultimately show ?thesis using n Block h by simp
  next
    case (Pages j)
    then have "block_owned t L' FL' (ptr - hhdm_offset t) j"
      using ok k by (auto simp: block_owned_def h block_ok_shape[OF sh] kept_def)
    then show ?thesis using ok Pages h by simp
  qed
  then show "owned_ok t L' fr' FL' ptr (g, n)" "\<And>x. extent t ptr g x \<longleftrightarrow> extent s ptr g x" by blast+
qed

lemma memory_inv_step:
  assumes inv: "memory_inv s own L fr FL" and go: "heap_goes s A t L' fr' FL'" and sub: "own' \<subseteq>\<^sub>m own"
    and kept: "\<forall>ptr g n. own' ptr = Some (g, n) \<longrightarrow> kept s L fr t L' fr' FL' ptr g"
  shows "memory_inv t own' L' fr' FL'" "\<And>ptr g n x. own' ptr = Some (g, n) \<Longrightarrow> unat (x - ptr) < n \<Longrightarrow> mem t x = mem s x"
proof -
  have wf: "heap_wf s L fr FL" and ok: "\<And>ptr a. own ptr = Some a \<Longrightarrow> owned_ok s L fr FL ptr a"
    and dj: "\<And>ptr ptr' a a' x. own ptr = Some a \<Longrightarrow> own ptr' = Some a' \<Longrightarrow> ptr \<noteq> ptr' \<Longrightarrow> extent s ptr (fst a) x \<Longrightarrow> \<not> extent s ptr' (fst a') x"
    using inv unfolding memory_inv_def by blast+
  have sh: "same_shape s t" and z: "\<And>c. c < 8 \<Longrightarrow> csize t c = csize s c" and wt: "heap_wf t L' fr' FL'" using go by (simp_all add: heap_goes_def)
  have k: "kept s L fr t L' fr' FL' ptr g" if "own' ptr = Some (g, n)" for ptr g n using kept that by blast
  have o: "own ptr = Some a" if "own' ptr = Some a" for ptr a using sub that by (metis map_le_def domI)
  note kp = owned_ok_kept[OF wf ok[OF o] k sh z]
  show "mem t x = mem s x" if "own' ptr = Some (g, n)" "unat (x - ptr) < n" for ptr g n x by (rule kp(3)[OF that(1,1) _ that(2)])
  have ok': "owned_ok t L' fr' FL' ptr a" if "own' ptr = Some a" for ptr a by (cases a) (use kp(1) that in blast)
  have ext: "extent t ptr (fst a) x \<longleftrightarrow> extent s ptr (fst a) x" if "own' ptr = Some a" for ptr a x by (cases a) (use kp(2) that in simp)
  show "memory_inv t own' L' fr' FL'" unfolding memory_inv_def using wt ok' ext dj o by (metis (no_types))
qed

text \<open>Adding an owner whose extent nobody holds.\<close>

lemma memory_inv_add:
  assumes inv: "memory_inv s own L fr FL" and ok: "owned_ok s L fr FL ptr (g, n)"
    and new: "\<forall>q g' n' x. own q = Some (g', n') \<longrightarrow> extent s q g' x \<longrightarrow> \<not> extent s ptr g x"
  shows "memory_inv s (own(ptr \<mapsto> (g, n))) L fr FL" "\<And>q g' n' x. own q = Some (g', n') \<Longrightarrow> unat (x - q) < n' \<Longrightarrow> \<not> unat (x - ptr) < n" "own ptr = None"
proof -
  have wf: "heap_wf s L fr FL" and oks: "\<And>ptr a. own ptr = Some a \<Longrightarrow> owned_ok s L fr FL ptr a"
    and dj: "\<And>ptr ptr' a a' x. own ptr = Some a \<Longrightarrow> own ptr' = Some a' \<Longrightarrow> ptr \<noteq> ptr' \<Longrightarrow> extent s ptr (fst a) x \<Longrightarrow> \<not> extent s ptr' (fst a') x"
    using inv unfolding memory_inv_def by blast+
  have new': "\<not> extent s ptr g x" if "own q = Some a" "extent s q (fst a) x" for q a x using new that by (metis prod.collapse)
  show b: "\<not> unat (x - ptr) < n" if "own q = Some (g', n')" "unat (x - q) < n'" for q g' n' x
    using new that(1) owned_bytes(4)[OF wf oks[OF that(1)] that(2)] owned_bytes(4)[OF wf ok] by blast
  show "own ptr = None"
  proof (rule ccontr)
    assume "own ptr \<noteq> None"
    then obtain g' n' where "own ptr = Some (g', n')" by auto
    then show False using b[of ptr g' n' ptr] owned_bytes(1)[OF wf oks[of ptr "(g', n')"]] owned_bytes(1)[OF wf ok] by simp
  qed
  show "memory_inv s (own(ptr \<mapsto> (g, n))) L fr FL"
    unfolding memory_inv_def
  proof (intro conjI allI impI)
    fix q q' a a' x
    assume q: "(own(ptr \<mapsto> (g, n))) q = Some a" "(own(ptr \<mapsto> (g, n))) q' = Some a'" "q \<noteq> q'" "extent s q (fst a) x"
    show "\<not> extent s q' (fst a') x"
    proof (cases "q = ptr \<or> q' = ptr")
      case True
      then show ?thesis using q new'[of q a x] new'[of q' a' x] by (auto split: if_splits)
    next
      case False
      then show ?thesis using q dj[of q a q' a' x] by simp
    qed
  next
    fix q a assume "(own(ptr \<mapsto> (g, n))) q = Some a"
    then show "owned_ok s L fr FL q a" using ok oks by (auto split: if_splits)
  qed (rule wf)
qed

lemma memory_invD:
  assumes "memory_inv s own L fr FL"
  shows "heap_wf s L fr FL" "own ptr = Some a \<Longrightarrow> owned_ok s L fr FL ptr a"
    "own q = Some (g, n) \<Longrightarrow> own q' = Some (g', n') \<Longrightarrow> q \<noteq> q' \<Longrightarrow> extent s q g x \<Longrightarrow> \<not> extent s q' g' x"
  using assms unfolding memory_inv_def by (blast, blast, metis fst_conv)

lemma extent_mem [simp]: "extent (s\<lparr>mem := m\<rparr>) ptr g x = extent s ptr g x"
  by (cases g) simp_all

lemma heap_goes_write: "heap_wf (s\<lparr>mem := m\<rparr>) L fr FL \<Longrightarrow> heap_goes s {} (s\<lparr>mem := m\<rparr>) L fr FL"
  by (simp add: heap_goes_def)

lemma object_extent:
  assumes "owned_ok s L fr FL ptr (Object c, n)"
  obtains p k where "(c, p, k) \<in> heap_live s L fr" "ptr = obj_ptr s (c, p, k)" "\<And>x. extent s ptr (Object c) x = in_obj s (c, p, k) x"
  using assms that by (auto simp: in_object_def)

lemma block_extent:
  assumes "owned_ok s L fr FL ptr (g, n)" "\<And>c. g \<noteq> Object c" "extent s ptr g x"
  shows "unmanaged s L FL x"
  using assms by (cases g) (auto simp: block_owned_def)

lemma owned_not_free:
  assumes wf: "heap_wf s L fr FL" and ok: "owned_ok s L fr FL q (g, n)" and x: "extent s q g x"
  shows "unat (x - hhdm_offset s) \<notin> free_bytes s FL"
proof (cases "\<exists>c. g = Object c")
  case True
  then obtain c where c: "g = Object c" ..
  obtain p k where o: "(c, p, k) \<in> heap_live s L fr" "in_obj s (c, p, k) x" using object_extent[OF ok[unfolded c]] x c by metis
  note h = heap_object[OF wf o(1)]
  show ?thesis using heap_slab(2)[OF wf h(1,3) h(5)] o(2) by simp
next
  case False
  then show ?thesis using block_extent[OF ok _ x] by (auto simp: unmanaged_def)
qed

lemma keptI:
  assumes ok: "owned_ok s L fr FL ptr (g, n)"
    and obj: "\<And>c p k. g = Object c \<Longrightarrow> (c, p, k) \<in> heap_live s L fr \<Longrightarrow> ptr = obj_ptr s (c, p, k) \<Longrightarrow>
      (c, p, k) \<in> heap_live t L' fr' \<and> (\<forall>x. in_obj s (c, p, k) x \<longrightarrow> mem t x = mem s x)"
    and blk: "\<And>x. unmanaged s L FL x \<Longrightarrow> extent s ptr g x \<Longrightarrow> unmanaged t L' FL' x \<and> mem t x = mem s x"
  shows "kept s L fr t L' fr' FL' ptr g"
proof (cases g)
  case (Object c)
  obtain p k where o: "(c, p, k) \<in> heap_live s L fr" "ptr = obj_ptr s (c, p, k)" "\<And>x. extent s ptr (Object c) x = in_obj s (c, p, k) x"
    using object_extent[OF ok[unfolded Object]] by metis
  then show ?thesis using obj[OF Object] by (auto simp: kept_def Object)
qed (use block_extent[OF ok] blk in \<open>auto simp: kept_def\<close>)

text \<open>A step that keeps every object in use and everything unmanaged keeps every owner.\<close>

lemma memory_inv_all:
  assumes inv: "memory_inv s own L fr FL" and go: "heap_goes s (heap_live s L fr) t L' fr' FL'" and lv: "heap_live s L fr \<subseteq> heap_live t L' fr'"
    and um: "\<forall>x. unmanaged s L FL x \<longrightarrow> unmanaged t L' FL' x \<and> mem t x = mem s x"
  shows "memory_inv t own L' fr' FL'" "\<And>ptr g n x. own ptr = Some (g, n) \<Longrightarrow> unat (x - ptr) < n \<Longrightarrow> mem t x = mem s x"
proof -
  have "kept s L fr t L' fr' FL' ptr g" if "own ptr = Some (g, n)" for ptr g n
  proof (rule keptI[OF memory_invD(2)[OF inv that]])
    show "(c, p, k) \<in> heap_live t L' fr' \<and> (\<forall>x. in_obj s (c, p, k) x \<longrightarrow> mem t x = mem s x)" if "(c, p, k) \<in> heap_live s L fr" for c p k
      using that lv go unfolding heap_goes_def by blast
  qed (use um in blast)
  then have "\<forall>ptr g n. own ptr = Some (g, n) \<longrightarrow> kept s L fr t L' fr' FL' ptr g" by blast
  note st = memory_inv_step[OF inv go map_le_refl this]
  show "memory_inv t own L' fr' FL'" by (rule st)
  show "\<And>ptr g n x. own ptr = Some (g, n) \<Longrightarrow> unat (x - ptr) < n \<Longrightarrow> mem t x = mem s x" by (rule st)
qed

text \<open>Writing to the extent of one owner, seen by the others.\<close>

lemma memory_inv_write:
  assumes inv: "memory_inv s own L fr FL" and wf: "heap_wf (s\<lparr>mem := m\<rparr>) L fr FL" and sub: "own' \<subseteq>\<^sub>m own"
    and same: "\<forall>q g n x. own' q = Some (g, n) \<longrightarrow> extent s q g x \<longrightarrow> m x = mem s x"
  shows "memory_inv (s\<lparr>mem := m\<rparr>) own' L fr FL" "\<And>ptr g n x. own' ptr = Some (g, n) \<Longrightarrow> unat (x - ptr) < n \<Longrightarrow> m x = mem s x"
proof -
  have o: "own q = Some a" if "own' q = Some a" for q a using sub that by (metis map_le_def domI)
  have "kept s L fr (s\<lparr>mem := m\<rparr>) L fr FL ptr g" if q: "own' ptr = Some (g, n)" for ptr g n
  proof (rule keptI[OF memory_invD(2)[OF inv o[OF q]]])
    fix c p k assume g: "g = Object c" "(c, p, k) \<in> heap_live s L fr" "ptr = obj_ptr s (c, p, k)"
    have "m x = mem s x" if "in_obj s (c, p, k) x" for x using same[rule_format, OF q, of x] that g by (simp add: in_object_def)
    then show "(c, p, k) \<in> heap_live (s\<lparr>mem := m\<rparr>) L fr \<and> (\<forall>x. in_obj s (c, p, k) x \<longrightarrow> mem (s\<lparr>mem := m\<rparr>) x = mem s x)" using g by simp
  next
    show "unmanaged (s\<lparr>mem := m\<rparr>) L FL x \<and> mem (s\<lparr>mem := m\<rparr>) x = mem s x" if "unmanaged s L FL x" "extent s ptr g x" for x
      using that same q by auto
  qed
  then have "\<forall>ptr g n. own' ptr = Some (g, n) \<longrightarrow> kept s L fr (s\<lparr>mem := m\<rparr>) L fr FL ptr g" by blast
  note st = memory_inv_step[OF inv heap_goes_write[OF wf] sub this]
  show "memory_inv (s\<lparr>mem := m\<rparr>) own' L fr FL" by (rule st)
  show "\<And>ptr g n x. own' ptr = Some (g, n) \<Longrightarrow> unat (x - ptr) < n \<Longrightarrow> m x = mem s x" using st(2) by simp
qed

lemma map_le_drop: "own(ptr := None) \<subseteq>\<^sub>m own"
  by (auto simp: map_le_def)

section \<open>The operations\<close>

lemma inv_slab_alloc:
  assumes inv: "memory_inv s own L fr FL" and c: "c < 8" and r: "slab_alloc s c = Some (ptr, t)" "ptr \<noteq> NULL" and n: "0 < n" "n \<le> csize s c"
  obtains L' fr' FL' where "memory_inv t (own(ptr \<mapsto> (Object c, n))) L' fr' FL'"
    "\<And>q g n' x. own q = Some (g, n') \<Longrightarrow> unat (x - q) < n' \<Longrightarrow> mem t x = mem s x \<and> \<not> unat (x - ptr) < n" "own ptr = None"
proof -
  note wf = memory_invD(1)[OF inv]
  from wf c show thesis
  proof (cases rule: heap_slab_alloc)
    case none
    then show thesis using r by simp
  next
    case (object p k t' L' fr' FL')
    have e: "ptr = slab_obj p (csize s c) k" "t' = t" using object(1) r(1) by simp_all
    note ob = object[unfolded e(2)]
    have z: "csize t c = csize s c" and wt: "heap_wf t L' fr' FL'" using ob(5) c by (simp_all add: heap_goes_def)
    have sub: "heap_live s L fr \<subseteq> heap_live t L' fr'" using ob(4) by blast
    have um: "\<forall>x. unmanaged s L FL x \<longrightarrow> unmanaged t L' FL' x \<and> mem t x = mem s x" using ob(6) by blast
    note all = memory_inv_all[OF inv ob(5) sub um]
    have ok: "owned_ok t L' fr' FL' ptr (Object c, n)" using ob(4) n z e(1) by auto
    have "\<not> extent t ptr (Object c) x" if q: "own q = Some (g, n')" "extent t q g x" for q g n' x
    proof
      assume x: "extent t ptr (Object c) x"
      have xo: "in_obj t (c, p, k) x" using x z e(1) by (simp add: in_object_def)
      have oq: "owned_ok t L' fr' FL' q (g, n')" by (rule memory_invD(2)[OF all(1) q(1)])
      show False
      proof (cases "\<exists>d. g = Object d")
        case True
        then obtain d where g: "g = Object d" ..
        obtain p' k' where o: "(d, p', k') \<in> heap_live s L fr" "q = slab_obj p' (csize s d) k'"
          using memory_invD(2)[OF inv q(1)] g by auto
        have "csize t d = csize s d" using ob(5) heap_object(1)[OF wf o(1)] by (simp add: heap_goes_def)
        then have "in_obj t (d, p', k') x" using q(2) o(2) g by (simp add: in_object_def)
        moreover have "(d, p', k') \<noteq> (c, p, k)" using o(1) ob(3) by auto
        ultimately show False using heap_objects_apart[OF wt, of "(d, p', k')" "(c, p, k)" x] o(1) ob(4) xo by simp
      next
        case False
        then have "unmanaged t L' FL' x" using block_extent[OF oq _ q(2)] by blast
        then show False using heap_object_managed[OF wt _ xo] ob(4) by simp
      qed
    qed
    then have "\<forall>q g' n' x. own q = Some (g', n') \<longrightarrow> extent t q g' x \<longrightarrow> \<not> extent t ptr (Object c) x" by blast
    note add = memory_inv_add[OF all(1) ok this]
    show thesis
    proof (rule that[OF add(1) _ add(3)])
      show "mem t x = mem s x \<and> \<not> unat (x - ptr) < n" if "own q = Some (g, n')" "unat (x - q) < n'" for q g n' x
        using all(2)[OF that] add(2)[OF that] by blast
    qed
  qed
qed


text \<open>The buddy allocator hands out a block that nobody owns.\<close>

lemma inv_pages_alloc:
  assumes inv: "memory_inv s own L fr FL" and al: "unat order \<le> 20" "buddy_alloc_pages s order = (phys, t)" "phys \<noteq> 0"
  obtains FL' where "memory_inv t own L fr FL'" "block_owned t L FL' phys (unat order)" "hhdm_offset t = hhdm_offset s"
    "\<And>q g n x. own q = Some (g, n) \<Longrightarrow> extent t q g x \<Longrightarrow> unat (x - hhdm_offset s) \<notin> brange phys (unat order)"
    "\<And>q g n x. own q = Some (g, n) \<Longrightarrow> unat (x - q) < n \<Longrightarrow> mem t x = mem s x"
proof -
  note wf = memory_invD(1)[OF inv]
  obtain FL' i where b: "heap_goes s (heap_live s L fr) t L fr FL'" "heap_live t L fr = heap_live s L fr"
    "i < unat (buddy_arena_counter s)" "block_ok s i (unat order) phys" "brange phys (unat order) \<subseteq> free_bytes s FL"
    and um: "\<And>x. unmanaged s L FL x \<Longrightarrow> unmanaged t L FL' x \<and> mem t x = mem s x \<and> unat (x - hhdm_offset s) \<notin> brange phys (unat order)"
    and new: "\<And>x. unat (x - hhdm_offset s) \<in> brange phys (unat order) \<Longrightarrow> unmanaged t L FL' x"
    using heap_buddy_alloc[OF wf al] by metis
  have sh: "same_shape s t" and z: "\<And>c. c < 8 \<Longrightarrow> csize t c = csize s c" using b(1) by (simp_all add: heap_goes_def)
  then have h: "hhdm_offset t = hhdm_offset s" "buddy_arena_counter t = buddy_arena_counter s" by (simp_all add: same_shape_def)
  have ext: "extent t q g x = extent s q g x" if q: "own q = Some (g, n)" for q g n x
  proof (cases g)
    case (Object c)
    then obtain p k where "(c, p, k) \<in> heap_live s L fr" using memory_invD(2)[OF inv q] by auto
    then show ?thesis using z[of c] Object by (simp add: heap_live_def)
  qed (simp_all add: h)
  have "\<forall>x. unmanaged s L FL x \<longrightarrow> unmanaged t L FL' x \<and> mem t x = mem s x" using um by blast
  note all = memory_inv_all[OF inv b(1) _ this, unfolded b(2), OF subset_refl]
  show thesis
  proof (rule that[OF all(1) _ h(1) _ all(2)])
    show "block_owned t L FL' phys (unat order)" using b(3,4) new by (auto simp: block_owned_def h block_ok_shape[OF sh])
    show "unat (x - hhdm_offset s) \<notin> brange phys (unat order)" if "own q = Some (g, n)" "extent t q g x" for q g n x
      using owned_not_free[OF wf memory_invD(2)[OF inv that(1)], of x] ext[OF that(1)] that(2) b(5) by blast
  qed
qed

lemma inv_get_pages:
  assumes inv: "memory_inv s own L fr FL" and al: "unat order \<le> 20" "buddy_alloc_pages s order = (phys, t)" "phys \<noteq> 0"
    and ptr: "ptr = phys_to_virt s phys" and n: "n = 2 ^ (12 + unat order)"
  obtains FL' where "memory_inv t (own(ptr \<mapsto> (Pages (unat order), n))) L fr FL'"
    "\<And>q g n' x. own q = Some (g, n') \<Longrightarrow> unat (x - q) < n' \<Longrightarrow> mem t x = mem s x \<and> \<not> unat (x - ptr) < n" "own ptr = None"
proof -
  obtain FL' where a: "memory_inv t own L fr FL'" "block_owned t L FL' phys (unat order)" "hhdm_offset t = hhdm_offset s"
    and dj: "\<And>q g n x. own q = Some (g, n) \<Longrightarrow> extent t q g x \<Longrightarrow> unat (x - hhdm_offset s) \<notin> brange phys (unat order)"
    and same: "\<And>q g n x. own q = Some (g, n) \<Longrightarrow> unat (x - q) < n \<Longrightarrow> mem t x = mem s x"
    using inv_pages_alloc[OF inv al] by metis
  have e: "ptr - hhdm_offset t = phys" by (simp add: ptr phys_to_virt_def a(3))
  have ok: "owned_ok t L fr FL' ptr (Pages (unat order), n)" using a(2) e n by simp
  have "\<not> extent t ptr (Pages (unat order)) x" if "own q = Some (g, n')" "extent t q g x" for q g n' x
    using dj[OF that] e a(3) by simp
  then have "\<forall>q g' n' x. own q = Some (g', n') \<longrightarrow> extent t q g' x \<longrightarrow> \<not> extent t ptr (Pages (unat order)) x" by blast
  note add = memory_inv_add[OF a(1) ok this]
  show thesis
  proof (rule that[OF add(1) _ add(3)])
    show "mem t x = mem s x \<and> \<not> unat (x - ptr) < n" if "own q = Some (g, n')" "unat (x - q) < n'" for q g n' x
      using same[OF that] add(2)[OF that] by blast
  qed
qed

lemma framed_as_framed:
  assumes "n < 2 ^ 32" "k \<le> 20"
  shows "framed_as (framed m hdr (of_nat n) (of_nat k)) (hdr + 16) k n"
proof -
  have "unat (of_nat n :: u64) < 2 ^ 32" using assms(1) by (simp add: unat_of_nat)
  moreover have "(ucast (of_nat n :: u64) :: u32) = of_nat n"
    using assms(1) by (simp add: word_unat_eq_iff unsigned_ucast_eq unat_of_nat take_bit_nat_eq_self)
  ultimately show ?thesis using framed_fields(2-5)[of "of_nat n" m hdr "of_nat k"] by (simp only: framed_as_def add_diff_cancel_right' simp_thms)
qed

lemma inv_block_alloc:
  assumes inv: "memory_inv s own L fr FL" and al: "unat order \<le> 20" "buddy_alloc_pages s order = (phys, t0)" "phys \<noteq> 0"
    and hdr: "hdr = phys_to_virt t0 phys" and t: "t = t0\<lparr>mem := framed (mem t0) hdr sz order\<rparr>"
    and n: "0 < unat sz" "unat sz + 24 \<le> 2 ^ (12 + unat order)"
  obtains FL' where "memory_inv t (own(hdr + 16 \<mapsto> (Block (unat order), unat sz))) L fr FL'"
    "\<And>q g n' x. own q = Some (g, n') \<Longrightarrow> unat (x - q) < n' \<Longrightarrow> mem t x = mem s x \<and> \<not> unat (x - (hdr + 16)) < unat sz" "own (hdr + 16) = None"
proof -
  obtain FL' where a: "memory_inv t0 own L fr FL'" "block_owned t0 L FL' phys (unat order)" "hhdm_offset t0 = hhdm_offset s"
    and dj: "\<And>q g n x. own q = Some (g, n) \<Longrightarrow> extent t0 q g x \<Longrightarrow> unat (x - hhdm_offset s) \<notin> brange phys (unat order)"
    and same: "\<And>q g n x. own q = Some (g, n) \<Longrightarrow> unat (x - q) < n \<Longrightarrow> mem t0 x = mem s x"
    using inv_pages_alloc[OF inv al] by metis
  note wf0 = memory_invD(1)[OF a(1)]
  obtain i where i: "i < unat (buddy_arena_counter t0)" "block_ok t0 i (unat order) phys" using a(2) by (auto simp: block_owned_def)
  note r = block_room[OF wf0 i]
  have h: "hdr = phys + hhdm_offset t0" by (simp add: hdr phys_to_virt_def)
  have "(2 :: nat) ^ (12 + unat order) \<le> 2 ^ 32" using al(1) by (intro power_increasing) simp_all
  then have s32: "unat sz < 2 ^ 32" using n(2) by simp
  have out: "framed (mem t0) hdr sz order x = mem t0 x" if x: "unat (x - hhdm_offset t0) \<notin> brange phys (unat order)" for x
  proof -
    have far: "2 ^ (12 + unat order) \<le> unat (x - hdr)" using x brange_offset[OF r(1), of x] unfolding h by (simp add: not_less)
    then have "16 \<le> unat (x - hdr)" "unat sz + 24 \<le> unat (x - hdr)" using n(2) by linarith+
    then show ?thesis by (intro framed_outside[OF s32]) simp_all
  qed
  have wt: "heap_wf t L fr FL'" unfolding t using out a(2) by (intro heap_write_unmanaged[OF wf0]) (auto simp: block_owned_def)
  have sameF: "framed (mem t0) hdr sz order x = mem t0 x" if "own q = Some (g, n')" "extent t0 q g x" for q g n' x
    using dj[OF that] a(3) by (intro out) simp
  then have "\<forall>q g n x. own q = Some (g, n) \<longrightarrow> extent t0 q g x \<longrightarrow> framed (mem t0) hdr sz order x = mem t0 x" by blast
  note wr = memory_inv_write[OF a(1) wt[unfolded t] map_le_refl this, folded t]
  have e: "hdr + 16 - 16 - hhdm_offset t = phys" by (simp add: h t)
  have "framed_as (mem t) (hdr + 16) (unat order) (unat sz)"
    using framed_as_framed[OF s32, of "unat order" "mem t0" hdr] al(1) by (simp add: t)
  moreover have "block_owned t L FL' phys (unat order)" using a(2) by (simp add: t block_owned_def block_ok_def)
  ultimately have ok: "owned_ok t L fr FL' (hdr + 16) (Block (unat order), unat sz)" using n unfolding owned_ok.simps e by simp
  have "\<not> extent t (hdr + 16) (Block (unat order)) x" if "own q = Some (g, n')" "extent t q g x" for q g n' x
  proof -
    have "extent t0 q g x" using that(2) by (simp add: t)
    from dj[OF that(1) this] show ?thesis unfolding extent.simps e by (simp add: t a(3))
  qed
  then have "\<forall>q g' n' x. own q = Some (g', n') \<longrightarrow> extent t q g' x \<longrightarrow> \<not> extent t (hdr + 16) (Block (unat order)) x" by blast
  note add = memory_inv_add[OF wr(1) ok this]
  show thesis
  proof (rule that[OF add(1) _ add(3)])
    show "mem t x = mem s x \<and> \<not> unat (x - (hdr + 16)) < unat sz" if "own q = Some (g, n')" "unat (x - q) < n'" for q g n' x
      using same[OF that] add(2)[OF that] wr(2)[OF that] by (simp add: t)
  qed
qed

lemma memory_inv_mono: "memory_inv s own L fr FL \<Longrightarrow> own' \<subseteq>\<^sub>m own \<Longrightarrow> memory_inv s own' L fr FL"
  unfolding memory_inv_def map_le_def by (metis domI)

lemma inv_write:
  assumes inv: "memory_inv s own L fr FL" and o: "own ptr = Some (g, n)" and m: "\<And>x. n \<le> unat (x - ptr) \<Longrightarrow> m x = mem s x"
  shows "memory_inv (s\<lparr>mem := m\<rparr>) own L fr FL" "\<And>q g' n' x. own q = Some (g', n') \<Longrightarrow> q \<noteq> ptr \<Longrightarrow> unat (x - q) < n' \<Longrightarrow> m x = mem s x"
proof -
  note wf = memory_invD(1)[OF inv] and ok = memory_invD(2)[OF inv o]
  have out: "m x = mem s x" if "\<not> extent s ptr g x" for x using owned_bytes(4)[OF wf ok] that by (intro m) (metis not_less)
  have wt: "heap_wf (s\<lparr>mem := m\<rparr>) L fr FL"
  proof (cases "\<exists>c. g = Object c")
    case True
    then obtain c where c: "g = Object c" ..
    obtain p k where ob: "(c, p, k) \<in> heap_live s L fr" "\<And>x. extent s ptr (Object c) x = in_obj s (c, p, k) x"
      using object_extent[OF ok[unfolded c]] by metis
    show ?thesis by (rule heap_write_object[OF wf ob(1)]) (use out ob(2) c in blast)
  next
    case False
    show ?thesis by (rule heap_write_unmanaged[OF wf]) (use out block_extent[OF ok] False in blast)
  qed
  let ?own = "own(ptr := None)"
  have sub: "?own \<subseteq>\<^sub>m own" by (rule map_le_drop)
  have dj: "\<not> extent s ptr g x" if "?own q = Some (g', n')" "extent s q g' x" for q g' n' x
    using memory_invD(3)[OF inv, of q g' n' ptr g n x] that o by (auto split: if_splits)
  have "\<forall>q g n x. ?own q = Some (g, n) \<longrightarrow> extent s q g x \<longrightarrow> m x = mem s x" using out dj by blast
  note wr = memory_inv_write[OF inv wt sub this]
  show "m x = mem s x" if "own q = Some (g', n')" "q \<noteq> ptr" "unat (x - q) < n'" for q g' n' x using wr(2)[of q g' n' x] that by simp
  have "owned_ok (s\<lparr>mem := m\<rparr>) L fr FL ptr (g, n)"
  proof (cases g)
    case (Object c)
    then show ?thesis using ok by simp
  next
    case (Block k)
    obtain i where i: "i < unat (buddy_arena_counter s)" "block_ok s i k (ptr - 16 - hhdm_offset s)"
      and f: "framed_as (mem s) ptr k n" and n: "n + 24 \<le> 2 ^ (12 + k)" using ok by (auto simp: Block block_owned_def)
    have "framed_as m ptr k n"
    proof (rule framed_as_cong[OF f n block_room(3)[OF wf i]], rule m)
      fix x define d where "d = x - (ptr - 16)"
      assume "unat (x - (ptr - 16)) < n + 24" "unat (x - (ptr - 16)) < 16 \<or> n + 16 \<le> unat (x - (ptr - 16))"
      then have d: "unat d < 16 \<or> n + 16 \<le> unat d" by (simp add: d_def)
      have e: "x - ptr = d - 16" by (simp add: d_def)
      have "n + 24 < 2 ^ 64" using block_room(1)[OF wf i] n by linarith
      then show "n \<le> unat (x - ptr)" unfolding e unat_sub_if_size word_size using d by (auto simp del: power_Suc)
    qed
    then show ?thesis using ok by (simp add: Block block_owned_def block_ok_def)
  next
    case (Pages k)
    then show ?thesis using ok by (simp add: block_owned_def block_ok_def)
  qed
  moreover have "\<forall>q g' n' x. ?own q = Some (g', n') \<longrightarrow> extent (s\<lparr>mem := m\<rparr>) q g' x \<longrightarrow> \<not> extent (s\<lparr>mem := m\<rparr>) ptr g x"
    using dj unfolding extent_mem by blast
  ultimately have "memory_inv (s\<lparr>mem := m\<rparr>) (?own(ptr \<mapsto> (g, n))) L fr FL" by (rule memory_inv_add(1)[OF wr(1)])
  moreover have "?own(ptr \<mapsto> (g, n)) = own" using o by auto
  ultimately show "memory_inv (s\<lparr>mem := m\<rparr>) own L fr FL" by simp
qed

lemma inv_kfree_object:
  assumes inv: "memory_inv s own L fr FL" and o: "own ptr = Some (Object c, n)"
  obtains t L' fr' where "kfree s ptr = Some t" "memory_inv t (own(ptr := None)) L' fr' FL"
    "\<And>q g' n' x. (own(ptr := None)) q = Some (g', n') \<Longrightarrow> unat (x - q) < n' \<Longrightarrow> mem t x = mem s x"
proof -
  note wf = memory_invD(1)[OF inv] and ok = memory_invD(2)[OF inv o]
  let ?own = "own(ptr := None)"
  have sub: "?own \<subseteq>\<^sub>m own" by (rule map_le_drop)
  obtain p k where ob: "(c, p, k) \<in> heap_live s L fr" "ptr = slab_obj p (csize s c) k" using ok by auto
  note h = heap_object[OF wf ob(1)]
  have kf: "kfree s ptr = (if load64 (mem s) ptr = FREED_PATTERN then Some s else slab_free s p ptr)"
    by (rule kfree_object[OF heap_wf_cache(1)[OF wf h(1)] h(2) heap_wf_cache(3)[OF wf h(1)] ob(2)])
  show thesis
  proof (cases "load64 (mem s) ptr = FREED_PATTERN")
    case True
    then show thesis using kf by (intro that[OF _ memory_inv_mono[OF inv sub]]) simp_all
  next
    case False
    obtain t L' fr' where t: "slab_free s p (obj_ptr s (c, p, k)) = Some t" "heap_live t L' fr' = heap_live s L fr - {(c, p, k)}"
        "heap_goes s (heap_live s L fr - {(c, p, k)}) t L' fr' FL"
      and um: "\<And>x. unmanaged s L FL x \<Longrightarrow> unmanaged t L' FL x \<and> mem t x = mem s x"
      using heap_slab_free[OF wf ob(1)] by metis
    have "kept s L fr t L' fr' FL q g'" if q: "?own q = Some (g', n')" for q g' n'
    proof (rule keptI[OF memory_invD(2)[OF inv, of q "(g', n')"]])
      show "own q = Some (g', n')" using q by (simp split: if_splits)
      fix d p' k' assume d: "(d, p', k') \<in> heap_live s L fr" "q = obj_ptr s (d, p', k')"
      have "(d, p', k') \<noteq> (c, p, k)" using d(2) ob(2) q by auto
      then show "(d, p', k') \<in> heap_live t L' fr' \<and> (\<forall>x. in_obj s (d, p', k') x \<longrightarrow> mem t x = mem s x)"
        using d(1) t(2,3) unfolding heap_goes_def by blast
    qed (rule um)
    then have "\<forall>q g' n'. ?own q = Some (g', n') \<longrightarrow> kept s L fr t L' fr' FL q g'" by blast
    note st = memory_inv_step[OF inv t(3) sub this]
    show thesis using kf t(1) False ob(2) by (intro that[OF _ st]) simp_all
  qed
qed

lemma inv_pages_free:
  assumes inv: "memory_inv s own L fr FL" and b: "block_owned s L FL phys k"
    and dj: "\<And>q g n x. own q = Some (g, n) \<Longrightarrow> extent s q g x \<Longrightarrow> unat (x - hhdm_offset s) \<notin> brange phys k"
  obtains t FL' where "buddy_free_pages s phys (of_nat k) = Some t" "memory_inv t own L fr FL'"
    "\<And>q g' n' x. own q = Some (g', n') \<Longrightarrow> unat (x - q) < n' \<Longrightarrow> mem t x = mem s x"
proof -
  note wf = memory_invD(1)[OF inv]
  obtain i where i: "i < unat (buddy_arena_counter s)" "block_ok s i k phys" using b by (auto simp: block_owned_def)
  have k: "unat (of_nat k :: u8) = k" using block_room(3)[OF wf i] by (simp add: unat_of_nat)
  have ub: "unmanaged s L FL x" if "unat (x - hhdm_offset s) \<in> brange phys (unat (of_nat k :: u8))" for x
    using b that unfolding k block_owned_def by blast
  obtain t FL' where t: "buddy_free_pages s phys (of_nat k) = Some t" "heap_goes s (heap_live s L fr) t L fr FL'" "heap_live t L fr = heap_live s L fr"
    and um: "\<And>x. unmanaged s L FL x \<Longrightarrow> unat (x - hhdm_offset s) \<notin> brange phys (unat (of_nat k :: u8)) \<Longrightarrow> unmanaged t L FL' x \<and> mem t x = mem s x"
    using heap_buddy_free[OF wf i(1), of "of_nat k" phys] i(2) ub unfolding k by metis
  have "kept s L fr t L fr FL' q g" if q: "own q = Some (g, n)" for q g n
  proof (rule keptI[OF memory_invD(2)[OF inv q]])
    show "(c, p, j) \<in> heap_live t L fr \<and> (\<forall>x. in_obj s (c, p, j) x \<longrightarrow> mem t x = mem s x)" if "(c, p, j) \<in> heap_live s L fr" for c p j
      using that t(2,3) unfolding heap_goes_def by blast
    show "unmanaged t L FL' x \<and> mem t x = mem s x" if "unmanaged s L FL x" "extent s q g x" for x
      using um[OF that(1)] dj[OF q that(2)] k by simp
  qed
  then have "\<forall>q g n. own q = Some (g, n) \<longrightarrow> kept s L fr t L fr FL' q g" by blast
  note st = memory_inv_step[OF inv t(2) map_le_refl this]
  show thesis by (rule that[OF t(1) st])
qed

lemma dropped_apart:
  assumes inv: "memory_inv s own L fr FL" and o: "own ptr = Some (g, n)" and q: "(own(ptr := None)) q = Some (g', n')" "extent s q g' x"
  shows "\<not> extent s ptr g x"
  using memory_invD(3)[OF inv, of q g' n' ptr g n x] q o by (auto split: if_splits)

lemma inv_put_pages:
  assumes inv: "memory_inv s own L fr FL" and o: "own ptr = Some (Pages k, n)"
  obtains t FL' where "buddy_free_pages s (virt_to_phys s ptr) (of_nat k) = Some t" "memory_inv t (own(ptr := None)) L fr FL'"
    "\<And>q g' n' x. (own(ptr := None)) q = Some (g', n') \<Longrightarrow> unat (x - q) < n' \<Longrightarrow> mem t x = mem s x"
proof -
  have b: "block_owned s L FL (virt_to_phys s ptr) k" using memory_invD(2)[OF inv o] by (simp add: virt_to_phys_def)
  show thesis
  proof (rule inv_pages_free[OF memory_inv_mono[OF inv map_le_drop] b])
    show "unat (x - hhdm_offset s) \<notin> brange (virt_to_phys s ptr) k" if "(own(ptr := None)) q = Some (g, n)" "extent s q g x" for q g n x
      using dropped_apart[OF inv o that] by (simp add: virt_to_phys_def)
  qed (rule that)
qed

lemma inv_kfree_block:
  assumes inv: "memory_inv s own L fr FL" and o: "own ptr = Some (Block k, n)"
    and away: "sl_magic (mem s) (ptr AND NOT (2 * PAGE_FRAME_SIZE - 1)) \<noteq> SLAB_MAGIC"
  obtains t FL' where "kfree s ptr = Some t" "memory_inv t (own(ptr := None)) L fr FL'"
    "\<And>q g' n' x. (own(ptr := None)) q = Some (g', n') \<Longrightarrow> unat (x - q) < n' \<Longrightarrow> mem t x = mem s x"
proof -
  note wf = memory_invD(1)[OF inv] and ok = memory_invD(2)[OF inv o]
  let ?own = "own(ptr := None)" and ?m = "store64 (mem s) (ptr - 16) FREED_PATTERN" let ?p = "ptr - 16 - hhdm_offset s"
  obtain i where i: "i < unat (buddy_arena_counter s)" "block_ok s i k ?p" and b: "block_owned s L FL ?p k"
    and f: "framed_as (mem s) ptr k n" and n: "0 < n" "n + 24 \<le> 2 ^ (12 + k)" using ok by (auto simp: block_owned_def)
  note r = block_room[OF wf i]
  have "(2 :: nat) ^ (12 + k) \<le> 2 ^ 32" using r(3) by (intro power_increasing) simp_all
  then have n32: "n < 2 ^ 32" using n(2) by simp
  then have u: "(ucast (of_nat n :: u32) :: u64) = of_nat n"
    by (simp add: word_unat_eq_iff unsigned_ucast_eq unat_of_nat take_bit_nat_eq_self)
  have "disj_range (ptr - 16) 8 (ptr - 16 + 12) 1" unfolding disj_range_same_base by code_simp
  then have ord: "ah_order ?m (ptr - 16) = of_nat k" using f by (simp add: framed_as_def ah_order_def load8_store64_disj)
  have nn: "ptr \<noteq> NULL" by (rule owned_bytes(3)[OF wf ok])
  have k: "kfree s ptr = buddy_free_pages (s\<lparr>mem := ?m\<rparr>) (virt_to_phys s (ptr - 16)) (of_nat k)"
    using nn away f u ord
    by (simp add: kfree_def slab_find_containing_def kfree_large_def Let_def framed_as_def sizeof_alloc_header_def ALLOC_MAGIC_def FREED_PATTERN_def
        virt_to_phys_def)
  have out: "?m x = mem s x" if "\<not> extent s ptr (Block k) x" for x
  proof -
    have "\<not> unat (x - (ptr - 16)) < 2 ^ (12 + k)" using that brange_offset[OF r(1), of x] by simp
    then have "\<not> unat (x - (ptr - 16)) < 8" using n(2) by linarith
    then show ?thesis by (intro store64_outside) (simp add: word_less_nat_alt)
  qed
  have wt: "heap_wf (s\<lparr>mem := ?m\<rparr>) L fr FL" by (rule heap_write_unmanaged[OF wf]) (use out block_extent[OF ok] in blast)
  have "\<forall>q g n x. ?own q = Some (g, n) \<longrightarrow> extent s q g x \<longrightarrow> ?m x = mem s x" using out dropped_apart[OF inv o] by blast
  note wr = memory_inv_write[OF inv wt map_le_drop this]
  have b': "block_owned (s\<lparr>mem := ?m\<rparr>) L FL (virt_to_phys s (ptr - 16)) k" using b by (simp add: block_owned_def block_ok_def virt_to_phys_def)
  have dj: "unat (x - hhdm_offset (s\<lparr>mem := ?m\<rparr>)) \<notin> brange (virt_to_phys s (ptr - 16)) k"
    if "?own q = Some (g, n)" "extent (s\<lparr>mem := ?m\<rparr>) q g x" for q g n x
    using dropped_apart[OF inv o that(1)] that(2) unfolding extent_mem by (simp add: virt_to_phys_def)
  show thesis
  proof (rule inv_pages_free[OF wr(1) b' dj])
    fix t FL' assume t: "buddy_free_pages (s\<lparr>mem := ?m\<rparr>) (virt_to_phys s (ptr - 16)) (of_nat k) = Some t" "memory_inv t ?own L fr FL'"
      and same: "\<And>q g' n' x. ?own q = Some (g', n') \<Longrightarrow> unat (x - q) < n' \<Longrightarrow> mem t x = mem (s\<lparr>mem := ?m\<rparr>) x"
    show thesis
    proof (rule that[OF _ t(2)])
      show "kfree s ptr = Some t" using k t(1) by simp
      show "mem t x = mem s x" if "?own q = Some (g', n')" "unat (x - q) < n'" for q g' n' x
        using same[OF that] wr(2)[OF that] by simp
    qed
  qed
qed

end
