(* ===== verification/Buddy_Init.thy ===== *)
theory Buddy_Init
  imports Buddy_Correct
begin

text \<open>
  Building the buddy allocator from the boot loader's memory map: carving an arena into aligned
  blocks (\<^verbatim>\<open>populate_buddy_blocks\<close>), adding an arena and initialising over all entries. The
  loops are shown to end, and the allocator starts with exactly the whole pages of the usable
  regions it takes over as free memory.
\<close>

section \<open>Carving a region into blocks\<close>

lemma and_block_mask: "k \<le> 20 \<Longrightarrow> a AND (block_size k - 1) = 0 \<longleftrightarrow> aligned (12 + k) a"
  by (simp add: block_size_pow and_mask_zero_iff flip: mask_eq_exp_minus_1)

lemma find_best_order_spec:
  "m \<le> 20 \<Longrightarrow> page_aligned cur \<Longrightarrow> 4096 \<le> unat rem \<Longrightarrow>
   \<exists>k\<le>m. find_best_order m cur rem = Some k \<and> aligned (12 + k) cur \<and> 2 ^ (12 + k) \<le> unat rem
     \<and> (\<forall>j. k < j \<longrightarrow> j \<le> m \<longrightarrow> \<not> (aligned (12 + j) cur \<and> 2 ^ (12 + j) \<le> unat rem))"
proof (induction m)
  case 0
  then show ?case by (simp add: and_block_mask word_less_nat_alt unat_block_size not_less)
next
  case (Suc m)
  let ?good = "aligned (12 + Suc m) cur \<and> 2 ^ (12 + Suc m) \<le> unat rem"
  have guard: "\<not> block_size (Suc m) > rem \<and> cur AND (block_size (Suc m) - 1) = 0 \<longleftrightarrow> ?good"
    using Suc.prems(1) and_block_mask[of "Suc m"] unat_block_size[of "Suc m"]
    by (auto simp: word_less_nat_alt not_less)
  show ?case
  proof (cases ?good)
    case True
    then show ?thesis using guard by (intro exI[of _ "Suc m"]) simp
  next
    case False
    then have "find_best_order (Suc m) cur rem = find_best_order m cur rem"
      using guard by (subst find_best_order.simps) (simp only: if_False nat.case)
    moreover obtain k where "k \<le> m" "find_best_order m cur rem = Some k" "aligned (12 + k) cur"
      "2 ^ (12 + k) \<le> unat rem" "\<forall>j. k < j \<longrightarrow> j \<le> m \<longrightarrow> \<not> (aligned (12 + j) cur \<and> 2 ^ (12 + j) \<le> unat rem)"
      using Suc.IH Suc.prems by auto
    ultimately show ?thesis using False by (intro exI[of _ k]) (auto simp: le_Suc_eq)
  qed
qed

declare find_best_order.simps [simp del]

lemma push_counter:
  "push_free_block (s\<lparr>buddy_arena_counter := c\<rparr>) i k a = (push_free_block s i k a)\<lparr>buddy_arena_counter := c\<rparr>"
  by (simp add: push_free_block_def Let_def phys_to_virt_def set_free_head_def set_arena_def)

definition populate_post ::
  "'a buddy_state_scheme \<Rightarrow> free_map \<Rightarrow> u64 \<Rightarrow> u64 \<Rightarrow> 'a buddy_state_scheme \<Rightarrow> bool" where
  "populate_post s FL cur fin t \<longleftrightarrow>
     (\<exists>FL'. buddy_wf t FL'
        \<and> free_bytes t FL' = free_bytes s FL \<union> {unat cur..<unat cur + (unat fin - unat cur) div 4096 * 4096})
     \<and> same_shape s t \<and> writes_only s t {unat cur..<unat fin}"

lemma whole_pages_step:
  fixes x y :: nat
  assumes "x + 2 ^ (12 + k) \<le> y"
  shows "{x..<x + 2 ^ (12 + k)} \<union> {x + 2 ^ (12 + k)..<x + 2 ^ (12 + k) + (y - (x + 2 ^ (12 + k))) div 4096 * 4096}
    = {x..<x + (y - x) div 4096 * 4096}"
proof -
  have "y - x = 4096 * 2 ^ k + (y - (x + 2 ^ (12 + k)))" using assms by (simp add: power_add)
  then have "(y - x) div 4096 * 4096 = 2 ^ (12 + k) + (y - (x + 2 ^ (12 + k))) div 4096 * 4096"
    by (simp add: power_add)
  then show ?thesis by auto
qed

lemma populate_post_step:
  assumes post: "populate_post (push_free_block s i k cur) FL' (cur + block_size k) fin t"
    and fb: "free_bytes (push_free_block s i k cur) FL' = brange cur k \<union> free_bytes s FL"
    and cur: "unat (cur + block_size k) = unat cur + 2 ^ (12 + k)" "unat cur + 2 ^ (12 + k) \<le> unat fin"
    and al: "aligned (12 + k) cur"
  shows "populate_post s FL cur fin t"
proof -
  note sh = same_shape_push[of s i k cur]
  have "{unat cur..<unat fin} = brange cur k \<union> {unat cur + 2 ^ (12 + k)..<unat fin}"
    using cur(2) by (auto simp: brange_def)
  then have "writes_only s t {unat cur..<unat fin}"
    using post writes_only_trans[OF sh writes_only_push[OF al]] by (simp add: populate_post_def cur)
  moreover have "same_shape s t" using post same_shape_trans[OF sh] by (simp add: populate_post_def)
  ultimately show ?thesis
    using post whole_pages_step[OF cur(2)] unfolding populate_post_def fb cur(1) brange_def
    by (simp add: Un_assoc Un_left_commute)
qed

lemma populate_loop_post:
  fixes s :: "'a buddy_state_scheme"
  assumes "buddy_wf (s\<lparr>buddy_arena_counter := c\<rparr>) FL" "i < unat c" "page_aligned cur"
    and "unat (base (arena_at s i)) \<le> unat cur" "0 < unat cur" "unat cur \<le> unat fin"
    and "unat fin = unat (base (arena_at s i)) + unat (arena_length (arena_at s i))"
    and "{unat cur..<unat fin} \<inter> free_bytes (s\<lparr>buddy_arena_counter := c\<rparr>) FL = {}"
  shows "\<exists>t. populate_loop s i (unat (max_arena_order (arena_at s i))) cur fin = Some t
    \<and> populate_post (s\<lparr>buddy_arena_counter := c\<rparr>) FL cur fin (t\<lparr>buddy_arena_counter := c\<rparr>)"
  using assms
proof (induction "unat fin - unat cur" arbitrary: s FL cur rule: less_induct)
  case less
  let ?s = "s\<lparr>buddy_arena_counter := c\<rparr>" and ?max = "unat (max_arena_order (arena_at s i))"
  show ?case
  proof (cases "unat fin - unat cur < 4096")
    case True
    then have "populate_loop s i ?max cur fin = Some s"
      using less.prems(6) by (simp add: populate_loop.simps word_less_nat_alt unat_sub word_le_nat_alt)
    then show ?thesis using True less.prems(1) by (auto simp: populate_post_def)
  next
    case False
    then have lt: "cur < fin" and rem: "unat (fin - cur) = unat fin - unat cur" "4096 \<le> unat (fin - cur)"
      by (simp_all add: word_less_nat_alt unat_sub word_le_nat_alt)
    have ok: "arena_ok ?s i" using less.prems(1,2) by (simp add: buddy_wf_def arenas_wf_def)
    then have "?max \<le> 20" by (simp add: arena_ok_def)
    from find_best_order_spec[OF this less.prems(3) rem(2)]
    obtain k where k: "k \<le> ?max" "find_best_order ?max cur (fin - cur) = Some k"
      "aligned (12 + k) cur" "2 ^ (12 + k) \<le> unat (fin - cur)" by blast
    have k20: "k \<le> 20" using k(1) \<open>?max \<le> 20\<close> by simp
    have fit: "unat cur + 2 ^ (12 + k) \<le> unat fin" using k(4) rem False by linarith
    have bok: "block_ok ?s i k cur" using k fit less.prems by (simp add: block_ok_def)
    have sub: "brange cur k \<subseteq> {unat cur..<unat fin}" using fit by (auto simp: brange_def)
    let ?t = "push_free_block s i k cur" and ?FL = "fm_upd FL i k (cur # FL i k)" and ?cur = "cur + block_size k"
    have cur': "unat ?cur = unat cur + 2 ^ (12 + k)"
      using le_less_trans[OF fit unat_lt64] k20 by (subst unat_plus64) (simp_all add: unat_block_size)
    have push: "buddy_wf (?t\<lparr>buddy_arena_counter := c\<rparr>) ?FL"
      "free_bytes (?t\<lparr>buddy_arena_counter := c\<rparr>) ?FL = brange cur k \<union> free_bytes ?s FL"
      using push_wf[OF less.prems(1) _ bok] less.prems(2,8) sub by (auto simp: push_counter)
    have sh: "same_shape s ?t" by (rule same_shape_push)
    have "\<exists>t. populate_loop ?t i (unat (max_arena_order (arena_at ?t i))) ?cur fin = Some t
      \<and> populate_post (?t\<lparr>buddy_arena_counter := c\<rparr>) ?FL ?cur fin (t\<lparr>buddy_arena_counter := c\<rparr>)"
    proof (rule less.hyps)
      show "page_aligned ?cur" using less.prems(3) unfolding aligned_def cur' by (intro dvd_add le_imp_power_dvd) simp_all
      show "{unat ?cur..<unat fin} \<inter> free_bytes (?t\<lparr>buddy_arena_counter := c\<rparr>) ?FL = {}"
      proof -
        have "{unat ?cur..<unat fin} \<subseteq> {unat cur..<unat fin}" "{unat ?cur..<unat fin} \<inter> brange cur k = {}"
          using cur' by (auto simp: brange_def)
        then show ?thesis using less.prems(8) unfolding push(2) by blast
      qed
      have "0 < (2 :: nat) ^ (12 + k)" by simp
      then show "unat fin - unat ?cur < unat fin - unat cur" using fit unfolding cur' by linarith
      show "buddy_wf (?t\<lparr>buddy_arena_counter := c\<rparr>) ?FL" by (rule push(1))
      show "unat (base (arena_at ?t i)) \<le> unat ?cur"
        using less.prems(4) sh unfolding cur' same_shape_def by simp
      show "unat fin = unat (base (arena_at ?t i)) + unat (arena_length (arena_at ?t i))"
        using less.prems(7) sh unfolding same_shape_def by simp
      show "i < unat c" by (rule less.prems(2))
      show "0 < unat ?cur" "unat ?cur \<le> unat fin" using fit unfolding cur' by simp_all
    qed
    then obtain t where t: "populate_loop ?t i (unat (max_arena_order (arena_at ?t i))) ?cur fin = Some t"
      "populate_post (?t\<lparr>buddy_arena_counter := c\<rparr>) ?FL ?cur fin (t\<lparr>buddy_arena_counter := c\<rparr>)" by blast
    have mx: "max_arena_order (arena_at ?t i) = max_arena_order (arena_at s i)"
      using sh unfolding same_shape_def by simp
    have "\<not> fin - cur < 4096" using rem(2) by (simp add: word_less_nat_alt)
    then have "populate_loop s i ?max cur fin = populate_loop ?t i ?max ?cur fin"
      using lt k(2) by (subst populate_loop.simps) (simp only: Let_def if_True if_False option.case)
    then have "populate_loop s i ?max cur fin = Some t" using t(1) unfolding mx by (rule trans)
    moreover have "populate_post ?s FL cur fin (t\<lparr>buddy_arena_counter := c\<rparr>)"
      using t(2) push(2) unfolding push_counter[symmetric] by (rule populate_post_step[OF _ _ cur' fit k(3)])
    ultimately show ?thesis by blast
  qed
qed

lemma max_order_loop_spec:
  assumes "unat len < 2 ^ 63" "2 ^ (12 + unat mo) \<le> unat len"
  shows "\<exists>m. max_order_loop mo len = Some m \<and> 2 ^ (12 + unat m) \<le> unat len \<and> unat len < 2 ^ (13 + unat m)"
  using assms
proof (induction "63 - unat mo" arbitrary: mo rule: less_induct)
  case less
  have "(2 :: nat) ^ (12 + unat mo) < 2 ^ 63" using less.prems by (rule le_less_trans[rotated])
  then have "12 + unat mo < 63" by (subst (asm) power_strict_increasing_iff) simp_all
  then have mo: "unat mo < 51" by simp
  then have bs: "unat (block_size (unat mo + 1)) = 2 ^ (13 + unat mo)"
    by (simp only: block_size_pow unat_pow2) simp
  have suc: "unat (mo + 1) = unat mo + 1" using mo by (simp add: unat_word_ariths)
  show ?case
  proof (cases "2 ^ (13 + unat mo) \<le> unat len")
    case True
    then have "max_order_loop mo len = max_order_loop (mo + 1) len"
      using bs by (subst max_order_loop.simps) (simp add: word_le_nat_alt)
    then show ?thesis using less.hyps[of "mo + 1"] True less.prems(1) mo suc by simp
  next
    case False
    then have "max_order_loop mo len = Some mo"
      using bs by (subst max_order_loop.simps) (simp add: word_le_nat_alt)
    then show ?thesis using less.prems False by auto
  qed
qed

lemma align_page_up_mask: "align_page_up a = (a + 4095) AND NOT (mask 12)"
  by (simp add: align_page_up_def mask_eq_exp_minus_1 add_diff_eq[symmetric])

lemma unat_align_page_up:
  assumes "unat a + 4095 < 2 ^ 64"
  shows "unat (align_page_up a) = (unat a + 4095) div 4096 * 4096"
proof -
  have "unat (a + 4095) = unat a + unat (4095 :: u64)" using assms by (intro unat_plus64) simp
  then show ?thesis by (simp add: align_page_up_mask unat_and_not_mask)
qed

lemma page_aligned_align_up: "page_aligned (align_page_up a)"
  by (simp add: align_page_up_mask aligned_def unat_and_not_mask)

section \<open>Adding an arena\<close>

definition add_arena_pages :: "u64 \<Rightarrow> u64 \<Rightarrow> nat set" where
  "add_arena_pages b len =
     (let lo = (unat b + 4095) div 4096 * 4096; hi = unat b + unat len
      in {lo..<lo + (hi - lo) div 4096 * 4096})"

lemma set_arena_wf:
  fixes s :: "'a buddy_state_scheme"
  defines "c \<equiv> buddy_arena_counter s"
  assumes wf: "buddy_wf s FL" and c: "unat c < 32"
    and arena: "length (free_list arena) = 21" "\<forall>k\<le>20. free_list arena ! k = NULL"
      "unat (max_arena_order arena) \<le> 20"
      "unat (base arena) + unat (arena_length arena) + unat (hhdm_offset s) < 2 ^ 64"
    and disj: "\<forall>i<unat c. arena_range s i
      \<inter> {unat (base arena)..<unat (base arena) + unat (arena_length arena)} = {}"
  shows "buddy_wf ((set_arena s (unat c) arena)\<lparr>buddy_arena_counter := c + 1\<rparr>) (FL(unat c := \<lambda>_. []))"
    and "free_bytes ((set_arena s (unat c) arena)\<lparr>buddy_arena_counter := c + 1\<rparr>) (FL(unat c := \<lambda>_. []))
      = free_bytes s FL"
proof -
  let ?t = "(set_arena s (unat c) arena)\<lparr>buddy_arena_counter := c + 1\<rparr>" and ?FL = "FL(unat c := \<lambda>_. [])"
  have aw: "arenas_wf s" using wf by (simp add: buddy_wf_def)
  have suc: "unat (c + 1) = Suc (unat c)" using c by (simp add: unat_word_ariths)
  have at: "arena_at ?t i = (if i = unat c then arena else arena_at s i)" for i
    using aw c by (auto simp: set_arena_def arenas_wf_def nth_list_update)
  have pv: "phys_to_virt ?t = phys_to_virt s" by (simp add: phys_to_virt_def set_arena_def fun_eq_iff)
  have fb: "free_blocks ?t ?FL = free_blocks s FL"
    unfolding free_blocks_def c_def[symmetric] using suc by (auto simp: less_Suc_eq)
  show "free_bytes ?t ?FL = free_bytes s FL" by (simp only: free_bytes_def fb)
  have aw': "arenas_wf ?t"
    using aw arena disj suc c
    by (auto simp: arenas_wf_def arena_ok_def arena_range_def at less_Suc_eq c_def[symmetric] set_arena_def Int_commute)
  have "lseg (fl_slot i k ?t) Head (map (phys_to_virt s) (?FL i k))" if "i < unat (c + 1)" "k \<le> 20" for i k
  proof (cases "i = unat c")
    case True
    then show ?thesis using at[of i] arena(2) that(2) by simp
  next
    case False
    then have "lseg (fl_slot i k s) Head (map (phys_to_virt s) (FL i k))"
      using wf that suc by (simp add: buddy_wf_def c_def)
    then show ?thesis using at[of i] False by (auto elim!: lseg_cong simp: set_arena_def)
  qed
  moreover have "block_ok ?t i k a \<and> fb_phys_addr (mem ?t) (phys_to_virt s a) = a"
    if "(i, k, a) \<in> free_blocks s FL" for i k a
    using wf that at[of i] by (auto simp: buddy_wf_def block_ok_def free_blocks_def c_def set_arena_def)
  ultimately show "buddy_wf ?t ?FL"
    using wf aw' unfolding buddy_wf_def fb pv by auto
qed

lemma max_order_bound:
  assumes "unat len < 2 ^ 63" "2 ^ (12 + unat m) \<le> unat len"
  shows "unat (m :: u8) < 51"
proof -
  have "(2 :: nat) ^ (12 + unat m) < 2 ^ 63" using assms by (rule le_less_trans[rotated])
  then have "12 + unat m < 63" by (subst (asm) power_strict_increasing_iff) simp_all
  then show ?thesis by simp
qed

lemma align_up_ge: "(x + 4095) div 4096 * 4096 \<ge> (x :: nat)"
  using div_mult_mod_eq[of "x + 4095" 4096] mod_less_divisor[of 4096 "x + 4095"] by linarith

lemma counter_push [simp]: "buddy_arena_counter (push_free_block s i k a) = buddy_arena_counter s"
  by (rule same_shape_counter[OF same_shape_push])

lemma populate_loop_counter:
  "populate_loop s i mo cur fin = Some t \<Longrightarrow> buddy_arena_counter t = buddy_arena_counter s"
  by (erule populate_loop.raw_induct[rotated])
     (auto simp: Let_def split: if_splits option.splits)

lemma free_bytes_arena:
  assumes "buddy_wf s FL" "x \<in> free_bytes s FL"
  shows "\<exists>i<unat (buddy_arena_counter s). x \<in> arena_range s i"
proof -
  obtain i k a where a: "(i, k, a) \<in> free_blocks s FL" "x \<in> brange a k"
    using assms(2) by (auto simp: free_bytes_def)
  then have "x \<in> arena_range s i"
    using wf_block_ok[OF assms(1) a(1)] by (auto simp: block_ok_def brange_def arena_range_def)
  then show ?thesis using free_blocks_arena[OF a(1)] by blast
qed

lemma add_buddy_arena_post:
  fixes s :: "'a buddy_state_scheme"
  defines "c \<equiv> buddy_arena_counter s"
  assumes wf: "buddy_wf s FL" and c: "0 < c" "unat c < 32"
    and b: "0 < unat b" "unat b + 4095 < 2 ^ 64" "unat b + unat len + unat (hhdm_offset s) < 2 ^ 64" "unat len < 2 ^ 63"
    and disj: "\<forall>i<unat c. arena_range s i \<inter> {unat b..<unat b + unat len} = {}"
  shows "add_arena_pages b len = {} \<Longrightarrow> add_buddy_arena s c b len = Some (-1, s)"
    and "add_arena_pages b len \<noteq> {} \<Longrightarrow> \<exists>t FL'. add_buddy_arena s c b len = Some (0, t)
      \<and> buddy_arena_counter t = c \<and> hhdm_offset t = hhdm_offset s
      \<and> buddy_wf (t\<lparr>buddy_arena_counter := c + 1\<rparr>) FL'
      \<and> free_bytes (t\<lparr>buddy_arena_counter := c + 1\<rparr>) FL' = free_bytes s FL \<union> add_arena_pages b len
      \<and> (\<forall>i\<le>unat c. arena_range t i \<subseteq> (if i = unat c then {unat b..<unat b + unat len} else arena_range s i))
      \<and> writes_only s t {unat b..<unat b + unat len}"
proof -
  let ?ab = "align_page_up b" and ?en = "b + len"
  have ed: "unat ?en = unat b + unat len" using b(3) by (intro unat_plus64) simp
  have ab: "unat ?ab = (unat b + 4095) div 4096 * 4096" using b(2) by (rule unat_align_page_up)
  have pages: "add_arena_pages b len = {unat ?ab..<unat ?ab + (unat ?en - unat ?ab) div 4096 * 4096}"
    by (simp add: add_arena_pages_def ab ed Let_def)
  have c0: "\<not> unat c \<ge> MAX_BUDDY_ARENAS" "c \<noteq> 0" using c by (auto simp: MAX_BUDDY_ARENAS_def)
  have iff: "add_arena_pages b len = {} \<longleftrightarrow> ?ab \<ge> ?en \<or> ?en - ?ab < 4096"
  proof (cases "?ab \<ge> ?en")
    case True
    then show ?thesis by (simp add: pages word_le_nat_alt)
  next
    case False
    then have "unat (?en - ?ab) = unat ?en - unat ?ab" by (intro unat_sub) simp
    then show ?thesis using False by (simp add: pages word_less_nat_alt div_eq_0_iff)
  qed
  { assume "add_arena_pages b len = {}"
    then show "add_buddy_arena s c b len = Some (-1, s)"
      using c0 unfolding iff by (auto simp: add_buddy_arena_def Let_def) }
  assume "add_arena_pages b len \<noteq> {}"
  then have lt: "\<not> ?ab \<ge> ?en" "\<not> ?en - ?ab < 4096" unfolding iff by auto
  define al where "al = ?en - ?ab"
  have al: "unat al = unat ?en - unat ?ab" "4096 \<le> unat al" "unat ?ab < unat ?en"
    using lt unfolding al_def by (simp_all add: unat_sub_if_size word_size word_less_nat_alt word_le_nat_alt not_le)
  have ab_ge: "unat b \<le> unat ?ab" unfolding ab by (rule align_up_ge)
  have al63: "unat al < 2 ^ 63" using al(1,3) ed ab_ge b(4) by linarith
  obtain m where m: "max_order_loop 0 al = Some m" "2 ^ (12 + unat m) \<le> unat al"
    using max_order_loop_spec[OF al63, of 0] al(2) by auto
  let ?m = "if unat m > MAX_SUPPORTED_ORDER then of_nat MAX_SUPPORTED_ORDER else m"
  define arena where "arena = \<lparr>base = ?ab, arena_length = al, max_arena_order = ?m,
    free_list = replicate (MAX_SUPPORTED_ORDER + 1) NULL\<rparr>"
  have m20: "unat ?m \<le> 20" by (simp add: MAX_SUPPORTED_ORDER_def)
  have fin: "unat ?ab + unat al = unat ?en" using al by linarith
  let ?s1 = "set_arena s (unat c) arena" and ?FL = "FL(unat c := \<lambda>_. [])"
  let ?s2 = "?s1\<lparr>buddy_arena_counter := c + 1\<rparr>"
  have arena_sub: "{unat (base arena)..<unat (base arena) + unat (arena_length arena)} \<subseteq> {unat b..<unat b + unat len}"
    using ab_ge fin ed by (auto simp: arena_def)
  have len32: "length (buddy_arenas s) = 32" using wf by (simp add: buddy_wf_def arenas_wf_def)
  then have at: "arena_at ?s1 (unat c) = arena" "arena_at ?s1 i = (if i = unat c then arena else arena_at s i)" for i
    using c by (auto simp: set_arena_def nth_list_update)
  have A: "length (free_list arena) = 21" "\<forall>k\<le>20. free_list arena ! k = NULL"
      "unat (max_arena_order arena) \<le> 20"
      "unat (base arena) + unat (arena_length arena) + unat (hhdm_offset s) < 2 ^ 64"
    using m20 b(3) fin ed by (simp_all add: arena_def MAX_SUPPORTED_ORDER_def)
  have A': "\<forall>i<unat c. arena_range s i
      \<inter> {unat (base arena)..<unat (base arena) + unat (arena_length arena)} = {}"
    using arena_sub disj by blast
  note set = set_arena_wf[OF wf c(2)[unfolded c_def] A A'[unfolded c_def], folded c_def]
  note wf2 = set(1) and fb2 = set(2)
  have dj: "{unat ?ab..<unat (?ab + al)} \<inter> free_bytes ?s2 ?FL = {}"
  proof -
    have "unat (?ab + al) = unat b + unat len" using fin ed b(3) by (subst unat_plus64) simp_all
    then have "{unat ?ab..<unat (?ab + al)} \<subseteq> {unat b..<unat b + unat len}" using ab_ge by auto
    then show ?thesis using disj free_bytes_arena[OF wf, folded c_def] unfolding fb2 by blast
  qed
  have ufin: "unat (?ab + al) = unat ?ab + unat al" using fin unat_lt64[of ?en] by (intro unat_plus64) simp
  have "\<exists>t. populate_loop ?s1 (unat c) (unat (max_arena_order (arena_at ?s1 (unat c)))) ?ab (?ab + al) = Some t
    \<and> populate_post ?s2 ?FL ?ab (?ab + al) (t\<lparr>buddy_arena_counter := c + 1\<rparr>)"
  proof (rule populate_loop_post[OF wf2 _ page_aligned_align_up _ _ _ _ dj])
    show "unat c < unat (c + 1)" using c by (simp add: unat_word_ariths)
    show "unat (base (arena_at ?s1 (unat c))) \<le> unat ?ab"
      and "unat (?ab + al) = unat (base (arena_at ?s1 (unat c))) + unat (arena_length (arena_at ?s1 (unat c)))"
      unfolding at ufin by (simp_all add: arena_def)
    show "0 < unat ?ab" using ab_ge b(1) by linarith
    show "unat ?ab \<le> unat (?ab + al)" unfolding ufin by simp
  qed
  then obtain t where t: "populate_buddy_blocks ?s1 (unat c) = Some t"
    and post: "populate_post ?s2 ?FL ?ab (?ab + al) (t\<lparr>buddy_arena_counter := c + 1\<rparr>)"
    unfolding at populate_buddy_blocks_def Let_def by (auto simp: arena_def)
  from t m(1) have eq: "add_buddy_arena s c b len = Some (0, t)"
    using c0 lt unfolding add_buddy_arena_def Let_def al_def[symmetric] by (simp add: arena_def)
  have ct: "buddy_arena_counter t = c"
    using populate_loop_counter[OF t[unfolded populate_buddy_blocks_def Let_def]] by (simp add: set_arena_def c_def)
  obtain FL' where FL': "buddy_wf (t\<lparr>buddy_arena_counter := c + 1\<rparr>) FL'"
    "free_bytes (t\<lparr>buddy_arena_counter := c + 1\<rparr>) FL' = free_bytes s FL \<union> add_arena_pages b len"
    using post ufin fin unfolding populate_post_def fb2 pages by auto
  have sh: "same_shape ?s2 (t\<lparr>buddy_arena_counter := c + 1\<rparr>)" using post by (simp add: populate_post_def)
  then have hh: "hhdm_offset t = hhdm_offset s" by (simp add: same_shape_def set_arena_def)
  have r: "arena_range t i \<subseteq> (if i = unat c then {unat b..<unat b + unat len} else arena_range s i)" for i
    using sh at(2)[of i] arena_sub by (auto simp: same_shape_def arena_range_def)
  have "{unat ?ab..<unat (?ab + al)} \<subseteq> {unat b..<unat b + unat len}" using ab_ge fin ufin ed by auto
  then have w: "writes_only s t {unat b..<unat b + unat len}"
    using post unfolding populate_post_def by (auto simp: writes_only_def set_arena_def)
  show "\<exists>t FL'. add_buddy_arena s c b len = Some (0, t)
      \<and> buddy_arena_counter t = c \<and> hhdm_offset t = hhdm_offset s
      \<and> buddy_wf (t\<lparr>buddy_arena_counter := c + 1\<rparr>) FL'
      \<and> free_bytes (t\<lparr>buddy_arena_counter := c + 1\<rparr>) FL' = free_bytes s FL \<union> add_arena_pages b len
      \<and> (\<forall>i\<le>unat c. arena_range t i \<subseteq> (if i = unat c then {unat b..<unat b + unat len} else arena_range s i))
      \<and> writes_only s t {unat b..<unat b + unat len}"
    using eq ct hh FL' r w by blast
qed

section \<open>Initialisation from the memory map\<close>

definition eff_base :: "limine_memmap_entry \<Rightarrow> u64" where
  "eff_base e = (if entry_base e = 0 then PAGE_FRAME_SIZE else entry_base e)"

definition entry_range :: "limine_memmap_entry \<Rightarrow> nat set" where
  "entry_range e = {unat (eff_base e)..<unat (eff_base e) + unat (entry_length e)}"

definition entry_pages :: "limine_memmap_entry \<Rightarrow> nat set" where
  "entry_pages e = add_arena_pages (eff_base e) (entry_length e)"

definition usable :: "limine_memmap_entry \<Rightarrow> bool" where
  "usable e \<longleftrightarrow> entry_type e = 0"

definition entry_ok :: "u64 \<Rightarrow> limine_memmap_entry \<Rightarrow> bool" where
  "entry_ok hhdm e \<longleftrightarrow> unat (eff_base e) + 4095 < 2 ^ 64
     \<and> unat (eff_base e) + unat (entry_length e) + unat hhdm < 2 ^ 64 \<and> unat (entry_length e) < 2 ^ 63"

text \<open>A memory map whose usable entries are in range and do not overlap.\<close>

fun memmap_ok :: "u64 \<Rightarrow> limine_memmap_entry list \<Rightarrow> bool" where
  "memmap_ok hhdm [] \<longleftrightarrow> True"
| "memmap_ok hhdm (e # es) \<longleftrightarrow> memmap_ok hhdm es
     \<and> (usable e \<longrightarrow> entry_ok hhdm e \<and> (\<forall>f\<in>set es. usable f \<longrightarrow> entry_range e \<inter> entry_range f = {}))"

lemma eff_base_pos: "0 < unat (eff_base e)"
  by (simp add: eff_base_def unat_gt_0)

lemma init_loop_post:
  assumes "buddy_wf s FL" "0 < buddy_arena_counter s" "memmap_ok (hhdm_offset s) es"
    and "\<forall>i<unat (buddy_arena_counter s). \<forall>e\<in>set es. usable e \<longrightarrow> arena_range s i \<inter> entry_range e = {}"
  shows "\<exists>t FL'. buddy_init_loop s es = Some t \<and> buddy_wf t FL'
    \<and> free_bytes t FL' = free_bytes s FL \<union>
        \<Union> (entry_pages ` set (take (32 - unat (buddy_arena_counter s))
             (filter (\<lambda>e. usable e \<and> entry_pages e \<noteq> {}) es)))"
  using assms
proof (induction es arbitrary: s FL)
  case Nil
  then show ?case by auto
next
  case (Cons e es)
  let ?c = "buddy_arena_counter s"
  let ?B = "eff_base e" and ?L = "entry_length e"
  have c32: "unat ?c \<le> 32" using Cons.prems(1) by (simp add: buddy_wf_def arenas_wf_def)
  consider "\<not> usable e" | "unat ?c = 32" | "usable e" "unat ?c < 32" using c32 by linarith
  then show ?case
  proof cases
    case 1
    then show ?thesis using Cons.IH[OF Cons.prems(1,2)] Cons.prems by (simp add: usable_def)
  next
    case 2
    then have "\<exists>t. buddy_init_loop s (e # es) = Some t \<and> t = s" if "usable e"
      using that by (simp add: usable_def MAX_BUDDY_ARENAS_def)
    then show ?thesis using Cons.IH[OF Cons.prems(1,2)] Cons.prems 2
      by (cases "usable e") (auto simp: usable_def)
  next
    case 3
    have ok: "entry_ok (hhdm_offset s) e" using 3 Cons.prems(3) by simp
    have b: "unat ?B + 4095 < 2 ^ 64" "unat ?B + unat ?L + unat (hhdm_offset s) < 2 ^ 64" "unat ?L < 2 ^ 63"
      using ok by (simp_all add: entry_ok_def)
    have dj: "\<forall>i<unat ?c. arena_range s i \<inter> {unat ?B..<unat ?B + unat ?L} = {}"
      using Cons.prems(4) 3 by (simp add: entry_range_def)
    note add = add_buddy_arena_post[OF Cons.prems(1,2) 3(2) eff_base_pos b dj, folded entry_pages_def]
    have step: "buddy_init_loop s (e # es) = do {
        (ret, s1) \<leftarrow> add_buddy_arena s ?c ?B ?L;
        if ret = 0 then buddy_init_loop (s1\<lparr>buddy_arena_counter := buddy_arena_counter s1 + 1\<rparr>) es
        else buddy_init_loop s1 es }"
      using 3 by (simp add: usable_def MAX_BUDDY_ARENAS_def eff_base_def Let_def)
    show ?thesis
    proof (cases "entry_pages e = {}")
      case True
      then show ?thesis using step add(1) Cons.IH[OF Cons.prems(1,2)] Cons.prems by simp
    next
      case False
      then obtain t FL' where t: "add_buddy_arena s ?c ?B ?L = Some (0, t)" "buddy_arena_counter t = ?c"
        "buddy_wf (t\<lparr>buddy_arena_counter := ?c + 1\<rparr>) FL'"
        "free_bytes (t\<lparr>buddy_arena_counter := ?c + 1\<rparr>) FL' = free_bytes s FL \<union> entry_pages e"
        "\<And>i. i \<le> unat ?c \<Longrightarrow> arena_range t i \<subseteq> (if i = unat ?c then {unat ?B..<unat ?B + unat ?L} else arena_range s i)"
        "hhdm_offset t = hhdm_offset s" using add(2) by blast
      let ?t = "t\<lparr>buddy_arena_counter := ?c + 1\<rparr>"
      have suc: "unat (?c + 1) = Suc (unat ?c)" using 3 by (simp add: unat_word_ariths)
      have ar: "arena_range ?t i = arena_range t i" for i by (simp add: arena_range_def)
      have "arena_range ?t i \<inter> entry_range f = {}" if "i \<le> unat ?c" "f \<in> set es" "usable f" for i f
      proof -
        have "entry_range e \<inter> entry_range f = {}" using that Cons.prems(3) 3(1) by simp
        moreover have "i < unat ?c \<Longrightarrow> arena_range s i \<inter> entry_range f = {}" using that Cons.prems(4) by simp
        ultimately show ?thesis
          using t(5)[OF that(1), folded entry_range_def] that(1) unfolding ar by (cases "i = unat ?c") auto
      qed
      then have "\<forall>i<unat (buddy_arena_counter ?t). \<forall>e\<in>set es. usable e \<longrightarrow> arena_range ?t i \<inter> entry_range e = {}"
        using suc by (auto simp: less_Suc_eq_le)
      moreover have "0 < buddy_arena_counter ?t" using suc by (simp add: word_less_nat_alt)
      moreover have "buddy_init_loop s (e # es) = buddy_init_loop ?t es" using step t(1,2) by simp
      moreover have "32 - unat ?c = Suc (32 - unat (?c + 1))" using suc 3 by simp
      ultimately show ?thesis
        using Cons.IH[OF t(3)] Cons.prems(3) 3(1) False t(4,6) by (simp add: Un_assoc)
    qed
  qed
qed

definition zero_arena :: buddy_arena where
  "zero_arena = \<lparr>base = 0, arena_length = 0, max_arena_order = 0, free_list = replicate 21 NULL\<rparr>"

definition managed_entries :: "limine_memmap_entry list \<Rightarrow> limine_memmap_entry list" where
  "managed_entries es = take 30 (filter (\<lambda>e. entry_pages e \<noteq> {}) (tl (filter usable es)))"

lemma zero_wf:
  "buddy_arenas s = replicate 32 zero_arena \<Longrightarrow> unat (buddy_arena_counter s) \<le> 2 \<Longrightarrow> buddy_wf s (\<lambda>_ _. [])"
  "free_bytes s (\<lambda>_ _. []) = {}"
  by (auto simp: buddy_wf_def arenas_wf_def arena_ok_def arena_range_def free_blocks_def free_bytes_def
      zero_arena_def disjoint_family_on_def)

lemma init_loop_first:
  assumes "buddy_arenas s = replicate 32 zero_arena" "buddy_arena_counter s = 0" "memmap_ok (hhdm_offset s) es"
  shows "\<exists>t FL. buddy_init_loop s es = Some t \<and> buddy_wf t FL
     \<and> free_bytes t FL = \<Union> (entry_pages ` set (managed_entries es))"
  using assms
proof (induction es)
  case Nil
  then show ?case using zero_wf[of s] by (auto simp: managed_entries_def)
next
  case (Cons e es)
  show ?case
  proof (cases "usable e")
    case True
    let ?t = "s\<lparr>buddy_arena_counter := 2\<rparr>"
    have "buddy_init_loop s (e # es) = buddy_init_loop ?t es"
      using True Cons.prems(2) by (simp add: usable_def MAX_BUDDY_ARENAS_def add_buddy_arena_def Let_def)
    moreover have "buddy_wf ?t (\<lambda>_ _. [])" using Cons.prems by (intro zero_wf) simp_all
    ultimately show ?thesis
      using init_loop_post[of ?t "\<lambda>_ _. []" es] Cons.prems True
      by (auto simp: managed_entries_def zero_wf(2) arena_range_def zero_arena_def filter_filter conj_commute)
  next
    case False
    then show ?thesis using Cons by (simp add: usable_def managed_entries_def)
  qed
qed

text \<open>C7: \<^verbatim>\<open>buddy_allocator_init\<close> on zeroed globals and a memory map whose usable entries do not
  overlap always returns a well-formed allocator whose free memory is exactly the whole pages of
  the first 30 usable entries that have a whole page, not counting the first usable entry of the
  map: that one only advances the counter, and of the 32 arena slots the slots 0 and 1 stay empty.\<close>

theorem buddy_allocator_init_correct:
  assumes "buddy_arenas s = replicate 32 zero_arena" "buddy_arena_counter s = 0"
    and "memmap_ok (hhdm_offset s) es"
  shows "\<exists>t FL. buddy_allocator_init s es = Some t \<and> buddy_wf t FL
     \<and> free_bytes t FL = \<Union> (entry_pages ` set (managed_entries es))"
  unfolding buddy_allocator_init_def by (rule init_loop_first[OF assms])

definition boot_state :: buddy_state where
  "boot_state = \<lparr>mem = (\<lambda>_. 0), hhdm_offset = 0xFFFF800000000000,
     buddy_arenas = replicate 32 zero_arena, buddy_arena_counter = 0\<rparr>"

definition boot_memmap :: "limine_memmap_entry list" where
  "boot_memmap = [\<lparr>entry_base = 0, entry_length = 0x9F000, entry_type = 0\<rparr>,
     \<lparr>entry_base = 0xF0000, entry_length = 0x10000, entry_type = 1\<rparr>,
     \<lparr>entry_base = 0x100100, entry_length = 0x4F00, entry_type = 0\<rparr>]"

theorem buddy_allocator_init_correct_witness:
  "\<exists>t FL. buddy_allocator_init boot_state boot_memmap = Some t \<and> buddy_wf t FL
     \<and> free_bytes t FL = {0x101000..<0x105000}"
proof -
  have "memmap_ok (hhdm_offset boot_state) boot_memmap"
    by (simp add: boot_state_def boot_memmap_def usable_def entry_ok_def entry_range_def eff_base_def)
  moreover have "managed_entries boot_memmap = [\<lparr>entry_base = 0x100100, entry_length = 0x4F00, entry_type = 0\<rparr>]"
    by (simp add: managed_entries_def boot_memmap_def usable_def entry_pages_def add_arena_pages_def eff_base_def)
  moreover have "entry_pages \<lparr>entry_base = 0x100100, entry_length = 0x4F00, entry_type = 0\<rparr> = {0x101000..<0x105000}"
    by (simp add: entry_pages_def add_arena_pages_def eff_base_def)
  ultimately show ?thesis
    using buddy_allocator_init_correct[of boot_state boot_memmap] by (simp add: boot_state_def)
qed

end
