(* ===== verification/Simulation.thy ===== *)
theory Simulation
  imports Main
begin

text \<open>
  Sequences of labelled steps, and the contract by which a simulation of single steps gives a refinement of sequences. The
  memory of the kernel (\<open>Kernel_Memory\<close>) and the tasks of a processor (\<open>Preemption\<close>) are its instances.
\<close>

text \<open>A sequence of steps, and the contract that lifts a stepwise simulation to sequences.\<close>

inductive trace :: "('s \<Rightarrow> 'a \<Rightarrow> 's \<Rightarrow> bool) \<Rightarrow> 's \<Rightarrow> 'a list \<Rightarrow> 's \<Rightarrow> bool" for step where
  trace_nil: "trace step s [] s"
| trace_cons: "step s a t \<Longrightarrow> trace step t as u \<Longrightarrow> trace step s (a # as) u"

lemma trace_append: "trace step s (as @ bs) u \<Longrightarrow> \<exists>t. trace step s as t \<and> trace step t bs u"
proof (induction as arbitrary: s)
  case Nil
  then show ?case by (auto intro: trace_nil)
next
  case (Cons a as)
  from Cons.prems have "trace step s (a # (as @ bs)) u" by simp
  then obtain v where "step s a v" "trace step v (as @ bs) u" by (cases rule: trace.cases) auto
  then show ?case using Cons.IH by (blast intro: trace_cons)
qed

lemma trace_single: "trace step s [a] t \<longleftrightarrow> step s a t"
proof
  assume "trace step s [a] t"
  then obtain u where "step s a u" "trace step u [] t" by (cases rule: trace.cases) auto
  moreover from this(2) have "u = t" by (cases rule: trace.cases) auto
  ultimately show "step s a t" by simp
qed (blast intro: trace_cons trace_nil)

lemma trace_first: "trace step s (a # as) t \<Longrightarrow> \<exists>u. step s a u \<and> trace step u as t"
  by (erule trace.cases) auto

locale stepwise_refinement =
  fixes inv :: "'s \<Rightarrow> bool" and step :: "'s \<Rightarrow> 'a \<Rightarrow> 's \<Rightarrow> bool" and abs :: "'s \<Rightarrow> 'v" and spec :: "'v \<Rightarrow> 'a \<Rightarrow> 'v \<Rightarrow> bool"
  assumes sim: "inv s \<Longrightarrow> step s a t \<Longrightarrow> inv t \<and> spec (abs s) a (abs t)"
begin

lemma trace_sim: "trace step s as t \<Longrightarrow> inv s \<Longrightarrow> inv t \<and> trace spec (abs s) as (abs t)"
proof (induction rule: trace.induct)
  case (trace_cons s a t as u)
  then show ?case using sim[OF trace_cons(4,1)] by (blast intro: trace.trace_cons)
qed (simp add: trace_nil)

end

end
