(* ===== verification/Kernel_Memory.thy ===== *)
theory Kernel_Memory
  imports Kernel_Owners Buddy_Init Simulation
begin

text \<open>
  The kernel's memory as its users see it. The users' calls and writes are the steps of a state machine; from boot on it refines a
  map from pointers to private byte strings. The locale \<open>stepwise_refinement\<close> lifts a stepwise simulation to
  sequences of steps.
\<close>

section \<open>Memory requests\<close>

text \<open>The end magic fits into the block: \<^verbatim>\<open>kmalloc\<close> reserves only four of its eight bytes.\<close>

definition end_magic_fits :: "u64 \<Rightarrow> bool" where
  "end_magic_fits sz \<longleftrightarrow> unat sz + 20 \<le> 2 ^ 63 \<and> (\<forall>k<20. unat sz + 20 \<le> 2 ^ (12 + k) \<longrightarrow> unat sz + 24 \<le> 2 ^ (12 + k))"

definition kmalloc_origin :: "'a slab_state_scheme \<Rightarrow> u64 \<Rightarrow> 'a slab_state_scheme \<Rightarrow> u64 \<Rightarrow> origin" where
  "kmalloc_origin s sz t ptr =
     (if sz \<le> SLAB_THRESHOLD \<and> (case slab_alloc_size s sz of Some (p, u) \<Rightarrow> p \<noteq> NULL | None \<Rightarrow> False)
      then Object (size_class sz) else Block (unat (ah_order (mem t) (ptr - 16))))"

lemma fits_bound: "end_magic_fits sz \<Longrightarrow> unat sz + 20 \<le> 2 ^ 63"
  by (simp add: end_magic_fits_def)

lemma small_fits:
  assumes "unat sz + 24 \<le> 4096"
  shows "end_magic_fits sz"
proof -
  have four: "(4096 :: nat) = 2 ^ 12" by simp
  have "unat sz + 24 \<le> 2 ^ (12 + k)" for k using assms unfolding four by (rule order_trans) (intro power_increasing, simp_all)
  then show ?thesis using assms by (simp add: end_magic_fits_def)
qed

lemma inv_kmalloc_large:
  assumes inv: "memory_inv s own L fr FL" and sz: "0 < sz" "end_magic_fits sz"
  obtains (null) "kmalloc_large s sz = Some (NULL, s)" "\<And>i k a. (i, k, a) \<in> free_blocks s FL \<Longrightarrow> k < 20 \<Longrightarrow> 2 ^ (12 + k) < unat sz + 20"
  | (got) ptr t FL' where "kmalloc_large s sz = Some (ptr, t)" "ptr \<noteq> NULL"
    "memory_inv t (own(ptr \<mapsto> (Block (unat (ah_order (mem t) (ptr - 16))), unat sz))) L fr FL'" "own ptr = None"
    "\<And>q g n' x. own q = Some (g, n') \<Longrightarrow> unat (x - q) < n' \<Longrightarrow> mem t x = mem s x \<and> \<not> unat (x - ptr) < unat sz"
proof -
  note wf = memory_invD(1)[OF inv]
  have bw: "buddy_wf s FL" using heap_wf_cache(5)[OF wf, of 0] by simp
  from bw fits_bound[OF sz(2)] show thesis
  proof (cases rule: kmalloc_large_cases)
    case none
    have e: "4096 * 2 ^ k = (2 :: nat) ^ (12 + k)" for k by (simp add: power_add)
    show thesis by (rule null[OF none(1)]) (rule none(2)[unfolded e])
  next
    case (block order phys t0)
    let ?hdr = "phys_to_virt t0 phys" let ?t = "t0\<lparr>mem := framed (mem t0) ?hdr sz order\<rparr>"
    have e: "4096 * 2 ^ unat order = (2 :: nat) ^ (12 + unat order)" by (simp add: power_add)
    have fit: "unat sz + 24 \<le> 2 ^ (12 + unat order)" using block(1,2) sz(2) unfolding e end_magic_fits_def by blast
    have "(2 :: nat) ^ (12 + unat order) \<le> 2 ^ 32" using block(1) by (intro power_increasing) simp_all
    then have s32: "unat sz < 2 ^ 32" using fit by simp
    have ord: "ah_order (mem ?t) (?hdr + 16 - 16) = order" using framed_fields(5)[OF s32, of "mem t0" ?hdr order] by simp
    have pos: "0 < unat sz" using sz(1) by (simp add: word_less_nat_alt)
    have o20: "unat order \<le> 20" using block(1) by simp
    obtain FL' where b: "memory_inv ?t (own(?hdr + 16 \<mapsto> (Block (unat order), unat sz))) L fr FL'" "own (?hdr + 16) = None"
      and same: "\<And>q g n' x. own q = Some (g, n') \<Longrightarrow> unat (x - q) < n' \<Longrightarrow> mem ?t x = mem s x \<and> \<not> unat (x - (?hdr + 16)) < unat sz"
      by (rule inv_block_alloc[OF inv o20 block(4,5) refl refl pos fit]) (rule that)
    show thesis
    proof (rule got[OF block(6)])
      show "?hdr + 16 \<noteq> NULL" by (rule block_header(5)[OF bw block(4,5) o20 refl])
      show "memory_inv ?t (own(?hdr + 16 \<mapsto> (Block (unat (ah_order (mem ?t) (?hdr + 16 - 16))), unat sz))) L fr FL'" unfolding ord by (rule b(1))
    qed (rule b(2), rule same)
  qed
qed

lemma inv_kmalloc:
  assumes inv: "memory_inv s own L fr FL" and sz: "0 < sz" "end_magic_fits sz"
  obtains (null) "kmalloc s sz = Some (NULL, s)" "\<And>i k a. (i, k, a) \<in> free_blocks s FL \<Longrightarrow> k < 20 \<Longrightarrow> 2 ^ (12 + k) < unat sz + 20"
  | (got) ptr t L' fr' FL' where "kmalloc s sz = Some (ptr, t)" "ptr \<noteq> NULL"
    "memory_inv t (own(ptr \<mapsto> (kmalloc_origin s sz t ptr, unat sz))) L' fr' FL'" "own ptr = None"
    "\<And>q g n' x. own q = Some (g, n') \<Longrightarrow> unat (x - q) < n' \<Longrightarrow> mem t x = mem s x \<and> \<not> unat (x - ptr) < unat sz"
proof -
  note wf = memory_invD(1)[OF inv]
  note res = that
  have large: thesis if k: "kmalloc s sz = kmalloc_large s sz"
      and g: "\<And>t ptr. kmalloc_origin s sz t ptr = Block (unat (ah_order (mem t) (ptr - 16)))"
    using inv sz
  proof (cases rule: inv_kmalloc_large)
    case null
    then show thesis using k by (intro res(1)) simp_all
  next
    case (got ptr t FL')
    show thesis by (rule res(2)[OF _ got(2) _ got(4,5)]) (use k g got(1,3) in simp_all)
  qed
  show thesis
  proof (cases "sz \<le> SLAB_THRESHOLD")
    case False
    then show thesis using sz(1) by (intro large) (auto simp: kmalloc_def kmalloc_origin_def)
  next
    case True
    note c = size_class[OF True]
    have pos: "0 < unat sz" using sz(1) by (simp add: word_less_nat_alt)
    have big: "unat sz \<le> csize s (size_class sz)" using c(2) heap_wf_cache(2)[OF wf c(1)] by (simp add: word_le_nat_alt)
    from wf c(1) show thesis
    proof (cases rule: heap_slab_alloc)
      case none
      then show thesis using sz(1) True c(3)[of s] by (intro large) (auto simp: kmalloc_def kmalloc_origin_def)
    next
      case (object p k t)
      define ptr where "ptr = obj_ptr s (size_class sz, p, k)"
      note r = object(1,2)[folded ptr_def]
      have g: "kmalloc_origin s sz t ptr = Object (size_class sz)" using True c(3)[of s] r by (simp add: kmalloc_origin_def)
      have km: "kmalloc s sz = Some (ptr, t)" using True c(3)[of s] r sz(1) by (auto simp: kmalloc_def)
      obtain L' fr' FL' where a: "memory_inv t (own(ptr \<mapsto> (Object (size_class sz), unat sz))) L' fr' FL'" "own ptr = None"
        and same: "\<And>q g n' x. own q = Some (g, n') \<Longrightarrow> unat (x - q) < n' \<Longrightarrow> mem t x = mem s x \<and> \<not> unat (x - ptr) < unat sz"
        by (rule inv_slab_alloc[OF inv c(1) r pos big]) (rule that)
      show thesis by (rule got[OF km r(2) _ a(2) same]) (use a(1) g in simp)
    qed
  qed
qed

section \<open>The kernel's use of memory as a state machine\<close>

text \<open>What a user of memory does: it asks for bytes or pages, writes to its own, and gives them back. Excluded are sizes whose
  end magic would overrun the block, and giving back a block of one page whose predecessor begins
  with the magic of a slab, which \<^verbatim>\<open>kfree\<close> takes for a slab.\<close>

datatype action = Alloc nat u64 | Write u64 | Free u64

inductive mem_step :: "'a slab_state_scheme \<times> owners \<Rightarrow> action \<Rightarrow> 'a slab_state_scheme \<times> owners \<Rightarrow> bool" where
  kmalloc_some: "0 < sz \<Longrightarrow> end_magic_fits sz \<Longrightarrow> kmalloc s sz = Some (ptr, t) \<Longrightarrow> ptr \<noteq> NULL \<Longrightarrow>
    mem_step (s, own) (Alloc (unat sz) ptr) (t, own(ptr \<mapsto> (kmalloc_origin s sz t ptr, unat sz)))"
| kmalloc_null: "end_magic_fits sz \<Longrightarrow> kmalloc s sz = Some (NULL, t) \<Longrightarrow> mem_step (s, own) (Alloc (unat sz) NULL) (t, own)"
| pages_some: "unat order \<le> 20 \<Longrightarrow> buddy_alloc_pages s order = (phys, t) \<Longrightarrow> phys \<noteq> 0 \<Longrightarrow> ptr = phys_to_virt s phys \<Longrightarrow> n = 2 ^ (12 + unat order) \<Longrightarrow>
    mem_step (s, own) (Alloc n ptr) (t, own(ptr \<mapsto> (Pages (unat order), n)))"
| pages_null: "unat order \<le> 20 \<Longrightarrow> buddy_alloc_pages s order = (0, t) \<Longrightarrow> mem_step (s, own) (Alloc (2 ^ (12 + unat order)) NULL) (t, own)"
| owner_writes: "own ptr = Some (g, n) \<Longrightarrow> \<forall>x. n \<le> unat (x - ptr) \<longrightarrow> m x = mem s x \<Longrightarrow> mem_step (s, own) (Write ptr) (s\<lparr>mem := m\<rparr>, own)"
| kfree_object: "own ptr = Some (Object c, n) \<Longrightarrow> kfree s ptr = Some t \<Longrightarrow> mem_step (s, own) (Free ptr) (t, own(ptr := None))"
| kfree_block: "own ptr = Some (Block k, n) \<Longrightarrow> sl_magic (mem s) (ptr AND NOT (2 * PAGE_FRAME_SIZE - 1)) \<noteq> SLAB_MAGIC \<Longrightarrow>
    kfree s ptr = Some t \<Longrightarrow> mem_step (s, own) (Free ptr) (t, own(ptr := None))"
| pages_free: "own ptr = Some (Pages k, n) \<Longrightarrow> buddy_free_pages s (virt_to_phys s ptr) (of_nat k) = Some t \<Longrightarrow>
    mem_step (s, own) (Free ptr) (t, own(ptr := None))"

text \<open>The specification: memory is a map from pointers to the byte strings of their owners.\<close>

type_synonym private_memory = "u64 \<rightharpoonup> u8 list"

definition range_apart :: "private_memory \<Rightarrow> u64 \<Rightarrow> nat \<Rightarrow> bool" where
  "range_apart A ptr n \<longleftrightarrow> (\<forall>q bs. A q = Some bs \<longrightarrow> unat q + length bs \<le> unat ptr \<or> unat ptr + n \<le> unat q)"

inductive spec_step :: "private_memory \<Rightarrow> action \<Rightarrow> private_memory \<Rightarrow> bool" where
  spec_null: "spec_step A (Alloc n NULL) A"
| spec_fresh: "ptr \<noteq> NULL \<Longrightarrow> 0 < n \<Longrightarrow> unat ptr + n < 2 ^ 64 \<Longrightarrow> range_apart A ptr n \<Longrightarrow> A ptr = None \<Longrightarrow> length bs = n \<Longrightarrow>
    spec_step A (Alloc n ptr) (A(ptr \<mapsto> bs))"
| spec_write: "A ptr = Some bs \<Longrightarrow> length bs' = length bs \<Longrightarrow> spec_step A (Write ptr) (A(ptr \<mapsto> bs'))"
| spec_free: "A ptr = Some bs \<Longrightarrow> spec_step A (Free ptr) (A(ptr := None))"

definition owned_view :: "'a slab_state_scheme \<times> owners \<Rightarrow> private_memory" where
  "owned_view = (\<lambda>(s, own) ptr. map_option (\<lambda>(g, n). map (\<lambda>i. mem s (ptr + of_nat i)) [0..<n]) (own ptr))"

lemma owned_view_none [simp]: "owned_view (s, own) ptr = None \<longleftrightarrow> own ptr = None"
  by (simp add: owned_view_def)

lemma owned_view_some: "own ptr = Some (g, n) \<Longrightarrow> owned_view (s, own) ptr = Some (map (\<lambda>i. mem s (ptr + of_nat i)) [0..<n])"
  by (simp add: owned_view_def)

lemma owned_view_length: "own ptr = Some (g, n) \<Longrightarrow> owned_view (s, own) ptr = Some bs \<Longrightarrow> length bs = n"
  by (auto simp: owned_view_def)

lemma owned_view_same:
  assumes inv: "memory_inv s own L fr FL" and "own q = own' q"
    and same: "\<And>g n x. own q = Some (g, n) \<Longrightarrow> unat (x - q) < n \<Longrightarrow> mem t x = mem s x"
  shows "owned_view (t, own') q = owned_view (s, own) q"
proof (cases "own q")
  case (Some a)
  obtain g n where a: "a = (g, n)" by (cases a)
  note o = Some[unfolded a]
  have n: "n < 2 ^ 64" using owned_bytes(2)[OF memory_invD(1)[OF inv] memory_invD(2)[OF inv o]] by simp
  have "mem t (q + of_nat i) = mem s (q + of_nat i)" if i: "i < n" for i
  proof -
    have "unat (q + of_nat i - q) = i" using i n by (simp add: unat_of_nat)
    then show ?thesis using same[OF o] i by simp
  qed
  then show ?thesis using o assms(2) by (simp add: owned_view_def)
qed (use assms(2) in \<open>simp add: owned_view_def\<close>)

lemma owned_view_drop:
  assumes inv: "memory_inv s own L fr FL"
    and same: "\<And>q g n x. (own(ptr := None)) q = Some (g, n) \<Longrightarrow> unat (x - q) < n \<Longrightarrow> mem t x = mem s x"
  shows "owned_view (t, own(ptr := None)) = (owned_view (s, own))(ptr := None)"
proof
  fix q
  show "owned_view (t, own(ptr := None)) q = ((owned_view (s, own))(ptr := None)) q"
  proof (cases "q = ptr")
    case False
    then show ?thesis using owned_view_same[OF inv, of q "own(ptr := None)" t] same[of q] by simp
  qed simp
qed

lemma owned_view_add:
  assumes inv: "memory_inv s own L fr FL" and new: "own ptr = None"
    and same: "\<And>q g n x. own q = Some (g, n) \<Longrightarrow> unat (x - q) < n \<Longrightarrow> mem t x = mem s x"
  shows "\<exists>bs. length bs = n \<and> owned_view (t, own(ptr \<mapsto> (g, n))) = (owned_view (s, own))(ptr \<mapsto> bs)"
proof (intro exI conjI)
  show "owned_view (t, own(ptr \<mapsto> (g, n))) = (owned_view (s, own))(ptr \<mapsto> map (\<lambda>i. mem t (ptr + of_nat i)) [0..<n])"
  proof
    fix q
    show "owned_view (t, own(ptr \<mapsto> (g, n))) q = ((owned_view (s, own))(ptr \<mapsto> map (\<lambda>i. mem t (ptr + of_nat i)) [0..<n])) q"
    proof (cases "q = ptr")
      case False
      then show ?thesis using owned_view_same[OF inv, of q "own(ptr \<mapsto> (g, n))" t] same[of q] by simp
    qed (simp add: owned_view_def)
  qed
qed simp

lemma owned_view_apart:
  assumes inv: "memory_inv s own L fr FL" and n: "0 < n" "unat ptr + n < 2 ^ 64"
    and new: "\<And>q g n' x. own q = Some (g, n') \<Longrightarrow> unat (x - q) < n' \<Longrightarrow> \<not> unat (x - ptr) < n"
  shows "range_apart (owned_view (s, own)) ptr n"
  unfolding range_apart_def
proof (intro allI impI)
  fix q bs assume v: "owned_view (s, own) q = Some bs"
  then obtain g n' where o: "own q = Some (g, n')" by (auto simp: owned_view_def)
  note b = owned_bytes[OF memory_invD(1)[OF inv] memory_invD(2)[OF inv o]] and l = owned_view_length[OF o v]
  have "\<not> unat (ptr - q) < n'" using new[OF o, of ptr] n(1) by auto
  moreover have "\<not> unat (q - ptr) < n" using new[OF o, of q] b(1) by auto
  moreover have "unat (ptr - q) = unat ptr - unat q" if "unat q \<le> unat ptr" using that by (simp only: unat_sub_if_size if_True)
  moreover have "unat (q - ptr) = unat q - unat ptr" if "unat ptr \<le> unat q" using that by (simp only: unat_sub_if_size if_True)
  ultimately show "unat q + length bs \<le> unat ptr \<or> unat ptr + n \<le> unat q" unfolding l by linarith
qed

lemma spec_alloc:
  assumes inv: "memory_inv s own L fr FL" and inv': "memory_inv t (own(ptr \<mapsto> (g, n))) L' fr' FL'" and new: "own ptr = None"
    and same: "\<And>q g n' x. own q = Some (g, n') \<Longrightarrow> unat (x - q) < n' \<Longrightarrow> mem t x = mem s x \<and> \<not> unat (x - ptr) < n"
  shows "spec_step (owned_view (s, own)) (Alloc n ptr) (owned_view (t, own(ptr \<mapsto> (g, n))))"
proof -
  have ok: "owned_ok t L' fr' FL' ptr (g, n)" by (rule memory_invD(2)[OF inv']) simp
  note b = owned_bytes[OF memory_invD(1)[OF inv'] ok]
  obtain bs where bs: "length bs = n" "owned_view (t, own(ptr \<mapsto> (g, n))) = (owned_view (s, own))(ptr \<mapsto> bs)"
    using owned_view_add[OF inv new, of t n g] same by blast
  have "range_apart (owned_view (s, own)) ptr n" by (rule owned_view_apart[OF inv b(1,2)]) (use same in blast)
  then show ?thesis unfolding bs(2) using b bs(1) new by (intro spec_fresh) simp_all
qed


text \<open>One step keeps the invariant and is a step of the specification.\<close>

definition memory_good :: "'a slab_state_scheme \<times> owners \<Rightarrow> bool" where
  "memory_good = (\<lambda>(s, own). \<exists>L fr FL. memory_inv s own L fr FL)"

lemma kmalloc_step:
  assumes inv: "memory_inv s own L fr FL" and sz: "0 < sz" "end_magic_fits sz" and r: "kmalloc s sz = Some (ptr, t)" "ptr \<noteq> NULL"
    and own': "own' = own(ptr \<mapsto> (kmalloc_origin s sz t ptr, unat sz))"
  shows "memory_good (t, own') \<and> spec_step (owned_view (s, own)) (Alloc (unat sz) ptr) (owned_view (t, own'))"
  using inv sz
proof (cases rule: inv_kmalloc)
  case null
  then show ?thesis using r by simp
next
  case (got ptr' t' L' fr' FL')
  then have e: "ptr' = ptr" "t' = t" using r by simp_all
  have "spec_step (owned_view (s, own)) (Alloc (unat sz) ptr) (owned_view (t, own'))"
    unfolding own' by (rule spec_alloc[OF inv got(3,4)[unfolded e]]) (use got(5) e in blast)
  then show ?thesis using got(3) unfolding memory_good_def own' e by auto
qed

lemma kmalloc_null_state:
  assumes inv: "memory_inv s own L fr FL" and "end_magic_fits sz" and r: "kmalloc s sz = Some (NULL, t)"
  shows "t = s"
proof (cases "sz = 0")
  case True
  then show ?thesis using r by (simp add: kmalloc_def)
next
  case False
  then have "0 < sz" by (simp add: word_neq_0_conv)
  from inv this assms(2) show ?thesis by (cases rule: inv_kmalloc) (use r in simp_all)
qed

lemma write_step:
  assumes inv: "memory_inv s own L fr FL" and o: "own ptr = Some (g, n)" and m: "\<forall>x. n \<le> unat (x - ptr) \<longrightarrow> m x = mem s x"
    and t: "t = s\<lparr>mem := m\<rparr>"
  shows "memory_good (t, own) \<and> spec_step (owned_view (s, own)) (Write ptr) (owned_view (t, own))"
proof -
  let ?bs = "map (\<lambda>i. mem t (ptr + of_nat i)) [0..<n]"
  have m': "m x = mem s x" if "n \<le> unat (x - ptr)" for x using m that by blast
  note w = inv_write[OF inv o m']
  have "owned_view (t, own) q = ((owned_view (s, own))(ptr \<mapsto> ?bs)) q" for q
  proof (cases "q = ptr")
    case True
    then show ?thesis using o by (simp add: owned_view_def)
  next
    case False
    then show ?thesis using owned_view_same[OF inv, of q own t] w(2) t by simp
  qed
  then have "owned_view (t, own) = (owned_view (s, own))(ptr \<mapsto> ?bs)" ..
  moreover have "spec_step (owned_view (s, own)) (Write ptr) ((owned_view (s, own))(ptr \<mapsto> ?bs))"
    by (rule spec_write[of "owned_view (s, own)" ptr, OF owned_view_some[of own ptr g n s, OF o]]) simp
  ultimately show ?thesis using w(1) t by (auto simp: memory_good_def)
qed

lemma free_step:
  assumes inv: "memory_inv s own L fr FL" and o: "own ptr = Some (g, n)" and inv': "memory_inv t (own(ptr := None)) L' fr' FL'"
    and same: "\<And>q g n x. (own(ptr := None)) q = Some (g, n) \<Longrightarrow> unat (x - q) < n \<Longrightarrow> mem t x = mem s x"
  shows "memory_good (t, own(ptr := None)) \<and> spec_step (owned_view (s, own)) (Free ptr) (owned_view (t, own(ptr := None)))"
proof -
  have "owned_view (t, own(ptr := None)) = (owned_view (s, own))(ptr := None)" by (rule owned_view_drop[OF inv]) (rule same)
  then show ?thesis
    using spec_free[of "owned_view (s, own)" ptr, OF owned_view_some[of own ptr g n s, OF o]] inv' by (auto simp: memory_good_def)
qed

lemma mem_step_correct:
  assumes good: "memory_good \<sigma>" and step: "mem_step \<sigma> a \<tau>"
  shows "memory_good \<tau> \<and> spec_step (owned_view \<sigma>) a (owned_view \<tau>)"
  using step
proof cases
  case (kmalloc_some sz s ptr t own)
  then show ?thesis using good kmalloc_step[of s own _ _ _ sz ptr t] by (auto simp: memory_good_def)
next
  case (kmalloc_null sz s t own)
  then have "t = s" using good kmalloc_null_state[of s own _ _ _ sz t] by (auto simp: memory_good_def)
  then show ?thesis using good kmalloc_null by (auto intro: spec_null)
next
  case (pages_some order s phys t ptr n own)
  then obtain L fr FL where inv: "memory_inv s own L fr FL" using good by (auto simp: memory_good_def)
  show ?thesis
  proof (rule inv_get_pages[OF inv pages_some(4-8)])
    fix FL' assume t: "memory_inv t (own(ptr \<mapsto> (Pages (unat order), n))) L fr FL'" "own ptr = None"
      and same: "\<And>q g n' x. own q = Some (g, n') \<Longrightarrow> unat (x - q) < n' \<Longrightarrow> mem t x = mem s x \<and> \<not> unat (x - ptr) < n"
    have "spec_step (owned_view (s, own)) (Alloc n ptr) (owned_view (t, own(ptr \<mapsto> (Pages (unat order), n))))" by (rule spec_alloc[OF inv t]) (rule same)
    then show ?thesis using t(1) pages_some(1-3) by (auto simp: memory_good_def)
  qed
next
  case (pages_null order s t own)
  then obtain L fr FL where inv: "memory_inv s own L fr FL" using good by (auto simp: memory_good_def)
  have "t = s" using buddy_alloc_pages_post[OF heap_wf_cache(5)[OF memory_invD(1)[OF inv], of 0] pages_null(4,5)] by simp
  then show ?thesis using good pages_null by (auto intro: spec_null)
next
  case (owner_writes own ptr g n m s)
  then show ?thesis using good write_step[of s own _ _ _ ptr g n m] by (auto simp: memory_good_def)
next
  case (kfree_object own ptr c n s t)
  then obtain L fr FL where inv: "memory_inv s own L fr FL" using good by (auto simp: memory_good_def)
  show ?thesis
  proof (rule inv_kfree_object[OF inv kfree_object(4)])
    fix t' L' fr' assume t: "kfree s ptr = Some t'" "memory_inv t' (own(ptr := None)) L' fr' FL"
      and same: "\<And>q g' n' x. (own(ptr := None)) q = Some (g', n') \<Longrightarrow> unat (x - q) < n' \<Longrightarrow> mem t' x = mem s x"
    have "t' = t" using t(1) kfree_object by simp
    moreover have "memory_good (t', own(ptr := None)) \<and> spec_step (owned_view (s, own)) (Free ptr) (owned_view (t', own(ptr := None)))"
      by (rule free_step[OF inv kfree_object(4) t(2)]) (rule same)
    ultimately show ?thesis using kfree_object(1-3) by simp
  qed
next
  case (kfree_block own ptr k n s t)
  then obtain L fr FL where inv: "memory_inv s own L fr FL" using good by (auto simp: memory_good_def)
  show ?thesis
  proof (rule inv_kfree_block[OF inv kfree_block(4,5)])
    fix t' FL' assume t: "kfree s ptr = Some t'" "memory_inv t' (own(ptr := None)) L fr FL'"
      and same: "\<And>q g' n' x. (own(ptr := None)) q = Some (g', n') \<Longrightarrow> unat (x - q) < n' \<Longrightarrow> mem t' x = mem s x"
    have "t' = t" using t(1) kfree_block by simp
    moreover have "memory_good (t', own(ptr := None)) \<and> spec_step (owned_view (s, own)) (Free ptr) (owned_view (t', own(ptr := None)))"
      by (rule free_step[OF inv kfree_block(4) t(2)]) (rule same)
    ultimately show ?thesis using kfree_block(1-3) by simp
  qed
next
  case (pages_free own ptr k n s t)
  then obtain L fr FL where inv: "memory_inv s own L fr FL" using good by (auto simp: memory_good_def)
  show ?thesis
  proof (rule inv_put_pages[OF inv pages_free(4)])
    fix t' FL' assume t: "buddy_free_pages s (virt_to_phys s ptr) (of_nat k) = Some t'" "memory_inv t' (own(ptr := None)) L fr FL'"
      and same: "\<And>q g' n' x. (own(ptr := None)) q = Some (g', n') \<Longrightarrow> unat (x - q) < n' \<Longrightarrow> mem t' x = mem s x"
    have "t' = t" using t(1) pages_free by simp
    moreover have "memory_good (t', own(ptr := None)) \<and> spec_step (owned_view (s, own)) (Free ptr) (owned_view (t', own(ptr := None)))"
      by (rule free_step[OF inv pages_free(4) t(2)]) (rule same)
    ultimately show ?thesis using pages_free(1-3) by simp
  qed
qed

section \<open>From boot on\<close>

text \<open>The state at boot: zeroed globals, a memory map without overlaps, a direct map that is aligned
  to two pages, and the array of caches somewhere in the address space.\<close>

definition boot_ok :: "'a slab_state_scheme \<Rightarrow> limine_memmap_entry list \<Rightarrow> bool" where
  "boot_ok s es \<longleftrightarrow> buddy_arenas s = replicate 32 zero_arena \<and> buddy_arena_counter s = 0 \<and> memmap_ok (hhdm_offset s) es
     \<and> aligned 13 (hhdm_offset s) \<and> length (slab_caches s) = 8 \<and> 0 < slab_caches_addr s \<and> unat (slab_caches_addr s) + 8 * 72 < 2 ^ 64"

lemma init_keeps_caches:
  fixes s t :: "'a slab_state_scheme"
  assumes "buddy_allocator_init s es = Some t"
  shows "slab_caches t = slab_caches s \<and> slab_caches_addr t = slab_caches_addr s \<and> hhdm_offset t = hhdm_offset s"
proof -
  have pop: "slab_caches u = slab_caches r \<and> slab_caches_addr u = slab_caches_addr r \<and> hhdm_offset u = hhdm_offset r"
    if "populate_loop r i k a b = Some u" for r u :: "'a slab_state_scheme" and i k a b
    using that
    by (erule_tac populate_loop.raw_induct[rotated])
       (auto simp: Let_def push_free_block_def set_free_head_def set_arena_def split: if_splits option.splits)
  have add: "slab_caches u = slab_caches r \<and> slab_caches_addr u = slab_caches_addr r \<and> hhdm_offset u = hhdm_offset r"
    if "add_buddy_arena r i a b = Some (v, u)" for r u :: "'a slab_state_scheme" and i a b v
    using that
    by (auto simp: add_buddy_arena_def Let_def populate_buddy_blocks_def set_arena_def split: if_splits bind_splits dest!: pop)
  show ?thesis
    using assms unfolding buddy_allocator_init_def
    by (induction s es rule: buddy_init_loop.induct) (auto simp: Let_def split: if_splits bind_splits dest!: add)
qed

lemma slab_init_caches:
  assumes "length (slab_caches s) = 8"
  shows "slab_allocator_init s = s\<lparr>slab_caches := map (\<lambda>z. \<lparr>object_size = z, objects_per_slab = calculate_objects_per_slab z,
       slab_size = 2 * PAGE_FRAME_SIZE, full_slabs = NULL, partial_slabs = NULL, empty_slabs = NULL,
       total_objects = 0, allocated_objects = 0, total_slabs = 0\<rparr>) slab_sizes\<rparr>"
proof -
  obtain a0 a1 a2 a3 a4 a5 a6 a7 where "slab_caches s = [a0, a1, a2, a3, a4, a5, a6, a7]"
    using assms by (auto simp: numeral_eq_Suc length_Suc_conv)
  then show ?thesis by (simp add: slab_allocator_init_def slab_sizes_def slab_cache_init_def set_cache_def upt_rec)
qed

lemma boot_memory_inv:
  assumes "boot_ok s es"
  obtains t FL where "buddy_allocator_init s es = Some t" "memory_inv (slab_allocator_init t) Map.empty (\<lambda>_ _. []) (\<lambda>_ _. []) FL"
    "free_bytes (slab_allocator_init t) FL = \<Union> (entry_pages ` set (managed_entries es))"
proof -
  obtain t FL where t: "buddy_allocator_init s es = Some t" "buddy_wf t FL" "free_bytes t FL = \<Union> (entry_pages ` set (managed_entries es))"
    using init_loop_first[of s es] assms by (auto simp: boot_ok_def buddy_allocator_init_def)
  note k = init_keeps_caches[OF t(1)]
  let ?u = "slab_allocator_init t"
  have u: "?u = t\<lparr>slab_caches := map (\<lambda>z. \<lparr>object_size = z, objects_per_slab = calculate_objects_per_slab z,
       slab_size = 2 * PAGE_FRAME_SIZE, full_slabs = NULL, partial_slabs = NULL, empty_slabs = NULL,
       total_objects = 0, allocated_objects = 0, total_slabs = 0\<rparr>) slab_sizes\<rparr>"
    using assms k by (intro slab_init_caches) (simp add: boot_ok_def)
  have len: "length slab_sizes = 8" by (simp add: slab_sizes_def)
  have lay: "layout_ok (unat (slab_sizes ! c)) (unat (calculate_objects_per_slab (slab_sizes ! c)))" if "c < 8" for c
  proof -
    have "\<forall>z\<in>set slab_sizes. layout_ok (unat z) (unat (calculate_objects_per_slab z))"
      by (simp add: slab_sizes_def layout_ok_def calculate_objects_per_slab_def sizeof_slab_def)
    then show ?thesis using that len by simp
  qed
  have bw: "buddy_wf ?u FL" unfolding u using t(2) by (simp only: buddy_wf_caches)
  have al: "alloc_wf ?u c (\<lambda>_. []) (\<lambda>_. []) FL" if c: "c < 8" for c
  proof (rule alloc_wf_empty[OF bw])
    show "list_head w (cache_at ?u c) = NULL" for w using c len by (cases w) (simp_all add: u)
  qed (use c len lay[OF c] assms k in \<open>simp_all add: u boot_ok_def\<close>)
  have "cache_ptr ?u c \<noteq> NULL" if c: "c < 8" for c
  proof
    assume "cache_ptr ?u c = NULL"
    then have z: "slab_caches_addr s + of_nat c * 72 = 0" by (simp add: cache_ptr_def sizeof_slab_cache_def u k)
    have "unat (of_nat c * 72 :: u64) = c * 72" using c by (simp add: unat_word_ariths(2) unat_of_nat)
    then have "unat (slab_caches_addr s + of_nat c * 72) = unat (slab_caches_addr s) + c * 72"
      using assms c unat_plus64[of "slab_caches_addr s" "of_nat c * 72"] by (simp add: boot_ok_def)
    then show False using z assms by (simp add: boot_ok_def word_less_nat_alt)
  qed
  then have "heap_wf ?u (\<lambda>_ _. []) (\<lambda>_ _. []) FL" using al len by (simp add: heap_wf_def u all_slabs_def)
  then show thesis by (intro that[OF t(1)]) (simp add: memory_inv_def, unfold u, simp add: buddy_wf_caches(2) t(3))
qed

interpretation km: stepwise_refinement memory_good mem_step owned_view spec_step
  by unfold_locales (rule mem_step_correct)

lemma boot_memory_run:
  assumes "boot_ok s es"
  obtains t FL where "buddy_allocator_init s es = Some t" "memory_inv (slab_allocator_init t) Map.empty (\<lambda>_ _. []) (\<lambda>_ _. []) FL"
    "free_bytes (slab_allocator_init t) FL = \<Union> (entry_pages ` set (managed_entries es))"
    "\<And>as \<sigma>. trace mem_step (slab_allocator_init t, Map.empty) as \<sigma> \<Longrightarrow> memory_good \<sigma> \<and> trace spec_step Map.empty as (owned_view \<sigma>)"
proof (rule boot_memory_inv[OF assms])
  fix t FL assume t: "buddy_allocator_init s es = Some t" "memory_inv (slab_allocator_init t) Map.empty (\<lambda>_ _. []) (\<lambda>_ _. []) FL"
    "free_bytes (slab_allocator_init t) FL = \<Union> (entry_pages ` set (managed_entries es))"
  have g: "memory_good (slab_allocator_init t, Map.empty)" using t(2) by (auto simp: memory_good_def)
  have "owned_view (slab_allocator_init t, Map.empty) = Map.empty" by (simp add: owned_view_def fun_eq_iff)
  then show thesis using km.trace_sim[OF _ g] by (intro that[OF t]) simp
qed

text \<open>C1: From boot on the allocators implement private memory. On zeroed globals and a memory map without overlaps the
  initialisation of the buddy and slab allocators returns. Then every sequence of the steps below is, step by step, a run of the
  specification in which memory is a map from pointers to byte strings: an allocation yields NULL and no change, or a pointer whose
  range overlaps no other and does not wrap; no step changes the bytes of another owner; freed memory has no owner. The steps are
  \<^verbatim>\<open>kmalloc\<close>, \<^verbatim>\<open>kfree\<close> of an owned pointer, page allocations of order at most 20, frees of owned pages, and writes of owners to their own
  bytes, with two exclusions where the code breaks the specification. \<^verbatim>\<open>kmalloc\<close> is not called with a size whose eight-byte end magic
  can overrun its block, one of the four values \<open>2^j - 23\<close> to \<open>2^j - 20\<close> for some \<open>j\<close> from 12 to 31, nor with more than \<open>2^63 - 20\<close> bytes, where it
  does not return. \<^verbatim>\<open>kfree\<close> is not called with a pointer into a block while the word at the two-page boundary below it is the magic of a slab,
  as happens for a block of one page when the page before it begins with that word.\<close>

theorem kernel_memory_refines:
  assumes "boot_ok s es"
  shows "\<exists>t. buddy_allocator_init s es = Some t
    \<and> (\<forall>as \<sigma>. trace mem_step (slab_allocator_init t, Map.empty) as \<sigma> \<longrightarrow> trace spec_step Map.empty as (owned_view \<sigma>))"
  by (rule boot_memory_run[OF assms]) blast

definition boot_slab :: slab_state where
  "boot_slab = \<lparr>mem = (\<lambda>_. 0), hhdm_offset = 0xFFFF800000000000, buddy_arenas = replicate 32 zero_arena, buddy_arena_counter = 0,
     slab_caches = replicate 8 \<lparr>object_size = 0, objects_per_slab = 0, slab_size = 0, full_slabs = 0, partial_slabs = 0, empty_slabs = 0,
       total_objects = 0, allocated_objects = 0, total_slabs = 0\<rparr>, slab_caches_addr = 0xFFFFFFFF80001000\<rparr>"

lemma boot_slab_ok: "boot_ok boot_slab boot_memmap"
  by (simp add: boot_ok_def boot_slab_def boot_memmap_def usable_def entry_ok_def entry_range_def eff_base_def aligned_def)

lemma boot_free: "\<Union> (entry_pages ` set (managed_entries boot_memmap)) = {0x101000..<0x105000}"
proof -
  have "managed_entries boot_memmap = [\<lparr>entry_base = 0x100100, entry_length = 0x4F00, entry_type = 0\<rparr>]"
    by (simp add: managed_entries_def boot_memmap_def usable_def entry_pages_def add_arena_pages_def eff_base_def)
  moreover have "entry_pages \<lparr>entry_base = 0x100100, entry_length = 0x4F00, entry_type = 0\<rparr> = {0x101000..<0x105000}"
    by (simp add: entry_pages_def add_arena_pages_def eff_base_def)
  ultimately show ?thesis by simp
qed

text \<open>The first request after boot is served.\<close>

lemma boot_first_request:
  assumes inv: "memory_inv s Map.empty L fr FL" and free: "free_bytes s FL = {0x101000..<0x105000}"
  obtains ptr t g where "ptr \<noteq> NULL" "kmalloc s 100 = Some (ptr, t)" "mem_step (s, Map.empty) (Alloc 100 ptr) (t, [ptr \<mapsto> (g, 100)])"
proof -
  have sz: "0 < (100 :: u64)" "end_magic_fits 100" by (simp_all add: small_fits)
  have "0x101000 \<in> free_bytes s FL" using free by simp
  then obtain i k a where b: "(i, k, a) \<in> free_blocks s FL" "0x101000 \<in> brange a k" by (auto simp: free_bytes_def)
  have sub: "brange a k \<subseteq> {0x101000..<0x105000}" using b(1) unfolding free[symmetric] free_bytes_def by force
  have "k < 20"
  proof (rule ccontr)
    assume "\<not> k < 20"
    then have "(2 :: nat) ^ 32 \<le> 2 ^ (12 + k)" by (intro power_increasing) simp_all
    then have "unat a + 4294967295 \<in> brange a k" by (simp add: brange_def)
    then show False using sub by auto
  qed
  have "(2 :: nat) ^ 12 \<le> 2 ^ (12 + k)" by (intro power_increasing) simp_all
  then have big: "\<not> (2 :: nat) ^ (12 + k) < unat (100 :: u64) + 20" by simp
  from inv sz show thesis
  proof (cases rule: inv_kmalloc)
    case null
    then show thesis using b(1) \<open>k < 20\<close> big by blast
  next
    case (got ptr t)
    then show thesis using kmalloc_some[OF sz got(1,2), of Map.empty] by (intro that) simp_all
  qed
qed

theorem kernel_memory_refines_witness:
  "\<exists>t ptr u g bs. buddy_allocator_init boot_slab boot_memmap = Some t \<and> ptr \<noteq> NULL \<and> kmalloc (slab_allocator_init t) 100 = Some (ptr, u)
     \<and> owned_view (u, [ptr \<mapsto> (g, 100)]) = [ptr \<mapsto> bs] \<and> trace spec_step Map.empty [Alloc 100 ptr] [ptr \<mapsto> bs]"
proof -
  obtain t FL where t: "buddy_allocator_init boot_slab boot_memmap = Some t" "memory_inv (slab_allocator_init t) Map.empty (\<lambda>_ _. []) (\<lambda>_ _. []) FL"
      "free_bytes (slab_allocator_init t) FL = {0x101000..<0x105000}"
    by (rule boot_memory_run[OF boot_slab_ok, unfolded boot_free]) (rule that)
  obtain ptr u g where u: "ptr \<noteq> NULL" "kmalloc (slab_allocator_init t) 100 = Some (ptr, u)"
      "mem_step (slab_allocator_init t, Map.empty) (Alloc 100 ptr) (u, [ptr \<mapsto> (g, 100)])"
    by (rule boot_first_request[OF t(2,3)]) (rule that)
  have "trace mem_step (slab_allocator_init t, Map.empty) [Alloc 100 ptr] (u, [ptr \<mapsto> (g, 100)])"
    using u(3) by (intro trace_cons[OF _ trace_nil])
  then have "trace spec_step Map.empty [Alloc 100 ptr] (owned_view (u, [ptr \<mapsto> (g, 100)]))"
    using kernel_memory_refines[OF boot_slab_ok] t(1) by auto
  moreover have "owned_view (u, [ptr \<mapsto> (g, 100)]) = [ptr \<mapsto> map (\<lambda>i. mem u (ptr + of_nat i)) [0..<100]]" by (auto simp: owned_view_def fun_eq_iff)
  ultimately show ?thesis using t(1) u(1,2) by (metis (no_types))
qed

text \<open>C14: In every state that a sequence of these steps reaches, requests and returns come to an end, whatever the owners have written to their
  memory. \<^verbatim>\<open>kmalloc\<close> returns for every size but 0, the four values \<open>2^j - 23\<close> to \<open>2^j - 20\<close> for \<open>j\<close> from 12 to 31, whose end magic can overrun
  the block, and sizes above \<open>2^63 - 20\<close>, for which its loop does not end. \<^verbatim>\<open>kfree\<close> returns for every owned object of a slab, and for every owned
  block unless the word at the two-page boundary below the pointer is the magic of a slab, in which case the block is taken for a slab.
  Freeing pages returns for all owned pages.\<close>

theorem kernel_memory_progress:
  assumes "boot_ok s0 es" "buddy_allocator_init s0 es = Some t0" "trace mem_step (slab_allocator_init t0, Map.empty) as (s, own)"
  shows "(0 < sz \<and> end_magic_fits sz \<longrightarrow> (\<exists>ptr t. kmalloc s sz = Some (ptr, t)))
    \<and> (\<forall>g n. own ptr = Some (g, n) \<longrightarrow> (case g of
         Object c \<Rightarrow> \<exists>t. kfree s ptr = Some t
       | Block k \<Rightarrow> sl_magic (mem s) (ptr AND NOT (2 * PAGE_FRAME_SIZE - 1)) \<noteq> SLAB_MAGIC \<longrightarrow> (\<exists>t. kfree s ptr = Some t)
       | Pages k \<Rightarrow> \<exists>t. buddy_free_pages s (virt_to_phys s ptr) (of_nat k) = Some t))"
proof -
  have "memory_good (s, own)" by (rule boot_memory_run[OF assms(1)]) (use assms(2,3) in auto)
  then obtain L fr FL where inv: "memory_inv s own L fr FL" by (auto simp: memory_good_def)
  have "\<exists>ptr t. kmalloc s sz = Some (ptr, t)" if "0 < sz" "end_magic_fits sz" using inv that by (cases rule: inv_kmalloc) auto
  moreover have "\<exists>t. kfree s ptr = Some t" if "own ptr = Some (Object c, n)" for c n using inv_kfree_object[OF inv that] by metis
  moreover have "\<exists>t. kfree s ptr = Some t"
    if "own ptr = Some (Block k, n)" "sl_magic (mem s) (ptr AND NOT (2 * PAGE_FRAME_SIZE - 1)) \<noteq> SLAB_MAGIC" for k n
    using inv_kfree_block[OF inv that] by metis
  moreover have "\<exists>t. buddy_free_pages s (virt_to_phys s ptr) (of_nat k) = Some t" if "own ptr = Some (Pages k, n)" for k n
    using inv_put_pages[OF inv that] by metis
  ultimately show ?thesis by (auto split: origin.splits)
qed

theorem kernel_memory_progress_witness:
  "\<exists>t ptr u v. buddy_allocator_init boot_slab boot_memmap = Some t \<and> kmalloc (slab_allocator_init t) 100 = Some (ptr, u) \<and> kmalloc u 3000 = Some v"
proof -
  obtain t FL where t: "buddy_allocator_init boot_slab boot_memmap = Some t" "memory_inv (slab_allocator_init t) Map.empty (\<lambda>_ _. []) (\<lambda>_ _. []) FL"
      "free_bytes (slab_allocator_init t) FL = {0x101000..<0x105000}"
    by (rule boot_memory_run[OF boot_slab_ok, unfolded boot_free]) (rule that)
  obtain ptr u g where u: "ptr \<noteq> NULL" "kmalloc (slab_allocator_init t) 100 = Some (ptr, u)"
      "mem_step (slab_allocator_init t, Map.empty) (Alloc 100 ptr) (u, [ptr \<mapsto> (g, 100)])"
    by (rule boot_first_request[OF t(2,3)]) (rule that)
  have "trace mem_step (slab_allocator_init t, Map.empty) [Alloc 100 ptr] (u, [ptr \<mapsto> (g, 100)])"
    using u(3) by (intro trace_cons[OF _ trace_nil])
  from kernel_memory_progress[OF boot_slab_ok t(1) this, of 3000]
  have "\<exists>v. kmalloc u 3000 = Some v" by (simp add: small_fits)
  then show ?thesis using t(1) u(2) by blast
qed

end
