(* ===== verification/Mem_List.thy ===== *)
theory Mem_List
  imports Memory DList
begin

text \<open>
  The intrusive lists of \<^verbatim>\<open>kernel/include/ds/lists.h\<close> where they really live: inside structures in
  byte memory, a node being the two words \<^verbatim>\<open>next\<close> (offset 0) and \<^verbatim>\<open>prev\<close> (offset 8). On nodes that do
  not overlap, the operations are those of the typed node heap of the theory \<open>DList\<close>, so that its
  refinement to sequences carries over.
\<close>

definition node_next :: "memory \<Rightarrow> u64 \<Rightarrow> u64" where "node_next m p = load64 m p"
definition node_prev :: "memory \<Rightarrow> u64 \<Rightarrow> u64" where "node_prev m p = load64 m (p + 8)"

definition node_init :: "memory \<Rightarrow> u64 \<Rightarrow> memory" where
  "node_init m lst = store64 (store64 m lst lst) (lst + 8) lst"

definition node_add :: "memory \<Rightarrow> u64 \<Rightarrow> u64 \<Rightarrow> u64 \<Rightarrow> memory" where
  "node_add m new_node prv nxt =
     (let m = store64 m (nxt + 8) new_node;
          m = store64 m new_node nxt;
          m = store64 m (new_node + 8) prv
      in store64 m prv new_node)"

definition node_add_tail :: "memory \<Rightarrow> u64 \<Rightarrow> u64 \<Rightarrow> memory" where
  "node_add_tail m new_node head = node_add m new_node (node_prev m head) head"

definition node_del :: "memory \<Rightarrow> u64 \<Rightarrow> memory" where
  "node_del m entry =
     (let m = store64 m (node_prev m entry) (node_next m entry);
          m = store64 m (node_next m entry + 8) (node_prev m entry);
          m = store64 m entry entry
      in store64 m (entry + 8) entry)"

definition node_empty :: "memory \<Rightarrow> u64 \<Rightarrow> bool" where
  "node_empty m head \<longleftrightarrow> node_next m head = head"

section \<open>Nodes that do not overlap\<close>

definition heap_of :: "memory \<Rightarrow> list_heap" where
  "heap_of m = \<lparr>ln_next = node_next m, ln_prev = node_prev m\<rparr>"

definition nodes_sep :: "u64 set \<Rightarrow> bool" where
  "nodes_sep N \<longleftrightarrow> (\<forall>a\<in>N. \<forall>b\<in>N. a \<noteq> b \<longrightarrow> disj_range a 16 b 16)"

text \<open>Two heaps that agree on a set of nodes.\<close>

definition agree :: "u64 set \<Rightarrow> list_heap \<Rightarrow> list_heap \<Rightarrow> bool" where
  "agree N g h \<longleftrightarrow> (\<forall>p\<in>N. ln_next g p = ln_next h p \<and> ln_prev g p = ln_prev h p)"

lemma node_fields_disj:
  assumes "nodes_sep N" "a \<in> N" "b \<in> N" "a \<noteq> b"
  shows "disj_range a 8 b 8" "disj_range a 8 (b + 8) 8" "disj_range (a + 8) 8 b 8" "disj_range (a + 8) 8 (b + 8) 8"
proof -
  have "disj_range a 16 b 16" using assms by (simp add: nodes_sep_def)
  then have d: "16 \<le> unat (b - a)" "16 \<le> unat (a - b)" by (simp_all add: disj_range_def word_le_nat_alt)
  have s: "unat (a - b) = 18446744073709551616 - unat (b - a)"
    using d unat_lt64[of a] unat_lt64[of b] unat_sub_if_size[of a b] unat_sub_if_size[of b a]
    by (simp add: word_size word_le_nat_alt split: if_splits)
  have p: "unat (b + 8 - a) \<ge> 8" "unat (a + 8 - b) \<ge> 8"
  proof -
    have e: "b + 8 - a = (b - a) + 8" "a + 8 - b = (a - b) + 8" by simp_all
    have "unat ((b - a) + 8) = unat (b - a) + 8" "unat ((a - b) + 8) = unat (a - b) + 8"
      using d s unat_lt64[of "b - a"] by (simp_all add: unat_plus64)
    then show "unat (b + 8 - a) \<ge> 8" "unat (a + 8 - b) \<ge> 8" unfolding e by linarith+
  qed
  have q: "unat (b - (a + 8)) \<ge> 8" "unat (a - (b + 8)) \<ge> 8"
  proof -
    have e: "b - (a + 8) = (b - a) - 8" "a - (b + 8) = (a - b) - 8" by simp_all
    have "unat ((b - a) - 8) = unat (b - a) - 8" "unat ((a - b) - 8) = unat (a - b) - 8"
      using d by (simp_all add: unat_sub word_le_nat_alt)
    then show "unat (b - (a + 8)) \<ge> 8" "unat (a - (b + 8)) \<ge> 8" unfolding e using d by linarith+
  qed
  show "disj_range a 8 b 8" "disj_range a 8 (b + 8) 8" "disj_range (a + 8) 8 b 8" "disj_range (a + 8) 8 (b + 8) 8"
    using d p q by (simp_all add: disj_range_def word_le_nat_alt)
qed

lemma store_next:
  assumes "nodes_sep N" "a \<in> N" "b \<in> N"
  shows "node_next (store64 m a v) b = (if b = a then v else node_next m b)"
    and "node_prev (store64 m a v) b = node_prev m b"
proof -
  have self: "load64 (store64 m a v) (a + 8) = load64 m (a + 8)" by (rule load64_store64_disj) (simp add: disj_range_def)
  show "node_next (store64 m a v) b = (if b = a then v else node_next m b)"
    and "node_prev (store64 m a v) b = node_prev m b"
    using node_fields_disj[OF assms] self by (cases "b = a"; simp add: node_next_def node_prev_def load64_store64_disj)+
qed

lemma store_prev:
  assumes "nodes_sep N" "a \<in> N" "b \<in> N"
  shows "node_next (store64 m (a + 8) v) b = node_next m b"
    and "node_prev (store64 m (a + 8) v) b = (if b = a then v else node_prev m b)"
proof -
  have self: "load64 (store64 m (a + 8) v) a = load64 m a" by (rule load64_store64_disj) (simp add: disj_range_def)
  show "node_next (store64 m (a + 8) v) b = node_next m b"
    and "node_prev (store64 m (a + 8) v) b = (if b = a then v else node_prev m b)"
    using node_fields_disj[OF assms] self by (cases "b = a"; simp add: node_next_def node_prev_def load64_store64_disj)+
qed

lemma agree_set_next:
  "nodes_sep N \<Longrightarrow> a \<in> N \<Longrightarrow> agree N (heap_of m) h \<Longrightarrow> agree N (heap_of (store64 m a v)) (set_next h a v)"
  by (auto simp: agree_def heap_of_def store_next)

lemma agree_set_prev:
  "nodes_sep N \<Longrightarrow> a \<in> N \<Longrightarrow> agree N (heap_of m) h \<Longrightarrow> agree N (heap_of (store64 m (a + 8) v)) (set_prev h a v)"
  by (auto simp: agree_def heap_of_def store_prev)

lemma agree_refl [simp]: "agree N h h"
  by (simp add: agree_def)

lemma agree_heap_of: "agree N (heap_of m) h \<Longrightarrow> p \<in> N \<Longrightarrow> node_next m p = ln_next h p \<and> node_prev m p = ln_prev h p"
  by (auto simp: agree_def heap_of_def)

lemma heap_of_sel [simp]: "ln_next (heap_of m) = node_next m" "ln_prev (heap_of m) = node_prev m"
  by (simp_all add: heap_of_def)

section \<open>The operations in memory are the operations on nodes\<close>

lemma node_init_agree: "nodes_sep N \<Longrightarrow> p \<in> N \<Longrightarrow> agree N (heap_of (node_init m p)) (list_init (heap_of m) p)"
  unfolding node_init_def list_init_def by (intro agree_set_prev agree_set_next agree_refl)

lemma node_add_agree:
  "nodes_sep N \<Longrightarrow> n \<in> N \<Longrightarrow> p \<in> N \<Longrightarrow> q \<in> N \<Longrightarrow> agree N (heap_of (node_add m n p q)) (list_add (heap_of m) n p q)"
  unfolding node_add_def list_add_def Let_def by (intro agree_set_prev agree_set_next agree_refl)

lemma node_del_agree:
  assumes N: "nodes_sep N" "e \<in> N" "node_prev m e \<in> N" "node_next m e \<in> N"
  shows "agree N (heap_of (node_del m e)) (list_del (heap_of m) e)"
proof (cases "node_prev m e = e")
  case True
  let ?m = "store64 m (node_prev m e) (node_next m e)"
  have a: "agree N (heap_of ?m) (set_next (heap_of m) (node_prev m e) (node_next m e))"
    using N by (intro agree_set_next agree_refl)
  then have "node_next ?m e = ln_next (set_next (heap_of m) (node_prev m e) (node_next m e)) e"
    "node_prev ?m e = ln_prev (set_next (heap_of m) (node_prev m e) (node_next m e)) e"
    using agree_heap_of N(2) by blast+
  then show ?thesis
    unfolding node_del_def list_del_def Let_def using N a True by (simp add: agree_set_prev agree_set_next)
next
  case False
  let ?m = "store64 m (node_prev m e) (node_next m e)"
  have a: "agree N (heap_of ?m) (set_next (heap_of m) (node_prev m e) (node_next m e))"
    using N by (intro agree_set_next agree_refl)
  have "node_next ?m e = node_next m e" "node_prev ?m e = node_prev m e"
    using store_next[OF N(1,3,2)] False by auto
  then show ?thesis
    unfolding node_del_def list_del_def Let_def using N a False by (simp add: agree_set_prev agree_set_next)
qed

text \<open>A list in memory: \<open>mlist m head xs\<close>; all nodes around are kept apart from it.\<close>

definition mlist :: "memory \<Rightarrow> u64 \<Rightarrow> u64 list \<Rightarrow> bool" where
  "mlist m head xs \<longleftrightarrow> dlist (heap_of m) head xs"

lemma mlist_agree: "agree N (heap_of m) h \<Longrightarrow> set (head # xs) \<subseteq> N \<Longrightarrow> dlist h head xs \<Longrightarrow> mlist m head xs"
  unfolding mlist_def by (elim dlist_frame) (auto simp: agree_def)

lemma mlist_links:
  assumes "mlist m head (xs @ e # ys)"
  shows "node_prev m e = last (head # xs)" "node_next m e = hd (ys @ [head])"
  using assms chain_last[of "heap_of m" head xs e] chain_first[of "heap_of m" e ys head]
  by (auto simp: mlist_def dlist_def chain_append)

lemma mlist_last: "mlist m head xs \<Longrightarrow> node_prev m head = last (head # xs)"
  using chain_last[of "heap_of m" head xs head] by (simp add: mlist_def dlist_def)

lemma mlist_first: "mlist m head xs \<Longrightarrow> node_next m head = hd (xs @ [head])"
  using chain_first[of "heap_of m" head xs head] by (simp add: mlist_def dlist_def)

lemma mlist_empty_iff: "mlist m head xs \<Longrightarrow> node_empty m head \<longleftrightarrow> xs = []"
  using dlist_empty_iff[of "heap_of m" head xs] by (simp add: mlist_def node_empty_def list_empty_def)

lemma mlist_distinct: "mlist m head xs \<Longrightarrow> distinct (head # xs)"
  by (simp add: mlist_def dlist_def)

lemma mlist_init:
  assumes "nodes_sep N" "p \<in> N"
  shows "mlist (node_init m p) p []"
    and "mlist m q xs \<Longrightarrow> set (q # xs) \<subseteq> N \<Longrightarrow> p \<notin> set (q # xs) \<Longrightarrow> mlist (node_init m p) q xs"
proof -
  note a = node_init_agree[OF assms, of m]
  show "mlist (node_init m p) p []" using mlist_agree[OF a _ dlist_init] assms(2) by simp
  assume "mlist m q xs" "set (q # xs) \<subseteq> N" "p \<notin> set (q # xs)"
  then show "mlist (node_init m p) q xs"
    by (intro mlist_agree[OF a]) (auto simp: mlist_def list_init_def elim: dlist_frame)
qed

lemma mlist_add_tail:
  assumes N: "nodes_sep N" "set (head # xs) \<subseteq> N" "n \<in> N" and l: "mlist m head xs" and n: "n \<notin> set (head # xs)"
  shows "mlist (node_add_tail m n head) head (xs @ [n])"
    and "mlist m q ys \<Longrightarrow> set (q # ys) \<subseteq> N \<Longrightarrow> n \<notin> set (q # ys) \<Longrightarrow> set (head # xs) \<inter> set (q # ys) = {} \<Longrightarrow>
      mlist (node_add_tail m n head) q ys"
proof -
  have p: "node_prev m head \<in> set (head # xs)" unfolding mlist_last[OF l] by (rule last_in_set) simp
  then have a: "agree N (heap_of (node_add_tail m n head)) (list_add_tail (heap_of m) n head)"
    unfolding node_add_tail_def list_add_tail_def heap_of_sel using N by (intro node_add_agree) auto
  show "mlist (node_add_tail m n head) head (xs @ [n])"
    using dlist_add_tail[of "heap_of m" head xs n] l n N by (intro mlist_agree[OF a]) (auto simp: mlist_def)
  assume q: "mlist m q ys" "set (q # ys) \<subseteq> N" "n \<notin> set (q # ys)" "set (head # xs) \<inter> set (q # ys) = {}"
  then have "x \<noteq> node_prev m head \<and> x \<noteq> n \<and> x \<noteq> head" if "x \<in> set (q # ys)" for x using that p by auto
  then show "mlist (node_add_tail m n head) q ys"
    using q(1,2) by (intro mlist_agree[OF a]) (auto simp: mlist_def list_add_tail_def list_add_at elim!: dlist_frame)
qed

lemma mlist_del:
  assumes N: "nodes_sep N" "set (head # xs @ e # ys) \<subseteq> N" and l: "mlist m head (xs @ e # ys)"
  shows "mlist (node_del m e) head (xs @ ys)" "node_next (node_del m e) e = e" "node_prev (node_del m e) e = e"
    and "mlist m q zs \<Longrightarrow> set (q # zs) \<subseteq> N \<Longrightarrow> set (head # xs @ e # ys) \<inter> set (q # zs) = {} \<Longrightarrow> mlist (node_del m e) q zs"
proof -
  have "node_prev m e \<in> set (head # xs)" "node_next m e \<in> set (ys @ [head])"
    unfolding mlist_links[OF l] by (rule last_in_set hd_in_set; simp)+
  then have a: "agree N (heap_of (node_del m e)) (list_del (heap_of m) e)" using N by (intro node_del_agree) auto
  note d = l[unfolded mlist_def]
  show "mlist (node_del m e) head (xs @ ys)" using N dlist_del[OF d] by (intro mlist_agree[OF a]) auto
  have "e \<in> N" using N by simp
  then show "node_next (node_del m e) e = e" "node_prev (node_del m e) e = e"
    using agree_heap_of[OF a, of e] list_del_self[of "heap_of m" e] by simp_all
  assume q: "mlist m q zs" "set (q # zs) \<subseteq> N" "set (head # xs @ e # ys) \<inter> set (q # zs) = {}"
  have out: "z \<notin> set (head # xs @ e # ys)" if "z \<in> set (q # zs)" for z using that q(3) by blast
  have "dlist (list_del (heap_of m) e) q zs"
    using q(1)[unfolded mlist_def] by (rule dlist_frame) (simp only: list_del_other[OF d out])
  then show "mlist (node_del m e) q zs" using q(2) by (intro mlist_agree[OF a])
qed

text \<open>A store outside all nodes.\<close>

lemma mlist_cong:
  "mlist m head xs \<Longrightarrow> (\<And>p. p \<in> set (head # xs) \<Longrightarrow> load64 m' p = load64 m p \<and> load64 m' (p + 8) = load64 m (p + 8)) \<Longrightarrow> mlist m' head xs"
  unfolding mlist_def by (erule dlist_frame) (simp add: node_next_def node_prev_def)

end
