(* ===== verification/Vfs.thy ===== *)
theory Vfs
  imports Pmm Mem_List
begin

text \<open>
  The virtual file system (\<^verbatim>\<open>kernel/kernel/filesystems/vfs.c\<close>) and the dentry cache
  (\<^verbatim>\<open>dentry_cache.c\<close>): dentries, inodes and open files in memory, the hash table of dentries, path
  resolution and the file operations. The operations of a concrete file system (function pointers;
  the repository contains none) are parameters. A result \<open>None\<close> stands for a call that does not
  return: it follows a NULL pointer, an uninitialised variable or an endless list.
\<close>

section \<open>State and structures\<close>

definition DENTRY_HASH_SIZE :: nat where "DENTRY_HASH_SIZE = 256"
definition DENTRY_NAME_MAX_LENGTH :: u64 where "DENTRY_NAME_MAX_LENGTH = 255"
definition INODE_FILE_TYPE_MASK :: u32 where "INODE_FILE_TYPE_MASK = 0xF000"
definition INODE_FILE_DIRECTORY :: u32 where "INODE_FILE_DIRECTORY = 0x4000"
definition INODE_FILE_SOCKET :: u32 where "INODE_FILE_SOCKET = 0xC000"
definition INODE_FILE_LINK :: u32 where "INODE_FILE_LINK = 0xA000"
definition INODE_FILE_REGULAR_FILE :: u32 where "INODE_FILE_REGULAR_FILE = 0x8000"
definition INODE_FILE_BLOCK_DEVICE :: u32 where "INODE_FILE_BLOCK_DEVICE = 0x6000"
definition INODE_FILE_CHAR_DEVICE :: u32 where "INODE_FILE_CHAR_DEVICE = 0x2000"
definition INODE_FILE_FIFO :: u32 where "INODE_FILE_FIFO = 0x1000"

definition IS_LINK :: "u32 \<Rightarrow> bool" where
  "IS_LINK type_mask \<longleftrightarrow> type_mask AND INODE_FILE_TYPE_MASK = INODE_FILE_LINK"
definition IS_REGULAR_FILE :: "u32 \<Rightarrow> bool" where
  "IS_REGULAR_FILE type_mask \<longleftrightarrow> type_mask AND INODE_FILE_TYPE_MASK = INODE_FILE_REGULAR_FILE"
definition IS_DIRECTORY :: "u32 \<Rightarrow> bool" where
  "IS_DIRECTORY type_mask \<longleftrightarrow> type_mask AND INODE_FILE_TYPE_MASK = INODE_FILE_DIRECTORY"
definition IS_CHAR_DEVICE :: "u32 \<Rightarrow> bool" where
  "IS_CHAR_DEVICE type_mask \<longleftrightarrow> type_mask AND INODE_FILE_TYPE_MASK = INODE_FILE_CHAR_DEVICE"
definition IS_BLOCK_DEVICE :: "u32 \<Rightarrow> bool" where
  "IS_BLOCK_DEVICE type_mask \<longleftrightarrow> type_mask AND INODE_FILE_TYPE_MASK = INODE_FILE_BLOCK_DEVICE"
definition IS_FIFO :: "u32 \<Rightarrow> bool" where
  "IS_FIFO type_mask \<longleftrightarrow> type_mask AND INODE_FILE_TYPE_MASK = INODE_FILE_FIFO"
definition IS_SOCKET :: "u32 \<Rightarrow> bool" where
  "IS_SOCKET type_mask \<longleftrightarrow> type_mask AND INODE_FILE_TYPE_MASK = INODE_FILE_SOCKET"

definition VFS_OK :: int where "VFS_OK = 0"
definition VFS_ENOENT :: int where "VFS_ENOENT = -1"
definition VFS_ENOMEM :: int where "VFS_ENOMEM = -2"
definition VFS_EINVAL :: int where "VFS_EINVAL = -3"
definition VFS_EISDIR :: int where "VFS_EISDIR = -5"

text \<open>The fields \<^verbatim>\<open>lit_\<close> are the addresses of the string literals \<^verbatim>\<open>"/"\<close>, \<^verbatim>\<open>".."\<close> and \<^verbatim>\<open>"."\<close>.\<close>

record vfs_state = slab_state +
  dentry_hash_table :: "u64 list"
  registered_fs :: u64
  root_dentry :: u64
  lit_slash :: u64
  lit_dotdot :: u64
  lit_dot :: u64

text \<open>
  \<^verbatim>\<open>struct dentry\<close>: \<^verbatim>\<open>name\<close> at 0, \<^verbatim>\<open>inode\<close> at 8, \<^verbatim>\<open>parent\<close> at 16, nodes \<^verbatim>\<open>children\<close> at 24 and \<^verbatim>\<open>siblings\<close> at
  40, \<^verbatim>\<open>refcount\<close> (32 bits) at 56, \<^verbatim>\<open>flags\<close> at 60, \<^verbatim>\<open>d_hash_next\<close> at 64; 72 bytes. \<^verbatim>\<open>struct inode\<close>:
  \<^verbatim>\<open>inode_number\<close> at 0, \<^verbatim>\<open>sb\<close> at 8, \<^verbatim>\<open>i_ops\<close> at 16, \<^verbatim>\<open>f_ops\<close> at 24, \<^verbatim>\<open>mode\<close> (32 bits) at 32, \<^verbatim>\<open>refcount\<close> at
  56, node \<^verbatim>\<open>sb_inode_list\<close> at 64, \<^verbatim>\<open>private_data\<close> at 80; 88 bytes. \<^verbatim>\<open>struct file\<close>: \<^verbatim>\<open>inode\<close> at 0,
  \<^verbatim>\<open>fpath\<close> at 8, \<^verbatim>\<open>offset\<close> at 24, \<^verbatim>\<open>flags\<close> at 32, \<^verbatim>\<open>mode\<close> at 36, \<^verbatim>\<open>f_ops\<close> at 40, \<^verbatim>\<open>private_data\<close> at 48;
  56 bytes. \<^verbatim>\<open>struct super_block\<close>: node \<^verbatim>\<open>sb_inode\<close> at 24. \<^verbatim>\<open>struct filesystem\<close>: \<^verbatim>\<open>name\<close> at 0, \<^verbatim>\<open>next\<close> at
  24. \<^verbatim>\<open>struct file_operations\<close>: \<^verbatim>\<open>read\<close>, \<^verbatim>\<open>write\<close>, \<^verbatim>\<open>open\<close>, \<^verbatim>\<open>close\<close> from 0 to 24, \<^verbatim>\<open>lseek\<close> at 48.
\<close>

definition sizeof_dentry :: u64 where "sizeof_dentry = 72"
definition de_name :: "memory \<Rightarrow> u64 \<Rightarrow> u64" where "de_name m d = load64 m d"
definition de_inode :: "memory \<Rightarrow> u64 \<Rightarrow> u64" where "de_inode m d = load64 m (d + 8)"
definition de_parent :: "memory \<Rightarrow> u64 \<Rightarrow> u64" where "de_parent m d = load64 m (d + 16)"
definition de_hash_next :: "memory \<Rightarrow> u64 \<Rightarrow> u64" where "de_hash_next m d = load64 m (d + 64)"
definition de_refcount :: "memory \<Rightarrow> u64 \<Rightarrow> u32" where "de_refcount m d = load32 m (d + 56)"

definition sizeof_inode :: u64 where "sizeof_inode = 88"
definition in_number :: "memory \<Rightarrow> u64 \<Rightarrow> u64" where "in_number m i = load64 m i"
definition in_i_ops :: "memory \<Rightarrow> u64 \<Rightarrow> u64" where "in_i_ops m i = load64 m (i + 16)"
definition in_f_ops :: "memory \<Rightarrow> u64 \<Rightarrow> u64" where "in_f_ops m i = load64 m (i + 24)"
definition in_mode :: "memory \<Rightarrow> u64 \<Rightarrow> u32" where "in_mode m i = load32 m (i + 32)"
definition in_refcount :: "memory \<Rightarrow> u64 \<Rightarrow> u32" where "in_refcount m i = load32 m (i + 56)"
definition in_private_data :: "memory \<Rightarrow> u64 \<Rightarrow> u64" where "in_private_data m i = load64 m (i + 80)"

definition sizeof_file :: u64 where "sizeof_file = 56"
definition f_inode :: "memory \<Rightarrow> u64 \<Rightarrow> u64" where "f_inode m f = load64 m f"
definition f_dentry :: "memory \<Rightarrow> u64 \<Rightarrow> u64" where "f_dentry m f = load64 m (f + 8)"
definition f_offset :: "memory \<Rightarrow> u64 \<Rightarrow> u64" where "f_offset m f = load64 m (f + 24)"
definition f_f_ops :: "memory \<Rightarrow> u64 \<Rightarrow> u64" where "f_f_ops m f = load64 m (f + 40)"

text \<open>\<^verbatim>\<open>x->refcount++\<close> and \<^verbatim>\<open>x->refcount--\<close> for a dentry or an inode (both at offset 56).\<close>

definition ref_inc :: "memory \<Rightarrow> u64 \<Rightarrow> memory" where
  "ref_inc m x = store32 m (x + 56) (load32 m (x + 56) + 1)"
definition ref_dec :: "memory \<Rightarrow> u64 \<Rightarrow> memory" where
  "ref_dec m x = store32 m (x + 56) (load32 m (x + 56) - 1)"

section \<open>The dentry cache\<close>

definition hash_byte :: "u64 \<Rightarrow> u64 \<Rightarrow> u64" where
  "hash_byte hash b =
     (let hash = hash + b;
          hash = hash + push_bit 10 hash
      in hash XOR drop_bit 6 hash)"

definition hash_function :: "memory \<Rightarrow> u64 \<Rightarrow> u64 \<Rightarrow> u64 \<Rightarrow> u64" where
  "hash_function m parent_inode_num key len =
     (let hash = foldl (\<lambda>hash i. hash_byte hash (drop_bit (i * 8) parent_inode_num AND 0xFF)) 0 [0..<8];
          hash = foldl (\<lambda>hash i. hash_byte hash (ucast (load8 m (key + of_nat i)))) hash [0..<unat len];
          hash = hash + push_bit 3 hash;
          hash = hash XOR drop_bit 11 hash
      in hash + push_bit 15 hash)"

definition dentry_ht_bucket :: "memory \<Rightarrow> u64 \<Rightarrow> u64 \<Rightarrow> nat option" where
  "dentry_ht_bucket m parent name = do {
     parent_inode_num \<leftarrow> (if parent \<noteq> NULL
       then (if de_inode m parent = NULL then None else Some (in_number m (de_inode m parent)))
       else Some 0);
     len \<leftarrow> strlen m name;
     Some (unat (hash_function m parent_inode_num name len mod of_nat DENTRY_HASH_SIZE))
   }"

definition dcache_init :: "'a vfs_state_scheme \<Rightarrow> 'a vfs_state_scheme" where
  "dcache_init s = s\<lparr>dentry_hash_table := replicate DENTRY_HASH_SIZE NULL\<rparr>"

definition dcache_add :: "'a vfs_state_scheme \<Rightarrow> u64 \<Rightarrow> 'a vfs_state_scheme option" where
  "dcache_add s entry =
     (if entry = NULL then Some s
      else do {
        bucket \<leftarrow> dentry_ht_bucket (mem s) (de_parent (mem s) entry) (de_name (mem s) entry);
        Some (s\<lparr>mem := store64 (mem s) (entry + 64) (dentry_hash_table s ! bucket),
                dentry_hash_table := (dentry_hash_table s)[bucket := entry]\<rparr>)
      })"

text \<open>A link cell of bucket \<open>b\<close>.\<close>

fun dc_slot :: "nat \<Rightarrow> 'a vfs_state_scheme \<Rightarrow> link \<Rightarrow> u64" where
  "dc_slot b s Head = dentry_hash_table s ! b"
| "dc_slot b s (NextOf p) = de_hash_next (mem s) p"

fun set_dc_slot :: "nat \<Rightarrow> 'a vfs_state_scheme \<Rightarrow> link \<Rightarrow> u64 \<Rightarrow> 'a vfs_state_scheme" where
  "set_dc_slot b s Head v = s\<lparr>dentry_hash_table := (dentry_hash_table s)[b := v]\<rparr>"
| "set_dc_slot b s (NextOf p) v = s\<lparr>mem := store64 (mem s) (p + 64) v\<rparr>"

partial_function (option) dcache_remove_loop ::
  "'a vfs_state_scheme \<Rightarrow> u64 \<Rightarrow> nat \<Rightarrow> link \<Rightarrow> 'a vfs_state_scheme option" where
  "dcache_remove_loop s entry b current =
     (if dc_slot b s current = NULL then Some s
      else do {
        cmp \<leftarrow> strcmp (mem s) (de_name (mem s) (dc_slot b s current)) (de_name (mem s) entry);
        (if cmp = 0 then Some (set_dc_slot b s current (de_hash_next (mem s) (dc_slot b s current)))
         else dcache_remove_loop s entry b (NextOf (dc_slot b s current)))
      })"

definition dcache_remove :: "'a vfs_state_scheme \<Rightarrow> u64 \<Rightarrow> 'a vfs_state_scheme option" where
  "dcache_remove s entry =
     (if entry = NULL then Some s
      else do {
        bucket \<leftarrow> dentry_ht_bucket (mem s) (de_parent (mem s) entry) (de_name (mem s) entry);
        dcache_remove_loop s entry bucket Head
      })"

partial_function (option) dcache_lookup_loop :: "memory \<Rightarrow> u64 \<Rightarrow> u64 \<Rightarrow> u64 option" where
  "dcache_lookup_loop m current name =
     (if current = NULL then Some NULL
      else do {
        cmp \<leftarrow> strcmp m (de_name m current) name;
        (if cmp = 0 then Some current else dcache_lookup_loop m (de_hash_next m current) name)
      })"

definition dcache_lookup :: "'a vfs_state_scheme \<Rightarrow> u64 \<Rightarrow> u64 \<Rightarrow> u64 option" where
  "dcache_lookup s parent name =
     (if parent = NULL \<or> name = NULL then Some NULL
      else do {
        bucket \<leftarrow> dentry_ht_bucket (mem s) parent name;
        dcache_lookup_loop (mem s) (dentry_hash_table s ! bucket) name
      })"

section \<open>Dentries and inodes\<close>

definition alloc_dentry :: "'a vfs_state_scheme \<Rightarrow> u64 \<Rightarrow> u64 \<Rightarrow> (u64 \<times> 'a vfs_state_scheme) option" where
  "alloc_dentry s parent name = do {
     (d, s) \<leftarrow> kmalloc s sizeof_dentry;
     if d = NULL then Some (NULL, s)
     else do {
       (nm, s) \<leftarrow> kstrndup s name DENTRY_NAME_MAX_LENGTH;
       let s = s\<lparr>mem := store64 (mem s) d nm\<rparr>;
       if nm = NULL then do { s \<leftarrow> kfree s d; Some (NULL, s) }
       else do {
         let m = node_init (mem s) (d + 24);
         let m = node_init m (d + 40);
         let m = store64 m (d + 16) parent;
         let m = (if parent \<noteq> NULL then node_add_tail m (d + 40) (parent + 24) else m);
         let m = store32 m (d + 56) 1;
         let m = store32 m (d + 60) 0;
         s \<leftarrow> dcache_add (s\<lparr>mem := m\<rparr>) d;
         Some (d, s)
       }
     }
   }"

definition instantiate_dentry :: "'a vfs_state_scheme \<Rightarrow> u64 \<Rightarrow> u64 \<Rightarrow> 'a vfs_state_scheme" where
  "instantiate_dentry s entry i_node =
     (if i_node = NULL \<or> entry = NULL then s
      else s\<lparr>mem := ref_inc (store64 (mem s) (entry + 8) i_node) i_node\<rparr>)"

definition free_dentry :: "'a vfs_state_scheme \<Rightarrow> u64 \<Rightarrow> 'a vfs_state_scheme option" where
  "free_dentry s d =
     (let s = (if de_inode (mem s) d \<noteq> NULL then s\<lparr>mem := ref_dec (mem s) (de_inode (mem s) d)\<rparr> else s)
      in do {
        s \<leftarrow> dcache_remove s d;
        s \<leftarrow> kfree s (de_name (mem s) d);
        kfree s d
      })"

definition alloc_inode :: "'a vfs_state_scheme \<Rightarrow> u64 \<Rightarrow> (u64 \<times> 'a vfs_state_scheme) option" where
  "alloc_inode s sb =
     (if sb = NULL then Some (NULL, s)
      else do {
        (ind, s) \<leftarrow> kmalloc s sizeof_inode;
        if ind = NULL then Some (NULL, s)
        else
          (let m = store64 (mem s) (ind + 8) sb;
               m = store32 m (ind + 56) 1;
               m = node_init m (ind + 64);
               m = node_add_tail m (ind + 64) (sb + 24)
           in Some (ind, s\<lparr>mem := m\<rparr>))
      })"

definition free_inode :: "'a vfs_state_scheme \<Rightarrow> u64 \<Rightarrow> 'a vfs_state_scheme option" where
  "free_inode s ind =
     (if ind = NULL then Some s
      else do {
        s \<leftarrow> (if in_i_ops (mem s) ind \<noteq> NULL then kfree s (in_i_ops (mem s) ind) else Some s);
        s \<leftarrow> (if in_f_ops (mem s) ind \<noteq> NULL then kfree s (in_f_ops (mem s) ind) else Some s);
        s \<leftarrow> (if in_private_data (mem s) ind \<noteq> NULL then kfree s (in_private_data (mem s) ind) else Some s);
        kfree (s\<lparr>mem := node_del (mem s) (ind + 64)\<rparr>) ind
      })"

section \<open>File systems\<close>

definition register_filesystem :: "'a vfs_state_scheme \<Rightarrow> u64 \<Rightarrow> int \<times> 'a vfs_state_scheme" where
  "register_filesystem s fs =
     (if fs = NULL \<or> load64 (mem s) fs = NULL then (VFS_EINVAL, s)
      else (VFS_OK, s\<lparr>mem := store64 (mem s) (fs + 24) (registered_fs s), registered_fs := fs\<rparr>))"

partial_function (option) find_fs_loop :: "memory \<Rightarrow> u64 \<Rightarrow> u64 \<Rightarrow> u64 option" where
  "find_fs_loop m fs name =
     (if fs = NULL then Some NULL
      else do {
        cmp \<leftarrow> strcmp m (load64 m fs) name;
        (if cmp = 0 then Some fs else find_fs_loop m (load64 m (fs + 24)) name)
      })"

definition find_filesystem :: "'a vfs_state_scheme \<Rightarrow> u64 \<Rightarrow> u64 option" where
  "find_filesystem s name =
     (if name = NULL then Some NULL else find_fs_loop (mem s) (registered_fs s) name)"

section \<open>Path resolution\<close>

text \<open>
  \<open>lookup fn dir name\<close> is the call \<^verbatim>\<open>i_ops->lookup(dir, name)\<close> of the file system whose function
  pointer is \<open>fn\<close>.
\<close>

definition parent_or_self :: "memory \<Rightarrow> u64 \<Rightarrow> u64" where
  "parent_or_self m d = (if de_parent m d \<noteq> NULL then de_parent m d else d)"

text \<open>
  One component of the path after the tests for \<^verbatim>\<open>"."\<close> and \<^verbatim>\<open>".."\<close>: the dentry it names, from the
  cache or from the file system; NULL if there is none.
\<close>

definition walk_child ::
  "('a vfs_state_scheme \<Rightarrow> u64 \<Rightarrow> u64 \<Rightarrow> u64 \<Rightarrow> (u64 \<times> 'a vfs_state_scheme) option)
   \<Rightarrow> 'a vfs_state_scheme \<Rightarrow> u64 \<Rightarrow> u64 \<Rightarrow> (u64 \<times> 'a vfs_state_scheme) option" where
  "walk_child lookup s parent token = do {
     current \<leftarrow> dcache_lookup s parent token;
     if current \<noteq> NULL then Some (current, s)
     else do {
       let dir = de_inode (mem s) parent;
       (current, s) \<leftarrow> lookup s (load64 (mem s) (in_i_ops (mem s) dir)) dir token;
       if current = NULL then Some (NULL, s)
       else do { s \<leftarrow> dcache_add s current; Some (current, s) }
     }
   }"

partial_function (option) walk_loop ::
  "('a vfs_state_scheme \<Rightarrow> u64 \<Rightarrow> u64 \<Rightarrow> u64 \<Rightarrow> (u64 \<times> 'a vfs_state_scheme) option)
   \<Rightarrow> 'a vfs_state_scheme \<Rightarrow> u64 \<Rightarrow> u64 \<Rightarrow> u64 \<Rightarrow> u64 \<Rightarrow> (u64 \<times> 'a vfs_state_scheme) option" where
  "walk_loop lookup s parent token saveptr path_copy =
     (if token = NULL then do { s \<leftarrow> kfree s path_copy; Some (parent, s) }
      else do {
        dot \<leftarrow> strcmp (mem s) token (lit_dot s);
        dotdot \<leftarrow> strcmp (mem s) token (lit_dotdot s);
        if load8 (mem s) token = 0 \<or> dot = 0 then do {
          (token, saveptr, m) \<leftarrow> kstrtok_r (mem s) NULL (lit_slash s) saveptr;
          walk_loop lookup (s\<lparr>mem := m\<rparr>) parent token saveptr path_copy
        }
        else if dotdot = 0 then do {
          let prv = parent_or_self (mem s) parent;
          let m = ref_dec (ref_inc (mem s) prv) parent;
          (token, saveptr, m) \<leftarrow> kstrtok_r m NULL (lit_slash s) saveptr;
          walk_loop lookup (s\<lparr>mem := m\<rparr>) prv token saveptr path_copy
        }
        else do {
          (current, s) \<leftarrow> walk_child lookup s parent token;
          if current = NULL then do {
            s \<leftarrow> kfree (s\<lparr>mem := ref_dec (mem s) parent\<rparr>) path_copy;
            Some (NULL, s)
          }
          else if saveptr \<noteq> NULL \<and> load8 (mem s) saveptr = 0 then do {
            s \<leftarrow> kfree (s\<lparr>mem := ref_inc (ref_dec (mem s) parent) current\<rparr>) path_copy;
            Some (current, s)
          }
          else if \<not> IS_DIRECTORY (in_mode (mem s) (de_inode (mem s) current)) then do {
            s \<leftarrow> kfree (s\<lparr>mem := ref_dec (mem s) parent\<rparr>) path_copy;
            Some (NULL, s)
          }
          else do {
            let m = ref_inc (ref_dec (mem s) parent) current;
            (token, saveptr, m) \<leftarrow> kstrtok_r m NULL (lit_slash s) saveptr;
            walk_loop lookup (s\<lparr>mem := m\<rparr>) current token saveptr path_copy
          }
        }
      })"

definition path_walk ::
  "('a vfs_state_scheme \<Rightarrow> u64 \<Rightarrow> u64 \<Rightarrow> u64 \<Rightarrow> (u64 \<times> 'a vfs_state_scheme) option)
   \<Rightarrow> 'a vfs_state_scheme \<Rightarrow> u64 \<Rightarrow> u64 \<Rightarrow> (u64 \<times> 'a vfs_state_scheme) option" where
  "path_walk lookup s abs_path wd_path =
     (if abs_path = NULL then Some (NULL, s)
      else do {
        is_root \<leftarrow> strcmp (mem s) abs_path (lit_slash s);
        if is_root = 0 then Some (root_dentry s, s\<lparr>mem := ref_inc (mem s) (root_dentry s)\<rparr>)
        else do {
          let parent = (if wd_path \<noteq> NULL \<and> load64 (mem s) wd_path \<noteq> NULL then load64 (mem s) wd_path else root_dentry s);
          is_dotdot \<leftarrow> strcmp (mem s) abs_path (lit_dotdot s);
          if is_dotdot = 0 then
            (let prev_dir = parent_or_self (mem s) parent in Some (prev_dir, s\<lparr>mem := ref_inc (mem s) prev_dir\<rparr>))
          else do {
            is_dot \<leftarrow> strcmp (mem s) abs_path (lit_dot s);
            if is_dot = 0 then Some (parent, s\<lparr>mem := ref_inc (mem s) parent\<rparr>)
            else do {
              let abs_path = (if load8 (mem s) abs_path = 0x2F then abs_path + 1 else abs_path);
              let s = s\<lparr>mem := ref_inc (mem s) parent\<rparr>;
              len \<leftarrow> strlen (mem s) abs_path;
              (path_copy, s) \<leftarrow> kstrndup s abs_path len;
              if path_copy = NULL then None
              else do {
                (token, saveptr, m) \<leftarrow> kstrtok_r (mem s) path_copy (lit_slash s) NULL;
                walk_loop lookup (s\<lparr>mem := m\<rparr>) parent token saveptr path_copy
              }
            }
          }
        }
      })"

section \<open>Open files\<close>

text \<open>\<open>open_op fn inode file\<close> and the like are the calls through the function pointers of \<^verbatim>\<open>f_ops\<close>.\<close>

definition vfs_open ::
  "('a vfs_state_scheme \<Rightarrow> u64 \<Rightarrow> u64 \<Rightarrow> u64 \<Rightarrow> (u64 \<times> 'a vfs_state_scheme) option)
   \<Rightarrow> ('a vfs_state_scheme \<Rightarrow> u64 \<Rightarrow> u64 \<Rightarrow> u64 \<Rightarrow> (int \<times> 'a vfs_state_scheme) option)
   \<Rightarrow> 'a vfs_state_scheme \<Rightarrow> u64 \<Rightarrow> u64 \<Rightarrow> u32 \<Rightarrow> u64 \<Rightarrow> (int \<times> 'a vfs_state_scheme) option" where
  "vfs_open lookup open_op s abs_path wd flags file_out =
     (if abs_path = NULL \<or> file_out = NULL then Some (VFS_EINVAL, s)
      else do {
        (dirent, s) \<leftarrow> path_walk lookup s abs_path wd;
        if dirent = NULL then Some (VFS_ENOENT, s)
        else if \<not> IS_DIRECTORY (in_mode (mem s) (de_inode (mem s) dirent)) then Some (VFS_EISDIR, s)
        else do {
          (f, s) \<leftarrow> kmalloc s sizeof_file;
          if f = NULL then Some (VFS_ENOMEM, s)
          else do {
            let m = store64 (mem s) (f + 8) dirent;
            let m = store64 m f (de_inode m dirent);
            let m = store64 m (f + 24) 0;
            let m = store32 m (f + 32) flags;
            let m = store32 m (f + 36) 0;
            let m = store64 m (f + 48) NULL;
            let m = store64 m (f + 40) (in_f_ops m (de_inode m dirent));
            let m = ref_inc m dirent;
            let m = ref_inc m (f_inode m f);
            let s = s\<lparr>mem := m\<rparr>;
            let ops = f_f_ops (mem s) f;
            (ret, s) \<leftarrow> (if ops \<noteq> NULL \<and> load64 (mem s) (ops + 16) \<noteq> NULL
                         then open_op s (load64 (mem s) (ops + 16)) (f_inode (mem s) f) f else Some (VFS_OK, s));
            if ret \<noteq> VFS_OK then do {
              let m = ref_dec (mem s) dirent;
              let m = ref_dec m (f_inode m f);
              s \<leftarrow> kfree (s\<lparr>mem := m\<rparr>) f;
              Some (ret, s)
            }
            else Some (VFS_OK, s\<lparr>mem := store64 (mem s) file_out f\<rparr>)
          }
        }
      })"

definition vfs_close ::
  "('a vfs_state_scheme \<Rightarrow> u64 \<Rightarrow> u64 \<Rightarrow> u64 \<Rightarrow> (int \<times> 'a vfs_state_scheme) option)
   \<Rightarrow> 'a vfs_state_scheme \<Rightarrow> u64 \<Rightarrow> (int \<times> 'a vfs_state_scheme) option" where
  "vfs_close close_op s f =
     (if f = NULL then Some (VFS_EINVAL, s)
      else do {
        let ops = f_f_ops (mem s) f;
        (ret, s) \<leftarrow> (if ops \<noteq> NULL \<and> load64 (mem s) (ops + 24) \<noteq> NULL
                     then close_op s (load64 (mem s) (ops + 24)) (f_inode (mem s) f) f else Some (VFS_OK, s));
        let m = ref_dec (mem s) (f_dentry (mem s) f);
        let m = ref_dec m (f_inode m f);
        s \<leftarrow> kfree (s\<lparr>mem := m\<rparr>) f;
        Some (ret, s)
      })"

text \<open>Reading, writing and seeking: the file system's operation gets the file, the buffer, the count and the offset.\<close>

definition vfs_read ::
  "('a vfs_state_scheme \<Rightarrow> u64 \<Rightarrow> u64 \<Rightarrow> u64 \<Rightarrow> u64 \<Rightarrow> u64 \<Rightarrow> (int \<times> 'a vfs_state_scheme) option)
   \<Rightarrow> 'a vfs_state_scheme \<Rightarrow> u64 \<Rightarrow> u64 \<Rightarrow> u64 \<Rightarrow> (int \<times> 'a vfs_state_scheme) option" where
  "vfs_read read_op s f buf count =
     (if f = NULL \<or> buf = NULL \<or> f_f_ops (mem s) f = NULL \<or> load64 (mem s) (f_f_ops (mem s) f) = NULL
      then Some (- VFS_EINVAL, s)
      else read_op s (load64 (mem s) (f_f_ops (mem s) f)) f buf count (f_offset (mem s) f))"

definition vfs_write ::
  "('a vfs_state_scheme \<Rightarrow> u64 \<Rightarrow> u64 \<Rightarrow> u64 \<Rightarrow> u64 \<Rightarrow> u64 \<Rightarrow> (int \<times> 'a vfs_state_scheme) option)
   \<Rightarrow> 'a vfs_state_scheme \<Rightarrow> u64 \<Rightarrow> u64 \<Rightarrow> u64 \<Rightarrow> (int \<times> 'a vfs_state_scheme) option" where
  "vfs_write write_op s f buf count =
     (if f = NULL \<or> buf = NULL \<or> f_f_ops (mem s) f = NULL \<or> load64 (mem s) (f_f_ops (mem s) f + 8) = NULL
      then Some (- VFS_EINVAL, s)
      else write_op s (load64 (mem s) (f_f_ops (mem s) f + 8)) f buf count (f_offset (mem s) f))"

definition vfs_lseek ::
  "('a vfs_state_scheme \<Rightarrow> u64 \<Rightarrow> u64 \<Rightarrow> int \<Rightarrow> int \<Rightarrow> (int \<times> 'a vfs_state_scheme) option)
   \<Rightarrow> 'a vfs_state_scheme \<Rightarrow> u64 \<Rightarrow> int \<Rightarrow> int \<Rightarrow> (int \<times> 'a vfs_state_scheme) option" where
  "vfs_lseek lseek_op s f offset whence =
     (if f = NULL \<or> f_f_ops (mem s) f = NULL \<or> load64 (mem s) (f_f_ops (mem s) f + 48) = NULL
      then Some (- VFS_EINVAL, s)
      else lseek_op s (load64 (mem s) (f_f_ops (mem s) f + 48)) f offset whence)"

text \<open>
  \<^verbatim>\<open>vfs_debug_print_mounts\<close>: the path and the name of the file system of every mount point. \<^verbatim>\<open>struct mount_point\<close> has \<^verbatim>\<open>path\<close> at 0,
  \<^verbatim>\<open>sb\<close> at 8 and \<^verbatim>\<open>next\<close> at 16; \<^verbatim>\<open>struct super_block\<close> has \<^verbatim>\<open>fs\<close> at 0. No routine of the kernel adds to the table.
\<close>

partial_function (option) print_mounts_loop :: "memory \<Rightarrow> u64 \<Rightarrow> (u64 \<times> u64) list \<Rightarrow> (u64 \<times> u64) list option" where
  "print_mounts_loop m mp printed =
     (if mp = NULL then Some printed
      else print_mounts_loop m (load64 m (mp + 16)) (printed @ [(load64 m mp, load64 m (load64 m (load64 m (mp + 8))))]))"

definition vfs_debug_print_mounts :: "memory \<Rightarrow> u64 \<Rightarrow> (u64 \<times> u64) list option" where
  "vfs_debug_print_mounts m mount_table = print_mounts_loop m mount_table []"

end
