(* ===== verification/Vfs_Correct.thy ===== *)
theory Vfs_Correct
  imports Vfs
begin

text \<open>
  Properties of the dentry cache: the bucket of a name as a reference hash over bytes, the table as
  lists of named entries, and what lookup, insertion and removal do to them.
\<close>

section \<open>The hash as a function of the bytes\<close>

text \<open>The hash of a byte sequence: the inode number's bytes followed by the name's.\<close>

definition bytes_hash :: "u64 list \<Rightarrow> u64" where
  "bytes_hash bs =
     (let h = foldl hash_byte 0 bs; h = h + push_bit 3 h; h = h XOR drop_bit 11 h in h + push_bit 15 h)"

definition inode_bytes :: "u64 \<Rightarrow> u64 list" where
  "inode_bytes ino = map (\<lambda>i. drop_bit (i * 8) ino AND 0xFF) [0..<8]"

definition name_bucket :: "u64 \<Rightarrow> u8 list \<Rightarrow> nat" where
  "name_bucket ino xs = unat (bytes_hash (inode_bytes ino @ map ucast xs)) mod 256"

lemma name_bucket_less: "name_bucket ino xs < 256"
  by (simp add: name_bucket_def)

lemma hash_function_bytes:
  "hash_function m ino key (of_nat n) = bytes_hash (inode_bytes ino @ map ucast (bytes_at m key n))"
  if "n < 18446744073709551616"
  using that by (simp add: hash_function_def bytes_hash_def inode_bytes_def bytes_at_def load8_def foldl_map unat_of_nat64 comp_def Let_def)

lemma cstr_bytes: "cstr m a xs \<Longrightarrow> bytes_at m a (length xs) = xs"
  by (rule nth_equalityI) (auto simp: bytes_at_def cstr_nth nth_append)

lemma bucket_name:
  assumes "cstr m name xs" "parent \<noteq> NULL" "de_inode m parent \<noteq> NULL"
  shows "dentry_ht_bucket m parent name = Some (name_bucket (in_number m (de_inode m parent)) xs)"
proof -
  have len: "length xs < 18446744073709551616" using assms(1) by (simp add: cstr_def)
  have "unat (h mod 256 :: u64) = unat h mod 256" for h by (simp add: unat_mod)
  then show ?thesis
    using assms strlen_cstr[OF assms(1)]
    by (simp add: dentry_ht_bucket_def name_bucket_def DENTRY_HASH_SIZE_def hash_function_bytes[OF len] cstr_bytes)
qed

section \<open>The table as lists of entries\<close>

definition dcache_wf :: "'a vfs_state_scheme \<Rightarrow> (nat \<Rightarrow> u64 list) \<Rightarrow> (u64 \<Rightarrow> u8 list) \<Rightarrow> bool" where
  "dcache_wf s B nm \<longleftrightarrow> length (dentry_hash_table s) = 256
     \<and> (\<forall>b<256. lseg (dc_slot b s) Head (B b) \<and> (\<forall>e\<in>set (B b). cstr (mem s) (de_name (mem s) e) (nm e)))"

lemma lookup_loop_find:
  assumes "cstr (mem s) name xs"
  shows "lseg (dc_slot b s) l es \<Longrightarrow> (\<And>e. e \<in> set es \<Longrightarrow> cstr (mem s) (de_name (mem s) e) (nm e)) \<Longrightarrow>
    dcache_lookup_loop (mem s) (dc_slot b s l) name = Some (case find (\<lambda>e. nm e = xs) es of None \<Rightarrow> NULL | Some e \<Rightarrow> e)"
proof (induction es arbitrary: l)
  case Nil
  then show ?case by (subst dcache_lookup_loop.simps) simp
next
  case (Cons e es)
  have e: "dc_slot b s l = e" "e \<noteq> NULL" using Cons.prems(1) by auto
  have "strcmp (mem s) (de_name (mem s) e) name = Some (str_diff (nm e) xs)"
    using strcmp_cstr[OF _ assms] Cons.prems(2) by simp
  moreover have "str_diff (nm e) xs = 0 \<longleftrightarrow> nm e = xs"
    using Cons.prems(2)[of e] assms by (intro str_diff_eq_0) (auto simp: cstr_def)
  moreover have "dcache_lookup_loop (mem s) (de_hash_next (mem s) e) name = Some (case find (\<lambda>e. nm e = xs) es of None \<Rightarrow> NULL | Some e \<Rightarrow> e)"
    using Cons.IH[of "NextOf e"] Cons.prems by simp
  ultimately show ?case using e by (subst dcache_lookup_loop.simps) auto
qed

lemma lookup_find:
  assumes "dcache_wf s B nm" "parent \<noteq> NULL" "name \<noteq> NULL" "de_inode (mem s) parent \<noteq> NULL" "cstr (mem s) name xs"
  shows "dcache_lookup s parent name = Some (case find (\<lambda>e. nm e = xs) (B (name_bucket (in_number (mem s) (de_inode (mem s) parent)) xs))
     of None \<Rightarrow> NULL | Some e \<Rightarrow> e)"
proof -
  let ?b = "name_bucket (in_number (mem s) (de_inode (mem s) parent)) xs"
  have "lseg (dc_slot ?b s) Head (B ?b)" "\<And>e. e \<in> set (B ?b) \<Longrightarrow> cstr (mem s) (de_name (mem s) e) (nm e)"
    using assms(1) name_bucket_less unfolding dcache_wf_def by blast+
  from lookup_loop_find[OF assms(5) this] show ?thesis
    using assms(2,3) bucket_name[OF assms(5,2,4)] by (simp add: dcache_lookup_def)
qed

section \<open>Adding\<close>

text \<open>The bytes of a dentry that the cache reads: the name pointer, the link and the name itself.\<close>

definition dentry_cells :: "memory \<Rightarrow> u64 \<Rightarrow> u8 list \<Rightarrow> u64 set" where
  "dentry_cells m e xs = {x. x - e < 8} \<union> {x. x - (e + 64) < 8} \<union> {x. unat (x - de_name m e) \<le> length xs}"

lemma load64_same: "(\<And>x. x - a < 8 \<Longrightarrow> m' x = m x) \<Longrightarrow> load64 m' a = load64 m a"
  by (rule load64_cong) simp

lemma cstr_same: "cstr m a xs \<Longrightarrow> (\<And>x. unat (x - a) \<le> length xs \<Longrightarrow> m' x = m x) \<Longrightarrow> cstr m' a xs"
proof -
  assume c: "cstr m a xs" and eq: "\<And>x. unat (x - a) \<le> length xs \<Longrightarrow> m' x = m x"
  have len: "length xs < 18446744073709551615" using c by (simp add: cstr_def)
  then have "bytes_at m' a (length xs + 1) = bytes_at m a (length xs + 1)"
    unfolding bytes_at_def by (intro map_cong) (auto intro!: eq simp: unat_of_nat64)
  then show ?thesis using c by (simp add: cstr_def)
qed

lemma dcache_add_wf:
  assumes wf: "dcache_wf s B nm" and e: "entry \<noteq> NULL" "\<And>b. b < 256 \<Longrightarrow> entry \<notin> set (B b)"
    and p: "de_parent (mem s) entry = p" "p \<noteq> NULL" "de_inode (mem s) p \<noteq> NULL"
    and nm: "cstr (mem s) (de_name (mem s) entry) xs"
    and sep: "\<And>x b d. x - (entry + 64) < 8 \<Longrightarrow> b < 256 \<Longrightarrow> d \<in> set (B b) \<Longrightarrow> x \<notin> dentry_cells (mem s) d (nm d)"
    and sep': "\<And>x. x - (entry + 64) < 8 \<Longrightarrow> length xs < unat (x - de_name (mem s) entry)"
  defines "b0 \<equiv> name_bucket (in_number (mem s) (de_inode (mem s) p)) xs"
  shows "\<exists>t. dcache_add s entry = Some t \<and> dcache_wf t (B(b0 := entry # B b0)) (nm(entry := xs))
    \<and> mem t = store64 (mem s) (entry + 64) (dentry_hash_table s ! b0)"
proof -
  let ?v = "dentry_hash_table s ! b0"
  let ?m = "store64 (mem s) (entry + 64) ?v" and ?t = "s\<lparr>mem := store64 (mem s) (entry + 64) ?v, dentry_hash_table := (dentry_hash_table s)[b0 := entry]\<rparr>"
  have len: "length (dentry_hash_table s) = 256" and b0: "b0 < 256"
    using wf name_bucket_less by (simp_all add: dcache_wf_def b0_def)
  have add: "dcache_add s entry = Some ?t"
    using e(1) p bucket_name[OF nm p(2,3)] by (simp add: dcache_add_def b0_def)
  have same: "?m x = mem s x" if "\<not> x - (entry + 64) < 8" for x using that by (simp add: store64_outside)
  have old: "de_hash_next ?m d = de_hash_next (mem s) d" "de_name ?m d = de_name (mem s) d" "cstr ?m (de_name ?m d) (nm d)"
    if d: "b < 256" "d \<in> set (B b)" for b d
  proof -
    have x: "?m x = mem s x" if "x \<in> dentry_cells (mem s) d (nm d)" for x using sep[OF _ d] that same by blast
    show "de_hash_next ?m d = de_hash_next (mem s) d" unfolding de_hash_next_def by (rule load64_same, rule x) (simp add: dentry_cells_def)
    show n: "de_name ?m d = de_name (mem s) d" unfolding de_name_def by (rule load64_same, rule x) (simp add: dentry_cells_def)
    have "cstr (mem s) (de_name (mem s) d) (nm d)" using wf d unfolding dcache_wf_def by blast
    then show "cstr ?m (de_name ?m d) (nm d)" unfolding n by (rule cstr_same, intro x) (simp add: dentry_cells_def)
  qed
  have en: "de_name ?m entry = de_name (mem s) entry" by (simp add: de_name_def load64_store64_disj disj_range_def)
  have ec: "cstr ?m (de_name ?m entry) xs" unfolding en using nm by (rule cstr_same) (use sep' same in force)
  have eh: "de_hash_next ?m entry = ?v" by (simp add: de_hash_next_def)
  have tail: "lseg (dc_slot b ?t) l (B b)" if "lseg (dc_slot b s) Head (B b)" "b < 256" "dc_slot b ?t l = dc_slot b s Head" for b l
    using that(1,3) old(1)[OF that(2)] by (cases "B b") (auto elim!: lseg_cong)
  have "lseg (dc_slot b ?t) Head ((B(b0 := entry # B b0)) b)" if b: "b < 256" for b
  proof -
    have l: "lseg (dc_slot b s) Head (B b)" using wf b unfolding dcache_wf_def by blast
    show ?thesis
    proof (cases "b = b0")
      case True
      have "lseg (dc_slot b0 ?t) (NextOf entry) (B b0)" using tail[OF l b, of "NextOf entry"] eh True by simp
      then show ?thesis using True e(1) len b0 by simp
    next
      case False
      then show ?thesis using tail[OF l b, of Head] by simp
    qed
  qed
  moreover have "cstr ?m (de_name ?m d) ((nm(entry := xs)) d)" if "b < 256" "d \<in> set ((B(b0 := entry # B b0)) b)" for b d
    using that old(3)[of b d] ec e(2)[of b] by (auto split: if_splits)
  ultimately have "dcache_wf ?t (B(b0 := entry # B b0)) (nm(entry := xs))" unfolding dcache_wf_def using len by simp
  then show ?thesis using add by auto
qed

section \<open>Removing\<close>

definition link_sep :: "u64 \<Rightarrow> u64 \<Rightarrow> bool" where
  "link_sep p q \<longleftrightarrow> disj_range (p + 64) 8 (q + 64) 8"

interpretation dc: slot_heap "dc_slot b" "set_dc_slot b" link_sep "\<lambda>s. b < length (dentry_hash_table s)" for b
proof unfold_locales
  fix s :: "'a vfs_state_scheme" and l v p q
  assume b: "b < length (dentry_hash_table s)"
  show "dc_slot b (set_dc_slot b s l v) l = v" using b by (cases l) (simp_all add: de_hash_next_def)
  show "dc_slot b (set_dc_slot b s Head v) (NextOf p) = dc_slot b s (NextOf p)" by simp
  show "dc_slot b (set_dc_slot b s (NextOf p) v) Head = dc_slot b s Head" by simp
  show "link_sep p q \<Longrightarrow> dc_slot b (set_dc_slot b s (NextOf p) v) (NextOf q) = dc_slot b s (NextOf q)"
    by (simp add: de_hash_next_def link_sep_def load64_store64_disj)
qed

lemma remove_loop_find:
  assumes "cstr (mem s) (de_name (mem s) entry) xs"
  shows "lseg (dc_slot b s) l es \<Longrightarrow> (\<And>e. e \<in> set es \<Longrightarrow> cstr (mem s) (de_name (mem s) e) (nm e)) \<Longrightarrow>
    dcache_remove_loop s entry b l = (case find_slot (dc_slot b s) (\<lambda>e. nm e = xs) l of None \<Rightarrow> None
      | Some None \<Rightarrow> Some s | Some (Some k) \<Rightarrow> Some (set_dc_slot b s k (de_hash_next (mem s) (dc_slot b s k))))"
proof (induction es arbitrary: l)
  case Nil
  then show ?case by (simp add: dcache_remove_loop.simps find_slot.simps)
next
  case (Cons e es)
  have e: "dc_slot b s l = e" "e \<noteq> NULL" using Cons.prems(1) by auto
  have "strcmp (mem s) (de_name (mem s) e) (de_name (mem s) entry) = Some (str_diff (nm e) xs)"
    using strcmp_cstr[OF _ assms] Cons.prems(2) by simp
  moreover have "str_diff (nm e) xs = 0 \<longleftrightarrow> nm e = xs"
    using Cons.prems(2)[of e] assms by (intro str_diff_eq_0) (auto simp: cstr_def)
  moreover note Cons.IH[of "NextOf e"]
  ultimately show ?case using Cons.prems e
    by (subst dcache_remove_loop.simps, subst find_slot.simps) auto
qed

text \<open>Links of cached dentries keep away from each other and from the names.\<close>

definition cache_sep :: "'a vfs_state_scheme \<Rightarrow> (nat \<Rightarrow> u64 list) \<Rightarrow> (u64 \<Rightarrow> u8 list) \<Rightarrow> bool" where
  "cache_sep s B nm \<longleftrightarrow> (\<forall>b<256. \<forall>c<256. \<forall>p\<in>set (B b). \<forall>d\<in>set (B c).
     (p \<noteq> d \<longrightarrow> link_sep p d) \<and> (b \<noteq> c \<longrightarrow> p \<noteq> d)
     \<and> (\<forall>x. x - (p + 64) < 8 \<longrightarrow> \<not> x - d < 8 \<and> length (nm d) < unat (x - de_name (mem s) d)))"

lemma dcache_remove_wf:
  assumes wf: "dcache_wf s B nm" and sep: "cache_sep s B nm"
    and p: "entry \<noteq> NULL" "de_parent (mem s) entry = p" "p \<noteq> NULL" "de_inode (mem s) p \<noteq> NULL"
    and nm: "cstr (mem s) (de_name (mem s) entry) xs"
  defines "b0 \<equiv> name_bucket (in_number (mem s) (de_inode (mem s) p)) xs"
  shows "(\<forall>e\<in>set (B b0). nm e \<noteq> xs) \<Longrightarrow> dcache_remove s entry = Some s"
    and "B b0 = us @ e # vs \<Longrightarrow> nm e = xs \<Longrightarrow> \<forall>u\<in>set us. nm u \<noteq> xs \<Longrightarrow>
      \<exists>t. dcache_remove s entry = Some t \<and> dcache_wf t (B(b0 := us @ vs)) nm"
proof -
  have len: "length (dentry_hash_table s) = 256" and b0: "b0 < 256"
    using wf name_bucket_less by (simp_all add: dcache_wf_def b0_def)
  have l: "lseg (dc_slot b0 s) Head (B b0)" and c: "\<And>e. e \<in> set (B b0) \<Longrightarrow> cstr (mem s) (de_name (mem s) e) (nm e)"
    using wf b0 unfolding dcache_wf_def by blast+
  have rm: "dcache_remove s entry = dcache_remove_loop s entry b0 Head"
    using p bucket_name[OF nm p(3,4)] by (simp add: dcache_remove_def b0_def)
  have loop: "dcache_remove_loop s entry b0 Head = (case find_slot (dc_slot b0 s) (\<lambda>e. nm e = xs) Head of None \<Rightarrow> None
      | Some None \<Rightarrow> Some s | Some (Some k) \<Rightarrow> Some (set_dc_slot b0 s k (de_hash_next (mem s) (dc_slot b0 s k))))"
    by (rule remove_loop_find[OF nm l]) (rule c)
  show "(\<forall>e\<in>set (B b0). nm e \<noteq> xs) \<Longrightarrow> dcache_remove s entry = Some s"
    unfolding rm loop using find_slot_None[OF l] by simp
  assume dec: "B b0 = us @ e # vs" "nm e = xs" "\<forall>u\<in>set us. nm u \<noteq> xs"
  let ?k = "slot_after Head us" and ?t = "set_dc_slot b0 s (slot_after Head us) (dc_slot b0 s (NextOf e))"
  have ls: "lseg (dc_slot b0 s) Head (us @ e # vs)" using l dec(1) by simp
  have at: "dc_slot b0 s ?k = e" using lseg_suffix[OF ls] by simp
  have res: "dcache_remove s entry = Some ?t" unfolding rm loop using find_slot_Some[OF ls dec(3)] dec(2) at by simp
  have new: "lseg (dc_slot b0 ?t) Head (us @ vs)"
    using sep b0 dec(1) len by (intro dc.lseg_unlink[OF _ ls]) (auto simp: cache_sep_def)
  have same: "de_name (mem ?t) d = de_name (mem s) d \<and> cstr (mem ?t) (de_name (mem s) d) (nm d)
      \<and> (d \<notin> set (B b0) \<longrightarrow> de_hash_next (mem ?t) d = de_hash_next (mem s) d)" if d: "b < 256" "d \<in> set (B b)" for b d
  proof (cases ?k)
    case Head
    then have "cstr (mem s) (de_name (mem s) d) (nm d)" using wf d unfolding dcache_wf_def by blast
    then show ?thesis using Head by simp
  next
    case (NextOf q)
    then have q: "q \<in> set (B b0)" using dec(1) by (auto simp: slot_after_cases split: if_splits)
    have m: "mem ?t = store64 (mem s) (q + 64) (dc_slot b0 s (NextOf e))" using NextOf by simp
    have out: "\<not> x - d < 8" "length (nm d) < unat (x - de_name (mem s) d)" if "x - (q + 64) < 8" for x
      using sep b0 d q that unfolding cache_sep_def by blast+
    have n: "de_name (mem ?t) d = de_name (mem s) d"
      unfolding de_name_def m by (rule load64_same, rule store64_outside) (use out(1) in blast)
    have "cstr (mem s) (de_name (mem s) d) (nm d)" using wf d unfolding dcache_wf_def by blast
    then have "cstr (mem ?t) (de_name (mem s) d) (nm d)"
      unfolding m by (rule cstr_same) (rule store64_outside, use out(2) in force)
    moreover have "de_hash_next (mem ?t) d = de_hash_next (mem s) d" if "d \<notin> set (B b0)"
    proof -
      have "link_sep q d" using sep b0 d q that unfolding cache_sep_def by blast
      then show ?thesis unfolding m by (simp add: de_hash_next_def link_sep_def load64_store64_disj)
    qed
    ultimately show ?thesis using n by blast
  qed
  have "lseg (dc_slot b ?t) Head ((B(b0 := us @ vs)) b)" if b: "b < 256" for b
  proof (cases "b = b0")
    case False
    have "d \<notin> set (B b0)" if "d \<in> set (B b)" for d using sep b b0 that False unfolding cache_sep_def by blast
    then have h: "de_hash_next (mem ?t) d = de_hash_next (mem s) d" if "d \<in> set (B b)" for d using same[OF b that] that by blast
    have "dc_slot b ?t Head = dc_slot b s Head" using False by (cases ?k) simp_all
    moreover have "lseg (dc_slot b s) Head (B b)" using wf b unfolding dcache_wf_def by blast
    ultimately show ?thesis using False h by (auto elim!: lseg_cong)
  qed (use new in simp)
  moreover have "cstr (mem ?t) (de_name (mem ?t) d) (nm d)" if "b < 256" "d \<in> set ((B(b0 := us @ vs)) b)" for b d
  proof -
    have "d \<in> set (B b)" using that(2) dec(1) by (auto split: if_splits)
    then show ?thesis using same[OF that(1)] by simp
  qed
  moreover have "length (dentry_hash_table ?t) = 256" using len by (cases ?k) simp_all
  ultimately have "dcache_wf ?t (B(b0 := us @ vs)) nm" unfolding dcache_wf_def by blast
  then show "\<exists>t. dcache_remove s entry = Some t \<and> dcache_wf t (B(b0 := us @ vs)) nm" using res by blast
qed

section \<open>Properties\<close>

text \<open>\<^verbatim>\<open>dcache_lookup\<close> in a well-formed table always returns: the first entry with the given name in
  the bucket that the hash of the parent's inode number and the name selects, or NULL when there is
  none. The bucket is the reference hash of the byte sequence, whatever the address of the string.\<close>

theorem dcache_lookup_correct:
  assumes "dcache_wf s B nm" "parent \<noteq> NULL" "name \<noteq> NULL" "de_inode (mem s) parent \<noteq> NULL" "cstr (mem s) name xs"
  shows "dentry_ht_bucket (mem s) parent name = Some (name_bucket (in_number (mem s) (de_inode (mem s) parent)) xs)
    \<and> dcache_lookup s parent name = Some (case find (\<lambda>e. nm e = xs) (B (name_bucket (in_number (mem s) (de_inode (mem s) parent)) xs))
        of None \<Rightarrow> NULL | Some e \<Rightarrow> e)"
  using lookup_find[OF assms] bucket_name[OF assms(5,2,4)] by blast

text \<open>C24: A dentry that has been added to the cache is found: \<^verbatim>\<open>dcache_add\<close> returns, keeps the table well
  formed with the entry at the front of its bucket, and a lookup with the entry's parent and any
  string equal to its name returns it, even if an older entry has the same name.\<close>

theorem dcache_add_lookup:
  assumes "dcache_wf s B nm" "entry \<noteq> NULL" "\<forall>b<256. entry \<notin> set (B b)"
    and "de_parent (mem s) entry = p" "p \<noteq> NULL" "de_inode (mem s) p \<noteq> NULL"
    and "cstr (mem s) (de_name (mem s) entry) xs" "cstr (mem s) q xs" "q \<noteq> NULL"
    and "\<forall>x. x - (entry + 64) < 8 \<longrightarrow> (\<forall>b<256. \<forall>d\<in>set (B b). x \<notin> dentry_cells (mem s) d (nm d))
      \<and> length xs < unat (x - de_name (mem s) entry) \<and> length xs < unat (x - q)
      \<and> \<not> x - (p + 8) < 8 \<and> \<not> x - de_inode (mem s) p < 8"
  shows "\<exists>t. dcache_add s entry = Some t \<and> dcache_lookup t p q = Some entry
    \<and> (\<exists>b0. dcache_wf t (B(b0 := entry # B b0)) (nm(entry := xs)))"
proof -
  let ?b = "name_bucket (in_number (mem s) (de_inode (mem s) p)) xs"
  obtain t where t: "dcache_add s entry = Some t" "dcache_wf t (B(?b := entry # B ?b)) (nm(entry := xs))"
      "mem t = store64 (mem s) (entry + 64) (dentry_hash_table s ! ?b)"
    using dcache_add_wf[OF assms(1,2) _ assms(4-7)] assms(3,10) by blast
  have same: "mem t x = mem s x" if "\<not> x - (entry + 64) < 8" for x using that t(3) by (simp add: store64_outside)
  have "de_inode (mem t) p = de_inode (mem s) p" unfolding de_inode_def using assms(10) by (intro load64_same same) blast
  moreover have "in_number (mem t) (de_inode (mem s) p) = in_number (mem s) (de_inode (mem s) p)"
    unfolding in_number_def using assms(10) by (intro load64_same same) blast
  moreover have "cstr (mem t) q xs" using assms(8) by (rule cstr_same) (rule same, use assms(10) in force)
  ultimately have "dcache_lookup t p q = Some entry" using lookup_find[OF t(2) assms(5,9)] assms(6) by simp
  then show ?thesis using t by blast
qed

text \<open>C35: \<^verbatim>\<open>dcache_remove\<close> always returns on a well-formed table whose entries are kept apart in memory: it
  takes the first entry with the dentry's name out of the dentry's bucket and leaves the rest of the
  table as it is; without such an entry nothing changes.\<close>

theorem dcache_remove_correct:
  assumes "dcache_wf s B nm" "cache_sep s B nm" "entry \<noteq> NULL" "de_parent (mem s) entry = p" "p \<noteq> NULL"
    and "de_inode (mem s) p \<noteq> NULL" "cstr (mem s) (de_name (mem s) entry) xs"
    and "b0 = name_bucket (in_number (mem s) (de_inode (mem s) p)) xs"
  shows "if \<forall>e\<in>set (B b0). nm e \<noteq> xs then dcache_remove s entry = Some s
    else \<exists>us e vs t. B b0 = us @ e # vs \<and> nm e = xs \<and> (\<forall>u\<in>set us. nm u \<noteq> xs)
      \<and> dcache_remove s entry = Some t \<and> dcache_wf t (B(b0 := us @ vs)) nm"
proof -
  note rm = dcache_remove_wf[OF assms(1-7), folded assms(8)]
  show ?thesis
  proof (cases "\<forall>e\<in>set (B b0). nm e \<noteq> xs")
    case False
    then obtain us e vs where d: "B b0 = us @ e # vs" "nm e = xs" "\<forall>u\<in>set us. nm u \<noteq> xs"
      using split_list_first_prop[of "B b0" "\<lambda>e. nm e = xs"] by blast
    then show ?thesis using rm(2)[OF d] False by auto
  qed (use rm(1) in simp)
qed

text \<open>The type of an inode is one of the seven or none, never two.\<close>

lemma file_type_unique:
  "length (filter (\<lambda>is_type. is_type mode) [IS_LINK, IS_REGULAR_FILE, IS_DIRECTORY, IS_CHAR_DEVICE, IS_BLOCK_DEVICE, IS_FIFO, IS_SOCKET]) \<le> 1"
  by (simp add: IS_LINK_def IS_REGULAR_FILE_def IS_DIRECTORY_def IS_CHAR_DEVICE_def IS_BLOCK_DEVICE_def IS_FIFO_def IS_SOCKET_def
      INODE_FILE_LINK_def INODE_FILE_REGULAR_FILE_def INODE_FILE_DIRECTORY_def INODE_FILE_CHAR_DEVICE_def INODE_FILE_BLOCK_DEVICE_def
      INODE_FILE_FIFO_def INODE_FILE_SOCKET_def)

text \<open>A well-linked mount table is printed in its order.\<close>

lemma print_mounts_list:
  assumes "lseg (\<lambda>l. case l of Head \<Rightarrow> head | NextOf p \<Rightarrow> load64 m (p + 16)) Head ps"
  shows "vfs_debug_print_mounts m head = Some (map (\<lambda>p. (load64 m p, load64 m (load64 m (load64 m (p + 8))))) ps)"
proof -
  let ?f = "\<lambda>l. case l of Head \<Rightarrow> head | NextOf p \<Rightarrow> load64 m (p + 16)"
  have "lseg ?f l ps \<Longrightarrow> print_mounts_loop m (?f l) printed = Some (printed @ map (\<lambda>p. (load64 m p, load64 m (load64 m (load64 m (p + 8))))) ps)" for l printed
  proof (induction ps arbitrary: l printed)
    case Nil
    then show ?case by (simp add: print_mounts_loop.simps)
  next
    case (Cons p ps)
    then have e: "?f l = p" "p \<noteq> NULL" "lseg ?f (NextOf p) ps" by auto
    show ?case using Cons.IH[OF e(3)] e(2) unfolding e(1) by (subst print_mounts_loop.simps) simp
  qed
  from this[OF assms, of "[]"] show ?thesis by (simp add: vfs_debug_print_mounts_def)
qed

lemma vfs_read_invalid_positive: "vfs_read read_op s NULL buf n = Some (3, s)" "vfs_write write_op s NULL buf n = Some (3, s)"
  by (simp_all add: vfs_read_def vfs_write_def VFS_EINVAL_def)

section \<open>A concrete cache\<close>

definition sample_vfs_mem :: memory where
  "sample_vfs_mem = (store64 (store64 (store64 (\<lambda>_. 0) 0x1008 0x2000) 0x3000 0x4000) 0x3010 0x1000)(0x4000 := 0x61, 0x5000 := 0x61)"

definition sample_vfs :: vfs_state where
  "sample_vfs = \<lparr>mem = sample_vfs_mem, hhdm_offset = 0, buddy_arenas = [], buddy_arena_counter = 0, slab_caches = [], slab_caches_addr = 0,
     dentry_hash_table = replicate 256 NULL, registered_fs = 0, root_dentry = 0x1000, lit_slash = 0, lit_dotdot = 0, lit_dot = 0\<rparr>"

lemma sample_vfs_fields:
  "de_parent (mem sample_vfs) 0x3000 = 0x1000" "de_inode (mem sample_vfs) 0x1000 = 0x2000" "de_name (mem sample_vfs) 0x3000 = 0x4000"
  by code_simp+

lemma sample_vfs_names: "cstr (mem sample_vfs) 0x4000 [0x61]" "cstr (mem sample_vfs) 0x5000 [0x61]"
  by (simp_all add: sample_vfs_def sample_vfs_mem_def cstr_Cons cstr_Nil store64_def)

lemma sample_vfs_wf: "dcache_wf sample_vfs (\<lambda>_. []) nm"
  by (simp add: dcache_wf_def sample_vfs_def)

lemma within8: "x - a < (8 :: u64) \<Longrightarrow> x \<in> {a, a + 1, a + 2, a + 3, a + 4, a + 5, a + 6, a + 7}"
proof -
  assume "x - a < 8"
  then have "unat (x - a) < 8" by (simp add: word_less_nat_alt)
  then have "unat (x - a) \<in> {0, 1, 2, 3, 4, 5, 6, 7}" by auto
  then have "x - a = 0 \<or> x - a = 1 \<or> x - a = 2 \<or> x - a = 3 \<or> x - a = 4 \<or> x - a = 5 \<or> x - a = 6 \<or> x - a = 7"
    by (auto simp: word_unat_eq_iff)
  then show ?thesis by (auto simp: diff_eq_eq add.commute)
qed

lemma sample_link_apart:
  "x - 0x3040 < 8 \<Longrightarrow> \<not> x - 0x3000 < 8 \<and> 1 < unat (x - 0x4000) \<and> 1 < unat (x - 0x5000) \<and> \<not> x - 0x1008 < 8 \<and> \<not> x - 0x2000 < (8 :: u64)"
  by (drule within8) (elim insertE emptyE, simp_all)

theorem dcache_lookup_correct_witness: "dcache_lookup sample_vfs 0x1000 0x5000 = Some NULL"
  using dcache_lookup_correct[OF sample_vfs_wf, of "0x1000" "0x5000" "[0x61]"] sample_vfs_names(2) sample_vfs_fields(2) by simp

theorem dcache_add_lookup_witness:
  "\<exists>t. dcache_add sample_vfs 0x3000 = Some t \<and> dcache_lookup t 0x1000 0x5000 = Some 0x3000"
  using dcache_add_lookup[OF sample_vfs_wf[of "\<lambda>_. []"], of "0x3000" "0x1000" "[0x61]" "0x5000"] sample_vfs_names sample_vfs_fields sample_link_apart
  by auto

definition sample_bucket :: nat where "sample_bucket = name_bucket (in_number (mem sample_vfs) 0x2000) [0x61]"

definition sample_cached :: vfs_state where
  "sample_cached = sample_vfs\<lparr>mem := store64 (mem sample_vfs) 0x3040 0, dentry_hash_table := (dentry_hash_table sample_vfs)[sample_bucket := 0x3000]\<rparr>"

lemma sample_cached_wf: "dcache_wf sample_cached ((\<lambda>_. [])(sample_bucket := [0x3000])) ((\<lambda>_. [])(0x3000 := [0x61]))"
proof -
  have "\<exists>t. dcache_add sample_vfs 0x3000 = Some t \<and> dcache_wf t ((\<lambda>_. [])(sample_bucket := [0x3000])) ((\<lambda>_. [])(0x3000 := [0x61]))"
    using dcache_add_wf[OF sample_vfs_wf, of "0x3000" "0x1000" "[0x61]"] sample_vfs_names sample_vfs_fields sample_link_apart
    by (auto simp: sample_bucket_def)
  moreover have "dcache_add sample_vfs 0x3000 = Some sample_cached"
    using bucket_name[OF sample_vfs_names(1), of "0x1000"] sample_vfs_fields name_bucket_less[of _ "[0x61]"]
    by (simp add: dcache_add_def sample_cached_def sample_bucket_def) (simp add: sample_vfs_def)
  ultimately show ?thesis by auto
qed

theorem dcache_remove_correct_witness:
  "\<exists>t. dcache_remove sample_cached 0x3000 = Some t \<and> dcache_wf t (\<lambda>_. []) ((\<lambda>_. [])(0x3000 := [0x61]))"
proof -
  let ?B = "(\<lambda>_. [])(sample_bucket := [0x3000])" and ?nm = "(\<lambda>_. [])(0x3000 := [0x61])"
  have f: "de_parent (mem sample_cached) 0x3000 = 0x1000" "de_inode (mem sample_cached) 0x1000 = 0x2000"
    "de_name (mem sample_cached) 0x3000 = 0x4000" "in_number (mem sample_cached) 0x2000 = in_number (mem sample_vfs) 0x2000"
    using sample_vfs_fields
    by (simp_all add: sample_cached_def de_parent_def de_inode_def de_name_def in_number_def load64_store64_disj disj_range_def)
  have n: "cstr (mem sample_cached) 0x4000 [0x61]"
    using sample_cached_wf f(3) name_bucket_less unfolding dcache_wf_def sample_bucket_def by fastforce
  have "cache_sep sample_cached ?B ?nm" using sample_link_apart f(3) by (auto simp: cache_sep_def)
  from dcache_remove_correct[OF sample_cached_wf this, of "0x3000" "0x1000" "[0x61]" sample_bucket] f n
  show ?thesis by (auto simp: sample_bucket_def Cons_eq_append_conv fun_upd_idem[of "\<lambda>_. []"])
qed

end
