(* ===== verification/Path_Tree.thy ===== *)
theory Path_Tree
  imports Vfs_Correct Kernel_Heap
begin

text \<open>
  What a path names. The specification of path resolution: the components between the slashes, and
  where they lead in a tree of directories. Then the tree that the kernel's memory holds: dentries,
  their inodes and names, the buckets of the dentry cache, and the bytes of all these that a walk
  reads. Reference counts are the only bytes that it changes.
\<close>

section \<open>The specification\<close>

text \<open>The components of a path: the parts between the slashes, empty ones included.\<close>

function components :: "u8 list \<Rightarrow> u8 list list" where
  "components xs = (case dropWhile (\<lambda>x. x \<noteq> 0x2F) xs of
      [] \<Rightarrow> [xs]
    | y # ys \<Rightarrow> takeWhile (\<lambda>x. x \<noteq> 0x2F) xs # components ys)"
  by auto
termination
proof (relation "measure length")
  fix xs y and ys :: "u8 list" assume "dropWhile (\<lambda>x. x \<noteq> 0x2F) xs = y # ys"
  then have "length (y # ys) \<le> length xs" by (metis length_dropWhile_le)
  then show "(ys, xs) \<in> measure length" by simp
qed simp

declare components.simps [simp del]

text \<open>A directory tree as the walk sees it: the parent of a dentry (itself at the root), the children by
  name, and which dentries are directories. A name may have a child, be known to have none
  (\<open>Some None\<close>), or be undecided (\<open>None\<close>). A component that ends the path may name anything, every other
  one has to be a directory; a single slash at the end does not count. The result is \<open>None\<close> when
  it depends on an undecided name.\<close>

fun resolve :: "(u64 \<Rightarrow> u64) \<Rightarrow> (u64 \<Rightarrow> u8 list \<Rightarrow> u64 option option) \<Rightarrow> (u64 \<Rightarrow> bool) \<Rightarrow> u64 \<Rightarrow> u8 list list \<Rightarrow> u64 option option" where
  "resolve par child isdir d [] = Some (Some d)"
| "resolve par child isdir d (c # cs) =
     (if c = [] \<or> c = [0x2E] then resolve par child isdir d cs
      else if c = [0x2E, 0x2E] then resolve par child isdir (par d) cs
      else case child d c of
        None \<Rightarrow> None
      | Some None \<Rightarrow> Some None
      | Some (Some e) \<Rightarrow>
          if cs = [] \<or> cs = [[]] then Some (Some e) else if isdir e then resolve par child isdir e cs else Some None)"

lemma components_last: "0x2F \<notin> set xs \<Longrightarrow> components xs = [xs]"
proof -
  assume "0x2F \<notin> set xs"
  then have d: "dropWhile (\<lambda>x. x \<noteq> 0x2F) xs = []" by (auto simp: dropWhile_eq_Nil_conv)
  show ?thesis by (subst components.simps) (simp only: d list.case)
qed

lemma components_cons: "0x2F \<notin> set ts \<Longrightarrow> components (ts @ 0x2F # zs) = ts # components zs"
proof -
  assume n: "0x2F \<notin> set ts"
  have "dropWhile (\<lambda>x. x \<noteq> 0x2F) (ts @ 0x2F # zs) = 0x2F # zs" "takeWhile (\<lambda>x. x \<noteq> 0x2F) (ts @ 0x2F # zs) = ts"
    using n by (induction ts) auto
  then show ?thesis by (subst components.simps) simp
qed

text \<open>What remains of a path that ends here counts as nothing.\<close>

definition rest_components :: "u8 list \<Rightarrow> u8 list list" where
  "rest_components xs = (if xs = [] then [] else components xs)"

lemma components_Nil [simp]: "components [] = [[]]"
  by (simp add: components_last)

lemma components_single: "components xs = [[]] \<longleftrightarrow> xs = []"
proof (cases "0x2F \<in> set xs")
  case True
  then obtain ts zs where "xs = ts @ 0x2F # zs" "0x2F \<notin> set ts" by (meson split_list_first)
  moreover have "components zs \<noteq> []" by (subst components.simps) (simp split: list.split)
  ultimately show ?thesis by (simp add: components_cons)
qed (auto simp: components_last)

lemma components_nonempty: "components xs \<noteq> []"
  by (subst components.simps) (simp split: list.split)

lemma rest_last: "rest_components xs = [] \<or> rest_components xs = [[]] \<longleftrightarrow> xs = []"
  by (simp add: rest_components_def components_single components_nonempty)

lemma resolve_rest:
  "resolve par child isdir d (rest_components xs) = resolve par child isdir d (components xs)"
  "resolve par child isdir d (c # rest_components xs) = resolve par child isdir d (c # components xs)"
proof -
  show "resolve par child isdir d (rest_components xs) = resolve par child isdir d (components xs)"
    by (cases "xs = []") (simp_all add: rest_components_def)
  show "resolve par child isdir d (c # rest_components xs) = resolve par child isdir d (c # components xs)"
    by (cases "xs = []") (simp_all add: rest_components_def split: option.splits)
qed

section \<open>Reference counts\<close>

lemma store32_twice: "store32 (store32 m a v) a w = store32 m a w"
  by (simp add: store32_def fun_eq_iff)

lemma store32_load: "store32 m a (load32 m a) = m"
proof
  fix x
  show "store32 m a (load32 m a) x = m x"
  proof (cases "x - a < 4")
    case True
    define j where "j = unat (x - a)"
    have j: "j < 4" using True by (simp add: j_def word_less_nat_alt)
    have x: "a + of_nat j = x" by (simp add: j_def)
    have "(ucast (drop_bit (8 * j) (load32 m a)) :: u8) = m x"
    proof (rule bit_word_eqI)
      fix n assume "n < LENGTH(8)"
      then have n: "n < 8" by simp
      have "(8 * j + n) div 8 = j" "(8 * j + n) mod 8 = n" "8 * j + n < 32" using n j by auto
      then show "bit (ucast (drop_bit (8 * j) (load32 m a)) :: u8) n = bit (m x) n"
        using n x by (simp add: bit_ucast_iff bit_drop_bit_eq bit_load32 add.commute)
    qed
    then show ?thesis using True by (simp add: store32_def j_def)
  qed (simp add: store32_outside)
qed

definition ref_cell :: "u64 \<Rightarrow> u64 set" where
  "ref_cell d = {x. x - (d + 56) < 4}"

lemma ref_outside: "x \<notin> ref_cell d \<Longrightarrow> ref_inc m d x = m x" "x \<notin> ref_cell d \<Longrightarrow> ref_dec m d x = m x"
  by (simp_all add: ref_cell_def ref_inc_def ref_dec_def store32_outside)

lemma ref_dec_inc: "ref_dec (ref_inc m d) d = m"
  by (simp add: ref_dec_def ref_inc_def store32_twice store32_load)

lemma ref_cell_mem: "k < 4 \<Longrightarrow> d + 56 + k \<in> ref_cell d"
  by (simp add: ref_cell_def)

lemma ref_inc_commute:
  assumes "ref_cell d \<inter> ref_cell e = {}"
  shows "ref_inc (ref_inc m d) e = ref_inc (ref_inc m e) d"
proof -
  have out: "d + 56 + k \<notin> ref_cell e" "e + 56 + k \<notin> ref_cell d" if "k < 4" for k using assms ref_cell_mem[OF that] by blast+
  have l: "load32 (ref_inc m e) (d + 56) = load32 m (d + 56)" by (rule load32_cong) (simp add: ref_outside out)
  have l': "load32 (ref_inc m d) (e + 56) = load32 m (e + 56)" by (rule load32_cong) (simp add: ref_outside out)
  have eq: "ref_inc (ref_inc m d) e = store32 (store32 m (d + 56) (load32 m (d + 56) + 1)) (e + 56) (load32 m (e + 56) + 1)"
    "ref_inc (ref_inc m e) d = store32 (store32 m (e + 56) (load32 m (e + 56) + 1)) (d + 56) (load32 m (d + 56) + 1)"
    by (simp_all only: ref_inc_def[of "ref_inc m d"] ref_inc_def[of "ref_inc m e"] l l') (simp_all only: ref_inc_def)
  have "\<not> x - (e + 56) < 4" if "x - (d + 56) < 4" for x using assms that by (auto simp: ref_cell_def)
  then show ?thesis unfolding eq by (auto simp: store32_def fun_eq_iff)
qed

lemma ref_swap:
  assumes "ref_cell d \<inter> ref_cell e = {} \<or> d = e"
  shows "ref_dec (ref_inc (ref_inc m d) e) d = ref_inc m e"
  using assms ref_inc_commute[of d e m] by (auto simp: ref_dec_inc)

text \<open>The effect on a set of bytes that contains the counter depends only on the bytes of the set.\<close>

lemma ref_cong:
  assumes "\<And>x. x \<in> K \<Longrightarrow> m x = m' x" "ref_cell d \<subseteq> K" "x \<in> K"
  shows "ref_inc m d x = ref_inc m' d x" "ref_dec m d x = ref_dec m' d x"
proof -
  have "load32 m (d + 56) = load32 m' (d + 56)"
    by (rule load32_cong, rule assms(1)) (use assms(2) ref_cell_mem in blast)
  then show "ref_inc m d x = ref_inc m' d x" "ref_dec m d x = ref_dec m' d x"
    using assms(1,3) by (simp_all add: ref_inc_def ref_dec_def store32_def)
qed

section \<open>The dentries in memory\<close>

definition dentry_reads :: "memory \<Rightarrow> u64 \<Rightarrow> u8 list \<Rightarrow> u64 set" where
  "dentry_reads m d xs = {x. x - d < 24} \<union> {x. x - (d + 64) < 8} \<union> {x. x - de_inode m d < 8} \<union> {x. x - (de_inode m d + 32) < 4}
     \<union> {x. unat (x - de_name m d) \<le> length xs}"

definition vfs_reads :: "'a vfs_state_scheme \<Rightarrow> u64 set \<Rightarrow> (u64 \<Rightarrow> u8 list) \<Rightarrow> u64 set" where
  "vfs_reads s DS nm = {x. unat (x - lit_slash s) \<le> 1} \<union> {x. unat (x - lit_dotdot s) \<le> 2} \<union> {x. unat (x - lit_dot s) \<le> 1}
     \<union> (\<Union>d\<in>DS. dentry_reads (mem s) d (nm d))"

definition vfs_bytes :: "'a vfs_state_scheme \<Rightarrow> u64 set \<Rightarrow> (u64 \<Rightarrow> u8 list) \<Rightarrow> u64 set" where
  "vfs_bytes s DS nm = vfs_reads s DS nm \<union> (\<Union>d\<in>DS. ref_cell d)"

definition tree_wf :: "'a vfs_state_scheme \<Rightarrow> (nat \<Rightarrow> u64 list) \<Rightarrow> (u64 \<Rightarrow> u8 list) \<Rightarrow> u64 set \<Rightarrow> bool" where
  "tree_wf s B nm DS \<longleftrightarrow> dcache_wf s B nm \<and> (\<forall>b<256. set (B b) \<subseteq> DS) \<and> root_dentry s \<in> DS
     \<and> (\<forall>d\<in>DS. d \<noteq> NULL \<and> de_inode (mem s) d \<noteq> NULL \<and> (de_parent (mem s) d \<noteq> NULL \<longrightarrow> de_parent (mem s) d \<in> DS))
     \<and> (\<forall>d\<in>DS. \<forall>e\<in>DS. d \<noteq> e \<longrightarrow> ref_cell d \<inter> ref_cell e = {}) \<and> vfs_reads s DS nm \<inter> (\<Union>d\<in>DS. ref_cell d) = {}
     \<and> cstr (mem s) (lit_slash s) [0x2F] \<and> placed (lit_slash s) [0x2F] \<and> cstr (mem s) (lit_dotdot s) [0x2E, 0x2E] \<and> cstr (mem s) (lit_dot s) [0x2E]"

lemma tree_wfD:
  assumes "tree_wf s B nm DS"
  shows "dcache_wf s B nm" "\<forall>b<256. set (B b) \<subseteq> DS" "root_dentry s \<in> DS"
    "\<forall>d\<in>DS. d \<noteq> NULL \<and> de_inode (mem s) d \<noteq> NULL \<and> (de_parent (mem s) d \<noteq> NULL \<longrightarrow> de_parent (mem s) d \<in> DS)"
    "\<forall>d\<in>DS. \<forall>e\<in>DS. d \<noteq> e \<longrightarrow> ref_cell d \<inter> ref_cell e = {}" "vfs_reads s DS nm \<inter> (\<Union>d\<in>DS. ref_cell d) = {}"
    "cstr (mem s) (lit_slash s) [0x2F]" "placed (lit_slash s) [0x2F]" "cstr (mem s) (lit_dotdot s) [0x2E, 0x2E]" "cstr (mem s) (lit_dot s) [0x2E]"
  using assms unfolding tree_wf_def by argo+

definition dir_child :: "'a vfs_state_scheme \<Rightarrow> (nat \<Rightarrow> u64 list) \<Rightarrow> (u64 \<Rightarrow> u8 list) \<Rightarrow> u64 \<Rightarrow> u8 list \<Rightarrow> u64 option" where
  "dir_child s B nm d c = find (\<lambda>e. nm e = c) (B (name_bucket (in_number (mem s) (de_inode (mem s) d)) c))"

definition is_dir :: "'a vfs_state_scheme \<Rightarrow> u64 \<Rightarrow> bool" where
  "is_dir s d \<longleftrightarrow> IS_DIRECTORY (in_mode (mem s) (de_inode (mem s) d))"

text \<open>The children that the cache decides: a dentry in the cache, or nothing for a name that the file system does not
  have. Every other name is undecided: the walk would have to ask the file system for it.\<close>

definition known_child :: "'a vfs_state_scheme \<Rightarrow> (nat \<Rightarrow> u64 list) \<Rightarrow> (u64 \<Rightarrow> u8 list) \<Rightarrow> (u64 \<Rightarrow> u8 list \<Rightarrow> bool) \<Rightarrow> u64 \<Rightarrow> u8 list \<Rightarrow> u64 option option" where
  "known_child s B nm absent d c =
     (case dir_child s B nm d c of Some e \<Rightarrow> Some (Some e) | None \<Rightarrow> if absent d c then Some None else None)"

definition walk :: "'a vfs_state_scheme \<Rightarrow> (nat \<Rightarrow> u64 list) \<Rightarrow> (u64 \<Rightarrow> u8 list) \<Rightarrow> (u64 \<Rightarrow> u8 list \<Rightarrow> bool) \<Rightarrow> u64 \<Rightarrow> u8 list list \<Rightarrow> u64 option option" where
  "walk s B nm absent d cs = resolve (parent_or_self (mem s)) (known_child s B nm absent) (is_dir s) d cs"

text \<open>What the walk relies on when it asks for a name that the file system does not have in a directory: \<^verbatim>\<open>lookup\<close>
  returns NULL and changes nothing.\<close>

definition lookup_absent :: "('a vfs_state_scheme \<Rightarrow> u64 \<Rightarrow> u64 \<Rightarrow> u64 \<Rightarrow> (u64 \<times> 'a vfs_state_scheme) option) \<Rightarrow> 'a vfs_state_scheme
    \<Rightarrow> u64 set \<Rightarrow> (u64 \<Rightarrow> u8 list \<Rightarrow> bool) \<Rightarrow> bool" where
  "lookup_absent lookup s DS absent \<longleftrightarrow>
     (\<forall>v fn d name c. d \<in> DS \<and> absent d c \<and> cstr (mem v) name c \<longrightarrow> lookup v fn (de_inode (mem s) d) name = Some (NULL, v))"

definition same_vfs :: "'a vfs_state_scheme \<Rightarrow> 'a vfs_state_scheme \<Rightarrow> bool" where
  "same_vfs s t \<longleftrightarrow> dentry_hash_table t = dentry_hash_table s \<and> root_dentry t = root_dentry s
     \<and> lit_slash t = lit_slash s \<and> lit_dotdot t = lit_dotdot s \<and> lit_dot t = lit_dot s"

lemma same_vfs_more: "slab_state.more t = slab_state.more s \<Longrightarrow> same_vfs s t"
  by (cases s; cases t) (simp add: same_vfs_def)

lemma same_vfs_mem [simp]: "same_vfs s (s\<lparr>mem := m\<rparr>)"
  by (simp add: same_vfs_def)

lemma dentry_reads_in: "d \<in> DS \<Longrightarrow> x \<in> dentry_reads (mem s) d (nm d) \<Longrightarrow> x \<in> vfs_reads s DS nm"
  by (auto simp: vfs_reads_def)

lemma load64_in: "(\<And>x. x - a < 8 \<Longrightarrow> m' x = m x) \<Longrightarrow> load64 m' a = load64 m a"
  by (rule load64_cong) simp

lemma load32_in: "(\<And>x. x - a < 4 \<Longrightarrow> m' x = m x) \<Longrightarrow> load32 m' a = load32 m a"
  by (rule load32_cong) simp

text \<open>Everything the walk reads of a dentry.\<close>

lemma dentry_same:
  assumes "d \<in> DS" "\<And>x. x \<in> vfs_reads s DS nm \<Longrightarrow> m x = mem s x"
  shows "de_name m d = de_name (mem s) d" "de_inode m d = de_inode (mem s) d" "de_parent m d = de_parent (mem s) d"
    "de_hash_next m d = de_hash_next (mem s) d" "in_number m (de_inode m d) = in_number (mem s) (de_inode (mem s) d)"
    "in_mode m (de_inode m d) = in_mode (mem s) (de_inode (mem s) d)"
proof -
  have r: "m x = mem s x" if "x \<in> dentry_reads (mem s) d (nm d)" for x using assms(2) dentry_reads_in[of d DS x s nm, OF assms(1) that] by blast
  have f: "x - d < 24" if "x - (d + off) < 8" "off \<le> 16" for x off :: u64 using that by unat_arith
  show "de_name m d = de_name (mem s) d" unfolding de_name_def
    by (rule load64_in, rule r) (use f[of _ 0] in \<open>simp add: dentry_reads_def\<close>)
  show i: "de_inode m d = de_inode (mem s) d" unfolding de_inode_def
    by (rule load64_in, rule r) (use f[of _ 8] in \<open>simp add: dentry_reads_def\<close>)
  show "de_parent m d = de_parent (mem s) d" unfolding de_parent_def
    by (rule load64_in, rule r) (use f[of _ 16] in \<open>simp add: dentry_reads_def\<close>)
  show "de_hash_next m d = de_hash_next (mem s) d" unfolding de_hash_next_def by (rule load64_in, rule r) (simp add: dentry_reads_def)
  show "in_number m (de_inode m d) = in_number (mem s) (de_inode (mem s) d)" unfolding in_number_def i
    by (rule load64_in, rule r) (simp add: dentry_reads_def)
  show "in_mode m (de_inode m d) = in_mode (mem s) (de_inode (mem s) d)" unfolding in_mode_def i
    by (rule load32_in, rule r) (simp add: dentry_reads_def)
qed

lemma tree_same:
  assumes wf: "tree_wf s B nm DS" and v: "same_vfs s t" and m: "\<And>x. x \<in> vfs_reads s DS nm \<Longrightarrow> mem t x = mem s x"
  shows "tree_wf t B nm DS" "vfs_reads t DS nm = vfs_reads s DS nm" "\<And>d c. d \<in> DS \<Longrightarrow> dir_child t B nm d c = dir_child s B nm d c"
    "\<And>d. d \<in> DS \<Longrightarrow> is_dir t d = is_dir s d" "\<And>d. d \<in> DS \<Longrightarrow> parent_or_self (mem t) d = parent_or_self (mem s) d"
proof -
  note ds = dentry_same[OF _ m]
  have dc: "dcache_wf s B nm" and B: "\<And>b e. b < 256 \<Longrightarrow> e \<in> set (B b) \<Longrightarrow> e \<in> DS" using tree_wfD[OF wf] by blast+
  show r: "vfs_reads t DS nm = vfs_reads s DS nm" using v ds by (simp add: vfs_reads_def same_vfs_def dentry_reads_def cong: SUP_cong)
  show "dir_child t B nm d c = dir_child s B nm d c" if "d \<in> DS" for d c by (simp only: dir_child_def ds(5)[OF that])
  show "is_dir t d = is_dir s d" if "d \<in> DS" for d by (simp only: is_dir_def ds(6)[OF that])
  show "parent_or_self (mem t) d = parent_or_self (mem s) d" if "d \<in> DS" for d by (simp add: parent_or_self_def ds[OF that])
  have lit: "cstr (mem t) a xs" if "cstr (mem s) a xs" "\<And>x. unat (x - a) \<le> length xs \<Longrightarrow> x \<in> vfs_reads s DS nm" for a xs
    by (rule cstr_same[OF that(1)]) (use that(2) m in blast)
  have "lseg (dc_slot b t) Head (B b) \<and> (\<forall>e\<in>set (B b). cstr (mem t) (de_name (mem t) e) (nm e))" if b: "b < 256" for b
  proof
    have l: "lseg (dc_slot b s) Head (B b)" and c: "\<And>e. e \<in> set (B b) \<Longrightarrow> cstr (mem s) (de_name (mem s) e) (nm e)"
      using dc b unfolding dcache_wf_def by blast+
    show "lseg (dc_slot b t) Head (B b)" using l by (rule lseg_cong) (use v ds(4)[OF B[OF b]] in \<open>simp_all add: same_vfs_def\<close>)
    show "\<forall>e\<in>set (B b). cstr (mem t) (de_name (mem t) e) (nm e)"
    proof
      fix e assume e: "e \<in> set (B b)"
      have n: "de_name (mem t) e = de_name (mem s) e" by (rule ds(1)[OF B[OF b e]])
      show "cstr (mem t) (de_name (mem t) e) (nm e)" unfolding n
        by (rule lit[OF c[OF e]], rule dentry_reads_in[OF B[OF b e]]) (simp add: dentry_reads_def)
    qed
  qed
  then have "dcache_wf t B nm" using dc v by (simp add: dcache_wf_def same_vfs_def)
  moreover have "cstr (mem t) (lit_slash s) [0x2F]" "cstr (mem t) (lit_dotdot s) [0x2E, 0x2E]" "cstr (mem t) (lit_dot s) [0x2E]"
    by (rule lit[OF tree_wfD(7)[OF wf]] lit[OF tree_wfD(9)[OF wf]] lit[OF tree_wfD(10)[OF wf]], simp add: vfs_reads_def)+
  ultimately show "tree_wf t B nm DS" using tree_wfD[OF wf] v ds unfolding tree_wf_def r by (simp add: same_vfs_def)
qed

lemma walk_in_tree:
  assumes wf: "tree_wf s B nm DS"
  shows "d \<in> DS \<Longrightarrow> parent_or_self (mem s) d \<in> DS" "dir_child s B nm d c = Some e \<Longrightarrow> e \<in> DS"
    "d \<in> DS \<Longrightarrow> d \<noteq> NULL \<and> de_inode (mem s) d \<noteq> NULL"
proof -
  show "d \<in> DS \<Longrightarrow> parent_or_self (mem s) d \<in> DS" "d \<in> DS \<Longrightarrow> d \<noteq> NULL \<and> de_inode (mem s) d \<noteq> NULL"
    using tree_wfD(4)[OF wf] by (auto simp: parent_or_self_def)
  assume "dir_child s B nm d c = Some e"
  then have "e \<in> set (B (name_bucket (in_number (mem s) (de_inode (mem s) d)) c))" by (auto simp: dir_child_def find_Some_iff)
  then show "e \<in> DS" using tree_wfD(2)[OF wf] name_bucket_less by blast
qed

end
