(* ===== verification/Path_Correct.thy ===== *)
theory Path_Correct
  imports Path_Tree
begin

text \<open>
  Path resolution (\<^verbatim>\<open>path_walk\<close> of \<^verbatim>\<open>vfs.c\<close>) against the specification of the tree: the walk over the
  copy of the path that \<^verbatim>\<open>kstrtok_r\<close> takes apart, the references it takes and gives back, and the heap
  that the copy comes from and returns to.
\<close>

section \<open>Taking a path apart\<close>




section \<open>The loop\<close>





















section \<open>The copy of the path\<close>





section \<open>Path resolution\<close>














text \<open>With a working directory other than the root an absolute path leads where the same path without its first slash leads.\<close>

lemma path_walk_leading_slash:
  assumes "cstr (mem s) path (0x2F # ys)" "cstr (mem s) (lit_slash s) [0x2F]" "cstr (mem s) (lit_dotdot s) [0x2E, 0x2E]" "cstr (mem s) (lit_dot s) [0x2E]"
    and "path \<noteq> NULL" "path + 1 \<noteq> NULL" "ys \<notin> {[], [0x2F], [0x2E], [0x2E, 0x2E]}" "take 1 ys \<noteq> [0x2F]"
  shows "path_walk lookup s path wd = path_walk lookup s (path + 1) wd"
proof -
  have c: "cstr (mem s) (path + 1) ys" "load8 (mem s) path = 0x2F" using assms(1) by (simp_all add: cstr_Cons load8_def)
  have z: "0 \<notin> set (0x2F # ys)" using assms(1) by (simp add: cstr_def)
  have l: "load8 (mem s) (path + 1) \<noteq> 0x2F" using c(1) assms(7,8) by (cases ys) (auto simp: cstr_Cons load8_def)
  have cmp: "\<exists>n. strcmp (mem s) p q = Some n \<and> n \<noteq> 0" if "cstr (mem s) p us" "cstr (mem s) q vs" "us \<noteq> vs" "0 \<notin> set us" "0 \<notin> set vs" for p q us vs
    using strcmp_cstr[OF that(1,2)] that(3-5) by (simp add: str_diff_eq_0)
  have "\<exists>n. strcmp (mem s) path (lit_slash s) = Some n \<and> n \<noteq> 0" "\<exists>n. strcmp (mem s) path (lit_dotdot s) = Some n \<and> n \<noteq> 0"
    "\<exists>n. strcmp (mem s) path (lit_dot s) = Some n \<and> n \<noteq> 0" "\<exists>n. strcmp (mem s) (path + 1) (lit_slash s) = Some n \<and> n \<noteq> 0"
    "\<exists>n. strcmp (mem s) (path + 1) (lit_dotdot s) = Some n \<and> n \<noteq> 0" "\<exists>n. strcmp (mem s) (path + 1) (lit_dot s) = Some n \<and> n \<noteq> 0"
    by (rule cmp[OF assms(1,2)] cmp[OF assms(1,3)] cmp[OF assms(1,4)] cmp[OF c(1) assms(2)] cmp[OF c(1) assms(3)] cmp[OF c(1) assms(4)]; use assms(7) z in auto)+
  then show ?thesis using assms(5,6) c(2) l by (auto simp: path_walk_def)
qed

text \<open>A component that only the file system has: the walk adds the dentry that \<^verbatim>\<open>lookup\<close> returns to the cache, where it is found from then on. This
  needs a dentry that is not in the cache yet; one that is first in its bucket, as after \<^verbatim>\<open>alloc_dentry\<close>, becomes its own successor.\<close>

lemma walk_child_adds:
  assumes "dcache_lookup s p q = Some NULL" "lookup s (load64 (mem s) (in_i_ops (mem s) (de_inode (mem s) p))) (de_inode (mem s) p) q = Some (e, v)"
    and "dcache_wf v B nm" "e \<noteq> NULL" "\<forall>b<256. e \<notin> set (B b)" "de_parent (mem v) e = p" "p \<noteq> NULL" "de_inode (mem v) p \<noteq> NULL"
    and "cstr (mem v) (de_name (mem v) e) xs"
    and "\<forall>x. x - (e + 64) < 8 \<longrightarrow> (\<forall>b<256. \<forall>d\<in>set (B b). x \<notin> dentry_cells (mem v) d (nm d)) \<and> length xs < unat (x - de_name (mem v) e)"
  shows "\<exists>t. walk_child lookup s p q = Some (e, t)
    \<and> dcache_wf t (B(name_bucket (in_number (mem v) (de_inode (mem v) p)) xs := e # B (name_bucket (in_number (mem v) (de_inode (mem v) p)) xs))) (nm(e := xs))"
proof -
  obtain t where "dcache_add v e = Some t"
    "dcache_wf t (B(name_bucket (in_number (mem v) (de_inode (mem v) p)) xs := e # B (name_bucket (in_number (mem v) (de_inode (mem v) p)) xs))) (nm(e := xs))"
    using dcache_add_wf[OF assms(3,4) _ assms(6-9)] assms(5,10) by blast
  then show ?thesis using assms(1,2,4) by (auto simp: walk_child_def)
qed

lemma dcache_add_again:
  assumes "dentry_ht_bucket (mem s) (de_parent (mem s) e) (de_name (mem s) e) = Some b" "dentry_hash_table s ! b = e" "e \<noteq> NULL"
  shows "\<exists>t. dcache_add s e = Some t \<and> de_hash_next (mem t) e = e"
  using assms by (simp add: dcache_add_def de_hash_next_def)


section \<open>A concrete tree\<close>






















end
