(* ===== verification/Console.thy ===== *)
theory Console
  imports Klib
begin

text \<open>
  The console: pixels in the frame buffer (\<^verbatim>\<open>arch/x86_64/drivers/framebuffer.c\<close>), the bitmap font
  (\<^verbatim>\<open>tty_font.c\<close>) and the text terminal on top of them (\<^verbatim>\<open>kernel/console/tty/tty.c\<close>). The frame buffer is
  an array of 32-bit pixels; its size comes from the boot loader.
\<close>

section \<open>The font\<close>

definition font8x8_basic :: "u8 list list" where
  "font8x8_basic =
    [[0x00, 0x00, 0x00, 0x00, 0x00, 0x00, 0x00, 0x00],
     [0x18, 0x3C, 0x3C, 0x18, 0x18, 0x00, 0x18, 0x00],
     [0x6C, 0x6C, 0x00, 0x00, 0x00, 0x00, 0x00, 0x00],
     [0x6C, 0x6C, 0xFE, 0x6C, 0xFE, 0x6C, 0x6C, 0x00],
     [0x30, 0x7C, 0xC0, 0x78, 0x0C, 0xF8, 0x30, 0x00],
     [0x00, 0xC6, 0xCC, 0x18, 0x30, 0x66, 0xC6, 0x00],
     [0x38, 0x6C, 0x38, 0x76, 0xDC, 0xCC, 0x76, 0x00],
     [0x60, 0x60, 0xC0, 0x00, 0x00, 0x00, 0x00, 0x00],
     [0x18, 0x30, 0x60, 0x60, 0x60, 0x30, 0x18, 0x00],
     [0x60, 0x30, 0x18, 0x18, 0x18, 0x30, 0x60, 0x00],
     [0x00, 0x66, 0x3C, 0xFF, 0x3C, 0x66, 0x00, 0x00],
     [0x00, 0x30, 0x30, 0xFC, 0x30, 0x30, 0x00, 0x00],
     [0x00, 0x00, 0x00, 0x00, 0x00, 0x30, 0x30, 0x60],
     [0x00, 0x00, 0x00, 0xFC, 0x00, 0x00, 0x00, 0x00],
     [0x00, 0x00, 0x00, 0x00, 0x00, 0x30, 0x30, 0x00],
     [0x06, 0x0C, 0x18, 0x30, 0x60, 0xC0, 0x80, 0x00],
     [0x7C, 0xC6, 0xCE, 0xDE, 0xF6, 0xE6, 0x7C, 0x00],
     [0x30, 0x70, 0x30, 0x30, 0x30, 0x30, 0xFC, 0x00],
     [0x78, 0xCC, 0x0C, 0x38, 0x60, 0xCC, 0xFC, 0x00],
     [0x78, 0xCC, 0x0C, 0x38, 0x0C, 0xCC, 0x78, 0x00],
     [0x1C, 0x3C, 0x6C, 0xCC, 0xFE, 0x0C, 0x1E, 0x00],
     [0xFC, 0xC0, 0xF8, 0x0C, 0x0C, 0xCC, 0x78, 0x00],
     [0x38, 0x60, 0xC0, 0xF8, 0xCC, 0xCC, 0x78, 0x00],
     [0xFC, 0xCC, 0x0C, 0x18, 0x30, 0x30, 0x30, 0x00],
     [0x78, 0xCC, 0xCC, 0x78, 0xCC, 0xCC, 0x78, 0x00],
     [0x78, 0xCC, 0xCC, 0x7C, 0x0C, 0x18, 0x70, 0x00],
     [0x00, 0x30, 0x30, 0x00, 0x00, 0x30, 0x30, 0x00],
     [0x00, 0x30, 0x30, 0x00, 0x00, 0x30, 0x30, 0x60],
     [0x18, 0x30, 0x60, 0xC0, 0x60, 0x30, 0x18, 0x00],
     [0x00, 0x00, 0xFC, 0x00, 0x00, 0xFC, 0x00, 0x00],
     [0x60, 0x30, 0x18, 0x0C, 0x18, 0x30, 0x60, 0x00],
     [0x78, 0xCC, 0x0C, 0x18, 0x30, 0x00, 0x30, 0x00],
     [0x7C, 0xC6, 0xDE, 0xDE, 0xDE, 0xC0, 0x78, 0x00],
     [0x30, 0x78, 0xCC, 0xCC, 0xFC, 0xCC, 0xCC, 0x00],
     [0xFC, 0x66, 0x66, 0x7C, 0x66, 0x66, 0xFC, 0x00],
     [0x3C, 0x66, 0xC0, 0xC0, 0xC0, 0x66, 0x3C, 0x00],
     [0xF8, 0x6C, 0x66, 0x66, 0x66, 0x6C, 0xF8, 0x00],
     [0xFE, 0x62, 0x68, 0x78, 0x68, 0x62, 0xFE, 0x00],
     [0xFE, 0x62, 0x68, 0x78, 0x68, 0x60, 0xF0, 0x00],
     [0x3C, 0x66, 0xC0, 0xC0, 0xCE, 0x66, 0x3E, 0x00],
     [0xCC, 0xCC, 0xCC, 0xFC, 0xCC, 0xCC, 0xCC, 0x00],
     [0x78, 0x30, 0x30, 0x30, 0x30, 0x30, 0x78, 0x00],
     [0x1E, 0x0C, 0x0C, 0x0C, 0xCC, 0xCC, 0x78, 0x00],
     [0xE6, 0x66, 0x6C, 0x78, 0x6C, 0x66, 0xE6, 0x00],
     [0xF0, 0x60, 0x60, 0x60, 0x62, 0x66, 0xFE, 0x00],
     [0xC6, 0xEE, 0xFE, 0xFE, 0xD6, 0xC6, 0xC6, 0x00],
     [0xC6, 0xE6, 0xF6, 0xDE, 0xCE, 0xC6, 0xC6, 0x00],
     [0x38, 0x6C, 0xC6, 0xC6, 0xC6, 0x6C, 0x38, 0x00],
     [0xFC, 0x66, 0x66, 0x7C, 0x60, 0x60, 0xF0, 0x00],
     [0x78, 0xCC, 0xCC, 0xCC, 0xDC, 0x78, 0x1C, 0x00],
     [0xFC, 0x66, 0x66, 0x7C, 0x6C, 0x66, 0xE6, 0x00],
     [0x78, 0xCC, 0xE0, 0x70, 0x1C, 0xCC, 0x78, 0x00],
     [0xFC, 0xB4, 0x30, 0x30, 0x30, 0x30, 0x78, 0x00],
     [0xCC, 0xCC, 0xCC, 0xCC, 0xCC, 0xCC, 0xFC, 0x00],
     [0xCC, 0xCC, 0xCC, 0xCC, 0xCC, 0x78, 0x30, 0x00],
     [0xC6, 0xC6, 0xC6, 0xD6, 0xFE, 0xEE, 0xC6, 0x00],
     [0xC6, 0xC6, 0x6C, 0x38, 0x38, 0x6C, 0xC6, 0x00],
     [0xCC, 0xCC, 0xCC, 0x78, 0x30, 0x30, 0x78, 0x00],
     [0xFE, 0xC6, 0x8C, 0x18, 0x32, 0x66, 0xFE, 0x00],
     [0x78, 0x60, 0x60, 0x60, 0x60, 0x60, 0x78, 0x00],
     [0xC0, 0x60, 0x30, 0x18, 0x0C, 0x06, 0x02, 0x00],
     [0x78, 0x18, 0x18, 0x18, 0x18, 0x18, 0x78, 0x00],
     [0x10, 0x38, 0x6C, 0xC6, 0x00, 0x00, 0x00, 0x00],
     [0x00, 0x00, 0x00, 0x00, 0x00, 0x00, 0x00, 0xFF],
     [0x30, 0x30, 0x18, 0x00, 0x00, 0x00, 0x00, 0x00],
     [0x00, 0x00, 0x78, 0x0C, 0x7C, 0xCC, 0x76, 0x00],
     [0xE0, 0x60, 0x60, 0x7C, 0x66, 0x66, 0xDC, 0x00],
     [0x00, 0x00, 0x78, 0xCC, 0xC0, 0xCC, 0x78, 0x00],
     [0x1C, 0x0C, 0x0C, 0x7C, 0xCC, 0xCC, 0x76, 0x00],
     [0x00, 0x00, 0x78, 0xCC, 0xFC, 0xC0, 0x78, 0x00],
     [0x38, 0x6C, 0x60, 0xF0, 0x60, 0x60, 0xF0, 0x00],
     [0x00, 0x00, 0x76, 0xCC, 0xCC, 0x7C, 0x0C, 0xF8],
     [0xE0, 0x60, 0x6C, 0x76, 0x66, 0x66, 0xE6, 0x00],
     [0x30, 0x00, 0x70, 0x30, 0x30, 0x30, 0x78, 0x00],
     [0x0C, 0x00, 0x0C, 0x0C, 0x0C, 0xCC, 0xCC, 0x78],
     [0xE0, 0x60, 0x66, 0x6C, 0x78, 0x6C, 0xE6, 0x00],
     [0x70, 0x30, 0x30, 0x30, 0x30, 0x30, 0x78, 0x00],
     [0x00, 0x00, 0xCC, 0xFE, 0xFE, 0xD6, 0xC6, 0x00],
     [0x00, 0x00, 0xF8, 0xCC, 0xCC, 0xCC, 0xCC, 0x00],
     [0x00, 0x00, 0x78, 0xCC, 0xCC, 0xCC, 0x78, 0x00],
     [0x00, 0x00, 0xDC, 0x66, 0x66, 0x7C, 0x60, 0xF0],
     [0x00, 0x00, 0x76, 0xCC, 0xCC, 0x7C, 0x0C, 0x1E],
     [0x00, 0x00, 0xDC, 0x76, 0x66, 0x60, 0xF0, 0x00],
     [0x00, 0x00, 0x7C, 0xC0, 0x78, 0x0C, 0xF8, 0x00],
     [0x10, 0x30, 0x7C, 0x30, 0x30, 0x34, 0x18, 0x00],
     [0x00, 0x00, 0xCC, 0xCC, 0xCC, 0xCC, 0x76, 0x00],
     [0x00, 0x00, 0xCC, 0xCC, 0xCC, 0x78, 0x30, 0x00],
     [0x00, 0x00, 0xC6, 0xD6, 0xFE, 0xFE, 0x6C, 0x00],
     [0x00, 0x00, 0xC6, 0x6C, 0x38, 0x6C, 0xC6, 0x00],
     [0x00, 0x00, 0xCC, 0xCC, 0xCC, 0x7C, 0x0C, 0xF8],
     [0x00, 0x00, 0xFC, 0x98, 0x30, 0x64, 0xFC, 0x00],
     [0x1C, 0x30, 0x30, 0xE0, 0x30, 0x30, 0x1C, 0x00],
     [0x18, 0x18, 0x18, 0x00, 0x18, 0x18, 0x18, 0x00],
     [0xE0, 0x30, 0x30, 0x1C, 0x30, 0x30, 0xE0, 0x00],
     [0x76, 0xDC, 0x00, 0x00, 0x00, 0x00, 0x00, 0x00]]"

definition font_get_char :: "u8 \<Rightarrow> u8 list" where
  "font_get_char c = (if 32 \<le> c \<and> c \<le> 126 then font8x8_basic ! (unat c - 32) else font8x8_basic ! 0)"

abbreviation FONT_WIDTH :: nat where "FONT_WIDTH \<equiv> 8"
abbreviation FONT_HEIGHT :: nat where "FONT_HEIGHT \<equiv> 8"
abbreviation TAB_WIDTH :: u16 where "TAB_WIDTH \<equiv> 8"

section \<open>State\<close>

record limine_fb =
  fb_width :: u64
  fb_height :: u64
  fb_pitch :: u64

record term_cell =
  cell_ch :: u8
  cell_fg :: u32
  cell_bg :: u32

record console_state =
  primary_fb :: "limine_fb option"
  fb_pixels :: "u64 \<Rightarrow> u32"
  total_rows :: u16
  total_columns :: u16
  current_row :: u16
  current_column :: u16
  terminal_fg_color :: u32
  terminal_bg_color :: u32
  terminal_buffer :: "term_cell list"

section \<open>The frame buffer\<close>

text \<open>The response of the boot loader: the list of frame buffers, if there is one.\<close>

definition fb_init :: "'a console_state_scheme \<Rightarrow> limine_fb list option \<Rightarrow> int \<times> 'a console_state_scheme" where
  "fb_init s response =
     (case response of
        None \<Rightarrow> (-1, s)
      | Some fbs \<Rightarrow> if length fbs < 1 then (-1, s) else (0, s\<lparr>primary_fb := Some (fbs ! 0)\<rparr>))"

definition pixel_index :: "limine_fb \<Rightarrow> u32 \<Rightarrow> u32 \<Rightarrow> u64" where
  "pixel_index fb x y = ucast y * (fb_pitch fb div 4) + ucast x"

definition set_pixel :: "'a console_state_scheme \<Rightarrow> u64 \<Rightarrow> u32 \<Rightarrow> 'a console_state_scheme" where
  "set_pixel s i color = s\<lparr>fb_pixels := (fb_pixels s)(i := color)\<rparr>"

definition fb_put_pixel :: "'a console_state_scheme \<Rightarrow> u32 \<Rightarrow> u32 \<Rightarrow> u32 \<Rightarrow> 'a console_state_scheme" where
  "fb_put_pixel s x y color =
     (case primary_fb s of
        None \<Rightarrow> s
      | Some fb \<Rightarrow>
          if ucast x < fb_width fb \<and> ucast y < fb_height fb then set_pixel s (pixel_index fb x y) color else s)"

text \<open>The loop counters have 32 bits, so that a larger width or height would never be reached.\<close>

definition fb_clear :: "'a console_state_scheme \<Rightarrow> u32 \<Rightarrow> 'a console_state_scheme option" where
  "fb_clear s color =
     (case primary_fb s of
        None \<Rightarrow> Some s
      | Some fb \<Rightarrow>
          if fb_height fb > 0x100000000 \<or> fb_height fb > 0 \<and> fb_width fb > 0x100000000 then None
          else
            Some (foldl (\<lambda>s y. foldl (\<lambda>s x. set_pixel s (pixel_index fb (of_nat x) (of_nat y)) color) s [0..<unat (fb_width fb)])
              s [0..<unat (fb_height fb)]))"

definition put_glyph_pixel ::
  "limine_fb \<Rightarrow> u8 \<Rightarrow> u32 \<Rightarrow> u32 \<Rightarrow> u32 \<Rightarrow> u32 \<Rightarrow> nat \<Rightarrow> 'a console_state_scheme \<Rightarrow> nat \<Rightarrow> 'a console_state_scheme" where
  "put_glyph_pixel fb byte x y fg_color bg_color row s col =
     (let pixel_x = x + of_nat col;
          pixel_y = y + of_nat row
      in if ucast pixel_x < fb_width fb \<and> ucast pixel_y < fb_height fb
         then set_pixel s (pixel_index fb pixel_x pixel_y)
                (if byte AND drop_bit col 0x80 \<noteq> 0 then fg_color else bg_color)
         else s)"

definition fb_put_char ::
  "'a console_state_scheme \<Rightarrow> u8 \<Rightarrow> u32 \<Rightarrow> u32 \<Rightarrow> u32 \<Rightarrow> u32 \<Rightarrow> 'a console_state_scheme" where
  "fb_put_char s c x y fg_color bg_color =
     (case primary_fb s of
        None \<Rightarrow> s
      | Some fb \<Rightarrow>
          (let char_bitmap = font_get_char c in
           foldl (\<lambda>s row. foldl (put_glyph_pixel fb (char_bitmap ! row) x y fg_color bg_color row) s [0..<FONT_WIDTH])
             s [0..<FONT_HEIGHT]))"

partial_function (option) put_string_loop ::
  "memory \<Rightarrow> 'a console_state_scheme \<Rightarrow> u64 \<Rightarrow> u32 \<Rightarrow> u32 \<Rightarrow> u32 \<Rightarrow> u32 \<Rightarrow> u32 \<Rightarrow> 'a console_state_scheme option" where
  "put_string_loop m s str x current_x y fg_color bg_color =
     (if load8 m str = 0 then Some s
      else if load8 m str = 0x0A then put_string_loop m s (str + 1) x x (y + of_nat FONT_HEIGHT) fg_color bg_color
      else put_string_loop m (fb_put_char s (load8 m str) current_x y fg_color bg_color) (str + 1) x
             (current_x + of_nat FONT_WIDTH) y fg_color bg_color)"

definition fb_put_string ::
  "memory \<Rightarrow> 'a console_state_scheme \<Rightarrow> u64 \<Rightarrow> u32 \<Rightarrow> u32 \<Rightarrow> u32 \<Rightarrow> u32 \<Rightarrow> 'a console_state_scheme option" where
  "fb_put_string m s str x y fg_color bg_color = put_string_loop m s str x x y fg_color bg_color"

section \<open>The terminal\<close>

text \<open>
  The operations return \<open>None\<close> where the machine halts (no frame buffer) and where the code would
  leave the array \<^verbatim>\<open>terminal_buffer\<close> of 240 * 135 cells.
\<close>

definition get_screen_dimensions :: "'a console_state_scheme \<Rightarrow> 'a console_state_scheme option" where
  "get_screen_dimensions s =
     (case primary_fb s of
        None \<Rightarrow> None
      | Some fb \<Rightarrow> Some (s\<lparr>total_columns := ucast (fb_width fb div of_nat FONT_WIDTH),
                         total_rows := ucast (fb_height fb div of_nat FONT_HEIGHT)\<rparr>))"

definition cell_index :: "'a console_state_scheme \<Rightarrow> nat \<Rightarrow> nat \<Rightarrow> nat" where
  "cell_index s x y = y * unat (total_columns s) + x"

definition set_cell :: "'a console_state_scheme \<Rightarrow> nat \<Rightarrow> term_cell \<Rightarrow> 'a console_state_scheme option" where
  "set_cell s i c =
     (if i < length (terminal_buffer s) then Some (s\<lparr>terminal_buffer := (terminal_buffer s)[i := c]\<rparr>) else None)"

definition draw_cell :: "'a console_state_scheme \<Rightarrow> term_cell \<Rightarrow> nat \<Rightarrow> nat \<Rightarrow> 'a console_state_scheme" where
  "draw_cell s c x y =
     fb_put_char s (cell_ch c) (of_nat (x * FONT_WIDTH)) (of_nat (y * FONT_HEIGHT)) (cell_fg c) (cell_bg c)"

definition render_cell :: "nat \<Rightarrow> 'a console_state_scheme \<Rightarrow> nat \<Rightarrow> 'a console_state_scheme option" where
  "render_cell y s x =
     (if cell_index s x y < length (terminal_buffer s)
      then Some (draw_cell s (terminal_buffer s ! cell_index s x y) x y) else None)"

definition terminal_render :: "'a console_state_scheme \<Rightarrow> 'a console_state_scheme option" where
  "terminal_render s =
     fold_opt (\<lambda>s y. fold_opt (render_cell y) s [0..<unat (total_columns s)]) s [0..<unat (total_rows s)]"

definition terminal_initialize :: "'a console_state_scheme \<Rightarrow> u32 \<Rightarrow> u32 \<Rightarrow> 'a console_state_scheme option" where
  "terminal_initialize s fg bg = do {
     s \<leftarrow> get_screen_dimensions s;
     let s = s\<lparr>current_row := 0, current_column := 0, terminal_fg_color := fg, terminal_bg_color := bg\<rparr>;
     let buffer_size = unat (total_rows s) * unat (total_columns s);
     s \<leftarrow> fold_opt (\<lambda>s i. set_cell s i \<lparr>cell_ch = 0x20, cell_fg = fg, cell_bg = bg\<rparr>) s [0..<buffer_size];
     terminal_render s
   }"

definition terminal_putentryat ::
  "'a console_state_scheme \<Rightarrow> term_cell \<Rightarrow> nat \<Rightarrow> nat \<Rightarrow> 'a console_state_scheme option" where
  "terminal_putentryat s c x y =
     (if x \<ge> unat (total_columns s) \<or> y \<ge> unat (total_rows s) then Some s
      else do {
        s \<leftarrow> set_cell s (cell_index s x y) c;
        Some (draw_cell s c x y)
      })"

text \<open>\<^verbatim>\<open>memmove\<close> of the rows below the first to the top, then blanks in the last row. With no row at all
  the size \<^verbatim>\<open>(total_rows - 1) * total_columns * sizeof(struct term_cell_t)\<close> wraps around.\<close>

definition terminal_scroll :: "'a console_state_scheme \<Rightarrow> 'a console_state_scheme option" where
  "terminal_scroll s =
     (let cols = unat (total_columns s);
          rows = unat (total_rows s);
          n = (rows - 1) * cols;
          b = terminal_buffer s
      in if rows = 0 \<and> cols \<noteq> 0 \<or> cols + n > length b then None
         else do {
           let s = s\<lparr>terminal_buffer := take n (drop cols b) @ drop n b\<rparr>;
           s \<leftarrow> fold_opt (\<lambda>s i. set_cell s (n + i) ((terminal_buffer s ! (n + i))\<lparr>cell_ch := 0x20\<rparr>)) s [0..<cols];
           Some (s\<lparr>current_row := total_rows s - 1\<rparr>)
         })"

definition terminal_newline :: "'a console_state_scheme \<Rightarrow> 'a console_state_scheme option" where
  "terminal_newline s =
     (let s = s\<lparr>current_column := 0, current_row := current_row s + 1\<rparr>
      in if current_row s \<ge> total_rows s
         then do { s \<leftarrow> terminal_scroll s; terminal_render s }
         else Some s)"

definition terminal_putchar :: "'a console_state_scheme \<Rightarrow> term_cell \<Rightarrow> 'a console_state_scheme option" where
  "terminal_putchar s c =
     (if cell_ch c = 0x0A then terminal_newline s
      else if cell_ch c = 0x09 then
        (let s = s\<lparr>current_column := current_column s + (TAB_WIDTH - current_column s mod TAB_WIDTH)\<rparr>
         in if current_column s \<ge> total_columns s then terminal_newline s else Some s)
      else do {
        s \<leftarrow> terminal_putentryat s c (unat (current_column s)) (unat (current_row s));
        let s = s\<lparr>current_column := current_column s + 1\<rparr>;
        (if current_column s \<ge> total_columns s then terminal_newline s else Some s)
      })"

text \<open>\<open>terminal_write\<close> takes its bytes from memory, \<open>terminal_write_bytes\<close> from a string literal.\<close>

definition terminal_write_bytes :: "'a console_state_scheme \<Rightarrow> u8 list \<Rightarrow> 'a console_state_scheme option" where
  "terminal_write_bytes s bs =
     fold_opt (\<lambda>s b. terminal_putchar s \<lparr>cell_ch = b, cell_fg = terminal_fg_color s, cell_bg = terminal_bg_color s\<rparr>) s bs"

definition terminal_write :: "memory \<Rightarrow> 'a console_state_scheme \<Rightarrow> u64 \<Rightarrow> nat \<Rightarrow> 'a console_state_scheme option" where
  "terminal_write m s dat n = terminal_write_bytes s (bytes_at m dat n)"

definition terminal_writestring :: "memory \<Rightarrow> 'a console_state_scheme \<Rightarrow> u64 \<Rightarrow> 'a console_state_scheme option" where
  "terminal_writestring m s dat = do {
     n \<leftarrow> strlen m dat;
     terminal_write m s dat (unat n)
   }"

definition terminal_clear :: "'a console_state_scheme \<Rightarrow> 'a console_state_scheme option" where
  "terminal_clear s = do {
     let buffer_size = unat (total_rows s) * unat (total_columns s);
     s \<leftarrow> fold_opt (\<lambda>s i. set_cell s i \<lparr>cell_ch = 0x20, cell_fg = 0xFFFFFF, cell_bg = 0x000035\<rparr>) s [0..<buffer_size];
     terminal_render (s\<lparr>current_row := 0, current_column := 0\<rparr>)
   }"

definition terminal_setcolor :: "'a console_state_scheme \<Rightarrow> u32 \<Rightarrow> u32 \<Rightarrow> 'a console_state_scheme" where
  "terminal_setcolor s fg_color bg_color = s\<lparr>terminal_fg_color := fg_color, terminal_bg_color := bg_color\<rparr>"

end
