(* ===== verification/Console_Correct.thy ===== *)
theory Console_Correct
  imports Console
begin

text \<open>
  Correctness of the console: glyphs drawn in the frame buffer, the terminal's array of cells as an
  abstract screen (rows of cells and a cursor), and the agreement of the two. \<open>term_ok\<close> is the type
  invariant of the terminal, \<open>shows_text\<close> the agreement, \<open>moves_to\<close> the contract every operation
  meets.
\<close>

section \<open>Glyphs in the frame buffer\<close>

text \<open>A frame buffer whose rows do not overlap and whose pixels are all addressable.\<close>

definition fb_ok :: "limine_fb \<Rightarrow> bool" where
  "fb_ok fb \<longleftrightarrow> unat (fb_width fb) \<le> unat (fb_pitch fb) div 4 \<and> unat (fb_width fb) < 2 ^ 32 \<and> unat (fb_height fb) < 2 ^ 32
     \<and> unat (fb_height fb) * unat (fb_pitch fb) < 2 ^ 64"

definition pixel :: "'a console_state_scheme \<Rightarrow> limine_fb \<Rightarrow> nat \<Rightarrow> nat \<Rightarrow> u32" where
  "pixel s fb x y = fb_pixels s (pixel_index fb (of_nat x) (of_nat y))"

lemma unat_pixel_index:
  assumes "fb_ok fb" "x < unat (fb_width fb)" "y < unat (fb_height fb)"
  shows "unat (pixel_index fb (of_nat x) (of_nat y)) = y * (unat (fb_pitch fb) div 4) + x"
proof -
  let ?p = "unat (fb_pitch fb) div 4"
  have s: "x < 4294967296" "y < 4294967296" using assms by (simp_all add: fb_ok_def)
  have "Suc y * ?p \<le> unat (fb_height fb) * unat (fb_pitch fb)"
    using assms(3) by (intro mult_le_mono) simp_all
  then have lt: "y * ?p + x < 18446744073709551616" using assms by (simp add: fb_ok_def)
  have u: "unat (ucast (of_nat x :: u32) :: u64) = x" "unat (ucast (of_nat y :: u32) :: u64) = y"
    using s by (simp_all add: unsigned_ucast_eq unat_of_nat take_bit_nat_eq_self)
  have "unat (fb_pitch fb div 4) = ?p" by (simp add: unat_div)
  then show ?thesis
    using lt by (simp add: pixel_index_def unat_word_ariths(1,2) u)
qed

lemma pixel_index_inj:
  assumes "fb_ok fb" "x < unat (fb_width fb)" "y < unat (fb_height fb)" "x' < unat (fb_width fb)" "y' < unat (fb_height fb)"
  shows "pixel_index fb (of_nat x) (of_nat y) = pixel_index fb (of_nat x') (of_nat y') \<longleftrightarrow> x = x' \<and> y = y'"
proof
  let ?p = "unat (fb_pitch fb) div 4"
  assume "pixel_index fb (of_nat x) (of_nat y) = pixel_index fb (of_nat x') (of_nat y')"
  then have e: "y * ?p + x = y' * ?p + x'" using unat_pixel_index assms by metis
  have l: "x < ?p" "x' < ?p" using assms by (simp_all add: fb_ok_def)
  have "(y * ?p + x) div ?p = y" "(y' * ?p + x') div ?p = y'" using l by simp_all
  then have "y = y'" using e by metis
  then show "x = x' \<and> y = y'" using e by simp
qed simp

lemma set_pixel_fields [simp]:
  "primary_fb (set_pixel s i c) = primary_fb s" "total_rows (set_pixel s i c) = total_rows s"
  "total_columns (set_pixel s i c) = total_columns s" "current_row (set_pixel s i c) = current_row s"
  "current_column (set_pixel s i c) = current_column s" "terminal_fg_color (set_pixel s i c) = terminal_fg_color s"
  "terminal_bg_color (set_pixel s i c) = terminal_bg_color s" "terminal_buffer (set_pixel s i c) = terminal_buffer s"
  by (simp_all add: set_pixel_def)

text \<open>Everything but the pixels.\<close>

definition same_text :: "'a console_state_scheme \<Rightarrow> 'a console_state_scheme \<Rightarrow> bool" where
  "same_text s t \<longleftrightarrow> t = s\<lparr>fb_pixels := fb_pixels t\<rparr>"

lemma same_text_refl [simp]: "same_text s s"
  by (simp add: same_text_def)

lemma same_text_trans [trans]: "same_text s t \<Longrightarrow> same_text t u \<Longrightarrow> same_text s u"
  unfolding same_text_def
  by (cases s; cases t; cases u) simp

lemma same_text_set_pixel [simp]: "same_text s (set_pixel t i c) \<longleftrightarrow> same_text s t"
  by (cases s; cases t) (auto simp: same_text_def set_pixel_def)

lemma same_text_fields:
  "same_text s t \<Longrightarrow> primary_fb t = primary_fb s \<and> total_rows t = total_rows s \<and> total_columns t = total_columns s
    \<and> current_row t = current_row s \<and> current_column t = current_column s \<and> terminal_buffer t = terminal_buffer s
    \<and> terminal_fg_color t = terminal_fg_color s \<and> terminal_bg_color t = terminal_bg_color s"
  by (cases s; cases t) (auto simp: same_text_def)

text \<open>The colour the glyph of \<open>c\<close> has at column \<open>j\<close> of row \<open>i\<close>.\<close>

definition glyph_color :: "u8 \<Rightarrow> u32 \<Rightarrow> u32 \<Rightarrow> nat \<Rightarrow> nat \<Rightarrow> u32" where
  "glyph_color c fg bg i j = (if font_get_char c ! i AND drop_bit j 0x80 \<noteq> 0 then fg else bg)"

text \<open>The pixels at \<open>(x, y)\<close> in a block are \<open>f\<close> there, the others are kept.\<close>

lemma put_glyph_pixel_effect:
  assumes "fb_ok fb" "X + col < 2 ^ 32" "Y + row < 2 ^ 32"
    and p: "px < unat (fb_width fb)" "py < unat (fb_height fb)"
  shows "pixel (put_glyph_pixel fb (font_get_char c ! row) (of_nat X) (of_nat Y) fg bg row s col) fb px py =
    (if px = X + col \<and> py = Y + row then glyph_color c fg bg row col else pixel s fb px py)"
proof -
  have u: "unat (ucast (of_nat X + of_nat col :: u32) :: u64) = X + col"
    "unat (ucast (of_nat Y + of_nat row :: u32) :: u64) = Y + row"
    using assms(2,3) by (simp_all add: unsigned_ucast_eq unat_of_nat take_bit_nat_eq_self flip: of_nat_add)
  show ?thesis
    using p pixel_index_inj[OF assms(1), of px py "X + col" "Y + row"]
    by (auto simp: put_glyph_pixel_def Let_def word_less_nat_alt u pixel_def set_pixel_def glyph_color_def)
qed

lemma put_glyph_pixel_same: "same_text s (put_glyph_pixel fb b x y fg bg row t col) \<longleftrightarrow> same_text s t"
  by (simp add: put_glyph_pixel_def Let_def)

lemma glyph_row_effect:
  assumes "fb_ok fb" "X + 8 \<le> 2 ^ 32" "Y + row < 2 ^ 32" "n \<le> 8"
    and p: "px < unat (fb_width fb)" "py < unat (fb_height fb)"
  shows "pixel (foldl (put_glyph_pixel fb (font_get_char c ! row) (of_nat X) (of_nat Y) fg bg row) s [0..<n]) fb px py =
    (if X \<le> px \<and> px < X + n \<and> py = Y + row then glyph_color c fg bg row (px - X) else pixel s fb px py)"
  using assms(4)
proof (induction n)
  case (Suc n)
  have "X + n < 2 ^ 32" using Suc.prems assms(2) by simp
  from put_glyph_pixel_effect[OF assms(1) this assms(3) p, where s = "foldl (put_glyph_pixel fb (font_get_char c ! row) (of_nat X) (of_nat Y) fg bg row) s [0..<n]"] Suc
  show ?case by (auto simp: less_Suc_eq)
qed auto

lemma glyph_row_same: "same_text s (foldl (put_glyph_pixel fb b x y fg bg row) t cols) \<longleftrightarrow> same_text s t"
  by (induction cols arbitrary: t) (simp_all add: put_glyph_pixel_same)

lemma glyph_rows_effect:
  assumes "fb_ok fb" "X + 8 \<le> 2 ^ 32" "Y + 8 \<le> 2 ^ 32" "n \<le> 8"
    and p: "px < unat (fb_width fb)" "py < unat (fb_height fb)"
  shows "pixel (foldl (\<lambda>s row. foldl (put_glyph_pixel fb (font_get_char c ! row) (of_nat X) (of_nat Y) fg bg row) s [0..<8]) s [0..<n]) fb px py =
    (if X \<le> px \<and> px < X + 8 \<and> Y \<le> py \<and> py < Y + n then glyph_color c fg bg (py - Y) (px - X) else pixel s fb px py)"
  using assms(4)
proof (induction n)
  case (Suc n)
  have "Y + n < 2 ^ 32" using Suc.prems assms(3) by simp
  from glyph_row_effect[OF assms(1,2) this _ p, where n = 8 and s = "foldl (\<lambda>s row. foldl (put_glyph_pixel fb (font_get_char c ! row) (of_nat X) (of_nat Y) fg bg row) s [0..<8]) s [0..<n]"] Suc
  show ?case by (auto simp: less_Suc_eq)
qed auto

lemma fb_put_char_effect:
  assumes "primary_fb s = Some fb" "fb_ok fb" "X + 8 \<le> 2 ^ 32" "Y + 8 \<le> 2 ^ 32"
    "px < unat (fb_width fb)" "py < unat (fb_height fb)"
  shows "pixel (fb_put_char s c (of_nat X) (of_nat Y) fg bg) fb px py =
    (if X \<le> px \<and> px < X + 8 \<and> Y \<le> py \<and> py < Y + 8 then glyph_color c fg bg (py - Y) (px - X) else pixel s fb px py)"
  using glyph_rows_effect[OF assms(2-4) _ assms(5,6), where n = 8 and s = s] assms(1) by (simp add: fb_put_char_def)

lemma fb_put_char_same: "same_text s (fb_put_char s c x y fg bg)"
proof -
  have "same_text s (foldl (\<lambda>t row. foldl (put_glyph_pixel fb (g row) x y fg bg row) t xs) t ys) \<longleftrightarrow> same_text s t" for fb t g xs ys
    by (induction ys arbitrary: t) (simp_all add: glyph_row_same)
  then show ?thesis by (simp add: fb_put_char_def Let_def split: option.split)
qed

section \<open>The text on the screen\<close>

definition term_cell_at :: "'a console_state_scheme \<Rightarrow> nat \<Rightarrow> nat \<Rightarrow> term_cell" where
  "term_cell_at s r c = terminal_buffer s ! (r * unat (total_columns s) + c)"

text \<open>The cells of the screen fit in the array, and the cursor is on the screen.\<close>

definition term_fits :: "'a console_state_scheme \<Rightarrow> bool" where
  "term_fits s \<longleftrightarrow> length (terminal_buffer s) = 240 * 135 \<and> 0 < total_rows s \<and> 0 < total_columns s
     \<and> unat (total_rows s) * unat (total_columns s) \<le> 240 * 135"

definition term_ok :: "'a console_state_scheme \<Rightarrow> bool" where
  "term_ok s \<longleftrightarrow> term_fits s \<and> current_row s < total_rows s \<and> current_column s < total_columns s"

definition screen_ok :: "'a console_state_scheme \<Rightarrow> limine_fb \<Rightarrow> bool" where
  "screen_ok s fb \<longleftrightarrow> primary_fb s = Some fb \<and> fb_ok fb
     \<and> unat (total_columns s) * 8 \<le> unat (fb_width fb) \<and> unat (total_rows s) * 8 \<le> unat (fb_height fb)"

text \<open>The 8 by 8 block of pixels at row \<open>r\<close> and column \<open>c\<close> shows the cell \<open>cl\<close>.\<close>

definition shows_cell :: "'a console_state_scheme \<Rightarrow> limine_fb \<Rightarrow> nat \<Rightarrow> nat \<Rightarrow> term_cell \<Rightarrow> bool" where
  "shows_cell s fb r c cl \<longleftrightarrow> (\<forall>i<8. \<forall>j<8. pixel s fb (c * 8 + j) (r * 8 + i) = glyph_color (cell_ch cl) (cell_fg cl) (cell_bg cl) i j)"

definition shows_text :: "'a console_state_scheme \<Rightarrow> limine_fb \<Rightarrow> bool" where
  "shows_text s fb \<longleftrightarrow> (\<forall>r < unat (total_rows s). \<forall>c < unat (total_columns s). shows_cell s fb r c (term_cell_at s r c))"

lemma cell_in_buffer:
  assumes "term_fits s" "r < unat (total_rows s)" "c < unat (total_columns s)"
  shows "r * unat (total_columns s) + c < length (terminal_buffer s)"
proof -
  have "Suc r * unat (total_columns s) \<le> unat (total_rows s) * unat (total_columns s)"
    using assms(2) by (intro mult_le_mono) simp_all
  then show ?thesis using assms by (simp add: term_fits_def)
qed

lemma cell_index_inj:
  assumes "c < w" "c' < (w :: nat)"
  shows "r * w + c = r' * w + c' \<longleftrightarrow> r = r' \<and> c = c'"
proof
  assume e: "r * w + c = r' * w + c'"
  have "(r * w + c) div w = r" "(r' * w + c') div w = r'" using assms by simp_all
  then show "r = r' \<and> c = c'" using e by auto
qed simp

lemma block_iff: "j < 8 \<Longrightarrow> c * 8 \<le> c' * 8 + j \<and> c' * 8 + j < c * 8 + 8 \<longleftrightarrow> c = c'" for c c' j :: nat
  by auto

lemma pixel_bounds: "c < w \<Longrightarrow> w * 8 \<le> n \<Longrightarrow> j < 8 \<Longrightarrow> c * 8 + j < n" for c w n j :: nat
  by auto

lemma draw_cell_same: "same_text s (draw_cell s cl x y)"
  by (simp add: draw_cell_def fb_put_char_same)

lemma screen_small:
  assumes "screen_ok s fb" "r < unat (total_rows s)" "c < unat (total_columns s)"
  shows "c * 8 + 8 \<le> 2 ^ 32" "r * 8 + 8 \<le> 2 ^ 32"
proof -
  have "unat (total_rows s) < 65536" "unat (total_columns s) < 65536"
    using unsigned_less[of "total_rows s", where ?'a = nat] unsigned_less[of "total_columns s", where ?'a = nat] by simp_all
  then show "c * 8 + 8 \<le> 2 ^ 32" "r * 8 + 8 \<le> 2 ^ 32" using assms(2,3) by simp_all
qed

lemma draw_cell_shows:
  assumes "screen_ok s fb" "r < unat (total_rows s)" "c < unat (total_columns s)"
    "r' < unat (total_rows s)" "c' < unat (total_columns s)"
  shows "shows_cell (draw_cell s cl c r) fb r' c' cl' \<longleftrightarrow>
    (if r' = r \<and> c' = c then shows_cell (draw_cell s cl c r) fb r c cl' else shows_cell s fb r' c' cl')"
    and "shows_cell (draw_cell s cl c r) fb r c cl"
proof -
  have p: "c' * 8 + j < unat (fb_width fb)" "r' * 8 + i < unat (fb_height fb)" if "i < 8" "j < 8" for i j
    using assms that pixel_bounds by (auto simp: screen_ok_def)
  have q: "c * 8 + j < unat (fb_width fb)" "r * 8 + i < unat (fb_height fb)" if "i < 8" "j < 8" for i j
    using assms that pixel_bounds by (auto simp: screen_ok_def)
  have fb: "primary_fb s = Some fb" "fb_ok fb" using assms(1) by (simp_all add: screen_ok_def)
  note eff = fb_put_char_effect[OF fb screen_small[OF assms(1-3)]]
  have 1: "pixel (draw_cell s cl c r) fb (c' * 8 + j) (r' * 8 + i) = pixel s fb (c' * 8 + j) (r' * 8 + i)"
    if "\<not> (r' = r \<and> c' = c)" "i < 8" "j < 8" for i j
    using that eff[OF p[of i j]] block_iff[of j c c'] block_iff[of i r r'] by (auto simp: draw_cell_def)
  show "shows_cell (draw_cell s cl c r) fb r' c' cl' \<longleftrightarrow>
    (if r' = r \<and> c' = c then shows_cell (draw_cell s cl c r) fb r c cl' else shows_cell s fb r' c' cl')"
    using 1 by (auto simp: shows_cell_def)
  show "shows_cell (draw_cell s cl c r) fb r c cl"
    using eff[OF q] by (auto simp: shows_cell_def draw_cell_def)
qed

text \<open>Rendering draws every cell and changes no text.\<close>

lemma screen_ok_same: "same_text s t \<Longrightarrow> screen_ok t fb \<longleftrightarrow> screen_ok s fb"
  by (simp add: screen_ok_def same_text_fields)

lemma term_cell_at_same: "same_text s t \<Longrightarrow> term_cell_at t = term_cell_at s"
  by (intro ext) (simp add: term_cell_at_def same_text_fields)

definition drawn :: "'a console_state_scheme \<Rightarrow> limine_fb \<Rightarrow> 'a console_state_scheme \<Rightarrow> nat \<Rightarrow> nat \<Rightarrow> bool" where
  "drawn s fb t y x \<longleftrightarrow> same_text s t \<and> (screen_ok s fb \<longrightarrow>
     (\<forall>r < unat (total_rows s). \<forall>c < unat (total_columns s). r < y \<or> r = y \<and> c < x \<longrightarrow> shows_cell t fb r c (term_cell_at s r c)))"

lemma render_cell_drawn:
  assumes "term_fits s" "y < unat (total_rows s)" "x < unat (total_columns s)" "drawn s fb t y x"
  shows "\<exists>t'. render_cell y t x = Some t' \<and> drawn s fb t' y (Suc x)"
proof -
  let ?t = "draw_cell t (term_cell_at s y x) x y"
  have st: "same_text s t" using assms(4) by (simp add: drawn_def)
  then have f: "total_rows t = total_rows s" "total_columns t = total_columns s" "terminal_buffer t = terminal_buffer s"
    by (simp_all add: same_text_fields)
  have "render_cell y t x = Some ?t"
    using cell_in_buffer[OF assms(1-3)] by (simp add: render_cell_def cell_index_def f term_cell_at_def)
  moreover have "shows_cell ?t fb r c (term_cell_at s r c)"
    if "screen_ok s fb" "r < unat (total_rows s)" "c < unat (total_columns s)" "r < y \<or> r = y \<and> c < Suc x" for r c
    using that assms(2-4) draw_cell_shows(1)[of t fb y x r c "term_cell_at s y x" "term_cell_at s r c"]
      draw_cell_shows(2)[of t fb y x r c "term_cell_at s y x"] f screen_ok_same[OF st]
      less_Suc_eq by (auto simp: drawn_def)
  ultimately show ?thesis
    using same_text_trans[OF st draw_cell_same] by (auto simp: drawn_def)
qed

lemma terminal_render_all:
  assumes "term_fits s"
  shows "\<exists>t. terminal_render s = Some t \<and> drawn s fb t (unat (total_rows s)) 0"
  unfolding terminal_render_def
proof (rule fold_opt_upt)
  show "drawn s fb s 0 0" by (simp add: drawn_def)
  fix y t assume y: "y < unat (total_rows s)" and d: "drawn s fb t y 0"
  have "total_columns t = total_columns s" using d by (simp add: drawn_def same_text_fields)
  moreover have "\<exists>t'. fold_opt (render_cell y) t [0..<unat (total_columns s)] = Some t' \<and> drawn s fb t' y (unat (total_columns s))"
    using d by (intro fold_opt_upt render_cell_drawn assms y)
  ultimately show "\<exists>t'. fold_opt (render_cell y) t [0..<unat (total_columns t)] = Some t' \<and> drawn s fb t' (Suc y) 0"
    by (auto simp: drawn_def less_Suc_eq)
qed

lemma terminal_render_correct:
  assumes "term_fits s"
  shows "\<exists>t. terminal_render s = Some t \<and> same_text s t \<and> (\<forall>fb. screen_ok s fb \<longrightarrow> shows_text t fb)"
proof -
  obtain t where t: "terminal_render s = Some t" "same_text s t" using terminal_render_all[OF assms, of undefined] by (auto simp: drawn_def)
  have "shows_text t fb" if "screen_ok s fb" for fb
  proof -
    have "drawn s fb t (unat (total_rows s)) 0" using terminal_render_all[OF assms, of fb] t(1) by auto
    then show ?thesis using that t(2)
      by (simp add: drawn_def shows_text_def same_text_fields term_cell_at_same)
  qed
  then show ?thesis using t by blast
qed

section \<open>The abstract screen\<close>

text \<open>The screen as its rows of cells and the position of the cursor.\<close>

type_synonym screen = "term_cell list list \<times> nat \<times> nat"

fun screen_newline :: "screen \<Rightarrow> screen" where
  "screen_newline (v, r, c) =
     (if Suc r < length v then (v, Suc r, 0)
      else (tl v @ [map (\<lambda>cl. cl\<lparr>cell_ch := 0x20\<rparr>) (last v)], length v - 1, 0))"

fun screen_put :: "screen \<Rightarrow> term_cell \<Rightarrow> screen" where
  "screen_put (v, r, c) cl =
     (let w = length (hd v) in
      if cell_ch cl = 0x0A then screen_newline (v, r, c)
      else if cell_ch cl = 0x09 then
        (let c' = Suc (c div 8) * 8 in if c' < w then (v, r, c') else screen_newline (v, r, c))
      else
        (let v' = v[r := (v ! r)[c := cl]] in
         if Suc c < w then (v', r, Suc c) else screen_newline (v', r, c)))"

definition term_view :: "'a console_state_scheme \<Rightarrow> term_cell list list" where
  "term_view s = map (\<lambda>r. map (term_cell_at s r) [0..<unat (total_columns s)]) [0..<unat (total_rows s)]"

definition term_abs :: "'a console_state_scheme \<Rightarrow> screen" where
  "term_abs s = (term_view s, unat (current_row s), unat (current_column s))"

lemma term_view_length [simp]: "length (term_view s) = unat (total_rows s)"
  by (simp add: term_view_def)

lemma term_view_nth: "r < unat (total_rows s) \<Longrightarrow> term_view s ! r = map (term_cell_at s r) [0..<unat (total_columns s)]"
  by (simp add: term_view_def)

lemma term_view_width: "0 < unat (total_rows s) \<Longrightarrow> length (hd (term_view s)) = unat (total_columns s)"
  by (simp add: term_view_def upt_conv_Cons)

lemma term_view_eqI:
  assumes "length v = unat (total_rows s)"
    and "\<And>r. r < unat (total_rows s) \<Longrightarrow> length (v ! r) = unat (total_columns s)"
    and "\<And>r c. r < unat (total_rows s) \<Longrightarrow> c < unat (total_columns s) \<Longrightarrow> term_cell_at s r c = v ! r ! c"
  shows "term_view s = v"
  using assms by (intro nth_equalityI) (simp_all add: term_view_nth)

definition keeps :: "'a console_state_scheme \<Rightarrow> 'a console_state_scheme \<Rightarrow> bool" where
  "keeps s t \<longleftrightarrow> primary_fb t = primary_fb s \<and> total_rows t = total_rows s \<and> total_columns t = total_columns s
     \<and> terminal_fg_color t = terminal_fg_color s \<and> terminal_bg_color t = terminal_bg_color s"

lemma keeps_screen_ok: "keeps s t \<Longrightarrow> screen_ok t fb \<longleftrightarrow> screen_ok s fb"
  by (simp add: keeps_def screen_ok_def)

lemma keeps_trans [trans]: "keeps s t \<Longrightarrow> keeps t u \<Longrightarrow> keeps s u"
  by (simp add: keeps_def)

lemma same_text_keeps: "same_text s t \<Longrightarrow> keeps s t"
  by (simp add: keeps_def same_text_fields)

section \<open>Filling and scrolling\<close>

lemma fill_loop:
  "n + k \<le> length (terminal_buffer s) \<Longrightarrow>
    fold_opt (\<lambda>s i. set_cell s (n + i) (g (terminal_buffer s ! (n + i)))) s [0..<k] =
      Some (s\<lparr>terminal_buffer := take n (terminal_buffer s) @ map g (take k (drop n (terminal_buffer s))) @ drop (n + k) (terminal_buffer s)\<rparr>)"
proof (induction k)
  case (Suc k)
  let ?b = "terminal_buffer s"
  let ?b' = "take n ?b @ map g (take k (drop n ?b)) @ drop (n + k) ?b"
  have lt: "n + k < length ?b" using Suc.prems by simp
  then have front: "length (take n ?b @ map g (take k (drop n ?b))) = n + k" by simp
  have "drop (n + k) ?b = ?b ! (n + k) # drop (Suc (n + k)) ?b" using lt by (simp add: Cons_nth_drop_Suc)
  then have split: "?b' = (take n ?b @ map g (take k (drop n ?b))) @ ?b ! (n + k) # drop (Suc (n + k)) ?b" by simp
  then have nth: "?b' ! (n + k) = ?b ! (n + k)" using front by (metis nth_append_length)
  have "take (Suc k) (drop n ?b) = take k (drop n ?b) @ [?b ! (n + k)]" using lt by (simp add: take_Suc_conv_app_nth)
  moreover have "?b'[n + k := g (?b ! (n + k))] = (take n ?b @ map g (take k (drop n ?b))) @ g (?b ! (n + k)) # drop (Suc (n + k)) ?b"
    using split front by (metis list_update_length)
  ultimately have "?b'[n + k := g (?b ! (n + k))] = take n ?b @ map g (take (Suc k) (drop n ?b)) @ drop (n + Suc k) ?b"
    by simp
  then show ?case using Suc nth by (simp add: fold_opt_append set_cell_def)
qed simp

lemma fill_parts:
  assumes "terminal_buffer t = b" "n + k \<le> length b" "take n b = x" "drop n b = y" "drop (n + k) b = z"
  shows "fold_opt (\<lambda>s i. set_cell s (n + i) (g (terminal_buffer s ! (n + i)))) t [0..<k] =
    Some (t\<lparr>terminal_buffer := x @ map g (take k y) @ z\<rparr>)"
  using fill_loop[of n k t g] assms by simp

definition scrolled :: "'a console_state_scheme \<Rightarrow> 'a console_state_scheme" where
  "scrolled s =
     (let w = unat (total_columns s); n = (unat (total_rows s) - 1) * w; b = terminal_buffer s
      in s\<lparr>terminal_buffer := take n (drop w b) @ map (\<lambda>cl. cl\<lparr>cell_ch := 0x20\<rparr>) (take w (drop n b)) @ drop (n + w) b,
           current_row := total_rows s - 1\<rparr>)"

lemma scroll_bounds:
  assumes "term_fits s"
  shows "unat (total_columns s) + (unat (total_rows s) - 1) * unat (total_columns s) \<le> length (terminal_buffer s)"
    and "0 < unat (total_rows s)"
proof -
  show pos: "0 < unat (total_rows s)" using assms by (simp add: term_fits_def word_less_nat_alt)
  then have "unat (total_columns s) + (unat (total_rows s) - 1) * unat (total_columns s) = unat (total_rows s) * unat (total_columns s)"
    by (cases "unat (total_rows s)") simp_all
  then show "unat (total_columns s) + (unat (total_rows s) - 1) * unat (total_columns s) \<le> length (terminal_buffer s)"
    using assms by (simp add: term_fits_def)
qed

lemma terminal_scroll_eq:
  assumes "term_fits s"
  shows "terminal_scroll s = Some (scrolled s)"
proof -
  let ?w = "unat (total_columns s)" let ?n = "(unat (total_rows s) - 1) * ?w"
  note len = scroll_bounds(1)[OF assms] and pos = scroll_bounds(2)[OF assms]
  let ?b = "take ?n (drop ?w (terminal_buffer s)) @ drop ?n (terminal_buffer s)"
  have front: "length (take ?n (drop ?w (terminal_buffer s))) = ?n" using len by simp
  have parts: "take ?n ?b = take ?n (drop ?w (terminal_buffer s))" "drop ?n ?b = drop ?n (terminal_buffer s)"
    "drop (?n + ?w) ?b = drop (?n + ?w) (terminal_buffer s)"
    using front by (simp_all only: take_append drop_append drop_drop) (simp_all add: add.commute)
  have new: "terminal_buffer (s\<lparr>terminal_buffer := b\<rparr>) = b" for b by simp
  have "?n + ?w \<le> length ?b" using front len by (simp only: length_append) simp
  note fill = fill_parts[where g = "\<lambda>cl. cl\<lparr>cell_ch := 0x20\<rparr>" and t = "s\<lparr>terminal_buffer := ?b\<rparr>", OF new this parts]
  have "\<not> (unat (total_rows s) = 0 \<and> ?w \<noteq> 0 \<or> ?w + ?n > length (terminal_buffer s))" using pos len by simp
  then show ?thesis
    unfolding terminal_scroll_def scrolled_def Let_def
    by (simp only: fill if_False bind.bind_lunit) simp
qed

lemma scrolled_cell:
  assumes "term_fits s" "r < unat (total_rows s)" "c < unat (total_columns s)"
  shows "term_cell_at (scrolled s) r c =
    (if Suc r < unat (total_rows s) then term_cell_at s (Suc r) c else (term_cell_at s r c)\<lparr>cell_ch := 0x20\<rparr>)"
proof -
  let ?w = "unat (total_columns s)" let ?n = "(unat (total_rows s) - 1) * ?w"
  let ?b = "terminal_buffer s"
  note len = scroll_bounds(1)[OF assms(1)]
  have front: "length (take ?n (drop ?w ?b)) = ?n" using len by simp
  have buf: "terminal_buffer (scrolled s) = take ?n (drop ?w ?b) @ map (\<lambda>cl. cl\<lparr>cell_ch := 0x20\<rparr>) (take ?w (drop ?n ?b)) @ drop (?n + ?w) ?b"
    and cols: "total_columns (scrolled s) = total_columns s" by (simp_all add: scrolled_def Let_def)
  show ?thesis
  proof (cases "Suc r < unat (total_rows s)")
    case True
    then have "Suc r * ?w \<le> ?n" by (intro mult_le_mono) simp_all
    then have lt: "r * ?w + c < ?n" using assms(3) by simp
    then have "terminal_buffer (scrolled s) ! (r * ?w + c) = ?b ! (?w + (r * ?w + c))"
      using len front by (simp only: buf nth_append) simp
    then show ?thesis using True by (simp add: term_cell_at_def cols add.assoc)
  next
    case False
    then have "r = unat (total_rows s) - 1" using assms(2) by simp
    then have i: "r * ?w + c = ?n + c" by simp
    have "terminal_buffer (scrolled s) ! (?n + c) = (?b ! (?n + c))\<lparr>cell_ch := 0x20\<rparr>"
      using len front assms(3) by (simp only: buf nth_append) simp
    then show ?thesis using False by (simp only: term_cell_at_def cols i) simp
  qed
qed

lemma scrolled_fits: "term_fits s \<Longrightarrow> term_fits (scrolled s)"
proof -
  assume fits: "term_fits s"
  have "length (terminal_buffer (scrolled s)) = length (terminal_buffer s)"
    using scroll_bounds(1)[OF fits] by (simp add: scrolled_def Let_def)
  then show ?thesis using fits by (simp add: term_fits_def) (simp add: scrolled_def Let_def)
qed

lemma scrolled_view:
  assumes "term_fits s"
  shows "term_view (scrolled s) = tl (term_view s) @ [map (\<lambda>cl. cl\<lparr>cell_ch := 0x20\<rparr>) (last (term_view s))]"
proof (rule term_view_eqI)
  have sz: "total_rows (scrolled s) = total_rows s" "total_columns (scrolled s) = total_columns s"
    by (simp_all add: scrolled_def Let_def)
  have pos: "0 < unat (total_rows s)" using assms by (simp add: term_fits_def word_less_nat_alt)
  then have ne: "term_view s \<noteq> []" by (metis term_view_length length_greater_0_conv)
  have last: "last (term_view s) = map (term_cell_at s (unat (total_rows s) - 1)) [0..<unat (total_columns s)]"
    using ne pos by (simp add: last_conv_nth term_view_nth)
  let ?v = "tl (term_view s) @ [map (\<lambda>cl. cl\<lparr>cell_ch := 0x20\<rparr>) (last (term_view s))]"
  have row: "?v ! r = (if Suc r < unat (total_rows s) then map (term_cell_at s (Suc r)) [0..<unat (total_columns s)]
      else map (\<lambda>c. (term_cell_at s r c)\<lparr>cell_ch := 0x20\<rparr>) [0..<unat (total_columns s)])"
    if "r < unat (total_rows s)" for r
  proof (cases "Suc r < unat (total_rows s)")
    case False
    then have "r = unat (total_rows s) - 1" using that by simp
    then show ?thesis using False by (simp add: nth_append last comp_def)
  next
    case True
    then have "r < unat (total_rows s) - 1" by simp
    then show ?thesis using True by (simp add: nth_append nth_tl term_view_nth)
  qed
  show "length ?v = unat (total_rows (scrolled s))" using pos by (simp add: sz)
  show "length (?v ! r) = unat (total_columns (scrolled s))" if "r < unat (total_rows (scrolled s))" for r
    using row[of r] that by (simp add: sz)
  show "term_cell_at (scrolled s) r c = ?v ! r ! c"
    if "r < unat (total_rows (scrolled s))" "c < unat (total_columns (scrolled s))" for r c
    using row[of r] that scrolled_cell[OF assms, of r c] by (simp add: sz)
qed

section \<open>The operations\<close>

text \<open>What an operation does: the new text is \<open>a\<close>, and a screen that showed the text still does.\<close>

definition moves_to :: "'a console_state_scheme \<Rightarrow> screen \<Rightarrow> 'a console_state_scheme \<Rightarrow> bool" where
  "moves_to s a t \<longleftrightarrow> term_ok t \<and> keeps s t \<and> term_abs t = a
     \<and> (\<forall>fb. screen_ok s fb \<and> shows_text s fb \<longrightarrow> shows_text t fb)"

lemma moves_to_trans: "moves_to s a t \<Longrightarrow> moves_to t b u \<Longrightarrow> moves_to s b u"
  using keeps_trans keeps_screen_ok unfolding moves_to_def by metis

lemma unat_Suc16: "(a :: u16) < b \<Longrightarrow> unat (a + 1) = Suc (unat a)"
  using unsigned_less[of b, where ?'a = nat] by (simp add: word_less_nat_alt unat_word_ariths(1))

lemma shows_text_update:
  "shows_text (s\<lparr>current_column := x, current_row := y\<rparr>) fb = shows_text s fb"
  "shows_text (s\<lparr>current_column := x\<rparr>) fb = shows_text s fb"
  by (simp_all add: shows_text_def shows_cell_def pixel_def term_cell_at_def)

lemma term_view_update:
  "term_view (s\<lparr>current_column := x, current_row := y\<rparr>) = term_view s"
  "term_view (s\<lparr>current_column := x\<rparr>) = term_view s"
  by (simp_all add: term_view_def term_cell_at_def fun_eq_iff)

lemma term_fits_update:
  "term_fits (s\<lparr>current_column := x, current_row := y\<rparr>) = term_fits s"
  "term_fits (s\<lparr>current_column := x\<rparr>) = term_fits s"
  by (simp_all add: term_fits_def)

lemma screen_ok_update:
  "screen_ok (s\<lparr>current_column := x, current_row := y\<rparr>) fb = screen_ok s fb"
  "screen_ok (s\<lparr>current_column := x\<rparr>) fb = screen_ok s fb"
  by (simp_all add: screen_ok_def)

lemmas cursor_simps = shows_text_update term_view_update term_fits_update screen_ok_update

lemma term_view_same: "same_text s t \<Longrightarrow> term_view t = term_view s"
  by (simp add: term_view_def term_cell_at_same same_text_fields)

lemma term_fits_same: "same_text s t \<Longrightarrow> term_fits t = term_fits s"
  by (simp add: term_fits_def same_text_fields)

lemma terminal_newline_correct:
  assumes "term_fits s" "current_row s < total_rows s"
  shows "\<exists>t. terminal_newline s = Some t \<and> moves_to s (screen_newline (term_abs s)) t"
proof -
  let ?s = "s\<lparr>current_column := 0, current_row := current_row s + 1\<rparr>"
  have row: "unat (current_row s + 1) = Suc (unat (current_row s))" using assms(2) by (rule unat_Suc16)
  have pos: "0 < unat (total_rows s)" "0 < total_columns s" "0 < total_rows s"
    using assms(1) by (simp_all add: term_fits_def word_less_nat_alt)
  show ?thesis
  proof (cases "total_rows s \<le> current_row s + 1")
    case False
    then have "terminal_newline s = Some ?s" by (simp add: terminal_newline_def Let_def)
    moreover have "moves_to s (screen_newline (term_abs s)) ?s"
      using False row pos assms(1) by (simp add: moves_to_def term_ok_def keeps_def term_abs_def cursor_simps word_less_nat_alt word_le_nat_alt)
    ultimately show ?thesis by blast
  next
    case True
    have fits: "term_fits (scrolled ?s)" using assms(1) by (intro scrolled_fits) (simp add: cursor_simps)
    obtain t where t: "terminal_render (scrolled ?s) = Some t" "same_text (scrolled ?s) t"
      "\<And>fb. screen_ok (scrolled ?s) fb \<Longrightarrow> shows_text t fb"
      using terminal_render_correct[OF fits] by blast
    have "terminal_newline s = Some t"
      using True t(1) terminal_scroll_eq[of ?s] assms(1) by (simp add: terminal_newline_def Let_def cursor_simps)
    moreover have "term_view t = tl (term_view s) @ [map (\<lambda>cl. cl\<lparr>cell_ch := 0x20\<rparr>) (last (term_view s))]"
      using scrolled_view[of ?s] assms(1) term_view_same[OF t(2)] by (simp add: cursor_simps)
    moreover have "screen_ok (scrolled ?s) fb = screen_ok s fb" for fb
      by (simp add: screen_ok_def scrolled_def Let_def)
    moreover have "unat (total_rows s - 1) = unat (total_rows s) - 1" using pos(3) by (simp add: unat_minus_one)
    ultimately show ?thesis
      using t(2,3) fits True row pos term_fits_same[OF t(2)] same_text_fields[OF t(2)]
      by (simp add: moves_to_def term_ok_def keeps_def term_abs_def word_less_nat_alt word_le_nat_alt) (simp add: scrolled_def Let_def)
  qed
qed

lemma unat_tab:
  assumes "c < w" "unat w \<le> 32400"
  shows "unat (c + (TAB_WIDTH - c mod TAB_WIDTH) :: u16) = Suc (unat c div 8) * 8"
proof -
  have c: "unat c < 32400" using assms by (simp add: word_less_nat_alt)
  have "unat (8 - c mod 8) = 8 - unat c mod 8"
    by (subst unat_sub) (simp_all add: word_le_nat_alt unat_mod less_imp_le)
  then have "unat (c + (8 - c mod 8)) = unat c + (8 - unat c mod 8)"
    using c by (simp add: unat_word_ariths(1))
  also have "\<dots> = Suc (unat c div 8) * 8"
by presburger
  finally show ?thesis by simp
qed


lemma cols_bound:
  assumes "term_fits s"
  shows "unat (total_columns s) \<le> 32400"
proof -
  have "unat (total_columns s) \<le> unat (total_rows s) * unat (total_columns s)"
    using scroll_bounds(2)[OF assms] by simp
  also have "\<dots> \<le> 32400" using assms by (simp add: term_fits_def)
  finally show ?thesis .
qed

lemma terminal_putentryat_correct:
  assumes "term_ok s"
  defines "x \<equiv> unat (current_column s)" and "y \<equiv> unat (current_row s)"
  shows "\<exists>t. terminal_putentryat s c x y = Some t
    \<and> moves_to s ((term_view s)[y := (term_view s ! y)[x := c]], y, x) t \<and> current_row t = current_row s \<and> current_column t = current_column s"
proof -
  have fits: "term_fits s" and x: "x < unat (total_columns s)" and y: "y < unat (total_rows s)"
    using assms(1) by (simp_all add: term_ok_def x_def y_def word_less_nat_alt)
  let ?i = "y * unat (total_columns s) + x"
  let ?s = "s\<lparr>terminal_buffer := (terminal_buffer s)[?i := c]\<rparr>"
  let ?t = "draw_cell ?s c x y"
  note inb = cell_in_buffer[OF fits y x]
  have t: "terminal_putentryat s c x y = Some ?t"
    using x y inb by (simp add: terminal_putentryat_def set_cell_def cell_index_def)
  have same: "same_text ?s ?t" by (rule draw_cell_same)
  have cell: "term_cell_at ?t r k = (if r = y \<and> k = x then c else term_cell_at s r k)"
    if "r < unat (total_rows s)" "k < unat (total_columns s)" for r k
    using that x inb cell_index_inj[of x "unat (total_columns s)" k y r]
    by (auto simp: term_cell_at_same[OF same] term_cell_at_def nth_list_update)
  have view: "term_view ?t = (term_view s)[y := (term_view s ! y)[x := c]]"
    using cell x y same_text_fields[OF same]
    by (intro term_view_eqI) (auto simp: term_view_nth nth_list_update)
  have "shows_text ?t fb" if "screen_ok s fb" "shows_text s fb" for fb
  proof -
    have ok: "screen_ok ?s fb" using that(1) by (simp add: screen_ok_def)
    have "shows_cell ?t fb r k (term_cell_at ?t r k)" if "r < unat (total_rows s)" "k < unat (total_columns s)" for r k
    proof -
      have "shows_cell ?s fb r k (term_cell_at s r k)" using \<open>shows_text s fb\<close> that
        by (simp add: shows_text_def shows_cell_def pixel_def)
      then show ?thesis
        using draw_cell_shows(1)[OF ok, of y x r k c "term_cell_at ?t r k"] draw_cell_shows(2)[OF ok, of y x r k c] x y that cell[OF that]
        by auto
    qed
    then show ?thesis using same_text_fields[OF same] by (simp add: shows_text_def)
  qed
  moreover have "term_fits ?t" using fits term_fits_same[OF same] by (simp add: term_fits_def)
  ultimately have "moves_to s ((term_view s)[y := (term_view s ! y)[x := c]], y, x) ?t"
    using view same_text_fields[OF same] assms(1)
    by (simp add: moves_to_def term_ok_def keeps_def term_abs_def x_def y_def)
  then show ?thesis using t same_text_fields[OF same] by simp
qed

text \<open>After the cursor has moved to the right: a new line if it left the screen.\<close>

lemma advance_correct:
  assumes "term_fits s" "current_row s < total_rows s" "unat col = n"
  shows "\<exists>t. (if col \<ge> total_columns s then terminal_newline (s\<lparr>current_column := col\<rparr>) else Some (s\<lparr>current_column := col\<rparr>)) = Some t
    \<and> moves_to s (if n < unat (total_columns s) then (term_view s, unat (current_row s), n)
                  else screen_newline (term_view s, unat (current_row s), k)) t"
proof (cases "col \<ge> total_columns s")
  case True
  let ?s = "s\<lparr>current_column := col\<rparr>"
  obtain t where t: "terminal_newline ?s = Some t" "moves_to ?s (screen_newline (term_abs ?s)) t"
    using terminal_newline_correct[of ?s] assms by (auto simp: cursor_simps)
  have "screen_newline (term_abs ?s) = screen_newline (term_view s, unat (current_row s), k)"
    by (simp add: term_abs_def cursor_simps)
  then have "moves_to s (screen_newline (term_view s, unat (current_row s), k)) t"
    using t(2) by (simp add: moves_to_def keeps_def cursor_simps)
  then show ?thesis using True t(1) assms(3) by (simp add: word_le_nat_alt)
next
  case False
  then have "moves_to s (term_view s, unat (current_row s), n) (s\<lparr>current_column := col\<rparr>)"
    using assms by (simp add: moves_to_def term_ok_def keeps_def term_abs_def cursor_simps word_less_nat_alt word_le_nat_alt)
  then show ?thesis using False assms(3) by (simp add: word_le_nat_alt)
qed

lemma terminal_putchar_correct:
  assumes "term_ok s"
  shows "\<exists>t. terminal_putchar s c = Some t \<and> moves_to s (screen_put (term_abs s) c) t"
proof -
  have fits: "term_fits s" and row: "current_row s < total_rows s" and col: "current_column s < total_columns s"
    using assms by (simp_all add: term_ok_def)
  have w: "length (hd (term_view s)) = unat (total_columns s)" by (rule term_view_width[OF scroll_bounds(2)[OF fits]])
  consider "cell_ch c = 0x0A" | "cell_ch c = 0x09" | "cell_ch c \<noteq> 0x0A" "cell_ch c \<noteq> 0x09" by blast
  then show ?thesis
  proof cases
    case 1
    then show ?thesis using terminal_newline_correct[OF fits row] by (simp add: terminal_putchar_def term_abs_def Let_def)
  next
    case 2
    then show ?thesis using advance_correct[OF fits row unat_tab[OF col cols_bound[OF fits]], of "unat (current_column s)"]
      by (simp add: terminal_putchar_def term_abs_def Let_def w del: screen_newline.simps mult_Suc)
  next
    case 3
    let ?v = "(term_view s)[unat (current_row s) := (term_view s ! unat (current_row s))[unat (current_column s) := c]]"
    obtain t where t: "terminal_putentryat s c (unat (current_column s)) (unat (current_row s)) = Some t"
        "moves_to s (?v, unat (current_row s), unat (current_column s)) t"
        "current_row t = current_row s" "current_column t = current_column s"
      using terminal_putentryat_correct[OF assms, of c] by blast
    have ok: "term_fits t" "term_view t = ?v" "total_columns t = total_columns s" "total_rows t = total_rows s"
      using t(2) by (simp_all add: moves_to_def term_ok_def term_abs_def keeps_def)
    have "current_row t < total_rows t" using row ok(4) t(3) by simp
    from advance_correct[OF ok(1) this unat_Suc16[OF col], of "unat (current_column s)"]
    obtain u where u: "(if current_column s + 1 \<ge> total_columns s then terminal_newline (t\<lparr>current_column := current_column s + 1\<rparr>)
        else Some (t\<lparr>current_column := current_column s + 1\<rparr>)) = Some u"
        "moves_to t (if Suc (unat (current_column s)) < unat (total_columns s) then (?v, unat (current_row s), Suc (unat (current_column s)))
           else screen_newline (?v, unat (current_row s), unat (current_column s))) u"
      unfolding ok(2,3) t(3) by blast
    have "terminal_putchar s c = Some u" using 3 t(1,4) u(1) ok(3) by (simp add: terminal_putchar_def Let_def split: if_splits)
    moreover have "moves_to s (screen_put (term_abs s) c) u"
      using 3 moves_to_trans[OF t(2) u(2)] by (simp add: term_abs_def Let_def w)
    ultimately show ?thesis by blast
  qed
qed

definition text_cell :: "u32 \<Rightarrow> u32 \<Rightarrow> u8 \<Rightarrow> term_cell" where
  "text_cell fg bg b = \<lparr>cell_ch = b, cell_fg = fg, cell_bg = bg\<rparr>"

lemma moves_to_refl: "term_ok s \<Longrightarrow> moves_to s (term_abs s) s"
  by (simp add: moves_to_def keeps_def)

lemma terminal_write_bytes_moves:
  "term_ok s \<Longrightarrow> \<exists>t. terminal_write_bytes s bs = Some t
     \<and> moves_to s (foldl (\<lambda>a b. screen_put a (text_cell (terminal_fg_color s) (terminal_bg_color s) b)) (term_abs s) bs) t"
proof (induction bs arbitrary: s)
  case Nil
  then show ?case by (simp add: terminal_write_bytes_def moves_to_refl)
next
  case (Cons b bs)
  let ?c = "text_cell (terminal_fg_color s) (terminal_bg_color s) b"
  obtain t where t: "terminal_putchar s ?c = Some t" "moves_to s (screen_put (term_abs s) ?c) t"
    using terminal_putchar_correct[OF Cons.prems] by blast
  then have f: "term_ok t" "terminal_fg_color t = terminal_fg_color s" "terminal_bg_color t = terminal_bg_color s"
    "term_abs t = screen_put (term_abs s) ?c"
    by (simp_all add: moves_to_def keeps_def)
  obtain u where "terminal_write_bytes t bs = Some u"
    "moves_to t (foldl (\<lambda>a b. screen_put a (text_cell (terminal_fg_color t) (terminal_bg_color t) b)) (term_abs t) bs) u"
    using Cons.IH[OF f(1)] by blast
  moreover have "terminal_write_bytes s (b # bs) = terminal_write_bytes t bs"
    using t(1) by (simp add: terminal_write_bytes_def text_cell_def)
  ultimately show ?case using moves_to_trans[OF t(2)] f by auto
qed

text \<open>Filling the whole screen with one cell, then rendering.\<close>

definition blank_screen :: "'a console_state_scheme \<Rightarrow> term_cell \<Rightarrow> screen" where
  "blank_screen s c = (replicate (unat (total_rows s)) (replicate (unat (total_columns s)) c), 0, 0)"

lemma fill_screen:
  assumes "term_fits s"
  defines "n \<equiv> unat (total_rows s) * unat (total_columns s)"
  shows "fold_opt (\<lambda>s i. set_cell s i c) s [0..<n] = Some (s\<lparr>terminal_buffer := replicate n c @ drop n (terminal_buffer s)\<rparr>)"
  using fill_loop[of 0 n s "\<lambda>_. c"] assms by (simp add: term_fits_def map_replicate_const)

lemma filled_render:
  fixes s :: "'a console_state_scheme" and c :: term_cell
  assumes "term_fits s"
  defines "n \<equiv> unat (total_rows s) * unat (total_columns s)"
  defines "s' \<equiv> s\<lparr>terminal_buffer := replicate n c @ drop n (terminal_buffer s), current_row := 0, current_column := 0\<rparr>"
  shows "\<exists>t. terminal_render s' = Some t \<and> term_ok t \<and> keeps s t \<and> term_abs t = blank_screen s c
    \<and> (\<forall>fb. screen_ok s fb \<longrightarrow> shows_text t fb)"
proof -
  have f: "term_fits s'" using assms(1) by (simp add: s'_def n_def term_fits_def)
  have "r * unat (total_columns s) + k < n" if "r < unat (total_rows s)" "k < unat (total_columns s)" for r k
  proof -
    have "Suc r * unat (total_columns s) \<le> n" unfolding n_def using that(1) by (intro mult_le_mono1) simp
    then show ?thesis using that(2) by simp
  qed
  then have "term_view s' = replicate (unat (total_rows s)) (replicate (unat (total_columns s)) c)"
    by (intro term_view_eqI) (auto simp: s'_def term_cell_at_def nth_append)
  moreover obtain t where t: "terminal_render s' = Some t" "same_text s' t" "\<And>fb. screen_ok s' fb \<Longrightarrow> shows_text t fb"
    using terminal_render_correct[OF f] by blast
  ultimately have "term_abs t = blank_screen s c"
    using same_text_fields[OF t(2)] term_view_same[OF t(2)] by (simp add: term_abs_def blank_screen_def) (simp add: s'_def)
  moreover have "term_ok t" using f same_text_fields[OF t(2)] term_fits_same[OF t(2)]
    by (simp add: term_ok_def) (simp add: s'_def term_fits_def)
  moreover have "keeps s t" using same_text_keeps[OF t(2)] by (simp add: keeps_def s'_def)
  ultimately show ?thesis using t(1,3) by (auto simp: screen_ok_def s'_def)
qed

lemma terminal_clear_moves:
  assumes "term_fits s"
  shows "\<exists>t. terminal_clear s = Some t \<and> term_ok t \<and> keeps s t \<and> term_abs t = blank_screen s (text_cell 0xFFFFFF 0x35 0x20)
    \<and> (\<forall>fb. screen_ok s fb \<longrightarrow> shows_text t fb)"
  using filled_render[OF assms, of "text_cell 0xFFFFFF 0x35 0x20"] fill_screen[OF assms, of "text_cell 0xFFFFFF 0x35 0x20"]
  by (simp add: terminal_clear_def Let_def text_cell_def)

text \<open>Initialisation on a frame buffer between one character and 1920 by 1080 pixels.\<close>

definition fb_supported :: "limine_fb \<Rightarrow> bool" where
  "fb_supported fb \<longleftrightarrow> 8 \<le> fb_width fb \<and> fb_width fb \<le> 1920 \<and> 8 \<le> fb_height fb \<and> fb_height fb \<le> 1080
     \<and> unat (fb_width fb) * 4 \<le> unat (fb_pitch fb) \<and> unat (fb_height fb) * unat (fb_pitch fb) < 2 ^ 64"

lemma dims_unat:
  assumes "8 \<le> (a :: u64)" "a \<le> 1920"
  shows "unat (ucast (a div 8) :: u16) = unat a div 8" "0 < (ucast (a div 8) :: u16)"
proof -
  have b: "8 \<le> unat a" "unat a \<le> 1920" using assms by (simp_all add: word_le_nat_alt)
  have "unat (a div 8) = unat a div 8" by (simp add: unat_div)
  then show u: "unat (ucast (a div 8) :: u16) = unat a div 8"
    using b by (simp add: unsigned_ucast_eq take_bit_nat_eq_self)
  show "0 < (ucast (a div 8) :: u16)" using u b by (simp add: word_less_nat_alt)
qed

lemma terminal_initialize_moves:
  assumes "primary_fb s = Some fb" "fb_supported fb" "length (terminal_buffer s) = 240 * 135"
  shows "\<exists>t. terminal_initialize s fg bg = Some t \<and> term_ok t \<and> screen_ok t fb \<and> shows_text t fb
    \<and> term_abs t = blank_screen t (text_cell fg bg 0x20)
    \<and> unat (total_columns t) = unat (fb_width fb) div 8 \<and> unat (total_rows t) = unat (fb_height fb) div 8
    \<and> terminal_fg_color t = fg \<and> terminal_bg_color t = bg"
proof -
  let ?s = "s\<lparr>total_columns := ucast (fb_width fb div 8), total_rows := ucast (fb_height fb div 8),
    current_row := 0, current_column := 0, terminal_fg_color := fg, terminal_bg_color := bg\<rparr>"
  have w: "8 \<le> fb_width fb" "fb_width fb \<le> 1920" and h: "8 \<le> fb_height fb" "fb_height fb \<le> 1920"
    and hh: "unat (fb_height fb) \<le> 1080" and ww: "unat (fb_width fb) \<le> 1920"
    using assms(2) by (simp_all add: fb_supported_def word_le_nat_alt)
  note dw = dims_unat[OF w] and dh = dims_unat[OF h]
  have "(unat (fb_height fb) div 8) * (unat (fb_width fb) div 8) \<le> 135 * 240"
    using hh ww by (intro mult_le_mono) simp_all
  then have fits: "term_fits ?s" using assms(3) dw dh by (simp add: term_fits_def)
  have "unat (fb_width fb) \<le> unat (fb_pitch fb) div 4" using assms(2) div_le_mono[of "unat (fb_width fb) * 4" _ 4] by (simp add: fb_supported_def)
  then have ok: "screen_ok ?s fb" using assms(1,2) dw dh ww hh by (simp add: screen_ok_def fb_ok_def fb_supported_def)
  have home: "?s\<lparr>terminal_buffer := b, current_row := 0, current_column := 0\<rparr> = ?s\<lparr>terminal_buffer := b\<rparr>" for b by (cases s) simp
  obtain t where t: "terminal_initialize s fg bg = Some t" "term_ok t" "keeps ?s t" "term_abs t = blank_screen ?s (text_cell fg bg 0x20)"
    "shows_text t fb"
    using filled_render[OF fits, of "text_cell fg bg 0x20", unfolded home] fill_screen[OF fits, of "text_cell fg bg 0x20"] assms(1) ok
    by (auto simp: terminal_initialize_def get_screen_dimensions_def Let_def text_cell_def)
  moreover have "screen_ok t fb" using ok keeps_screen_ok[OF t(3)] by simp
  moreover have "blank_screen ?s c = blank_screen t c" for c using t(3) by (simp add: keeps_def blank_screen_def)
  ultimately show ?thesis using dw dh by (simp add: keeps_def)
qed

section \<open>Correctness\<close>

text \<open>C36: The terminal keeps its type invariant: as long as the cells of the screen fit in \<^verbatim>\<open>terminal_buffer\<close>
  and the cursor is on the screen, writing any bytes and clearing never leave the array, always
  return, and put the cursor back on the screen.\<close>

theorem terminal_operations_safe:
  assumes "term_ok s"
  shows "(\<exists>t. terminal_write m s a n = Some t \<and> term_ok t) \<and> (\<exists>t. terminal_newline s = Some t \<and> term_ok t)
    \<and> (\<exists>t. terminal_clear s = Some t \<and> term_ok t) \<and> term_ok (terminal_setcolor s fg bg)"
proof -
  have fits: "term_fits s" "current_row s < total_rows s" using assms by (simp_all add: term_ok_def)
  have "term_ok (terminal_setcolor s fg bg)"
    using assms by (simp add: term_ok_def term_fits_def terminal_setcolor_def)
  then show ?thesis
    using terminal_write_bytes_moves[OF assms, of "bytes_at m a n"] terminal_newline_correct[OF fits] terminal_clear_moves[OF fits(1)]
    by (auto simp: moves_to_def terminal_write_def)
qed

definition demo_console :: console_state where
  "demo_console = \<lparr>primary_fb = None, fb_pixels = (\<lambda>_. 0), total_rows = 2, total_columns = 3, current_row = 1,
     current_column = 2, terminal_fg_color = 7, terminal_bg_color = 0,
     terminal_buffer = replicate 32400 \<lparr>cell_ch = 0x41, cell_fg = 7, cell_bg = 0\<rparr>\<rparr>"

lemma demo_console_ok: "term_ok demo_console"
  by (simp add: term_ok_def term_fits_def demo_console_def)

theorem terminal_operations_safe_witness:
  "term_ok demo_console \<and> (\<exists>t. terminal_write (\<lambda>_. 0x42) demo_console 0 100 = Some t \<and> term_ok t)"
  using terminal_operations_safe[OF demo_console_ok, of "\<lambda>_. 0x42" 0 100 0 0] demo_console_ok by simp

text \<open>C25: Writing bytes refines the abstract screen of rows and a cursor: each byte is put at the cursor in
  the current colours, a newline or a full row moves to the next row, a tab moves to the next
  multiple of eight columns, and below the last row every row moves up by one and the last one is
  blanked.\<close>

theorem terminal_write_refines:
  assumes "term_ok s"
  shows "\<exists>t. terminal_write m s a n = Some t
    \<and> term_abs t = foldl (\<lambda>x b. screen_put x (text_cell (terminal_fg_color s) (terminal_bg_color s) b)) (term_abs s) (bytes_at m a n)"
  using terminal_write_bytes_moves[OF assms, of "bytes_at m a n"] by (auto simp: moves_to_def terminal_write_def)

lemma demo_console_abs: "term_abs demo_console = (replicate 2 (replicate 3 (text_cell 7 0 0x41)), 1, 2)"
proof -
  have "term_view demo_console = replicate 2 (replicate 3 (text_cell 7 0 0x41))"
    by (intro term_view_eqI) (simp_all add: term_cell_at_def demo_console_def text_cell_def)
  then show ?thesis by (simp add: term_abs_def) (simp add: demo_console_def)
qed

theorem terminal_write_refines_witness:
  "\<exists>t. terminal_write (\<lambda>_. 0x42) demo_console 0 1 = Some t \<and> term_abs t =
     ([[text_cell 7 0 0x41, text_cell 7 0 0x41, text_cell 7 0 0x42], replicate 3 (text_cell 7 0 0x20)], 1, 0)"
  using terminal_write_refines[OF demo_console_ok, of "\<lambda>_. 0x42" 0 1] unfolding demo_console_abs
  by (simp add: bytes_at_def Let_def numeral_eq_Suc) (simp add: text_cell_def demo_console_def)

text \<open>C37: The screen shows the text: initialising the terminal on a frame buffer of at most 1920 by 1080
  pixels returns with a blank screen, and from there on, whatever is written, every cell of the
  buffer is shown by its glyph in its colours in its 8 by 8 block of pixels.\<close>

theorem screen_shows_text:
  assumes "primary_fb s = Some fb" "fb_supported fb" "length (terminal_buffer s) = 240 * 135"
  shows "\<exists>t. terminal_initialize s fg bg = Some t \<and> term_abs t = blank_screen t (text_cell fg bg 0x20)
    \<and> shows_text t fb \<and> (\<exists>u. terminal_write m t a n = Some u \<and> shows_text u fb)"
proof -
  obtain t where t: "terminal_initialize s fg bg = Some t" "term_ok t" "screen_ok t fb" "shows_text t fb"
    "term_abs t = blank_screen t (text_cell fg bg 0x20)"
    using terminal_initialize_moves[OF assms] by blast
  then show ?thesis
    using terminal_write_bytes_moves[OF t(2), of "bytes_at m a n"] by (auto simp: moves_to_def terminal_write_def)
qed

definition demo_fb :: limine_fb where
  "demo_fb = \<lparr>fb_width = 1920, fb_height = 1080, fb_pitch = 7680\<rparr>"

theorem screen_shows_text_witness:
  "\<exists>t. terminal_initialize (demo_console\<lparr>primary_fb := Some demo_fb\<rparr>) 7 0 = Some t \<and> shows_text t demo_fb
    \<and> (\<exists>u. terminal_write (\<lambda>_. 0x42) t 0 100 = Some u \<and> shows_text u demo_fb)"
proof -
  have "fb_supported demo_fb" by (simp add: fb_supported_def demo_fb_def)
  then show ?thesis
    using screen_shows_text[of "demo_console\<lparr>primary_fb := Some demo_fb\<rparr>" demo_fb 7 0 "\<lambda>_. 0x42" 0 100]
    by (auto simp: demo_console_def)
qed

end
