(* ===== verification/Klogging.thy ===== *)
theory Klogging
  imports Console_Correct
begin

text \<open>
  Formatted kernel output (\<^verbatim>\<open>kernel/console/logging/klogging.c\<close>, \<^verbatim>\<open>bufferutils.h\<close>): \<^verbatim>\<open>kvsprintf\<close> formats into
  a buffer of 1024 bytes in memory, the four printing functions write the result to the terminal.
  The variadic arguments are a list of 64-bit argument slots (the result is \<open>None\<close> when the format
  asks for more arguments than there are); \<open>buf\<close> is the address of the output buffer and \<open>loc\<close> gives the
  addresses of the local arrays of the conversions, each with the size its declaration has. The
  lock \<^verbatim>\<open>kprint_lock\<close> serialises the output; the functions are what one call does. The second part
  proves \<^verbatim>\<open>kvsprintf\<close> equal to a reference formatter on lists of bytes.
\<close>

abbreviation KPRINTF_BUF_SIZE :: nat where "KPRINTF_BUF_SIZE \<equiv> 1024"
abbreviation EOVERFLOW :: int where "EOVERFLOW \<equiv> 75"
definition MAX_INT_DIGITS :: nat where "MAX_INT_DIGITS = 21"
definition MAX_HEX_DIGITS :: nat where "MAX_HEX_DIGITS = 17"

text \<open>The local arrays of \<^verbatim>\<open>kvsprintf\<close>, one per block that declares one: \<^verbatim>\<open>num_buf\<close> of \<^verbatim>\<open>%d\<close>, \<^verbatim>\<open>hex_str\<close> of
  \<^verbatim>\<open>%p\<close>, \<^verbatim>\<open>%x\<close> and \<^verbatim>\<open>%lx\<close>, \<^verbatim>\<open>ul_str\<close> of \<^verbatim>\<open>%lu\<close> and \<^verbatim>\<open>%u\<close>. The compiler may let them share stack space.\<close>

record local_arrays =
  num_buf :: u64
  hex_str_p :: u64
  hex_str_x :: u64
  ul_str_lu :: u64
  hex_str_lx :: u64
  ul_str_u :: u64

definition array_sizes :: "local_arrays \<Rightarrow> (u64 \<times> nat) list" where
  "array_sizes loc =
     [(num_buf loc, MAX_INT_DIGITS), (hex_str_p loc, MAX_HEX_DIGITS), (hex_str_x loc, MAX_HEX_DIGITS),
      (ul_str_lu loc, 32), (hex_str_lx loc, MAX_HEX_DIGITS), (ul_str_u loc, MAX_INT_DIGITS)]"

section \<open>Bounded writes\<close>

definition safe_write_ch :: "memory \<Rightarrow> u64 \<Rightarrow> nat \<Rightarrow> u8 \<Rightarrow> bool \<times> nat \<times> memory" where
  "safe_write_ch m buf len ch =
     (if len < KPRINTF_BUF_SIZE then (True, len + 1, store8 m (buf + of_nat len) ch) else (False, len, m))"

function safe_write_str :: "memory \<Rightarrow> u64 \<Rightarrow> nat \<Rightarrow> u64 \<Rightarrow> bool \<times> nat \<times> memory" where
  "safe_write_str m buf len s =
     (if load8 m s \<noteq> 0 \<and> len < KPRINTF_BUF_SIZE - 1
      then safe_write_str (store8 m (buf + of_nat len) (load8 m s)) buf (len + 1) (s + 1)
      else (\<not> (load8 m s \<noteq> 0 \<and> len \<ge> KPRINTF_BUF_SIZE - 1), len, m))"
  by auto
termination
  by (relation "measure (\<lambda>(m, buf, len, s). KPRINTF_BUF_SIZE - len)") auto

declare safe_write_str.simps [simp del]

text \<open>The same macro on a string literal.\<close>

fun safe_write_lit :: "memory \<Rightarrow> u64 \<Rightarrow> nat \<Rightarrow> u8 list \<Rightarrow> bool \<times> nat \<times> memory" where
  "safe_write_lit m buf len [] = (True, len, m)"
| "safe_write_lit m buf len (c # cs) =
     (if len < KPRINTF_BUF_SIZE - 1 then safe_write_lit (store8 m (buf + of_nat len) c) buf (len + 1) cs
      else (False, len, m))"

text \<open>The loop over the digits of \<^verbatim>\<open>%d\<close>.\<close>

fun write_digits :: "memory \<Rightarrow> u64 \<Rightarrow> nat \<Rightarrow> u64 \<Rightarrow> nat \<Rightarrow> bool \<times> nat \<times> memory" where
  "write_digits m buf len p 0 = (True, len, m)"
| "write_digits m buf len p (Suc n) =
     (case safe_write_ch m buf len (load8 m p) of
        (True, len, m) \<Rightarrow> write_digits m buf len (p + 1) n
      | (False, len, m) \<Rightarrow> (False, len, m))"

section \<open>The format loop\<close>

fun va_arg :: "u64 list \<Rightarrow> (u64 \<times> u64 list) option" where
  "va_arg [] = None"
| "va_arg (a # args) = Some (a, args)"

text \<open>The branch for one conversion. The result: whether it fitted, the rest of the format, the new
  length, the memory and the remaining arguments.\<close>

definition format_switch ::
  "memory \<Rightarrow> u64 \<Rightarrow> u8 \<Rightarrow> u64 \<Rightarrow> nat \<Rightarrow> u64 list \<Rightarrow> local_arrays \<Rightarrow> (bool \<times> u64 \<times> nat \<times> memory \<times> u64 list) option" where
  "format_switch m buf curr_ch format len args loc =
     (if curr_ch = 0x64 then do {
        (val, args) \<leftarrow> va_arg args;
        (n, m) \<leftarrow> itoa m (sint (ucast val :: u32)) (num_buf loc);
        let (ok, len, m) = write_digits m buf len (num_buf loc) n;
        Some (ok, format, len, m, args) }
      else if curr_ch = 0x73 then do {
        (str, args) \<leftarrow> va_arg args;
        let (ok, len, m) = safe_write_str m buf len str;
        Some (ok, format, len, m, args) }
      else if curr_ch = 0x63 then do {
        (ch, args) \<leftarrow> va_arg args;
        let (ok, len, m) = safe_write_ch m buf len (ucast ch);
        Some (ok, format, len, m, args) }
      else if curr_ch = 0x70 then do {
        (ptr, args) \<leftarrow> va_arg args;
        (if ptr = NULL
         then let (ok, len, m) = safe_write_lit m buf len [0x30, 0x78, 0x30] in Some (ok, format, len, m, args)
         else do {
           (_, m) \<leftarrow> ui64_to_hex_str m ptr (hex_str_p loc);
           let (ok, len, m) = safe_write_str m buf len (hex_str_p loc);
           Some (ok, format, len, m, args) }) }
      else if curr_ch = 0x78 then do {
        (val, args) \<leftarrow> va_arg args;
        (_, m) \<leftarrow> ui64_to_hex_str m (ucast (ucast val :: u32)) (hex_str_x loc);
        let (ok, len, m) = safe_write_str m buf len (hex_str_x loc);
        Some (ok, format, len, m, args) }
      else if curr_ch = 0x6C then
        (if load8 m format = 0x75 then do {
           (val, args) \<leftarrow> va_arg args;
           (_, m) \<leftarrow> ul_to_str m val (ul_str_lu loc);
           let (ok, len, m) = safe_write_str m buf len (ul_str_lu loc);
           Some (ok, format + 1, len, m, args) }
         else if load8 m format = 0x78 then do {
           (val, args) \<leftarrow> va_arg args;
           (_, m) \<leftarrow> ui64_to_hex_str m val (hex_str_lx loc);
           let (ok, len, m) = safe_write_str m buf len (hex_str_lx loc);
           Some (ok, format + 1, len, m, args) }
         else
           (case safe_write_lit m buf len [0x25, 0x6C] of
              (False, len, m) \<Rightarrow> Some (False, format, len, m, args)
            | (True, len, m) \<Rightarrow>
                let (ok, len, m) = safe_write_ch m buf len (load8 m format) in Some (ok, format + 1, len, m, args)))
      else if curr_ch = 0x75 then do {
        (val, args) \<leftarrow> va_arg args;
        (_, m) \<leftarrow> ul_to_str m (ucast (ucast val :: u32)) (ul_str_u loc);
        let (ok, len, m) = safe_write_str m buf len (ul_str_u loc);
        Some (ok, format, len, m, args) }
      else
        (case safe_write_ch m buf len 0x25 of
           (False, len, m) \<Rightarrow> Some (False, format, len, m, args)
         | (True, len, m) \<Rightarrow>
             let (ok, len, m) = safe_write_ch m buf len curr_ch in Some (ok, format, len, m, args)))"

text \<open>One round of the loop, on a format that is not at its end.\<close>

definition format_step ::
  "memory \<Rightarrow> u64 \<Rightarrow> u64 \<Rightarrow> nat \<Rightarrow> u64 list \<Rightarrow> local_arrays \<Rightarrow> (bool \<times> u64 \<times> nat \<times> memory \<times> u64 list) option" where
  "format_step m buf format len args loc =
     (let curr_ch = load8 m format; format = format + 1 in
      if curr_ch \<noteq> 0x25 then
        (let (ok, len, m) = safe_write_ch m buf len curr_ch in Some (ok, format, len, m, args))
      else if load8 m format = 0x25 then
        (let (ok, len, m) = safe_write_ch m buf len curr_ch in Some (ok, format + 1, len, m, args))
      else format_switch m buf (load8 m format) (format + 1) len args loc)"

partial_function (option) kvsprintf_loop ::
  "memory \<Rightarrow> u64 \<Rightarrow> u64 \<Rightarrow> nat \<Rightarrow> u64 list \<Rightarrow> local_arrays \<Rightarrow> (int \<times> memory) option" where
  "kvsprintf_loop m buf format len args loc =
     (if load8 m format = 0 then Some (int len, m)
      else case format_step m buf format len args loc of
        None \<Rightarrow> None
      | Some (ok, format, len, m, args) \<Rightarrow>
          if ok then kvsprintf_loop m buf format len args loc else Some (- EOVERFLOW, m))"

definition kvsprintf :: "memory \<Rightarrow> u64 \<Rightarrow> u64 \<Rightarrow> u64 list \<Rightarrow> local_arrays \<Rightarrow> (int \<times> memory) option" where
  "kvsprintf m buf format args loc = kvsprintf_loop m buf format 0 args loc"

section \<open>Printing\<close>

definition ascii :: "string \<Rightarrow> u8 list" where
  "ascii = map (\<lambda>c. of_nat (of_char c))"

definition overflow_message :: "u8 list" where
  "overflow_message = ascii ''Error: Buffer overflow - data exceeds the allowed buffer size of 1024 chars.''"

definition kprintf ::
  "memory \<Rightarrow> 'a console_state_scheme \<Rightarrow> u64 \<Rightarrow> u64 list \<Rightarrow> u64 \<Rightarrow> local_arrays \<Rightarrow> ('a console_state_scheme \<times> memory) option" where
  "kprintf m s format args buf loc = do {
     (out_len, m) \<leftarrow> kvsprintf m buf format args loc;
     s \<leftarrow> (if out_len < 0 then terminal_write_bytes s overflow_message
          else terminal_write m s buf (nat out_len));
     Some (s, m)
   }"

text \<open>The common body of \<^verbatim>\<open>KSUCCESS\<close>, \<^verbatim>\<open>KWARN\<close> and \<^verbatim>\<open>KERROR\<close>: a coloured tag in brackets, then the message.\<close>

definition klog_tagged ::
  "u32 \<Rightarrow> u8 list \<Rightarrow> memory \<Rightarrow> 'a console_state_scheme \<Rightarrow> u64 \<Rightarrow> u64 list \<Rightarrow> u64 \<Rightarrow> local_arrays \<Rightarrow> ('a console_state_scheme \<times> memory) option" where
  "klog_tagged color tag m s format args buf loc = do {
     (out_len, m) \<leftarrow> kvsprintf m buf format args loc;
     (if out_len < 0 then do {
        s \<leftarrow> terminal_write_bytes s overflow_message;
        Some (s, m) }
      else do {
        s \<leftarrow> terminal_write_bytes s (ascii ''['');
        s \<leftarrow> terminal_write_bytes (terminal_setcolor s color 0x000035) tag;
        s \<leftarrow> terminal_write_bytes (terminal_setcolor s 0xFFFFFF 0x000035) (ascii ''] '');
        s \<leftarrow> terminal_write m s buf (nat out_len);
        Some (s, m) })
   }"

definition KSUCCESS ::
  "memory \<Rightarrow> 'a console_state_scheme \<Rightarrow> u64 \<Rightarrow> u64 list \<Rightarrow> u64 \<Rightarrow> local_arrays \<Rightarrow> ('a console_state_scheme \<times> memory) option" where
  "KSUCCESS = klog_tagged 0x00FF00 (ascii ''OK'')"

definition KWARN ::
  "memory \<Rightarrow> 'a console_state_scheme \<Rightarrow> u64 \<Rightarrow> u64 list \<Rightarrow> u64 \<Rightarrow> local_arrays \<Rightarrow> ('a console_state_scheme \<times> memory) option" where
  "KWARN = klog_tagged 0xFFFF00 (ascii ''WARNING'')"

definition KERROR ::
  "memory \<Rightarrow> 'a console_state_scheme \<Rightarrow> u64 \<Rightarrow> u64 list \<Rightarrow> u64 \<Rightarrow> local_arrays \<Rightarrow> ('a console_state_scheme \<times> memory) option" where
  "KERROR = klog_tagged 0xFF0000 (ascii ''ERROR'')"

section \<open>The reference formatter\<close>

definition dec_string :: "u64 \<Rightarrow> u8 list" where
  "dec_string v = map dec_char (rev (digits_le 10 (unat v)))"

definition hex_string :: "u64 \<Rightarrow> u8 list" where
  "hex_string v = map (\<lambda>d. hex_digits ! d) (rev (digits_le 16 (unat v)))"

text \<open>What a format prints, piece by piece: literal bytes, a decimal int, a number, the string at a
  pointer.\<close>

datatype piece = Chars "u8 list" | Digits "u8 list" | Literal "u8 list" | StringAt u64

definition conversion :: "u8 \<Rightarrow> u64 \<Rightarrow> piece option" where
  "conversion c a =
     (if c = 0x64 then (if sint (ucast a :: u32) = - 2147483648 then None else Some (Digits (int_string (sint (ucast a :: u32)))))
      else if c = 0x73 then Some (StringAt a)
      else if c = 0x63 then Some (Chars [ucast a])
      else if c = 0x70 then Some (if a = 0 then Literal (ascii ''0x0'') else Digits (hex_string a))
      else if c = 0x78 then Some (Digits (hex_string (ucast (ucast a :: u32))))
      else Some (Digits (dec_string (ucast (ucast a :: u32)))))"

text \<open>A format that ends within a conversion, or asks for more arguments than there are, has no meaning.\<close>

fun pieces :: "u8 list \<Rightarrow> u64 list \<Rightarrow> piece list option" where
  "pieces [] args = Some []"
| "pieces [c] args = (if c = 0x25 then None else Some [Chars [c]])"
| "pieces (c # d # fs) args =
     (if c \<noteq> 0x25 then do { ps \<leftarrow> pieces (d # fs) args; Some (Chars [c] # ps) }
      else if d = 0x25 then do { ps \<leftarrow> pieces fs args; Some (Chars [0x25] # ps) }
      else if d = 0x6C then
        (case fs of
           [] \<Rightarrow> None
         | e # fs' \<Rightarrow>
             if e = 0x75 \<or> e = 0x78 then
               (case args of
                  [] \<Rightarrow> None
                | a # args' \<Rightarrow> do { ps \<leftarrow> pieces fs' args'; Some (Digits (if e = 0x75 then dec_string a else hex_string a) # ps) })
             else do { ps \<leftarrow> pieces fs' args; Some (Literal [0x25, 0x6C] # Chars [e] # ps) })
      else if d \<in> {0x64, 0x73, 0x63, 0x70, 0x78, 0x75} then
        (case args of
           [] \<Rightarrow> None
         | a # args' \<Rightarrow> do { p \<leftarrow> conversion d a; ps \<leftarrow> pieces fs args'; Some (p # ps) })
      else do { ps \<leftarrow> pieces fs args; Some (Chars [0x25] # Chars [d] # ps) })"

fun piece_text :: "(u64 \<Rightarrow> u8 list) \<Rightarrow> piece \<Rightarrow> u8 list" where
  "piece_text strs (Chars cs) = cs"
| "piece_text strs (Digits cs) = cs"
| "piece_text strs (Literal cs) = cs"
| "piece_text strs (StringAt p) = strs p"

section \<open>Separation and frame\<close>

definition within :: "u64 \<Rightarrow> nat \<Rightarrow> u64 \<Rightarrow> bool" where
  "within a n x \<longleftrightarrow> unat (x - a) < n"

definition in_locals :: "local_arrays \<Rightarrow> u64 \<Rightarrow> bool" where
  "in_locals loc x \<longleftrightarrow> list_ex (\<lambda>(a, n). within a n x) (array_sizes loc)"

text \<open>A string none of whose bytes lies in the output buffer or in one of the local arrays.\<close>

definition string_apart :: "memory \<Rightarrow> u64 \<Rightarrow> local_arrays \<Rightarrow> u64 \<Rightarrow> u8 list \<Rightarrow> bool" where
  "string_apart m buf loc p xs \<longleftrightarrow> cstr m p xs \<and> (\<forall>i\<le>length xs. \<not> within buf 1024 (p + of_nat i) \<and> \<not> in_locals loc (p + of_nat i))"

text \<open>The buffer holds \<open>pre\<close>, and all else but the local arrays is as it was in \<open>m0\<close>.\<close>

definition holds :: "memory \<Rightarrow> u64 \<Rightarrow> local_arrays \<Rightarrow> u8 list \<Rightarrow> memory \<Rightarrow> bool" where
  "holds m0 buf loc pre m \<longleftrightarrow> length pre \<le> 1024 \<and> (\<forall>i<length pre. m (buf + of_nat i) = pre ! i)
     \<and> (\<forall>x. \<not> within buf 1024 x \<and> \<not> in_locals loc x \<longrightarrow> m x = m0 x)"

definition apart :: "u64 \<Rightarrow> local_arrays \<Rightarrow> bool" where
  "apart buf loc \<longleftrightarrow> (\<forall>i<1024. \<not> in_locals loc (buf + of_nat i))
     \<and> list_all (\<lambda>(a, n). \<forall>i<n. \<not> within buf 1024 (a + of_nat i)) (array_sizes loc)"

lemma within_offset: "i < n \<Longrightarrow> n \<le> 18446744073709551616 \<Longrightarrow> within a n (a + of_nat i)"
  by (simp add: within_def unat_of_nat64)

lemma within_cases: "within a n x \<Longrightarrow> \<exists>i<n. x = a + of_nat i"
  unfolding within_def by (intro exI[of _ "unat (x - a)"]) simp

lemma holds_nil: "holds m buf loc [] m"
  by (simp add: holds_def)

lemma holds_store:
  assumes "holds m0 buf loc pre m" "length pre < 1024"
  shows "holds m0 buf loc (pre @ [c]) (store8 m (buf + of_nat (length pre)) c)"
proof -
  have "buf + of_nat i = buf + of_nat (length pre) \<longleftrightarrow> i = length pre" if "i \<le> length pre" for i
    using that assms(2) addr_eq_iff[of i "buf + of_nat (length pre)" buf] by (auto simp: unat_of_nat64)
  then show ?thesis
    using assms within_offset[of "length pre" 1024 buf]
    by (auto simp: holds_def store8_def nth_append less_Suc_eq)
qed

text \<open>Writing a string of at most the declared size into one of the local arrays.\<close>

lemma holds_array:
  assumes "holds m0 buf loc pre m" "apart buf loc" "(a, n) \<in> set (array_sizes loc)" "length cs \<le> n"
  shows "holds m0 buf loc pre (write_bytes m a cs)"
proof -
  have out: "write_bytes m a cs x = m x" if "\<not> in_locals loc x" for x
  proof -
    have "\<not> within a n x" using that assms(3) unfolding in_locals_def list_ex_iff by blast
    then show ?thesis using assms(4) by (simp add: write_bytes_def within_def)
  qed
  have "\<not> in_locals loc (buf + of_nat i)" if "i < length pre" for i
    using that assms(1,2) by (simp add: holds_def apart_def)
  with out show ?thesis using assms(1) by (simp add: holds_def)
qed

lemma cstr_cong: "cstr m p xs \<Longrightarrow> (\<And>i. i \<le> length xs \<Longrightarrow> m' (p + of_nat i) = m (p + of_nat i)) \<Longrightarrow> cstr m' p xs"
  by (intro cstrI) (auto simp: cstr_length cstr_char cstr_end dest: cstr_def[THEN iffD1])

lemma holds_string: "holds m0 buf loc pre m \<Longrightarrow> string_apart m0 buf loc p xs \<Longrightarrow> cstr m p xs"
  unfolding string_apart_def by (auto simp: holds_def intro: cstr_cong)

section \<open>Bounded writes\<close>

text \<open>The contract of a write of \<open>t\<close>: it is appended, or the text so far has reached the size of the
  buffer.\<close>

definition appends :: "memory \<Rightarrow> u64 \<Rightarrow> local_arrays \<Rightarrow> u8 list \<Rightarrow> u8 list \<Rightarrow> bool \<times> nat \<times> memory \<Rightarrow> bool" where
  "appends m0 buf loc pre t r \<longleftrightarrow>
     (case r of (ok, len, m) \<Rightarrow>
        (if ok then len = length (pre @ t) \<and> holds m0 buf loc (pre @ t) m
         else 1024 \<le> length (pre @ t) \<and> (\<exists>pre'. holds m0 buf loc pre' m)))"

lemma safe_write_ch_appends:
  "holds m0 buf loc pre m \<Longrightarrow> appends m0 buf loc pre [c] (safe_write_ch m buf (length pre) c)"
  using holds_store[of m0 buf loc pre m c] by (auto simp: safe_write_ch_def appends_def)

lemma appends_step:
  assumes "appends m0 buf loc (pre @ [c]) t r"
  shows "appends m0 buf loc pre (c # t) r"
  using assms by (auto simp: appends_def split: prod.splits if_splits)

lemma safe_write_lit_appends:
  "holds m0 buf loc pre m \<Longrightarrow> appends m0 buf loc pre t (safe_write_lit m buf (length pre) t)"
proof (induction t arbitrary: pre m)
  case (Cons c t)
  show ?case
  proof (cases "length pre < 1023")
    case True
    then have "appends m0 buf loc (pre @ [c]) t (safe_write_lit (store8 m (buf + of_nat (length pre)) c) buf (length (pre @ [c])) t)"
      using Cons holds_store[of m0 buf loc pre m c] by (intro Cons.IH) simp
    then show ?thesis using True by (intro appends_step) simp
  qed (use Cons.prems in \<open>auto simp: appends_def\<close>)
qed (simp add: appends_def)

lemma store_away:
  assumes "cstr m p (c # t)" "\<And>i. i \<le> length (c # t) \<Longrightarrow> \<not> within buf 1024 (p + of_nat i)" "l < 1024"
  shows "cstr (store8 m (buf + of_nat l) v) (p + 1) t" "i \<le> length t \<Longrightarrow> \<not> within buf 1024 (p + 1 + of_nat i)"
proof -
  have sh: "p + 1 + of_nat i = p + of_nat (Suc i)" for i by simp
  have ne: "p + of_nat i \<noteq> buf + of_nat l" if "i \<le> length (c # t)" for i
    using assms(2)[OF that] within_offset[of l 1024 buf] assms(3) by auto
  have "cstr m (p + 1) t" using assms(1) by (simp only: cstr_Cons)
  then show "cstr (store8 m (buf + of_nat l) v) (p + 1) t"
  proof (rule cstr_cong)
    fix i assume "i \<le> length t"
    then show "store8 m (buf + of_nat l) v (p + 1 + of_nat i) = m (p + 1 + of_nat i)"
      using ne[of "Suc i"] unfolding sh by (simp only: store8_def fun_upd_other list.size) simp
  qed
  show "i \<le> length t \<Longrightarrow> \<not> within buf 1024 (p + 1 + of_nat i)" using assms(2)[of "Suc i"] unfolding sh by simp
qed

lemma safe_write_str_appends:
  "holds m0 buf loc pre m \<Longrightarrow> cstr m p t \<Longrightarrow> (\<And>i. i \<le> length t \<Longrightarrow> \<not> within buf 1024 (p + of_nat i)) \<Longrightarrow>
    appends m0 buf loc pre t (safe_write_str m buf (length pre) p)"
proof (induction t arbitrary: pre m p)
  case Nil
  then show ?case by (subst safe_write_str.simps) (simp add: cstr_Nil load8_def appends_def)
next
  case (Cons c t)
  have c: "m p = c" "c \<noteq> 0" using Cons.prems(2) by (simp_all add: cstr_Cons)
  show ?case
  proof (cases "length pre < 1023")
    case True
    let ?m = "store8 m (buf + of_nat (length pre)) c"
    have "appends m0 buf loc (pre @ [c]) t (safe_write_str ?m buf (length (pre @ [c])) (p + 1))"
      using True holds_store[OF Cons.prems(1)] store_away[OF Cons.prems(2,3), of "length pre"]
      by (intro Cons.IH) auto
    then show ?thesis using True c by (subst safe_write_str.simps) (simp add: load8_def appends_step)
  next
    case False
    then show ?thesis using Cons.prems(1) c by (subst safe_write_str.simps) (auto simp: load8_def appends_def)
  qed
qed

lemma write_digits_appends:
  "holds m0 buf loc pre m \<Longrightarrow> cstr m p t \<Longrightarrow> (\<And>i. i \<le> length t \<Longrightarrow> \<not> within buf 1024 (p + of_nat i)) \<Longrightarrow>
    appends m0 buf loc pre t (write_digits m buf (length pre) p (length t))"
proof (induction t arbitrary: pre m p)
  case (Cons c t)
  have c: "m p = c" using Cons.prems(2) by (simp add: cstr_Cons)
  show ?case
  proof (cases "length pre < 1024")
    case True
    let ?m = "store8 m (buf + of_nat (length pre)) c"
    have "appends m0 buf loc (pre @ [c]) t (write_digits ?m buf (length (pre @ [c])) (p + 1) (length t))"
      using True holds_store[OF Cons.prems(1)] store_away[OF Cons.prems(2,3), of "length pre"]
      by (intro Cons.IH) auto
    then show ?thesis using True c by (simp add: safe_write_ch_def load8_def appends_step)
  next
    case False
    then show ?thesis using Cons.prems(1) by (auto simp: safe_write_ch_def appends_def)
  qed
qed (simp add: appends_def)

section \<open>Conversions\<close>

lemma string_lengths:
  "length (dec_string v) \<le> 20" "length (hex_string v) \<le> 16" "0 \<notin> set (dec_string v)" "0 \<notin> set (hex_string v)"
  using digits_le_20[of v] digits_le_16[of v] dec_digits_nz[of "unat v"] hex_digits_nz[of "unat v"]
  by (auto simp: dec_string_def hex_string_def)

lemma int_string_length:
  assumes "- 2147483648 < i" "i < 2147483648"
  shows "length (int_string i) \<le> 11" "0 \<notin> set (int_string i)"
proof -
  have "length (digits_le 10 (nat \<bar>i\<bar>)) \<le> 10" using assms by (intro digits_le_length) simp_all
  then show "length (int_string i) \<le> 11" by (cases "i < 0") (simp_all add: int_string_def)
  show "0 \<notin> set (int_string i)" using dec_digits_nz[of "nat \<bar>i\<bar>"] by (auto simp: int_string_def)
qed

text \<open>A number formatted in one of the local arrays, where it fits with its terminator.\<close>

lemma number_ready:
  assumes "holds m0 buf loc pre m" "apart buf loc" "0 \<notin> set cs" "(a, n) \<in> set (array_sizes loc)" "length cs < n"
  defines "m' \<equiv> write_bytes m a (cs @ [0])"
  shows "holds m0 buf loc pre m'" "cstr m' a cs" "i \<le> length cs \<Longrightarrow> \<not> within buf 1024 (a + of_nat i)"
proof -
  have n: "n \<le> 32" using assms(4) by (auto simp: array_sizes_def MAX_INT_DIGITS_def MAX_HEX_DIGITS_def)
  show "holds m0 buf loc pre m'" unfolding m'_def using assms(5) by (intro holds_array[OF assms(1,2,4)]) simp
  show "cstr m' a cs" unfolding m'_def using assms(3,5) n by (intro cstr_write_bytes) simp_all
  show "i \<le> length cs \<Longrightarrow> \<not> within buf 1024 (a + of_nat i)" using assms(2,4,5) by (auto simp: apart_def list_all_iff)
qed

lemma number_appends:
  assumes "holds m0 buf loc pre m" "apart buf loc" "0 \<notin> set cs" "(a, n) \<in> set (array_sizes loc)" "length cs < n"
  shows "appends m0 buf loc pre cs (safe_write_str (write_bytes m a (cs @ [0])) buf (length pre) a)"
    and "appends m0 buf loc pre cs (write_digits (write_bytes m a (cs @ [0])) buf (length pre) a (length cs))"
  using number_ready[OF assms] by (auto intro: safe_write_str_appends write_digits_appends)

text \<open>The array of each conversion is large enough: 11 characters for an \<^verbatim>\<open>int\<close>, 20 decimal or 16
  hexadecimal digits for 64 bits, and the terminator.\<close>

lemma int_appends:
  assumes "holds m0 buf loc pre m" "apart buf loc" "- 2147483648 < i" "i < 2147483648"
  shows "appends m0 buf loc pre (int_string i)
    (write_digits (write_bytes m (num_buf loc) (int_string i @ [0])) buf (length pre) (num_buf loc) (length (int_string i)))"
  using int_string_length[OF assms(3,4)]
  by (intro number_appends(2)[OF assms(1,2), of _ _ MAX_INT_DIGITS]) (simp_all add: array_sizes_def MAX_INT_DIGITS_def)

lemma hex_appends:
  assumes "holds m0 buf loc pre m" "apart buf loc" "a \<in> {hex_str_p loc, hex_str_x loc, hex_str_lx loc}"
  shows "appends m0 buf loc pre (hex_string v) (safe_write_str (write_bytes m a (hex_string v @ [0])) buf (length pre) a)"
  using string_lengths(2,4)[of v] assms(3)
  by (intro number_appends(1)[OF assms(1,2), of _ _ MAX_HEX_DIGITS]) (auto simp: array_sizes_def MAX_HEX_DIGITS_def)

lemma dec_appends:
  assumes "holds m0 buf loc pre m" "apart buf loc" "a \<in> {ul_str_lu loc, ul_str_u loc}"
  shows "appends m0 buf loc pre (dec_string v) (safe_write_str (write_bytes m a (dec_string v @ [0])) buf (length pre) a)"
proof -
  have "(a, 32) \<in> set (array_sizes loc) \<or> (a, MAX_INT_DIGITS) \<in> set (array_sizes loc)"
    using assms(3) by (auto simp: array_sizes_def)
  then obtain n where "(a, n) \<in> set (array_sizes loc)" "20 < n" by (auto simp: MAX_INT_DIGITS_def)
  then show ?thesis using string_lengths(1,3)[of v] by (intro number_appends(1)[OF assms(1,2), of _ _ n]) simp_all
qed

text \<open>The outcome of a branch of the switch that writes \<open>t\<close>.\<close>

definition switch_writes ::
  "memory \<Rightarrow> u64 \<Rightarrow> local_arrays \<Rightarrow> u8 list \<Rightarrow> u8 list \<Rightarrow> u64 \<Rightarrow> u64 list \<Rightarrow> (bool \<times> u64 \<times> nat \<times> memory \<times> u64 list) option \<Rightarrow> bool" where
  "switch_writes m0 buf loc pre t f args r \<longleftrightarrow>
     (\<exists>ok len m f'. r = Some (ok, f', len, m, args) \<and> appends m0 buf loc pre t (ok, len, m) \<and> (ok \<longrightarrow> f' = f))"

lemma switch_writesI:
  "appends m0 buf loc pre t w \<Longrightarrow> switch_writes m0 buf loc pre t f args (case w of (ok, len, m) \<Rightarrow> Some (ok, f, len, m, args))"
  by (cases w) (simp add: switch_writes_def)

lemma sint_range: "sint (a :: u32) \<noteq> - 2147483648 \<Longrightarrow> - 2147483648 < sint a \<and> sint a < 2147483648"
  using sint_greater_eq[of a] sint_less[of a] by simp

lemma conversion_writes:
  assumes "conversion c a = Some p" "c \<in> {0x64, 0x73, 0x63, 0x70, 0x78, 0x75}"
    and h: "holds m0 buf loc pre m" "apart buf loc" and str: "\<And>q. p = StringAt q \<Longrightarrow> string_apart m0 buf loc q (strs q)"
  shows "switch_writes m0 buf loc pre (piece_text strs p) f args (format_switch m buf c f (length pre) (a # args) loc)"
proof -
  consider "c = 0x64" | "c = 0x73" | "c = 0x63" | "c = 0x70" | "c = 0x78" | "c = 0x75" using assms(2) by auto
  then show ?thesis
  proof cases
    case 1
    let ?i = "sint (ucast a :: u32)"
    have i: "- 2147483648 < ?i" "?i < 2147483648" and p: "p = Digits (int_string ?i)"
      using assms(1) 1 sint_range[of "ucast a"] by (auto simp: conversion_def split: if_splits)
    have "appends m0 buf loc pre (int_string ?i)
        (write_digits (write_bytes m (num_buf loc) (int_string ?i @ [0])) buf (length pre) (num_buf loc) (length (int_string ?i)))"
      by (rule int_appends[OF h i])
    then show ?thesis using 1 p by (auto simp: format_switch_def itoa_spec[OF i] Let_def intro: switch_writesI)
  next
    case 2
    then have p: "p = StringAt a" using assms(1) by (simp add: conversion_def)
    have "appends m0 buf loc pre (strs a) (safe_write_str m buf (length pre) a)"
      using str[OF p] holds_string[OF h(1)] by (intro safe_write_str_appends h) (auto simp: string_apart_def)
    then show ?thesis using 2 p by (auto simp: format_switch_def Let_def intro: switch_writesI)
  next
    case 3
    then show ?thesis using assms(1) safe_write_ch_appends[OF h(1), of "ucast a"]
      by (auto simp: conversion_def format_switch_def Let_def intro: switch_writesI)
  next
    case 4
    show ?thesis
    proof (cases "a = 0")
      case True
      have "ascii ''0x0'' = [0x30, 0x78, 0x30]" by (simp add: ascii_def)
      then show ?thesis using 4 True assms(1) safe_write_lit_appends[OF h(1), of "[0x30, 0x78, 0x30]"]
        by (auto simp: conversion_def format_switch_def Let_def simp del: safe_write_lit.simps intro: switch_writesI)
    next
      case False
      have "appends m0 buf loc pre (hex_string a)
          (safe_write_str (write_bytes m (hex_str_p loc) (hex_string a @ [0])) buf (length pre) (hex_str_p loc))"
        by (rule hex_appends[OF h]) simp
      then show ?thesis using 4 False assms(1)
        by (auto simp: conversion_def format_switch_def ui64_to_hex_str_spec hex_string_def[symmetric] Let_def intro: switch_writesI)
    qed
  next
    case 5
    let ?v = "ucast (ucast a :: u32) :: u64"
    have "appends m0 buf loc pre (hex_string ?v)
        (safe_write_str (write_bytes m (hex_str_x loc) (hex_string ?v @ [0])) buf (length pre) (hex_str_x loc))"
      by (rule hex_appends[OF h]) simp
    then show ?thesis using 5 assms(1)
      by (auto simp: conversion_def format_switch_def ui64_to_hex_str_spec hex_string_def[symmetric] Let_def intro: switch_writesI)
  next
    case 6
    let ?v = "ucast (ucast a :: u32) :: u64"
    have "appends m0 buf loc pre (dec_string ?v)
        (safe_write_str (write_bytes m (ul_str_u loc) (dec_string ?v @ [0])) buf (length pre) (ul_str_u loc))"
      by (rule dec_appends[OF h]) simp
    then show ?thesis using 6 assms(1)
      by (auto simp: conversion_def format_switch_def ul_to_str_spec dec_string_def[symmetric] Let_def intro: switch_writesI)
  qed
qed

lemma long_writes:
  assumes "e = 0x75 \<or> e = 0x78" "load8 m f = e" and h: "holds m0 buf loc pre m" "apart buf loc"
  shows "switch_writes m0 buf loc pre (if e = 0x75 then dec_string a else hex_string a) (f + 1) args
    (format_switch m buf 0x6C f (length pre) (a # args) loc)"
proof (cases "e = 0x75")
  case True
  have "appends m0 buf loc pre (dec_string a)
      (safe_write_str (write_bytes m (ul_str_lu loc) (dec_string a @ [0])) buf (length pre) (ul_str_lu loc))"
    by (rule dec_appends[OF h]) simp
  then show ?thesis using True assms(2)
    by (auto simp: format_switch_def ul_to_str_spec dec_string_def[symmetric] Let_def intro: switch_writesI)
next
  case False
  have "appends m0 buf loc pre (hex_string a)
      (safe_write_str (write_bytes m (hex_str_lx loc) (hex_string a @ [0])) buf (length pre) (hex_str_lx loc))"
    by (rule hex_appends[OF h]) simp
  then show ?thesis using False assms(1,2)
    by (auto simp: format_switch_def ui64_to_hex_str_spec hex_string_def[symmetric] Let_def intro: switch_writesI)
qed

text \<open>Two writes in a row, as the code chains them with \<^verbatim>\<open>||\<close>.\<close>

lemma two_writes:
  assumes "appends m0 buf loc pre t w"
    and "\<And>len m. w = (True, len, m) \<Longrightarrow> holds m0 buf loc (pre @ t) m \<Longrightarrow> len = length (pre @ t) \<Longrightarrow> appends m0 buf loc (pre @ t) u (g len m)"
  shows "switch_writes m0 buf loc pre (t @ u) f args
    (case w of (False, len, m) \<Rightarrow> Some (False, f', len, m, args)
       | (True, len, m) \<Rightarrow> (case g len m of (ok, len, m) \<Rightarrow> Some (ok, f, len, m, args)))"
proof (cases w)
  case (fields ok len m)
  show ?thesis
  proof (cases ok)
    case True
    then have "appends m0 buf loc (pre @ t) u (g len m)" using assms fields by (simp add: appends_def)
    then have "appends m0 buf loc pre (t @ u) (g len m)" by (auto simp: appends_def split: prod.splits if_splits)
    then show ?thesis using True fields by (simp add: switch_writesI)
  next
    case False
    then show ?thesis using assms(1) fields by (auto simp: switch_writes_def appends_def)
  qed
qed

section \<open>The loop\<close>

definition formats :: "memory \<Rightarrow> u64 \<Rightarrow> local_arrays \<Rightarrow> u8 list \<Rightarrow> (int \<times> memory) option \<Rightarrow> bool" where
  "formats m0 buf loc out r \<longleftrightarrow>
     (\<exists>n m. r = Some (n, m) \<and>
        (n = int (length out) \<and> holds m0 buf loc out m
         \<or> n = - EOVERFLOW \<and> 1024 \<le> length out \<and> (\<exists>pre. holds m0 buf loc pre m)))"

lemma loop_step:
  assumes "load8 m f \<noteq> 0" "switch_writes m0 buf loc pre t f' args' (format_step m buf f (length pre) args loc)"
    and "\<And>m'. holds m0 buf loc (pre @ t) m' \<Longrightarrow> formats m0 buf loc (pre @ t @ u) (kvsprintf_loop m' buf f' (length (pre @ t)) args' loc)"
  shows "formats m0 buf loc (pre @ t @ u) (kvsprintf_loop m buf f (length pre) args loc)"
proof -
  obtain ok len m' f2 where r: "format_step m buf f (length pre) args loc = Some (ok, f2, len, m', args')"
    "appends m0 buf loc pre t (ok, len, m')" "ok \<longrightarrow> f2 = f'"
    using assms(2) by (auto simp: switch_writes_def)
  show ?thesis
  proof (cases ok)
    case True
    then have "kvsprintf_loop m buf f (length pre) args loc = kvsprintf_loop m' buf f' (length (pre @ t)) args' loc"
      using r assms(1) by (subst kvsprintf_loop.simps) (simp add: appends_def)
    then show ?thesis using True r(2) assms(3) by (simp add: appends_def)
  next
    case False
    then have "kvsprintf_loop m buf f (length pre) args loc = Some (- EOVERFLOW, m')"
      using r(1) assms(1) by (subst kvsprintf_loop.simps) simp
    then show ?thesis using False r(2) by (auto simp: formats_def appends_def)
  qed
qed

lemma string_apart_tail: "string_apart m buf loc p (c # cs) \<Longrightarrow> string_apart m buf loc (p + 1) cs"
proof -
  assume a: "string_apart m buf loc p (c # cs)"
  have sh: "p + 1 + of_nat i = p + of_nat (Suc i)" for i by simp
  show ?thesis using a unfolding string_apart_def cstr_Cons sh by auto
qed

lemma string_at: "holds m0 buf loc pre m \<Longrightarrow> string_apart m0 buf loc p (c # cs) \<Longrightarrow> load8 m p = c \<and> c \<noteq> 0"
  using holds_string[of m0 buf loc pre m p "c # cs"] by (simp add: cstr_Cons load8_def)

definition strings_apart :: "memory \<Rightarrow> u64 \<Rightarrow> local_arrays \<Rightarrow> (u64 \<Rightarrow> u8 list) \<Rightarrow> piece list \<Rightarrow> bool" where
  "strings_apart m buf loc strs ps \<longleftrightarrow> (\<forall>q. StringAt q \<in> set ps \<longrightarrow> string_apart m buf loc q (strs q))"

abbreviation printed :: "(u64 \<Rightarrow> u8 list) \<Rightarrow> piece list \<Rightarrow> u8 list" where
  "printed strs ps \<equiv> concat (map (piece_text strs) ps)"

lemma char_step:
  assumes "holds m0 buf loc pre m" "string_apart m0 buf loc f (c # fs)" "c \<noteq> 0x25"
  shows "switch_writes m0 buf loc pre [c] (f + 1) args (format_step m buf f (length pre) args loc)"
  using string_at[OF assms(1,2)] assms(3) safe_write_ch_appends[OF assms(1), of c]
  by (auto simp: format_step_def Let_def intro: switch_writesI)

lemma percent_step:
  assumes "holds m0 buf loc pre m" "string_apart m0 buf loc f (0x25 # d # fs)"
  shows "format_step m buf f (length pre) args loc =
    (if d = 0x25 then (case safe_write_ch m buf (length pre) 0x25 of (ok, len, m) \<Rightarrow> Some (ok, f + 2, len, m, args))
     else format_switch m buf d (f + 2) (length pre) args loc)"
  using string_at[OF assms] string_at[OF assms(1) string_apart_tail[OF assms(2)]]
  by (simp add: format_step_def Let_def add.assoc)

lemma long_other_writes:
  assumes h: "holds m0 buf loc pre m" and s: "string_apart m0 buf loc f (e # fs)" and e: "e \<noteq> 0x75" "e \<noteq> 0x78"
  shows "switch_writes m0 buf loc pre ([0x25, 0x6C] @ [e]) (f + 1) args (format_switch m buf 0x6C f (length pre) args loc)"
proof -
  have "format_switch m buf 0x6C f (length pre) args loc =
    (case safe_write_lit m buf (length pre) [0x25, 0x6C] of (False, len, m) \<Rightarrow> Some (False, f, len, m, args)
     | (True, len, m) \<Rightarrow> (case safe_write_ch m buf len (load8 m f) of (ok, len, m) \<Rightarrow> Some (ok, f + 1, len, m, args)))"
    using string_at[OF h s] e unfolding format_switch_def Let_def by (simp del: safe_write_lit.simps)
  moreover have "appends m0 buf loc (pre @ [0x25, 0x6C]) [e] (safe_write_ch m' buf len (load8 m' f))"
    if "holds m0 buf loc (pre @ [0x25, 0x6C]) m'" "len = length (pre @ [0x25, 0x6C])" for len m'
    using safe_write_ch_appends[OF that(1), of e] string_at[OF that(1) s] that(2) by simp
  ultimately show ?thesis
    using two_writes[OF safe_write_lit_appends[OF h, of "[0x25, 0x6C]"], of "[e]" "\<lambda>len m. safe_write_ch m buf len (load8 m f)"] by simp
qed

lemma unknown_writes:
  assumes h: "holds m0 buf loc pre m" and d: "d \<notin> {0x64, 0x73, 0x63, 0x70, 0x78, 0x75, 0x6C}"
  shows "switch_writes m0 buf loc pre ([0x25] @ [d]) f args (format_switch m buf d f (length pre) args loc)"
proof -
  have "format_switch m buf d f (length pre) args loc =
    (case safe_write_ch m buf (length pre) 0x25 of (False, len, m) \<Rightarrow> Some (False, f, len, m, args)
     | (True, len, m) \<Rightarrow> (case safe_write_ch m buf len d of (ok, len, m) \<Rightarrow> Some (ok, f, len, m, args)))"
    using d unfolding format_switch_def Let_def by simp
  moreover have "appends m0 buf loc (pre @ [0x25]) [d] (safe_write_ch m' buf len d)"
    if "holds m0 buf loc (pre @ [0x25]) m'" "len = length (pre @ [0x25])" for len m'
    using safe_write_ch_appends[OF that(1), of d] that(2) by simp
  ultimately show ?thesis
    using two_writes[OF safe_write_ch_appends[OF h, of "0x25"], of "[d]" "\<lambda>len m. safe_write_ch m buf len d"] by simp
qed

lemma kvsprintf_loop_formats:
  assumes "apart buf loc"
  shows "holds m0 buf loc pre m \<Longrightarrow> string_apart m0 buf loc f fs \<Longrightarrow> pieces fs args = Some ps \<Longrightarrow>
    strings_apart m0 buf loc strs ps \<Longrightarrow>
    formats m0 buf loc (pre @ printed strs ps) (kvsprintf_loop m buf f (length pre) args loc)"
proof (induction fs args arbitrary: pre m f ps rule: pieces.induct)
  case (1 args)
  then have "load8 m f = 0" using holds_string[OF 1(1,2)] by (simp add: cstr_Nil load8_def)
  then have "kvsprintf_loop m buf f (length pre) args loc = Some (int (length pre), m)"
    by (subst kvsprintf_loop.simps) simp
  then show ?case using 1 by (auto simp: formats_def)
next
  case (2 c args)
  have c: "c \<noteq> 0x25" "ps = [Chars [c]]" using 2(3) by (auto split: if_splits)
  have "formats m0 buf loc (pre @ [c] @ []) (kvsprintf_loop m buf f (length pre) args loc)"
  proof (rule loop_step[OF _ char_step[OF 2(1,2) c(1)]])
    show "load8 m f \<noteq> 0" using string_at[OF 2(1,2)] by simp
    fix m' assume h: "holds m0 buf loc (pre @ [c]) m'"
    have "load8 m' (f + 1) = 0" using holds_string[OF h string_apart_tail[OF 2(2)]] by (simp add: cstr_Nil load8_def)
    then show "formats m0 buf loc (pre @ [c] @ []) (kvsprintf_loop m' buf (f + 1) (length (pre @ [c])) args loc)"
      using h by (subst kvsprintf_loop.simps) (auto simp: formats_def)
  qed
  then show ?case using c by simp
next
  case (3 c d fs args)
  note h = \<open>holds m0 buf loc pre m\<close> and sa = \<open>string_apart m0 buf loc f (c # d # fs)\<close>
  have nz: "load8 m f \<noteq> 0" "load8 m (f + 1) = d" using string_at[OF h sa] string_at[OF h string_apart_tail[OF sa]] by simp_all
  have tl2: "string_apart m0 buf loc (f + 2) fs"
    using string_apart_tail[OF string_apart_tail[OF sa]] by (simp add: add.assoc)
  have go: "formats m0 buf loc (pre @ printed strs ps) (kvsprintf_loop m buf f (length pre) args loc)"
    if "ps = qs @ ps'" "switch_writes m0 buf loc pre (printed strs qs) f' args' (format_step m buf f (length pre) args loc)"
      "\<And>m'. holds m0 buf loc (pre @ printed strs qs) m' \<Longrightarrow> strings_apart m0 buf loc strs ps' \<Longrightarrow>
        formats m0 buf loc ((pre @ printed strs qs) @ printed strs ps') (kvsprintf_loop m' buf f' (length (pre @ printed strs qs)) args' loc)"
    for qs ps' f' args'
  proof -
    have "strings_apart m0 buf loc strs ps'" using \<open>strings_apart m0 buf loc strs ps\<close> that(1) by (simp add: strings_apart_def)
    then show ?thesis using loop_step[OF nz(1) that(2), of "printed strs ps'"] that(1,3) by simp
  qed
  consider (char) "c \<noteq> 0x25" | (percent) "c = 0x25" "d = 0x25" | (long) "c = 0x25" "d = 0x6C"
    | (conv) "c = 0x25" "d \<noteq> 0x25" "d \<noteq> 0x6C" "d \<in> {0x64, 0x73, 0x63, 0x70, 0x78, 0x75}"
    | (other) "c = 0x25" "d \<noteq> 0x25" "d \<noteq> 0x6C" "d \<notin> {0x64, 0x73, 0x63, 0x70, 0x78, 0x75}" by blast
  then show ?case
  proof cases
    case char
    then obtain ps' where ps: "pieces (d # fs) args = Some ps'" "ps = [Chars [c]] @ ps'"
      using \<open>pieces (c # d # fs) args = Some ps\<close> by (auto simp: bind_eq_Some_conv simp del: pieces.simps(2) split: if_splits)
    show ?thesis
    proof (rule go[OF ps(2)])
      show "switch_writes m0 buf loc pre (printed strs [Chars [c]]) (f + 1) args (format_step m buf f (length pre) args loc)"
        using char_step[OF h sa char] by simp
    qed (intro "3.IH"(1)[OF char] string_apart_tail[OF sa] ps(1))
  next
    case percent
    then obtain ps' where ps: "pieces fs args = Some ps'" "ps = [Chars [0x25]] @ ps'"
      using \<open>pieces (c # d # fs) args = Some ps\<close> by (auto simp: bind_eq_Some_conv)
    have sw: "switch_writes m0 buf loc pre (printed strs [Chars [0x25]]) (f + 2) args (format_step m buf f (length pre) args loc)"
      using percent_step[OF h sa[unfolded percent(1)]] percent(2) safe_write_ch_appends[OF h, of "0x25"] by (simp add: switch_writesI)
    show ?thesis
      by (rule go[OF ps(2) sw], rule "3.IH"(2)) (use percent tl2 ps(1) in \<open>simp_all\<close>)
  next
    case long
    then obtain e fs' where fs: "fs = e # fs'" using \<open>pieces (c # d # fs) args = Some ps\<close> by (auto split: list.splits)
    have e: "load8 m (f + 2) = e" using string_at[OF h tl2[unfolded fs]] by simp
    have tl3: "string_apart m0 buf loc (f + 3) fs'" using string_apart_tail[OF tl2[unfolded fs]] by (simp add: add.assoc)
    have step: "format_step m buf f (length pre) args loc = format_switch m buf 0x6C (f + 2) (length pre) args loc"
      using percent_step[OF h sa[unfolded long(1)]] long(2) by simp
    show ?thesis
    proof (cases "e = 0x75 \<or> e = 0x78")
      case True
      obtain a args' ps' where ps: "args = a # args'" "pieces fs' args' = Some ps'" "ps = [Digits (if e = 0x75 then dec_string a else hex_string a)] @ ps'"
        using \<open>pieces (c # d # fs) args = Some ps\<close> long fs True by (auto simp: bind_eq_Some_conv split: list.splits)
      have sw: "switch_writes m0 buf loc pre (printed strs [Digits (if e = 0x75 then dec_string a else hex_string a)]) (f + 3) args' (format_step m buf f (length pre) args loc)"
        using long_writes[OF True e h assms, of a args'] step[unfolded ps(1)] by (simp add: ps(1) add.assoc)
      show ?thesis
        by (rule go[OF ps(3) sw], rule "3.IH"(3)) (use long tl3 ps(1,2) fs True in \<open>simp_all\<close>)
    next
      case False
      then obtain ps' where ps: "pieces fs' args = Some ps'" "ps = [Literal [0x25, 0x6C], Chars [e]] @ ps'"
        using \<open>pieces (c # d # fs) args = Some ps\<close> long fs by (auto simp: bind_eq_Some_conv)
      have "switch_writes m0 buf loc pre ([0x25, 0x6C] @ [e]) (f + 3) args (format_switch m buf 0x6C (f + 2) (length pre) args loc)"
        using long_other_writes[OF h tl2[unfolded fs], of args] False by (simp add: add.assoc)
      then have sw: "switch_writes m0 buf loc pre (printed strs [Literal [0x25, 0x6C], Chars [e]]) (f + 3) args (format_step m buf f (length pre) args loc)"
        by (simp add: step)
      show ?thesis
        by (rule go[OF ps(2) sw], rule "3.IH"(4)) (use long tl3 ps(1) fs False in \<open>simp_all\<close>)
    qed
  next
    case conv
    then obtain a args' p ps' where ps: "args = a # args'" "conversion d a = Some p" "pieces fs args' = Some ps'" "ps = [p] @ ps'"
      using \<open>pieces (c # d # fs) args = Some ps\<close> by (auto simp: bind_eq_Some_conv split: list.splits)
    have "switch_writes m0 buf loc pre (piece_text strs p) (f + 2) args' (format_switch m buf d (f + 2) (length pre) (a # args') loc)"
      using \<open>strings_apart m0 buf loc strs ps\<close> ps(4) by (intro conversion_writes ps(2) conv(4) h assms) (simp add: strings_apart_def)
    then have sw: "switch_writes m0 buf loc pre (printed strs [p]) (f + 2) args' (format_step m buf f (length pre) args loc)"
      using percent_step[OF h sa[unfolded conv(1)]] conv(2) ps(1) by simp
    show ?thesis
      by (rule go[OF ps(4) sw], rule "3.IH"(5)) (use conv tl2 ps(1,2,3) in \<open>simp_all\<close>)
  next
    case other
    then obtain ps' where ps: "pieces fs args = Some ps'" "ps = [Chars [0x25], Chars [d]] @ ps'"
      using \<open>pieces (c # d # fs) args = Some ps\<close> by (auto simp: bind_eq_Some_conv)
    have "switch_writes m0 buf loc pre ([0x25] @ [d]) (f + 2) args (format_switch m buf d (f + 2) (length pre) args loc)"
      using other by (intro unknown_writes[OF h]) auto
    then have sw: "switch_writes m0 buf loc pre (printed strs [Chars [0x25], Chars [d]]) (f + 2) args (format_step m buf f (length pre) args loc)"
      using percent_step[OF h sa[unfolded other(1)]] other(2) by simp
    show ?thesis
      by (rule go[OF ps(2) sw], rule "3.IH"(6)) (use other tl2 ps(1) in \<open>simp_all\<close>)
  qed
qed

section \<open>Correctness\<close>

text \<open>C11: \<^verbatim>\<open>kvsprintf\<close> returns and agrees with the reference formatter, for every format that does not end
  within a conversion, has enough arguments and does not print the smallest \<^verbatim>\<open>int\<close> with \<^verbatim>\<open>%d\<close> (\<^verbatim>\<open>itoa\<close> cannot
  negate it, so the reference text of that conversion is not defined). Either the result is the length of the
  reference text, at most 1024 bytes, which is in the buffer, or the text has at least 1024 bytes and the
  result is \<^verbatim>\<open>-EOVERFLOW\<close>. Nothing is written outside the 1024 bytes of the buffer and the local arrays
  \<^verbatim>\<open>num_buf\<close>, \<^verbatim>\<open>hex_str\<close> and \<^verbatim>\<open>ul_str\<close>, each of its declared size (21, 17, and 32 or 21 bytes). The format and
  the strings printed by \<^verbatim>\<open>%s\<close> do not overlap the buffer and the arrays.\<close>

theorem kvsprintf_correct:
  assumes "apart buf loc" "string_apart m buf loc format fs" "pieces fs args = Some ps" "strings_apart m buf loc strs ps"
  shows "\<exists>r m'. kvsprintf m buf format args loc = Some (r, m')
    \<and> (r = int (length (printed strs ps)) \<and> r \<le> 1024 \<and> bytes_at m' buf (nat r) = printed strs ps
       \<or> r = - EOVERFLOW \<and> 1024 \<le> length (printed strs ps))
    \<and> (\<forall>x. within buf 1024 x \<or> in_locals loc x \<or> m' x = m x)"
proof -
  obtain r m' where r: "kvsprintf m buf format args loc = Some (r, m')"
    "r = int (length (printed strs ps)) \<and> holds m buf loc (printed strs ps) m'
     \<or> r = - EOVERFLOW \<and> 1024 \<le> length (printed strs ps) \<and> (\<exists>pre. holds m buf loc pre m')"
    using kvsprintf_loop_formats[OF assms(1) holds_nil assms(2-4)] by (auto simp: formats_def kvsprintf_def)
  have "bytes_at m' buf (length (printed strs ps)) = printed strs ps" if "holds m buf loc (printed strs ps) m'"
    using that by (intro nth_equalityI) (auto simp: holds_def bytes_at_def)
  moreover have "\<forall>x. within buf 1024 x \<or> in_locals loc x \<or> m' x = m x" using r(2) by (auto simp: holds_def)
  ultimately show ?thesis using r by (auto simp: holds_def)
qed

text \<open>The format \<^verbatim>\<open>a=%d, %s\<close> with the arguments -42 and a pointer to \<^verbatim>\<open>ok\<close>.\<close>

definition demo_fmt_memory :: memory where
  "demo_fmt_memory = write_bytes (write_bytes (\<lambda>_. 0) 0x3000 (ascii ''a=%d, %s'' @ [0])) 0x4000 (ascii ''ok'' @ [0])"

definition demo_strs :: "u64 \<Rightarrow> u8 list" where
  "demo_strs p = ascii ''ok''"

definition demo_arrays :: local_arrays where
  "demo_arrays = \<lparr>num_buf = 0x2000, hex_str_p = 0x2020, hex_str_x = 0x2020, ul_str_lu = 0x2040, hex_str_lx = 0x2000, ul_str_u = 0x2060\<rparr>"

lemma in_demo_arrays: "in_locals demo_arrays x \<Longrightarrow> 0x2000 \<le> x \<and> x < 0x2080"
  by (auto simp: in_locals_def array_sizes_def demo_arrays_def within_def MAX_INT_DIGITS_def MAX_HEX_DIGITS_def
      word_le_nat_alt word_less_nat_alt unat_sub_if_size word_size split: if_splits)

lemma apart_demo: "apart 0x1000 demo_arrays"
  unfolding apart_def
proof (intro conjI allI impI)
  fix i :: nat assume "i < 1024"
  then have "\<not> 0x2000 \<le> (0x1000 + of_nat i :: u64)" by (simp add: word_le_nat_alt unat_word_ariths unat_of_nat)
  then show "\<not> in_locals demo_arrays (0x1000 + of_nat i)" using in_demo_arrays by blast
next
  have "\<not> within 0x1000 1024 (a + of_nat i)" if "0x2000 \<le> unat a" "unat a < 0x2080" "i < 32" for a :: u64 and i :: nat
    using that by (simp add: within_def unat_sub_if_size word_size unat_word_ariths unat_of_nat)
  then show "list_all (\<lambda>(a, n). \<forall>i<n. \<not> within 0x1000 1024 (a + of_nat i)) (array_sizes demo_arrays)"
    by (simp add: array_sizes_def demo_arrays_def MAX_INT_DIGITS_def MAX_HEX_DIGITS_def)
qed

lemma string_apart_code:
  "string_apart m buf loc p xs \<longleftrightarrow> cstr m p xs \<and> list_all (\<lambda>i. \<not> within buf 1024 (p + of_nat i) \<and> \<not> in_locals loc (p + of_nat i)) [0..<Suc (length xs)]"
  by (auto simp: string_apart_def list_all_iff less_Suc_eq_le)

lemma demo_strings:
  "string_apart demo_fmt_memory 0x1000 demo_arrays 0x3000 (ascii ''a=%d, %s'')"
  "string_apart demo_fmt_memory 0x1000 demo_arrays 0x4000 (ascii ''ok'')"
  unfolding string_apart_code
  by (simp_all add: demo_fmt_memory_def ascii_def write_bytes_def cstr_Cons cstr_Nil within_def in_locals_def
      array_sizes_def demo_arrays_def MAX_INT_DIGITS_def MAX_HEX_DIGITS_def upt_rec del: upt_Suc)

lemma demo_pieces:
  "pieces (ascii ''a=%d, %s'') [- 42, 0x4000] =
    Some [Chars [0x61], Chars [0x3D], Digits (ascii ''-42''), Chars [0x2C], Chars [0x20], StringAt 0x4000]"
  by code_simp

theorem kvsprintf_correct_witness:
  "\<exists>r m'. kvsprintf demo_fmt_memory 0x1000 0x3000 [- 42, 0x4000] demo_arrays = Some (r, m')
    \<and> r = 9 \<and> bytes_at m' 0x1000 9 = ascii ''a=-42, ok''"
proof -
  let ?ps = "[Chars [0x61], Chars [0x3D], Digits (ascii ''-42''), Chars [0x2C], Chars [0x20], StringAt 0x4000]"
  have "strings_apart demo_fmt_memory 0x1000 demo_arrays demo_strs ?ps"
    using demo_strings(2) by (simp add: strings_apart_def demo_strs_def)
  moreover have "printed demo_strs ?ps = ascii ''a=-42, ok''" by code_simp
  moreover have "length (ascii ''a=-42, ok'') = 9" by code_simp
  ultimately show ?thesis
    using kvsprintf_correct[OF apart_demo demo_strings(1) demo_pieces, of demo_strs] by auto
qed

text \<open>C40: \<^verbatim>\<open>kprintf\<close> returns and prints the reference text at the cursor of the terminal, in the current
  colours, when it has fewer than 1024 bytes; when it has more than 1024 bytes it prints the message
  about the overflow instead. A text of exactly 1024 bytes is left out (which of the two is printed
  depends on its last conversion), as are formats without a reference text: one that ends within a
  conversion, has too few arguments or prints the smallest \<^verbatim>\<open>int\<close> with \<^verbatim>\<open>%d\<close>.\<close>

theorem kprintf_prints:
  assumes "apart buf loc" "string_apart m buf loc format fs" "pieces fs args = Some ps" "strings_apart m buf loc strs ps" "term_ok s"
    and "length (printed strs ps) \<noteq> 1024"
  shows "\<exists>t m'. kprintf m s format args buf loc = Some (t, m') \<and> term_ok t
    \<and> term_abs t = foldl (\<lambda>x b. screen_put x (text_cell (terminal_fg_color s) (terminal_bg_color s) b)) (term_abs s)
        (if length (printed strs ps) < 1024 then printed strs ps else overflow_message)"
proof -
  let ?out = "printed strs ps"
  obtain r m' where r: "kvsprintf m buf format args loc = Some (r, m')"
    "r = int (length ?out) \<and> holds m buf loc ?out m' \<or> r = - EOVERFLOW \<and> 1024 \<le> length ?out"
    using kvsprintf_loop_formats[OF assms(1) holds_nil assms(2-4)] by (auto simp: formats_def kvsprintf_def)
  let ?txt = "if length ?out < 1024 then ?out else overflow_message"
  have "bytes_at m' buf (length ?out) = ?out" if "holds m buf loc ?out m'"
    using that by (intro nth_equalityI) (auto simp: holds_def bytes_at_def)
  moreover have "length ?out < 1024" if "holds m buf loc ?out m'" using that assms(6) by (simp add: holds_def)
  ultimately have "kprintf m s format args buf loc = do { t \<leftarrow> terminal_write_bytes s ?txt; Some (t, m') }"
    using r by (auto simp: kprintf_def terminal_write_def)
  then show ?thesis using terminal_write_bytes_moves[OF assms(5), of ?txt] by (auto simp: moves_to_def)
qed

theorem kprintf_prints_witness:
  "\<exists>t m'. kprintf demo_fmt_memory demo_console 0x3000 [- 42, 0x4000] 0x1000 demo_arrays = Some (t, m') \<and> term_ok t"
proof -
  let ?ps = "[Chars [0x61], Chars [0x3D], Digits (ascii ''-42''), Chars [0x2C], Chars [0x20], StringAt 0x4000]"
  have "strings_apart demo_fmt_memory 0x1000 demo_arrays demo_strs ?ps"
    using demo_strings(2) by (simp add: strings_apart_def demo_strs_def)
  moreover have "length (printed demo_strs ?ps) \<noteq> 1024" by code_simp
  ultimately show ?thesis
    using kprintf_prints[OF apart_demo demo_strings(1) demo_pieces _ demo_console_ok, of demo_strs] by blast
qed

end
