(* ===== verification/Vmm.thy ===== *)
theory Vmm
  imports Pmm
begin

text \<open>
  The virtual memory manager (\<^verbatim>\<open>kernel/arch/x86_64/memory/vmm.c\<close>, \<^verbatim>\<open>vmm.h\<close>): four-level x86-64 page
  tables in physical pages reached through the direct map, address spaces allocated with
  \<^verbatim>\<open>kmalloc\<close>, mapping, unmapping and translation. Table entries are 64-bit words in memory.
  Flushing the translation cache has no effect on the state that is modelled.
\<close>

section \<open>State and address arithmetic\<close>

record vmm_state = slab_state +
  vmm_hhdm :: u64
  current_pml4 :: u64
  kernel_as :: u64
  cr3 :: u64

abbreviation PAGE_SIZE :: u64 where "PAGE_SIZE \<equiv> 4096"

definition PAGE_MASK :: u64 where "PAGE_MASK = NOT (PAGE_SIZE - 1)"
definition PTE_PRESENT :: u64 where "PTE_PRESENT = push_bit 0 1"
definition PTE_WRITABLE :: u64 where "PTE_WRITABLE = push_bit 1 1"
definition PTE_USER :: u64 where "PTE_USER = push_bit 2 1"
definition PTE_NX :: u64 where "PTE_NX = push_bit 63 1"

definition PML4_INDEX :: "u64 \<Rightarrow> u64" where "PML4_INDEX addr = drop_bit 39 addr AND 0x1FF"
definition PDP_INDEX :: "u64 \<Rightarrow> u64" where "PDP_INDEX addr = drop_bit 30 addr AND 0x1FF"
definition PD_INDEX :: "u64 \<Rightarrow> u64" where "PD_INDEX addr = drop_bit 21 addr AND 0x1FF"
definition PT_INDEX :: "u64 \<Rightarrow> u64" where "PT_INDEX addr = drop_bit 12 addr AND 0x1FF"
definition PAGE_OFFSET :: "u64 \<Rightarrow> u64" where "PAGE_OFFSET addr = addr AND 0xFFF"
definition PTE_ADDR :: "u64 \<Rightarrow> u64" where "PTE_ADDR pte = pte AND 0x000FFFFFFFFFF000"

definition vmm_page_align_up :: "u64 \<Rightarrow> u64" where
  "vmm_page_align_up vaddr = (vaddr + PAGE_SIZE - 1) AND PAGE_MASK"

definition vmm_page_align_down :: "u64 \<Rightarrow> u64" where
  "vmm_page_align_down vaddr = vaddr AND PAGE_MASK"

definition vmm_pages_in_range :: "u64 \<Rightarrow> u64 \<Rightarrow> u64" where
  "vmm_pages_in_range start en = (vmm_page_align_up en - vmm_page_align_down start) div PAGE_SIZE"

text \<open>\<^verbatim>\<open>struct addr_space\<close>: \<^verbatim>\<open>pml4\<close> at 0, \<^verbatim>\<open>total_pages\<close> at 8, \<^verbatim>\<open>flags\<close> at 16; 24 bytes.\<close>

definition sizeof_addr_space :: u64 where "sizeof_addr_space = 24"
definition as_pml4 :: "memory \<Rightarrow> u64 \<Rightarrow> u64" where "as_pml4 m p = load64 m p"
definition as_total_pages :: "memory \<Rightarrow> u64 \<Rightarrow> u64" where "as_total_pages m p = load64 m (p + 8)"

text \<open>\<^verbatim>\<open>&table->entries[idx]\<close>\<close>

definition entry_addr :: "u64 \<Rightarrow> u64 \<Rightarrow> u64" where
  "entry_addr table idx = table + idx * 8"

section \<open>Page tables\<close>

definition get_current_pml4 :: "'a vmm_state_scheme \<Rightarrow> u64 \<times> 'a vmm_state_scheme" where
  "get_current_pml4 s =
     (let s = (if current_pml4 s = NULL then s\<lparr>current_pml4 := cr3 s + vmm_hhdm s\<rparr> else s)
      in (current_pml4 s, s))"

definition vmm_alloc_page_table :: "'a vmm_state_scheme \<Rightarrow> u64 \<times> 'a vmm_state_scheme" where
  "vmm_alloc_page_table s =
     (let (phys, s) = pmm_alloc_page s in
      if phys = 0 then (NULL, s)
      else (let pt = phys + vmm_hhdm s in (pt, s\<lparr>mem := memset (mem s) pt 0 PAGE_SIZE\<rparr>)))"

definition vmm_free_page_table :: "'a vmm_state_scheme \<Rightarrow> u64 \<Rightarrow> 'a vmm_state_scheme option" where
  "vmm_free_page_table s pt =
     (if pt = NULL then Some s else pmm_free_page s (pt - vmm_hhdm s))"

text \<open>The walk over the remaining levels; the last index selects the entry that is returned.\<close>

fun walk_levels :: "'a vmm_state_scheme \<Rightarrow> u64 \<Rightarrow> u64 list \<Rightarrow> bool \<Rightarrow> u64 \<times> 'a vmm_state_scheme" where
  "walk_levels s current [] create = (NULL, s)"
| "walk_levels s current [idx] create = (entry_addr current idx, s)"
| "walk_levels s current (idx # idxs) create =
     (let entry = entry_addr current idx in
      if load64 (mem s) entry AND PTE_PRESENT = 0 then
        (if \<not> create then (NULL, s)
         else
           (let (new_pt, s) = vmm_alloc_page_table s in
            if new_pt = NULL then (NULL, s)
            else
              (let phys = new_pt - vmm_hhdm s;
                   s = s\<lparr>mem := store64 (mem s) entry (phys OR PTE_PRESENT OR PTE_WRITABLE OR PTE_USER)\<rparr>;
                   next_phys = PTE_ADDR (load64 (mem s) entry)
               in walk_levels s (next_phys + vmm_hhdm s) idxs create)))
      else walk_levels s (PTE_ADDR (load64 (mem s) entry) + vmm_hhdm s) idxs create)"

definition vmm_walk_page_table :: "'a vmm_state_scheme \<Rightarrow> u64 \<Rightarrow> u64 \<Rightarrow> bool \<Rightarrow> u64 \<times> 'a vmm_state_scheme" where
  "vmm_walk_page_table s as vaddr create =
     (if as = NULL \<or> as_pml4 (mem s) as = NULL then (NULL, s)
      else walk_levels s (as_pml4 (mem s) as)
             [PML4_INDEX vaddr, PDP_INDEX vaddr, PD_INDEX vaddr, PT_INDEX vaddr] create)"

section \<open>Mapping and unmapping\<close>

definition vmm_map_page_no_flush :: "'a vmm_state_scheme \<Rightarrow> u64 \<Rightarrow> u64 \<Rightarrow> u64 \<Rightarrow> u64 \<Rightarrow> int \<times> 'a vmm_state_scheme" where
  "vmm_map_page_no_flush s as vaddr paddr flags =
     (if as = NULL then (-1, s)
      else
        (let vaddr = vmm_page_align_down vaddr;
             paddr = vmm_page_align_down paddr;
             (pte, s) = vmm_walk_page_table s as vaddr True
         in if pte = NULL then (-1, s)
            else if load64 (mem s) pte AND PTE_PRESENT \<noteq> 0 then (-1, s)
            else
              (let m = store64 (mem s) pte (paddr OR flags OR PTE_PRESENT);
                   m = store64 m (as + 8) (as_total_pages m as + 1)
               in (0, s\<lparr>mem := m\<rparr>))))"

definition vmm_map_page :: "'a vmm_state_scheme \<Rightarrow> u64 \<Rightarrow> u64 \<Rightarrow> u64 \<Rightarrow> u64 \<Rightarrow> int \<times> 'a vmm_state_scheme" where
  "vmm_map_page s as vaddr paddr flags =
     (if as = NULL then (-1, s)
      else
        (let vaddr = vmm_page_align_down vaddr;
             paddr = vmm_page_align_down paddr;
             (pte, s) = vmm_walk_page_table s as vaddr True
         in if pte = NULL then (-1, s)
            else if load64 (mem s) pte AND PTE_PRESENT \<noteq> 0 then (-1, s)
            else
              (let m = store64 (mem s) pte (paddr OR flags OR PTE_PRESENT);
                   m = store64 m (as + 8) (as_total_pages m as + 1)
               in (0, s\<lparr>mem := m\<rparr>))))"

definition vmm_unmap_page_no_flush :: "'a vmm_state_scheme \<Rightarrow> u64 \<Rightarrow> u64 \<Rightarrow> int \<times> 'a vmm_state_scheme" where
  "vmm_unmap_page_no_flush s as vaddr =
     (if as = NULL then (-1, s)
      else
        (let vaddr = vmm_page_align_down vaddr;
             (pte, s) = vmm_walk_page_table s as vaddr False
         in if pte = NULL \<or> load64 (mem s) pte AND PTE_PRESENT = 0 then (-1, s)
            else
              (let m = store64 (mem s) pte 0;
                   m = store64 m (as + 8) (as_total_pages m as - 1)
               in (0, s\<lparr>mem := m\<rparr>))))"

definition vmm_unmap_page :: "'a vmm_state_scheme \<Rightarrow> u64 \<Rightarrow> u64 \<Rightarrow> int \<times> 'a vmm_state_scheme" where
  "vmm_unmap_page s as vaddr =
     (if as = NULL then (-1, s)
      else
        (let vaddr = vmm_page_align_down vaddr;
             (pte, s) = vmm_walk_page_table s as vaddr False
         in if pte = NULL \<or> load64 (mem s) pte AND PTE_PRESENT = 0 then (-1, s)
            else
              (let m = store64 (mem s) pte 0;
                   m = store64 m (as + 8) (as_total_pages m as - 1)
               in (0, s\<lparr>mem := m\<rparr>))))"

partial_function (option) unmap_loop ::
  "'a vmm_state_scheme \<Rightarrow> u64 \<Rightarrow> u64 \<Rightarrow> u64 \<Rightarrow> 'a vmm_state_scheme option" where
  "unmap_loop s as v vend =
     (if v < vend then unmap_loop (snd (vmm_unmap_page_no_flush s as v)) as (v + PAGE_SIZE) vend
      else Some s)"

definition vmm_unmap_range ::
  "'a vmm_state_scheme \<Rightarrow> u64 \<Rightarrow> u64 \<Rightarrow> u64 \<Rightarrow> (int \<times> 'a vmm_state_scheme) option" where
  "vmm_unmap_range s as vaddr sz =
     (if as = NULL \<or> sz = 0 then Some (-1, s)
      else do {
        let vstart = vmm_page_align_down vaddr;
        let vend = vmm_page_align_up (vaddr + sz);
        s \<leftarrow> unmap_loop s as vstart vend;
        Some (0, s)
      })"

partial_function (option) map_loop ::
  "'a vmm_state_scheme \<Rightarrow> u64 \<Rightarrow> u64 \<Rightarrow> u64 \<Rightarrow> u64 \<Rightarrow> u64 \<Rightarrow> u64 \<Rightarrow> (int \<times> 'a vmm_state_scheme) option" where
  "map_loop s as vstart v p vend flags =
     (if v < vend then
        (let (r, s) = vmm_map_page_no_flush s as v p flags in
         if r \<noteq> 0 then do {
           (_, s) \<leftarrow> vmm_unmap_range s as vstart (v - vstart);
           Some (-1, s)
         }
         else map_loop s as vstart (v + PAGE_SIZE) (p + PAGE_SIZE) vend flags)
      else Some (0, s))"

definition vmm_map_range ::
  "'a vmm_state_scheme \<Rightarrow> u64 \<Rightarrow> u64 \<Rightarrow> u64 \<Rightarrow> u64 \<Rightarrow> u64 \<Rightarrow> (int \<times> 'a vmm_state_scheme) option" where
  "vmm_map_range s as vaddr paddr sz flags =
     (if as = NULL then Some (-1, s)
      else if sz = 0 then Some (-1, s)
      else
        (let vstart = vmm_page_align_down vaddr;
             vend = vmm_page_align_up (vaddr + sz);
             pstart = vmm_page_align_down paddr
         in map_loop s as vstart vstart pstart vend flags))"

section \<open>Translation\<close>

definition vmm_virt_to_phys :: "'a vmm_state_scheme \<Rightarrow> u64 \<Rightarrow> u64 \<Rightarrow> u64" where
  "vmm_virt_to_phys s as vaddr =
     (if as = NULL then 0
      else
        (let (pte, s) = vmm_walk_page_table s as vaddr False in
         if pte = NULL \<or> load64 (mem s) pte AND PTE_PRESENT = 0 then 0
         else PTE_ADDR (load64 (mem s) pte) OR PAGE_OFFSET vaddr))"

definition vmm_is_mapped :: "'a vmm_state_scheme \<Rightarrow> u64 \<Rightarrow> u64 \<Rightarrow> bool" where
  "vmm_is_mapped s as vaddr \<longleftrightarrow> vmm_virt_to_phys s as vaddr \<noteq> 0"

definition get_kernel_as :: "'a vmm_state_scheme \<Rightarrow> u64" where
  "get_kernel_as s = kernel_as s"

section \<open>Address spaces\<close>

text \<open>
  \<^verbatim>\<open>vmm_init\<close>: \<^verbatim>\<open>memset\<close> runs before the NULL test; \<open>None\<close> stands for that write through a NULL
  pointer as well as for an allocator loop that does not end.
\<close>

definition vmm_init :: "'a vmm_state_scheme \<Rightarrow> (int \<times> 'a vmm_state_scheme) option" where
  "vmm_init s =
     (let s = s\<lparr>vmm_hhdm := hhdm_offset s\<rparr>;
          (pml4, s) = get_current_pml4 s;
          s = s\<lparr>current_pml4 := pml4\<rparr>
      in do {
        (as, s) \<leftarrow> kmalloc s sizeof_addr_space;
        let s = s\<lparr>kernel_as := as\<rparr>;
        if as = NULL then None
        else
          (let s = s\<lparr>mem := memset (mem s) as 0 sizeof_addr_space\<rparr> in
           if current_pml4 s = NULL then Some (-1, s)
           else Some (0, s\<lparr>mem := store64 (mem s) as (current_pml4 s)\<rparr>))
      })"

definition copy_kernel_half :: "memory \<Rightarrow> u64 \<Rightarrow> u64 \<Rightarrow> memory" where
  "copy_kernel_half m dst src =
     foldl (\<lambda>m i. store64 m (entry_addr dst (of_nat i)) (load64 m (entry_addr src (of_nat i)))) m [256..<512]"

definition vmm_create_address_space :: "'a vmm_state_scheme \<Rightarrow> (u64 \<times> 'a vmm_state_scheme) option" where
  "vmm_create_address_space s = do {
     (as, s) \<leftarrow> kmalloc s sizeof_addr_space;
     if as = NULL then Some (NULL, s)
     else
       (let s = s\<lparr>mem := memset (mem s) as 0 sizeof_addr_space\<rparr>;
            (pml4, s) = vmm_alloc_page_table s;
            s = s\<lparr>mem := store64 (mem s) as pml4\<rparr>
        in if as_pml4 (mem s) as = NULL then do { s \<leftarrow> kfree s as; Some (NULL, s) }
           else if kernel_as s = NULL then Some (as, s)
           else Some (as, s\<lparr>mem := copy_kernel_half (mem s) (as_pml4 (mem s) as) (as_pml4 (mem s) (kernel_as s))\<rparr>))
   }"

text \<open>Freeing the tables below a table: the loop over its entries, then the table itself.\<close>

fun free_pts :: "'a vmm_state_scheme \<Rightarrow> u64 \<Rightarrow> nat list \<Rightarrow> 'a vmm_state_scheme option" where
  "free_pts s pd [] = Some s"
| "free_pts s pd (i # is) =
     (let e = load64 (mem s) (entry_addr pd (of_nat i)) in
      if e AND PTE_PRESENT \<noteq> 0
      then do { s \<leftarrow> vmm_free_page_table s (PTE_ADDR e + vmm_hhdm s); free_pts s pd is }
      else free_pts s pd is)"

definition free_pd_table :: "'a vmm_state_scheme \<Rightarrow> u64 \<Rightarrow> 'a vmm_state_scheme option" where
  "free_pd_table s pd_phys =
     (let pd = pd_phys + vmm_hhdm s in
      do { s \<leftarrow> free_pts s pd [0..<512]; vmm_free_page_table s pd })"

fun free_pds :: "'a vmm_state_scheme \<Rightarrow> u64 \<Rightarrow> nat list \<Rightarrow> 'a vmm_state_scheme option" where
  "free_pds s pdp [] = Some s"
| "free_pds s pdp (i # is) =
     (let e = load64 (mem s) (entry_addr pdp (of_nat i)) in
      if e AND PTE_PRESENT \<noteq> 0
      then do { s \<leftarrow> free_pd_table s (PTE_ADDR e); free_pds s pdp is }
      else free_pds s pdp is)"

definition free_pdp_table :: "'a vmm_state_scheme \<Rightarrow> u64 \<Rightarrow> 'a vmm_state_scheme option" where
  "free_pdp_table s pdp_phys =
     (let pdp = pdp_phys + vmm_hhdm s in
      do { s \<leftarrow> free_pds s pdp [0..<512]; vmm_free_page_table s pdp })"

fun free_pdps :: "'a vmm_state_scheme \<Rightarrow> u64 \<Rightarrow> nat list \<Rightarrow> 'a vmm_state_scheme option" where
  "free_pdps s as [] = Some s"
| "free_pdps s as (i # is) =
     (let e = load64 (mem s) (entry_addr (as_pml4 (mem s) as) (of_nat i)) in
      if e AND PTE_PRESENT \<noteq> 0
      then do { s \<leftarrow> free_pdp_table s (PTE_ADDR e); free_pdps s as is }
      else free_pdps s as is)"

definition vmm_destroy_address_space :: "'a vmm_state_scheme \<Rightarrow> u64 \<Rightarrow> 'a vmm_state_scheme option" where
  "vmm_destroy_address_space s as =
     (if as = NULL \<or> as = kernel_as s then Some s
      else do {
        s \<leftarrow> free_pdps s as [0..<256];
        s \<leftarrow> vmm_free_page_table s (as_pml4 (mem s) as);
        kfree s as
      })"

definition vmm_switch_address_space :: "'a vmm_state_scheme \<Rightarrow> u64 \<Rightarrow> 'a vmm_state_scheme" where
  "vmm_switch_address_space s as =
     (if as = NULL \<or> as_pml4 (mem s) as = NULL then s
      else s\<lparr>cr3 := as_pml4 (mem s) as - vmm_hhdm s\<rparr>)"

text \<open>The boot-time self test: create, map, switch there and back, destroy.\<close>

definition test_vmm :: "'a vmm_state_scheme \<Rightarrow> 'a vmm_state_scheme option" where
  "test_vmm s = do {
     (test_as, s) \<leftarrow> vmm_create_address_space s;
     if test_as = NULL then Some s
     else do {
       (_, s) \<leftarrow> vmm_map_range s test_as 0x400000 0x100000 PAGE_SIZE (PTE_PRESENT OR PTE_WRITABLE OR PTE_USER);
       let s = vmm_switch_address_space s test_as;
       let s = vmm_switch_address_space s (kernel_as s);
       vmm_destroy_address_space s test_as
     }
   }"

end
