(* ===== verification/Vmm_Tree.thy ===== *)
theory Vmm_Tree
  imports Vmm Buddy_Frame
begin

text \<open>
  The page tables in memory as a tree: what the bits of an address and of an entry mean, the
  invariant \<open>vm_wf\<close> of an address space over the buddy allocator, and how the walk, the creation of a
  table and the store of an entry act on it.
\<close>


section \<open>Bits of addresses and entries\<close>

lemma addr_mask: "(0x000FFFFFFFFFF000 :: u64) = mask 52 AND NOT (mask 12)"
  by (simp add: mask_eq_exp_minus_1)

lemma bit_addr_mask: "bit (0x000FFFFFFFFFF000 :: u64) n \<longleftrightarrow> 12 \<le> n \<and> n < 52"
  unfolding addr_mask by (auto simp: bit_simps)

lemma bit_PTE_ADDR: "bit (PTE_ADDR x) n \<longleftrightarrow> bit x n \<and> 12 \<le> n \<and> n < 52"
  by (simp add: PTE_ADDR_def bit_and_iff bit_addr_mask del: bit_numeral_word_iff)

lemma page_aligned_bit: "page_aligned a \<Longrightarrow> bit a n \<Longrightarrow> 12 \<le> n"
proof (rule ccontr)
  assume a: "page_aligned a" "bit a n" "\<not> 12 \<le> n"
  have "a AND mask 12 = 0" using a(1) by (simp add: and_mask_zero_iff)
  then have "\<not> bit (a AND mask 12) n" by simp
  then show False using a by (simp add: bit_simps)
qed

lemma small_bit: "unat (a :: u64) < 2 ^ k \<Longrightarrow> bit a n \<Longrightarrow> n < k"
proof (rule ccontr)
  assume a: "unat a < 2 ^ k" "bit a n" "\<not> n < k"
  have "take_bit k a = a" using a(1) by (simp add: word_unat_eq_iff unat_take_bit64)
  then have "bit (take_bit k a) n" using a(2) by simp
  then show False using a(3) by (simp add: bit_simps)
qed

lemma PTE_ADDR_or:
  assumes "page_aligned a" "unat a < 2 ^ 52" "\<And>n. 12 \<le> n \<Longrightarrow> n < 52 \<Longrightarrow> \<not> bit f n"
  shows "PTE_ADDR (a OR f) = a"
proof (rule bit_eqI)
  fix n
  show "bit (PTE_ADDR (a OR f)) n = bit a n"
    using assms(3)[of n] page_aligned_bit[OF assms(1), of n] small_bit[OF assms(2), of n]
    by (auto simp: bit_PTE_ADDR bit_or_iff)
qed

definition present :: "u64 \<Rightarrow> bool" where
  "present e \<longleftrightarrow> e AND PTE_PRESENT \<noteq> 0"

lemma present_iff: "present e \<longleftrightarrow> bit e 0"
  by (simp add: present_def PTE_PRESENT_def and_one_eq mod2_eq_if bit_0)

lemma PTE_ADDR_new_table:
  assumes "page_aligned a" "unat a < 2 ^ 52"
  shows "PTE_ADDR (a OR PTE_PRESENT OR PTE_WRITABLE OR PTE_USER) = a"
    and "present (a OR PTE_PRESENT OR PTE_WRITABLE OR PTE_USER)"
proof -
  have 7: "PTE_PRESENT OR PTE_WRITABLE OR PTE_USER = mask 3"
    by (simp add: PTE_PRESENT_def PTE_WRITABLE_def PTE_USER_def mask_eq_exp_minus_1)
  show "PTE_ADDR (a OR PTE_PRESENT OR PTE_WRITABLE OR PTE_USER) = a"
    unfolding or.assoc 7 using assms by (intro PTE_ADDR_or) (simp_all add: bit_simps)
  show "present (a OR PTE_PRESENT OR PTE_WRITABLE OR PTE_USER)"
    unfolding or.assoc 7 by (simp add: present_iff bit_simps)
qed

lemma PTE_ADDR_aligned: "page_aligned (PTE_ADDR e)" "unat (PTE_ADDR e) < 2 ^ 52"
proof -
  have "PTE_ADDR e AND mask 12 = 0" by (rule bit_eqI) (auto simp: bit_PTE_ADDR bit_simps)
  then show "page_aligned (PTE_ADDR e)" by (simp add: and_mask_zero_iff)
  have "take_bit 52 (PTE_ADDR e) = PTE_ADDR e" by (rule bit_eqI) (auto simp: bit_PTE_ADDR bit_simps)
  then have "unat (PTE_ADDR e) = unat (PTE_ADDR e) mod 2 ^ 52" by (metis unat_take_bit64)
  then show "unat (PTE_ADDR e) < 2 ^ 52" by (metis mod_less_divisor zero_less_numeral zero_less_power)
qed

section \<open>Indices\<close>

definition indices :: "u64 \<Rightarrow> u64 list" where
  "indices v = [PML4_INDEX v, PDP_INDEX v, PD_INDEX v, PT_INDEX v]"

lemma nine_bits: "(0x1FF :: u64) = mask 9"
  by (simp add: mask_eq_exp_minus_1)

lemma index_bound: "(x :: u64) AND 0x1FF < 512"
proof -
  have "unat (x AND 0x1FF) = unat x mod 512"
    unfolding nine_bits by (simp add: unat_take_bit64 flip: take_bit_eq_mask)
  then show ?thesis by (simp add: word_less_nat_alt)
qed

lemma indices_bound: "i \<in> set (indices v) \<Longrightarrow> i < 512"
  by (auto simp: indices_def PML4_INDEX_def PDP_INDEX_def PD_INDEX_def PT_INDEX_def index_bound)

lemma index_offset: "(i :: u64) < 512 \<Longrightarrow> unat (i * 8) = unat i * 8" "i < 512 \<Longrightarrow> unat (i * 8) + 8 \<le> 4096"
proof -
  assume i: "i < 512"
  then have "unat i < 512" by (simp add: word_less_nat_alt)
  then show "unat (i * 8) = unat i * 8" by (simp add: unat_word_ariths)
  then show "unat (i * 8) + 8 \<le> 4096" using \<open>unat i < 512\<close> by simp
qed

lemma entries_disjoint:
  fixes i j :: u64
  assumes "i < 512" "j < 512" "i \<noteq> j"
  shows "disj_range (i * 8) 8 (j * 8) 8"
proof -
  note u = index_offset[OF assms(1)] index_offset[OF assms(2)]
  consider "unat i < unat j" | "unat j < unat i" using assms(3) by (auto simp: word_unat_eq_iff) linarith
  then show ?thesis
  proof cases
    case 1
    then show ?thesis using u by (intro disj_range_ordered) simp_all
  next
    case 2
    then have "disj_range (j * 8) 8 (i * 8) 8" using u by (intro disj_range_ordered) simp_all
    then show ?thesis by (simp add: disj_range_sym)
  qed
qed

text \<open>Two addresses have the same indices exactly when they agree on bits 12 to 47.\<close>

definition vpage :: "u64 \<Rightarrow> u64" where
  "vpage v = take_bit 36 (drop_bit 12 v)"

lemma bit_index: "bit (drop_bit k v AND 0x1FF :: u64) n \<longleftrightarrow> n < 9 \<and> bit v (k + n)"
  unfolding nine_bits by (auto simp: bit_simps dest: bit_imp_le_length)

lemma indices_eq_iff: "indices v = indices w \<longleftrightarrow> vpage v = vpage w"
proof
  assume eq: "indices v = indices w"
  have b: "bit v (k + n) = bit w (k + n)" if "n < 9" "k \<in> {39, 30, 21, 12}" for k n
    using eq that bit_index[of k v n] bit_index[of k w n]
    by (auto simp: indices_def PML4_INDEX_def PDP_INDEX_def PD_INDEX_def PT_INDEX_def)
  have "bit v m = bit w m" if "12 \<le> m" "m < 48" for m
  proof -
    consider "m < 21" | "21 \<le> m" "m < 30" | "30 \<le> m" "m < 39" | "39 \<le> m" by linarith
    then show ?thesis using b[of "m - 12" 12] b[of "m - 21" 21] b[of "m - 30" 30] b[of "m - 39" 39] that by cases auto
  qed
  then show "vpage v = vpage w" by (intro bit_eqI) (auto simp: vpage_def bit_simps)
next
  assume eq: "vpage v = vpage w"
  have b36: "bit v (12 + n) = bit w (12 + n)" if "n < 36" for n
  proof -
    have "bit (vpage v) n = bit (vpage w) n" using eq by simp
    then show ?thesis using that by (auto simp: vpage_def bit_simps dest: bit_imp_le_length)
  qed
  then have b: "bit v m = bit w m" if "12 \<le> m" "m < 48" for m using that b36[of "m - 12"] by simp
  then have "drop_bit k v AND 0x1FF = drop_bit k w AND 0x1FF" if "12 \<le> k" "k \<le> 39" for k
    using that by (intro bit_eqI) (auto simp: bit_index)
  then show "indices v = indices w"
    by (simp add: indices_def PML4_INDEX_def PDP_INDEX_def PD_INDEX_def PT_INDEX_def)
qed


section \<open>The tree of page tables\<close>

text \<open>
  A page-table tree as a partial map from index paths to the physical addresses of the tables: the
  empty path is the PML4, paths of length one to three the tables below. Only the slots in \<open>D\<close> of
  the PML4 belong to the tree (the kernel half is shared between address spaces).
\<close>

type_synonym tree = "u64 list \<Rightarrow> u64 option"

definition valid_path :: "u64 set \<Rightarrow> u64 list \<Rightarrow> bool" where
  "valid_path D p \<longleftrightarrow> (\<forall>i\<in>set p. i < 512) \<and> (p = [] \<or> hd p \<in> D)"

definition entry :: "'a vmm_state_scheme \<Rightarrow> u64 \<Rightarrow> u64 \<Rightarrow> u64" where
  "entry s a i = load64 (mem s) (entry_addr (a + hhdm_offset s) i)"

definition table_ok :: "u64 \<Rightarrow> nat set \<Rightarrow> u64 \<Rightarrow> bool" where
  "table_ok h F a \<longleftrightarrow> page_aligned a \<and> unat a < 2 ^ 52 \<and> unat a + unat h + 4096 \<le> 2 ^ 64 \<and> a + h \<noteq> 0
     \<and> brange a 0 \<inter> F = {}"

definition tree_ok :: "'a vmm_state_scheme \<Rightarrow> u64 set \<Rightarrow> tree \<Rightarrow> bool" where
  "tree_ok s D tab \<longleftrightarrow>
     (\<forall>p a. tab p = Some a \<longrightarrow> valid_path D p \<and> length p \<le> 3)
     \<and> (\<forall>p q a. tab p = Some a \<longrightarrow> tab q = Some a \<longrightarrow> p = q)
     \<and> (\<forall>p i. tab p = None \<longrightarrow> tab (p @ [i]) = None)
     \<and> (\<forall>p a i. tab p = Some a \<longrightarrow> length p < 3 \<longrightarrow> valid_path D (p @ [i]) \<longrightarrow>
          tab (p @ [i]) = (if present (entry s a i) then Some (PTE_ADDR (entry s a i)) else None))"

definition space_ok :: "u64 \<Rightarrow> nat set \<Rightarrow> tree \<Rightarrow> u64 \<Rightarrow> bool" where
  "space_ok h F tab as \<longleftrightarrow> as \<noteq> NULL \<and> (\<exists>ap off. as = ap + h + off \<and> page_aligned ap \<and> unat off + 24 \<le> 4096
     \<and> ap \<notin> ran tab \<and> brange ap 0 \<inter> F = {})"

text \<open>
  The invariant of an address space: the page pool has free bytes \<open>F\<close>, all below \<open>2 ^ 52\<close>; the tree
  is what the tables in memory say; neither a table nor the \<^verbatim>\<open>struct addr_space\<close> overlaps free
  memory, another table or each other.
\<close>

definition vm_wf :: "'a vmm_state_scheme \<Rightarrow> nat set \<Rightarrow> u64 \<Rightarrow> u64 set \<Rightarrow> tree \<Rightarrow> bool" where
  "vm_wf s F as D tab \<longleftrightarrow>
     (\<exists>FL. buddy_wf s FL \<and> F = free_bytes s FL) \<and> F \<subseteq> {..<2 ^ 52} \<and> vmm_hhdm s = hhdm_offset s
     \<and> tree_ok s D tab \<and> (\<forall>a\<in>ran tab. table_ok (hhdm_offset s) F a)
     \<and> space_ok (hhdm_offset s) F tab as
     \<and> (\<exists>root. tab [] = Some root \<and> as_pml4 (mem s) as = root + hhdm_offset s)"

text \<open>The page-table entry an index list leads to, if it is present.\<close>

definition leaf :: "'a vmm_state_scheme \<Rightarrow> tree \<Rightarrow> u64 list \<Rightarrow> u64 option" where
  "leaf s tab p = (case tab (take 3 p) of None \<Rightarrow> None
     | Some t \<Rightarrow> (if present (entry s t (p ! 3)) then Some (entry s t (p ! 3)) else None))"

section \<open>Entries in memory\<close>

lemma entry_frame:
  assumes "page_aligned a" "i < 512" "\<And>x. unat (x - h) \<in> brange a 0 \<Longrightarrow> m' x = m x"
  shows "load64 m' (entry_addr (a + h) i) = load64 m (entry_addr (a + h) i)"
  unfolding entry_addr_def using assms index_offset(2)[OF assms(2)]
  by (intro load64_in_block[where k = 0]) simp_all

lemma entry_store:
  assumes "page_aligned a" "page_aligned b" "i < 512" "j < 512"
  shows "load64 (store64 m (entry_addr (a + h) i) v) (entry_addr (b + h) j)
    = (if a = b \<and> i = j then v else load64 m (entry_addr (b + h) j))"
proof -
  consider "a = b" "i = j" | "a = b" "i \<noteq> j" | "a \<noteq> b" by blast
  then show ?thesis
  proof cases
    case 2
    then show ?thesis using entries_disjoint[OF assms(3,4)] by (simp add: entry_addr_def load64_store64_disj)
  next
    case 3
    then have "disj_range (a + h + i * 8) 8 (b + h + j * 8) 8"
      using assms index_offset(2) by (intro page_offsets_disjoint_mapped) simp_all
    then show ?thesis using 3 by (simp add: entry_addr_def load64_store64_disj)
  qed simp
qed

lemma store_entry_outside:
  assumes "page_aligned a" "i < 512" "unat (x - h) \<notin> brange a 0"
  shows "store64 m (entry_addr (a + h) i) v x = m x"
proof (rule store64_outside, rule notI)
  assume "x - entry_addr (a + h) i < 8"
  then have "unat (x - h) \<in> brange a 0"
    unfolding entry_addr_def using assms(1) index_offset(2)[OF assms(2)]
    by (intro in_page_block_field[where n = 8]) simp_all
  then show False using assms(3) by blast
qed

text \<open>A field of the address space and an entry of a table.\<close>

lemma space_entry_store:
  assumes "page_aligned a" "i < 512" "page_aligned ap" "a \<noteq> ap" "unat off + 8 \<le> 4096"
  shows "load64 (store64 m (entry_addr (a + h) i) v) (ap + h + off) = load64 m (ap + h + off)"
    and "load64 (store64 m (ap + h + off) v) (entry_addr (a + h) i) = load64 m (entry_addr (a + h) i)"
proof -
  have "disj_range (a + h + i * 8) 8 (ap + h + off) 8"
    using assms index_offset(2)[OF assms(2)] by (intro page_offsets_disjoint_mapped) simp_all
  then show "load64 (store64 m (entry_addr (a + h) i) v) (ap + h + off) = load64 m (ap + h + off)"
    and "load64 (store64 m (ap + h + off) v) (entry_addr (a + h) i) = load64 m (entry_addr (a + h) i)"
    by (simp_all add: entry_addr_def load64_store64_disj disj_range_sym)
qed

section \<open>Walking without creating\<close>

lemma tree_child:
  assumes "tree_ok s D tab" "tab p = Some a" "length p < 3" "valid_path D (p @ [i])"
  shows "tab (p @ [i]) = (if present (entry s a i) then Some (PTE_ADDR (entry s a i)) else None)"
  using assms unfolding tree_ok_def by blast

lemma tree_closed: "tree_ok s D tab \<Longrightarrow> tab p = None \<Longrightarrow> tab (p @ q) = None"
proof (induction q rule: rev_induct)
  case (snoc x xs)
  then show ?case unfolding tree_ok_def append_assoc[symmetric] by blast
qed simp

lemma valid_path_prefix: "valid_path D (p @ q) \<Longrightarrow> valid_path D p"
  by (cases p) (auto simp: valid_path_def)

lemma walk_find:
  assumes ok: "tree_ok s D tab" and h: "vmm_hhdm s = hhdm_offset s"
  shows "tab p = Some a \<Longrightarrow> length p + length is = 4 \<Longrightarrow> is \<noteq> [] \<Longrightarrow> valid_path D (p @ is) \<Longrightarrow>
    walk_levels s (a + hhdm_offset s) is False
      = (case tab (take 3 (p @ is)) of None \<Rightarrow> NULL | Some t \<Rightarrow> entry_addr (t + hhdm_offset s) (last is), s)"
proof (induction "is" arbitrary: p a rule: induct_list012)
  case (2 i)
  then show ?case by simp
next
  case (3 i j ks)
  have len: "length p < 3" using 3 by simp
  have val: "valid_path D (p @ [i])" using valid_path_prefix[of D "p @ [i]" "j # ks"] 3 by simp
  note ch = tree_child[OF ok 3(3) len val]
  show ?case
  proof (cases "present (entry s a i)")
    case False
    then have "tab (p @ [i]) = None" using ch by simp
    moreover have "3 - length p = Suc (2 - length p)" using len by linarith
    then have "take 3 (p @ i # j # ks) = (p @ [i]) @ take (2 - length p) (j # ks)" using len by simp
    ultimately have "tab (take 3 (p @ i # j # ks)) = None"
      using tree_closed[OF ok, of "p @ [i]" "take (2 - length p) (j # ks)"] by (simp only:)
    then show ?thesis using False by (simp add: entry_def present_def Let_def)
  next
    case True
    then have "tab (p @ [i]) = Some (PTE_ADDR (entry s a i))" using ch by simp
    from 3(2)[OF this] show ?thesis
      using 3(4-6) True h by (simp add: entry_def present_def Let_def split: option.split)
  qed
qed simp

section \<open>Creating a table\<close>

lemma alloc_table_zeroed: "vmm_hhdm s = hhdm_offset s \<Longrightarrow> vmm_alloc_page_table s =
   (let (p, t) = bp.alloc_zeroed s in (if p = 0 then NULL else p + hhdm_offset s, t))"
  for s :: "'a vmm_state_scheme"
proof -
  assume h: "vmm_hhdm s = hhdm_offset s"
  obtain p t where a: "buddy_alloc_page s = (p, t)" by fastforce
  have "same_ext s t" using a by (intro same_ext_alloc[of s 0 p]) (simp add: buddy_alloc_page_def)
  then have "vmm_hhdm t = vmm_hhdm s" "hhdm_offset t = hhdm_offset s" by (auto simp: same_ext_def)
  then show ?thesis using a h by (simp add: vmm_alloc_page_table_def pmm_alloc_page_def bp.alloc_zeroed_def Let_def)
qed

lemma alloc_table_cases:
  fixes s :: "'a vmm_state_scheme"
  assumes wf: "vm_wf s F as D tab" and r: "vmm_alloc_page_table s = (pt, t)"
  obtains (fail) "pt = NULL" "t = s" "F = {}"
    | (table) p where "pt = p + hhdm_offset s" "pt \<noteq> NULL" "table_ok (hhdm_offset s) (F - brange p 0) p" "brange p 0 \<subseteq> F"
      "\<exists>FL. buddy_wf t FL \<and> F - brange p 0 = free_bytes t FL" "same_ext s t"
      "\<And>x. unat (x - hhdm_offset s) \<notin> F \<Longrightarrow> mem t x = mem s x" "\<And>i. i < 512 \<Longrightarrow> entry t p i = 0"
proof -
  have h: "vmm_hhdm s = hhdm_offset s" and pool: "\<exists>FL. buddy_wf s FL \<and> F = free_bytes s FL" and F52: "F \<subseteq> {..<2 ^ 52}"
    using wf by (auto simp: vm_wf_def)
  obtain p t' where a: "bp.alloc_zeroed s = (p, t')" by fastforce
  then have eq: "pt = (if p = 0 then NULL else p + hhdm_offset s)" "t = t'"
    using r alloc_table_zeroed[OF h] by simp_all
  show thesis
  proof (cases "p = 0")
    case True
    then have "buddy_alloc_page s = (0, t')" using a by (auto simp: bp.alloc_zeroed_def split: prod.splits if_splits)
    then show thesis using bp.alloc_fail[OF pool] fail eq True by simp
  next
    case False
    note z = bp.alloc_zeroed_page[OF pool a False]
    have "unat p \<in> F" using z(2) brange_nonempty by blast
    then have "unat p < 2 ^ 52" using F52 by blast
    then have tok: "table_ok (hhdm_offset s) (F - brange p 0) p" using z by (auto simp: table_ok_def)
    obtain u where u: "buddy_alloc_page s = (p, u)" "t' = u\<lparr>mem := memset (mem u) (p + hhdm_offset u) 0 4096\<rparr>"
      using a False by (auto simp: bp.alloc_zeroed_def split: prod.splits if_splits)
    have "same_ext s u" using u(1) by (intro same_ext_alloc[of s 0 p]) (simp add: buddy_alloc_page_def)
    then have ext: "same_ext s t'" unfolding u(2) by (rule same_ext_trans) (rule same_ext_mem)
    have "entry t' p i = 0" if "i < 512" for i
    proof -
      have "entry t' p i = load64 (\<lambda>_. 0) (entry_addr (p + hhdm_offset s) i)"
        unfolding entry_def z(4) by (rule entry_frame[OF z(1) that]) (rule z(8))
      then show ?thesis by (simp add: load64_def word_rcat_def)
    qed
    then show thesis using table[of p] z eq False tok ext by auto
  qed
qed

section \<open>Linking a new table into the tree\<close>

text \<open>Nothing in the tree sees a change of bytes that were free.\<close>

lemma vm_wf_hhdm: "vm_wf s F as D tab \<Longrightarrow> vmm_hhdm s = hhdm_offset s"
  by (simp add: vm_wf_def)

lemma vm_wf_table: "vm_wf s F as D tab \<Longrightarrow> tab p = Some a \<Longrightarrow> table_ok (hhdm_offset s) F a"
  by (auto simp: vm_wf_def ran_def)

lemma entry_unchanged:
  assumes "hhdm_offset t = hhdm_offset s" "\<And>x. unat (x - hhdm_offset s) \<notin> F \<Longrightarrow> mem t x = mem s x"
    and "table_ok (hhdm_offset s) F b" "j < 512"
  shows "entry t b j = entry s b j"
  unfolding entry_def assms(1) using assms(3) by (intro entry_frame assms(2)) (auto simp: table_ok_def assms(4))

lemma space_unchanged:
  assumes "space_ok h F tab as" "\<And>x. unat (x - h) \<notin> F \<Longrightarrow> m' x = m x" "k \<in> {0, 8, 16}"
  shows "load64 m' (as + k) = load64 m (as + k)"
proof -
  obtain ap off where ap: "as = ap + h + off" "page_aligned ap" "unat off + 24 \<le> 4096" "brange ap 0 \<inter> F = {}"
    using assms(1) by (auto simp: space_ok_def)
  have "unat (off + k) + 8 \<le> 4096" using ap(3) assms(3) by (auto simp: unat_word_ariths)
  then have "load64 m' (ap + h + (off + k)) = load64 m (ap + h + (off + k))"
    using ap by (intro load64_in_block[where k = 0] assms(2)) auto
  then show ?thesis using ap(1) by (simp add: add.assoc)
qed

lemma space_store_entry:
  assumes "space_ok h F tab as" "tab p = Some a" "page_aligned a" "i < 512" "k \<in> {0, 8, 16}"
  shows "load64 (store64 m (entry_addr (a + h) i) v) (as + k) = load64 m (as + k)"
    and "load64 (store64 m (as + k) v) (entry_addr (a + h) i) = load64 m (entry_addr (a + h) i)"
proof -
  obtain ap off where ap: "as = ap + h + off" "page_aligned ap" "unat off + 24 \<le> 4096" "ap \<notin> ran tab"
    using assms(1) by (auto simp: space_ok_def)
  have "unat (off + k) + 8 \<le> 4096" using ap(3) assms(5) by (auto simp: unat_word_ariths)
  moreover have "a \<noteq> ap" using ap(4) assms(2) by (auto simp: ran_def)
  ultimately show "load64 (store64 m (entry_addr (a + h) i) v) (as + k) = load64 m (as + k)"
    and "load64 (store64 m (as + k) v) (entry_addr (a + h) i) = load64 m (entry_addr (a + h) i)"
    using space_entry_store[OF assms(3,4) ap(2), of "off + k"] ap(1) by (simp_all add: add.assoc)
qed

lemma tree_ok_link:
  assumes ok: "tree_ok s D tab" and p: "tab p = Some a" "length p < 3" "valid_path D (p @ [i])" "tab (p @ [i]) = None"
    and q: "q \<notin> ran tab" "\<And>j. j < 512 \<Longrightarrow> \<not> present (entry t q j)"
    and e: "present (entry t a i)" "PTE_ADDR (entry t a i) = q"
    and other: "\<And>r b j. tab r = Some b \<Longrightarrow> j < 512 \<Longrightarrow> \<not> (b = a \<and> j = i) \<Longrightarrow> entry t b j = entry s b j"
  shows "tree_ok t D (tab(p @ [i] \<mapsto> q))"
proof -
  let ?tab = "tab(p @ [i] \<mapsto> q)"
  have inj: "tab r = Some b \<Longrightarrow> tab r' = Some b \<Longrightarrow> r = r'" for r r' b using ok unfolding tree_ok_def by blast
  have "?tab (r @ [j]) = None" if "?tab r = None" for r j
  proof -
    have r: "tab r = None" using that by (simp split: if_splits)
    then have "r \<noteq> p" using p(1) by auto
    then show ?thesis using tree_closed[OF ok r, of "[j]"] by simp
  qed
  moreover have "?tab (r @ [j]) = (if present (entry t b j) then Some (PTE_ADDR (entry t b j)) else None)"
    if r: "?tab r = Some b" "length r < 3" "valid_path D (r @ [j])" for r b j
  proof -
    have j: "j < 512" using r(3) by (simp add: valid_path_def)
    show ?thesis
    proof (cases "r = p @ [i]")
      case True
      then have "b = q" "tab (r @ [j]) = None" using r(1) tree_closed[OF ok p(4), of "[j]"] by auto
      then show ?thesis using q(2)[OF j] True by simp
    next
      case False
      then have b: "tab r = Some b" using r(1) by simp
      note ch = tree_child[OF ok b r(2,3)]
      show ?thesis
      proof (cases "b = a \<and> j = i")
        case True
        then have "r = p" using inj[OF b] p(1) by blast
        then show ?thesis using True e by simp
      next
        case F: False
        then have "r @ [j] \<noteq> p @ [i]" using b p(1) by auto
        then have "?tab (r @ [j]) = tab (r @ [j])" by (rule fun_upd_other)
        then show ?thesis using ch other[OF b j F] by (simp only:)
      qed
    qed
  qed
  moreover have "r = r'" if "?tab r = Some b" "?tab r' = Some b" for r r' b
    using that q(1) inj by (auto simp: ran_def split: if_splits)
  moreover have "valid_path D r \<and> length r \<le> 3" if "?tab r = Some b" for r b
  proof (cases "r = p @ [i]")
    case False
    then have "tab r = Some b" using that by simp
    then show ?thesis using ok unfolding tree_ok_def by blast
  qed (use p in simp)
  ultimately show ?thesis unfolding tree_ok_def by blast
qed

text \<open>One new level: allocate a table and store its address in an absent entry.\<close>

lemma link_table:
  fixes s t :: "'a vmm_state_scheme"
  assumes wf: "vm_wf s F as D tab" and p: "tab p = Some a" "length p < 3" "valid_path D (p @ [i])"
    and absent: "\<not> present (entry s a i)"
    and q: "table_ok (hhdm_offset s) (F - brange q 0) q" "brange q 0 \<subseteq> F"
    and pool: "\<exists>FL. buddy_wf t FL \<and> F - brange q 0 = free_bytes t FL" and ext: "same_ext s t"
    and same: "\<And>x. unat (x - hhdm_offset s) \<notin> F \<Longrightarrow> mem t x = mem s x" and zero: "\<And>j. j < 512 \<Longrightarrow> entry t q j = 0"
  defines "v \<equiv> q OR PTE_PRESENT OR PTE_WRITABLE OR PTE_USER"
  defines "u \<equiv> t\<lparr>mem := store64 (mem t) (entry_addr (a + hhdm_offset s) i) v\<rparr>"
  shows "vm_wf u (F - brange q 0) as D (tab(p @ [i] \<mapsto> q))" and "entry u a i = v"
    and "length js = 4 \<Longrightarrow> valid_path D js \<Longrightarrow> leaf u (tab(p @ [i] \<mapsto> q)) js = leaf s tab js"
    and "as_total_pages (mem u) as = as_total_pages (mem s) as"
proof -
  let ?h = "hhdm_offset s" and ?tab = "tab(p @ [i] \<mapsto> q)"
  have ok: "tree_ok s D tab" and sp: "space_ok ?h F tab as" and h: "vmm_hhdm s = ?h" "hhdm_offset t = ?h" "vmm_hhdm t = ?h"
    using wf ext by (auto simp: vm_wf_def same_ext_def)
  have i: "i < 512" using p(3) by (simp add: valid_path_def)
  note ta = vm_wf_table[OF wf p(1)]
  have al: "page_aligned a" "page_aligned q" using ta q by (auto simp: table_ok_def)
  have nF: "b \<noteq> q" if "tab r = Some b" for r b
    using vm_wf_table[OF wf that] q(2) brange_nonempty[of q 0] by (auto simp: table_ok_def)
  have ent_t: "entry t b j = entry s b j" if "tab r = Some b" "j < 512" for r b j
    using entry_unchanged[OF h(2) same vm_wf_table[OF wf that(1)] that(2)] .
  have ent_u: "entry u b j = (if a = b \<and> i = j then v else entry t b j)" if "page_aligned b" "j < 512" for b j
    using entry_store[OF al(1) that(1) i that(2)] by (simp add: u_def entry_def h)
  show "entry u a i = v" using ent_u[OF al(1) i] by simp
  have ent: "entry u b j = entry s b j" if "tab r = Some b" "j < 512" "\<not> (b = a \<and> j = i)" for r b j
    using ent_u[of b j] that vm_wf_table[OF wf that(1)] ent_t[OF that(1,2)] by (auto simp: table_ok_def)
  have none: "tab (p @ [i]) = None" using tree_child[OF ok p] absent by simp
  have q0: "entry u q j = 0" if "j < 512" for j using ent_u[OF al(2) that] nF[OF p(1)] zero[OF that] by simp
  have qa: "unat q < 2 ^ 52" using q(1) by (simp add: table_ok_def)
  note v = PTE_ADDR_new_table[OF al(2) qa, folded v_def]
  have tree: "tree_ok u D ?tab"
    using ok p none
  proof (rule tree_ok_link)
    show "q \<notin> ran tab" using nF by (auto simp: ran_def)
    show "\<not> present (entry u q j)" if "j < 512" for j using q0[OF that] by (simp add: present_def)
  qed (use v \<open>entry u a i = v\<close> ent in auto)
  have leaf: "leaf u ?tab js = leaf s tab js" if js: "length js = 4" "valid_path D js" for js
  proof -
    have j3: "js ! 3 < 512" using js by (simp add: valid_path_def)
    show ?thesis
    proof (cases "take 3 js = p @ [i]")
      case True
      then show ?thesis using none q0[OF j3] by (simp add: leaf_def present_def)
    next
      case False
      have "entry u b (js ! 3) = entry s b (js ! 3)" if b: "tab (take 3 js) = Some b" for b
      proof (rule ent[OF b j3], rule notI)
        assume "b = a \<and> js ! 3 = i"
        then have "take 3 js = p" using ok b p(1) unfolding tree_ok_def by blast
        then show False using js(1) p(2) arg_cong[of _ _ length] by fastforce
      qed
      then show ?thesis using False by (auto simp: leaf_def split: option.split)
    qed
  qed
  then show "length js = 4 \<Longrightarrow> valid_path D js \<Longrightarrow> leaf u ?tab js = leaf s tab js" by blast
  have fld: "load64 (mem u) (as + k) = load64 (mem s) (as + k)" if "k \<in> {0, 8, 16}" for k
    using space_store_entry(1)[OF sp p(1) al(1) i that] space_unchanged[OF sp same that] by (simp add: u_def)
  from fld[of 8] show "as_total_pages (mem u) as = as_total_pages (mem s) as" by (simp add: as_total_pages_def)
  have "\<exists>FL. buddy_wf u FL \<and> F - brange q 0 = free_bytes u FL"
    unfolding u_def using ta
    by (intro bp.pool_frame[OF pool]) (auto simp: h table_ok_def intro!: store_entry_outside i)
  moreover have "table_ok ?h (F - brange q 0) b" if "b \<in> ran ?tab" for b
    using that q(1) vm_wf_table[OF wf] none by (fastforce simp: ran_def table_ok_def split: if_splits)
  moreover have "space_ok ?h (F - brange q 0) ?tab as"
    using sp q(2) brange_nonempty[of q 0] none by (force simp: space_ok_def)
  ultimately show "vm_wf u (F - brange q 0) as D ?tab"
    using wf tree h fld[of 0] unfolding vm_wf_def by (auto simp: u_def as_pml4_def)
qed

lemma entry_addr_nonnull: "table_ok h F a \<Longrightarrow> i < 512 \<Longrightarrow> entry_addr (a + h) i \<noteq> NULL"
proof
  assume t: "table_ok h F a" and i: "i < 512" and z: "entry_addr (a + h) i = NULL"
  have le: "unat a + unat h + 4096 \<le> 2 ^ 64" "a + h \<noteq> 0" using t by (auto simp: table_ok_def)
  have ah: "unat (a + h) = unat a + unat h" using le by (intro unat_plus64) simp
  have "unat (a + h + i * 8) = unat (a + h) + unat (i * 8)"
    unfolding ah using le index_offset(2)[OF i] by (subst unat_plus64) (simp_all add: ah)
  then have "unat (a + h) = 0" using z by (simp add: entry_addr_def)
  then show False using le(2) by (simp add: unat_eq_0)
qed

text \<open>
  What a creating walk guarantees: the address space stays well formed with possibly more tables
  and less free memory, every page is mapped as before, and the walk either reaches the entry or
  has used up all pages.
\<close>

definition walk_post :: "'a vmm_state_scheme \<Rightarrow> nat set \<Rightarrow> u64 \<Rightarrow> u64 set \<Rightarrow> tree \<Rightarrow> u64 list \<Rightarrow> u64 \<Rightarrow> 'a vmm_state_scheme \<Rightarrow> bool" where
  "walk_post s F as D tab p r t \<longleftrightarrow> (\<exists>F' tab'. vm_wf t F' as D tab' \<and> F' \<subseteq> F \<and> hhdm_offset t = hhdm_offset s
     \<and> (\<forall>js. length js = 4 \<longrightarrow> valid_path D js \<longrightarrow> leaf t tab' js = leaf s tab js)
     \<and> as_total_pages (mem t) as = as_total_pages (mem s) as
     \<and> (if r = NULL then F' = {} else \<exists>q. tab' (take 3 p) = Some q \<and> r = entry_addr (q + hhdm_offset s) (p ! 3)))"

lemma walk_create:
  fixes s :: "'a vmm_state_scheme"
  shows "vm_wf s F as D tab \<Longrightarrow> tab p = Some a \<Longrightarrow> length p + length is = 4 \<Longrightarrow> is \<noteq> [] \<Longrightarrow> valid_path D (p @ is)
    \<Longrightarrow> walk_levels s (a + hhdm_offset s) is True = (r, t) \<Longrightarrow> walk_post s F as D tab (p @ is) r t"
proof (induction "is" arbitrary: s F tab p a rule: induct_list012)
  case (2 i)
  have "i < 512" using 2(5) by (simp add: valid_path_def)
  then have "entry_addr (a + hhdm_offset s) i \<noteq> NULL" by (rule entry_addr_nonnull[OF vm_wf_table[OF 2(1,2)]])
  moreover have "length p = 3" using 2(3) by simp
  ultimately have "tab (take 3 (p @ [i])) = Some a \<and> r = entry_addr (a + hhdm_offset s) ((p @ [i]) ! 3) \<and> r \<noteq> NULL \<and> t = s"
    using 2(2,6) by (auto simp: nth_append)
  then show ?case using 2(1) unfolding walk_post_def by (intro exI[of _ F] exI[of _ tab]) auto
next
  case (3 i j ks)
  let ?h = "hhdm_offset s"
  have len: "length p < 3" and val: "valid_path D (p @ [i])"
    using 3(5) valid_path_prefix[of D "p @ [i]" "j # ks"] 3(7) by simp_all
  have ok: "tree_ok s D tab" and h: "vmm_hhdm s = ?h" using 3(3) by (simp_all add: vm_wf_def)
  note ch = tree_child[OF ok 3(4) len val]
  have lens: "length (p @ [i]) + length (j # ks) = 4" "valid_path D ((p @ [i]) @ j # ks)" using 3(5,7) by simp_all
  show ?case
  proof (cases "present (entry s a i)")
    case True
    then have "tab (p @ [i]) = Some (PTE_ADDR (entry s a i))" using ch by simp
    moreover have "walk_levels s (PTE_ADDR (entry s a i) + ?h) (j # ks) True = (r, t)"
      using 3(8) True h by (simp add: entry_def present_def Let_def)
    ultimately show ?thesis using 3(2)[OF 3(3) _ lens(1) _ lens(2)] by simp
  next
    case absent: False
    obtain pt u where al: "vmm_alloc_page_table s = (pt, u)" by fastforce
    from 3(3) al show ?thesis
    proof (cases rule: alloc_table_cases)
      case fail
      then have "r = NULL" "t = s" using 3(8) absent al by (simp_all add: entry_def present_def Let_def)
      then show ?thesis using 3(3) fail(3) unfolding walk_post_def by (intro exI[of _ F] exI[of _ tab]) auto
    next
      case (table q)
      let ?v = "q OR PTE_PRESENT OR PTE_WRITABLE OR PTE_USER" and ?tab = "tab(p @ [i] \<mapsto> q)"
      let ?w = "u\<lparr>mem := store64 (mem u) (entry_addr (a + ?h) i) ?v\<rparr>"
      note link = link_table[OF 3(3,4) len val absent table(3-8)]
      have hu: "vmm_hhdm u = ?h" "hhdm_offset u = ?h" using table(6) h by (auto simp: same_ext_def)
      have "PTE_ADDR ?v = q" using PTE_ADDR_new_table(1)[of q] table(3) by (simp add: table_ok_def)
      then have "walk_levels ?w (q + hhdm_offset ?w) (j # ks) True = (r, t)"
        using 3(8) absent al table(1,2) hu by (simp add: entry_def present_def Let_def)
      moreover have "?tab (p @ [i]) = Some q" by simp
      ultimately have "walk_post ?w (F - brange q 0) as D ?tab ((p @ [i]) @ j # ks) r t"
        using 3(2)[OF link(1) _ lens(1) _ lens(2)] by blast
      then show ?thesis
        using link(3,4) hu unfolding walk_post_def by (elim exE, intro exI) (auto simp: split: if_splits)
    qed
  qed
qed simp

section \<open>Translation\<close>

definition covers :: "u64 set \<Rightarrow> u64 \<Rightarrow> bool" where
  "covers D v \<longleftrightarrow> PML4_INDEX v \<in> D"

lemma valid_indices: "covers D v \<Longrightarrow> valid_path D (indices v)" "length (indices v) = 4"
  using indices_bound[of _ v] by (auto simp: valid_path_def covers_def indices_def)

lemma indices_nth3 [simp]: "indices v ! 3 = PT_INDEX v" "last (indices v) = PT_INDEX v"
  by (simp_all add: indices_def)

lemma PAGE_MASK_mask: "PAGE_MASK = NOT (mask 12)"
  by (simp add: PAGE_MASK_def mask_eq_exp_minus_1)

lemma bit_align_down: "bit (vmm_page_align_down v) n \<longleftrightarrow> bit v n \<and> 12 \<le> n"
  by (auto simp: vmm_page_align_down_def PAGE_MASK_mask bit_simps dest: bit_imp_le_length)

lemma vpage_align_down [simp]: "vpage (vmm_page_align_down v) = vpage v"
  by (rule bit_eqI) (auto simp: vpage_def bit_simps bit_align_down)

lemma indices_align_down [simp]: "indices (vmm_page_align_down v) = indices v"
  by (simp add: indices_eq_iff)

lemma covers_align_down [simp]: "covers D (vmm_page_align_down v) \<longleftrightarrow> covers D v"
  using indices_align_down[of v] by (simp add: covers_def indices_def)

lemma space_root:
  assumes "vm_wf s F as D tab"
  obtains root where "tab [] = Some root" "as_pml4 (mem s) as = root + hhdm_offset s" "as_pml4 (mem s) as \<noteq> NULL" "as \<noteq> NULL"
  using assms by (auto simp: vm_wf_def ran_def table_ok_def space_ok_def)

lemma walk_indices: "as \<noteq> NULL \<Longrightarrow> as_pml4 (mem s) as \<noteq> NULL \<Longrightarrow>
    vmm_walk_page_table s as v c = walk_levels s (as_pml4 (mem s) as) (indices v) c"
  unfolding vmm_walk_page_table_def indices_def by (rule if_not_P) blast

lemma walk_no_create:
  assumes wf: "vm_wf s F as D tab" and v: "covers D v"
  shows "vmm_walk_page_table s as v False
    = (case tab (take 3 (indices v)) of None \<Rightarrow> NULL | Some q \<Rightarrow> entry_addr (q + hhdm_offset s) (PT_INDEX v), s)"
proof -
  obtain root where root: "tab [] = Some root" "as_pml4 (mem s) as = root + hhdm_offset s" "as_pml4 (mem s) as \<noteq> NULL" "as \<noteq> NULL"
    using wf by (rule space_root)
  have ok: "tree_ok s D tab" and h: "vmm_hhdm s = hhdm_offset s" using wf by (simp_all add: vm_wf_def)
  have "walk_levels s (root + hhdm_offset s) (indices v) False
    = (case tab (take 3 ([] @ indices v)) of None \<Rightarrow> NULL | Some q \<Rightarrow> entry_addr (q + hhdm_offset s) (last (indices v)), s)"
    using valid_indices(1)[OF v] by (intro walk_find[OF ok h root(1)]) (auto simp: indices_def)
  then show ?thesis unfolding walk_indices[OF root(4,3)] root(2) by (simp split: option.split)
qed

lemma walk_entry:
  assumes wf: "vm_wf s F as D tab" and v: "covers D v" and w: "vmm_walk_page_table s as v False = (pte, t)"
  shows "t = s" and "pte \<noteq> NULL \<and> present (load64 (mem s) pte) \<longleftrightarrow> leaf s tab (indices v) \<noteq> None"
    and "pte \<noteq> NULL \<Longrightarrow> present (load64 (mem s) pte) \<Longrightarrow> leaf s tab (indices v) = Some (load64 (mem s) pte)
      \<and> (\<exists>q. tab (take 3 (indices v)) = Some q \<and> pte = entry_addr (q + hhdm_offset s) (PT_INDEX v))"
proof -
  have nn: "entry_addr (q + hhdm_offset s) (PT_INDEX v) \<noteq> NULL" if "tab (take 3 (indices v)) = Some q" for q
    using vm_wf_table[OF wf that] indices_bound[of "PT_INDEX v" v] by (intro entry_addr_nonnull) (simp_all add: indices_def)
  show "t = s" and "pte \<noteq> NULL \<and> present (load64 (mem s) pte) \<longleftrightarrow> leaf s tab (indices v) \<noteq> None"
    and "pte \<noteq> NULL \<Longrightarrow> present (load64 (mem s) pte) \<Longrightarrow> leaf s tab (indices v) = Some (load64 (mem s) pte)
      \<and> (\<exists>q. tab (take 3 (indices v)) = Some q \<and> pte = entry_addr (q + hhdm_offset s) (PT_INDEX v))"
    using w nn unfolding walk_no_create[OF wf v] by (auto simp: leaf_def entry_def split: option.splits)
qed

lemma virt_to_phys_leaf:
  assumes wf: "vm_wf s F as D tab" and v: "covers D v"
  shows "vmm_virt_to_phys s as v = (case leaf s tab (indices v) of None \<Rightarrow> 0 | Some e \<Rightarrow> PTE_ADDR e OR PAGE_OFFSET v)"
proof -
  obtain pte t where w: "vmm_walk_page_table s as v False = (pte, t)" by fastforce
  note e = walk_entry[OF wf v w]
  have "as \<noteq> NULL" using wf by (auto simp: vm_wf_def space_ok_def)
  then show ?thesis using w e by (auto simp: vmm_virt_to_phys_def present_def split: option.splits)
qed

section \<open>Writing a leaf entry and the page count\<close>

lemma store_leaf:
  fixes s :: "'a vmm_state_scheme" and e :: u64
  assumes wf: "vm_wf s F as D tab" and js: "tab (take 3 js) = Some q" "length js = 4" "valid_path D js"
  defines "u \<equiv> s\<lparr>mem := store64 (mem s) (entry_addr (q + hhdm_offset s) (js ! 3)) e\<rparr>"
  shows "vm_wf u F as D tab"
    and "length ks = 4 \<Longrightarrow> valid_path D ks \<Longrightarrow>
      leaf u tab ks = (if ks = js then (if present e then Some e else None) else leaf s tab ks)"
    and "as_total_pages (mem u) as = as_total_pages (mem s) as"
proof -
  let ?h = "hhdm_offset s"
  have ok: "tree_ok s D tab" and sp: "space_ok ?h F tab as" using wf by (auto simp: vm_wf_def)
  have j3: "js ! 3 < 512" using js(2,3) by (simp add: valid_path_def)
  have tq: "table_ok ?h F q" using vm_wf_table[OF wf js(1)] .
  have al: "page_aligned q" using tq by (simp add: table_ok_def)
  have inj: "tab r = Some b \<Longrightarrow> tab r' = Some b \<Longrightarrow> r = r'" for r r' b using ok unfolding tree_ok_def by blast
  have ent: "entry u b j = (if q = b \<and> js ! 3 = j then e else entry s b j)" if "tab r = Some b" "j < 512" for r b j
    using entry_store[OF al _ j3 that(2), of b] vm_wf_table[OF wf that(1)] by (simp add: u_def entry_def table_ok_def)
  have fld: "load64 (mem u) (as + k) = load64 (mem s) (as + k)" if "k \<in> {0, 8, 16}" for k
    using space_store_entry(1)[OF sp js(1) al j3 that] by (simp add: u_def)
  from fld[of 8] show "as_total_pages (mem u) as = as_total_pages (mem s) as" by (simp add: as_total_pages_def)
  have "entry u b j = entry s b j" if "tab r = Some b" "length r < 3" "j < 512" for r b j
    using ent[OF that(1,3)] inj[OF that(1)] js(1,2) that(2) by (auto dest: arg_cong[of _ _ length])
  then have "tree_ok u D tab"
    using ok unfolding tree_ok_def by (auto simp: valid_path_def)
  moreover have "\<exists>FL. buddy_wf u FL \<and> F = free_bytes u FL"
    unfolding u_def using wf tq al j3
    by (intro bp.pool_frame) (auto simp: vm_wf_def table_ok_def intro!: store_entry_outside)
  ultimately show "vm_wf u F as D tab" using wf fld[of 0] unfolding vm_wf_def by (auto simp: u_def as_pml4_def)
  show "leaf u tab ks = (if ks = js then (if present e then Some e else None) else leaf s tab ks)"
    if ks: "length ks = 4" "valid_path D ks"
  proof -
    have k3: "ks ! 3 < 512" using ks by (simp add: valid_path_def)
    have eq: "xs = take 3 xs @ [xs ! 3]" if "length xs = 4" for xs :: "u64 list"
      using that by (auto simp: numeral_eq_Suc length_Suc_conv)
    have "q = b \<and> js ! 3 = ks ! 3 \<longleftrightarrow> ks = js" if "tab (take 3 ks) = Some b" for b
    proof
      assume "q = b \<and> js ! 3 = ks ! 3"
      then have "take 3 ks = take 3 js" "ks ! 3 = js ! 3" using inj[OF that] js(1) by auto
      then show "ks = js" using eq[OF ks(1)] eq[OF js(2)] by simp
    qed (use that js(1) in simp)
    then have "entry u b (ks ! 3) = (if ks = js then e else entry s b (ks ! 3))" if "tab (take 3 ks) = Some b" for b
      using ent[OF that k3] that by simp
    moreover have "tab (take 3 ks) = Some q" if "ks = js" using that js(1) by simp
    ultimately show ?thesis by (cases "tab (take 3 ks)") (auto simp: leaf_def)
  qed
qed

lemma store_total:
  fixes s :: "'a vmm_state_scheme" and n :: u64
  assumes wf: "vm_wf s F as D tab"
  defines "u \<equiv> s\<lparr>mem := store64 (mem s) (as + 8) n\<rparr>"
  shows "vm_wf u F as D tab" and "length ks = 4 \<Longrightarrow> valid_path D ks \<Longrightarrow> leaf u tab ks = leaf s tab ks"
    and "as_total_pages (mem u) as = n"
proof -
  let ?h = "hhdm_offset s"
  have sp: "space_ok ?h F tab as" and ok: "tree_ok s D tab" using wf by (auto simp: vm_wf_def)
  have ent: "entry u b j = entry s b j" if "tab r = Some b" "j < 512" for r b j
    using space_store_entry(2)[OF sp that(1) _ that(2), of 8] vm_wf_table[OF wf that(1)] by (simp add: u_def entry_def table_ok_def)
  show "as_total_pages (mem u) as = n" by (simp add: u_def as_total_pages_def)
  show "length ks = 4 \<Longrightarrow> valid_path D ks \<Longrightarrow> leaf u tab ks = leaf s tab ks"
    using ent by (auto simp: leaf_def valid_path_def split: option.split)
  have "as_pml4 (mem u) as = as_pml4 (mem s) as"
    by (simp add: u_def as_pml4_def load64_store64_disj disj_range_def)
  moreover have "tree_ok u D tab" using ok ent unfolding tree_ok_def by (auto simp: valid_path_def)
  moreover have "\<exists>FL. buddy_wf u FL \<and> F = free_bytes u FL"
  proof -
    obtain ap off where ap: "as = ap + ?h + off" "page_aligned ap" "unat off + 24 \<le> 4096" "brange ap 0 \<inter> F = {}"
      using sp by (auto simp: space_ok_def)
    have "\<not> x - (as + 8) < 8" if "unat (x - ?h) \<in> F" for x
    proof
      assume "x - (as + 8) < 8"
      then have "x - (ap + ?h + (off + 8)) < 8" using ap(1) by (simp add: add.assoc)
      moreover have "unat (off + 8) + unat (8 :: u64) \<le> 4096" using ap(3) by (simp add: unat_word_ariths)
      ultimately have "unat (x - ?h) \<in> brange ap 0" using ap(2) by (intro in_page_block_field[where n = 8]) simp_all
      then show False using ap(4) that by blast
    qed
    then show ?thesis unfolding u_def using wf by (intro bp.pool_frame) (auto simp: vm_wf_def store64_outside)
  qed
  ultimately show "vm_wf u F as D tab" using wf unfolding vm_wf_def by (auto simp: u_def)
qed

end
