(* ===== verification/Vmm_Correct.thy ===== *)
theory Vmm_Correct
  imports Vmm_Tree
begin

text \<open>
  What mapping, unmapping and translating promise: each operation as a step on the abstract view of
  an address space (the entry of every virtual page), then the ranges, where a failed mapping is
  rolled back.
\<close>

section \<open>Mapping and unmapping one page\<close>

text \<open>The abstract view of an address space: the entry each virtual page is mapped by.\<close>

definition view :: "'a vmm_state_scheme \<Rightarrow> tree \<Rightarrow> u64 \<Rightarrow> u64 option" where
  "view s tab v = leaf s tab (indices v)"

lemma view_vpage: "vpage v = vpage w \<Longrightarrow> view s tab v = view s tab w"
  by (simp add: view_def flip: indices_eq_iff)

text \<open>
  One step of an address space: its invariant is kept, free memory does not grow, the view changes
  as \<open>f\<close> says on the pages of \<open>D\<close>, and the page count by \<open>n\<close>.
\<close>

definition vm_step :: "'a vmm_state_scheme \<Rightarrow> nat set \<Rightarrow> u64 \<Rightarrow> u64 set \<Rightarrow> tree \<Rightarrow> 'a vmm_state_scheme \<Rightarrow> nat set \<Rightarrow> tree
    \<Rightarrow> (u64 \<Rightarrow> u64 option) \<Rightarrow> u64 \<Rightarrow> bool" where
  "vm_step s F as D tab t F' tab' f n \<longleftrightarrow> vm_wf t F' as D tab' \<and> F' \<subseteq> F
     \<and> (\<forall>w. covers D w \<longrightarrow> view t tab' w = f w)
     \<and> as_total_pages (mem t) as = as_total_pages (mem s) as + n"

definition flags_ok :: "u64 \<Rightarrow> bool" where
  "flags_ok f \<longleftrightarrow> f AND 0x000FFFFFFFFFF000 = 0"

lemma flags_ok_bits: "flags_ok f \<Longrightarrow> 12 \<le> n \<Longrightarrow> n < 52 \<Longrightarrow> \<not> bit f n"
proof
  assume a: "flags_ok f" "12 \<le> n" "n < 52" "bit f n"
  then have "bit (f AND 0x000FFFFFFFFFF000) n" by (simp add: bit_and_iff bit_addr_mask del: bit_numeral_word_iff)
  then show False using a(1) by (simp add: flags_ok_def)
qed

lemma map_page_step:
  fixes s :: "'a vmm_state_scheme"
  assumes wf: "vm_wf s F as D tab" and v: "covers D v" and r: "vmm_map_page_no_flush s as v p flags = (r, t)"
  shows "\<exists>F' tab'. (r = 0 \<and> view s tab v = None \<and> vm_step s F as D tab t F' tab'
        (\<lambda>w. if vpage w = vpage v then Some (vmm_page_align_down p OR flags OR PTE_PRESENT) else view s tab w) 1)
    \<or> (r = -1 \<and> (view s tab v \<noteq> None \<or> F' = {}) \<and> vm_step s F as D tab t F' tab' (view s tab) 0)"
proof -
  obtain root where root: "tab [] = Some root" "as_pml4 (mem s) as = root + hhdm_offset s" "as_pml4 (mem s) as \<noteq> NULL" "as \<noteq> NULL"
    using wf by (rule space_root)
  let ?is = "indices v" and ?e = "vmm_page_align_down p OR flags OR PTE_PRESENT"
  obtain pte u where w: "walk_levels s (root + hhdm_offset s) ?is True = (pte, u)" by fastforce
  have "walk_post s F as D tab ([] @ ?is) pte u"
    using valid_indices(1)[OF v] by (intro walk_create[OF wf root(1) _ _ _ w]) (auto simp: indices_def)
  then obtain F' tab' where post: "vm_wf u F' as D tab'" "F' \<subseteq> F" "hhdm_offset u = hhdm_offset s"
      "\<And>js. length js = 4 \<Longrightarrow> valid_path D js \<Longrightarrow> leaf u tab' js = leaf s tab js"
      "as_total_pages (mem u) as = as_total_pages (mem s) as"
      "if pte = NULL then F' = {} else \<exists>q. tab' (take 3 ?is) = Some q \<and> pte = entry_addr (q + hhdm_offset s) (?is ! 3)"
    unfolding walk_post_def append_Nil by blast
  have vw: "view u tab' x = view s tab x" if "covers D x" for x
    using post(4)[OF valid_indices(2) valid_indices(1)[OF that]] by (simp add: view_def)
  have w': "vmm_walk_page_table s as (vmm_page_align_down v) True = (pte, u)"
    using w unfolding walk_indices[OF root(4,3)] by (simp add: root(2))
  have same: "vm_step s F as D tab u F' tab' (view s tab) 0" using post vw by (simp add: vm_step_def)
  show ?thesis
  proof (cases "pte = NULL")
    case True
    then have "r = -1" "t = u" using r root(4) w' by (auto simp: vmm_map_page_no_flush_def)
    then show ?thesis using True same post(6) by auto
  next
    case False
    then obtain q where q: "tab' (take 3 ?is) = Some q" "pte = entry_addr (q + hhdm_offset u) (?is ! 3)" using post(3,6) by auto
    have lf: "view u tab' v = (if present (load64 (mem u) pte) then Some (load64 (mem u) pte) else None)"
      using q by (simp add: view_def leaf_def entry_def)
    show ?thesis
    proof (cases "present (load64 (mem u) pte)")
      case True
      then have "r = -1" "t = u" using r root(4) w' False by (auto simp: vmm_map_page_no_flush_def present_def)
      then show ?thesis using same lf vw[OF v] True by auto
    next
      case abs: False
      let ?m = "store64 (mem u) pte ?e"
      have t: "r = 0" "t = u\<lparr>mem := store64 ?m (as + 8) (as_total_pages ?m as + 1)\<rparr>"
        using r root(4) w' False abs by (auto simp: vmm_map_page_no_flush_def present_def Let_def)
      note l = store_leaf[OF post(1) q(1) valid_indices(2) valid_indices(1)[OF v], where e = ?e, folded q(2)]
      note l2 = store_total[OF l(1), where n = "as_total_pages ?m as + 1"]
      have pr: "present ?e" by (simp add: present_iff PTE_PRESENT_def bit_simps)
      have "view t tab' x = (if vpage x = vpage v then Some ?e else view s tab x)" if "covers D x" for x
        using l(2)[OF valid_indices(2) valid_indices(1)[OF that]] l2(2)[OF valid_indices(2) valid_indices(1)[OF that]] vw[OF that] pr t(2)
        by (simp add: view_def indices_eq_iff)
      moreover have "vm_wf t F' as D tab'" using l2(1) t(2) by simp
      moreover have "as_total_pages (mem t) as = as_total_pages (mem s) as + 1"
        using l2(3) l(3) post(5) t(2) by simp
      ultimately have "vm_step s F as D tab t F' tab' (\<lambda>w. if vpage w = vpage v then Some ?e else view s tab w) 1"
        using post(2) by (simp add: vm_step_def)
      moreover have "view s tab v = None" using lf vw[OF v] abs by simp
      ultimately show ?thesis using t(1) by blast
    qed
  qed
qed

lemma unmap_page_step:
  fixes s :: "'a vmm_state_scheme"
  assumes wf: "vm_wf s F as D tab" and v: "covers D v" and r: "vmm_unmap_page_no_flush s as v = (r, t)"
  shows "(r = 0 \<and> view s tab v \<noteq> None \<and> vm_step s F as D tab t F tab (\<lambda>w. if vpage w = vpage v then None else view s tab w) (-1))
    \<or> (r = -1 \<and> view s tab v = None \<and> t = s)"
proof -
  have as: "as \<noteq> NULL" using wf by (auto simp: vm_wf_def space_ok_def)
  obtain pte u where w: "vmm_walk_page_table s as (vmm_page_align_down v) False = (pte, u)" by fastforce
  have v': "covers D (vmm_page_align_down v)" using v by simp
  note e = walk_entry[OF wf v' w, unfolded indices_align_down, folded view_def]
  show ?thesis
  proof (cases "pte \<noteq> NULL \<and> present (load64 (mem s) pte)")
    case False
    then show ?thesis using r as w e(1,2) by (auto simp: vmm_unmap_page_no_flush_def present_def)
  next
    case True
    obtain q where q: "tab (take 3 (indices v)) = Some q" "pte = entry_addr (q + hhdm_offset s) (indices v ! 3)"
      using e(3) True indices_align_down[of v] by (auto simp: indices_def)
    let ?m = "store64 (mem s) pte 0"
    have t: "r = 0" "t = s\<lparr>mem := store64 ?m (as + 8) (as_total_pages ?m as - 1)\<rparr>"
      using r as w e(1) True by (auto simp: vmm_unmap_page_no_flush_def present_def Let_def)
    note l = store_leaf[OF wf q(1) valid_indices(2) valid_indices(1)[OF v], where e = 0, folded q(2)]
    note l2 = store_total[OF l(1), where n = "as_total_pages ?m as - 1"]
    have "view t tab x = (if vpage x = vpage v then None else view s tab x)" if "covers D x" for x
      using l(2)[OF valid_indices(2) valid_indices(1)[OF that]] l2(2)[OF valid_indices(2) valid_indices(1)[OF that]] t(2)
      by (simp add: view_def indices_eq_iff present_def)
    then show ?thesis using t l2(1,3) l(3) e(2) True by (auto simp: vm_step_def)
  qed
qed

lemma map_page_flush: "vmm_map_page s as v p flags = vmm_map_page_no_flush s as v p flags"
  and unmap_page_flush: "vmm_unmap_page s as v = vmm_unmap_page_no_flush s as v"
  by (simp_all add: vmm_map_page_def vmm_map_page_no_flush_def vmm_unmap_page_def vmm_unmap_page_no_flush_def)

lemma virt_to_phys_view:
  "vm_wf s F as D tab \<Longrightarrow> covers D v \<Longrightarrow>
    vmm_virt_to_phys s as v = (case view s tab v of None \<Rightarrow> 0 | Some e \<Rightarrow> PTE_ADDR e OR PAGE_OFFSET v)"
  by (simp add: virt_to_phys_leaf view_def)

section \<open>Ranges of pages\<close>

definition page_va :: "nat \<Rightarrow> u64" where
  "page_va k = of_nat k * 4096"

abbreviation pn :: "u64 \<Rightarrow> nat" where
  "pn w \<equiv> unat (vpage w)"

lemma unat_page_va: "k < 2 ^ 52 \<Longrightarrow> unat (page_va k) = k * 4096"
  by (simp add: page_va_def unat_word_ariths unat_of_nat)

lemma page_va_Suc: "page_va k + 4096 = page_va (Suc k)"
  by (simp add: page_va_def algebra_simps)

lemma page_va_less: "k < 2 ^ 52 \<Longrightarrow> n < 2 ^ 52 \<Longrightarrow> page_va k < page_va n \<longleftrightarrow> k < n"
  by (simp add: word_less_nat_alt unat_page_va)

lemma pn_div: "pn w = unat w div 4096 mod 2 ^ 36"
  by (simp add: vpage_def unat_take_bit64 unat_drop_bit_eq drop_bit_nat_def)

lemma pn_page_va: "k < 2 ^ 36 \<Longrightarrow> pn (page_va k) = k"
  by (simp add: pn_div unat_page_va)

lemma page_va_eq_pn: "k < 2 ^ 36 \<Longrightarrow> vpage w = vpage (page_va k) \<longleftrightarrow> pn w = k"
  by (simp add: word_unat_eq_iff pn_page_va)

definition user_half :: "u64 set \<Rightarrow> bool" where
  "user_half D \<longleftrightarrow> (\<forall>i < 256. i \<in> D)"

lemma covers_page_va: "user_half D \<Longrightarrow> k < 2 ^ 35 \<Longrightarrow> covers D (page_va k)"
proof -
  assume D: "user_half D" and k: "k < 2 ^ 35"
  have "unat (PML4_INDEX (page_va k)) = k * 4096 div 2 ^ 39 mod 512"
    unfolding PML4_INDEX_def nine_bits using k
    by (simp add: unat_take_bit64 unat_drop_bit_eq drop_bit_nat_def unat_page_va flip: take_bit_eq_mask)
  moreover have "k * 4096 div 2 ^ 39 < 256" using k by (simp add: less_mult_imp_div_less)
  ultimately have "PML4_INDEX (page_va k) < 256" by (simp add: word_less_nat_alt)
  then show ?thesis using D by (auto simp: covers_def user_half_def)
qed

definition mapped_pages :: "'a vmm_state_scheme \<Rightarrow> tree \<Rightarrow> nat \<Rightarrow> nat \<Rightarrow> nat" where
  "mapped_pages s tab k n = length (filter (\<lambda>j. view s tab (page_va j) \<noteq> None) [k..<n])"

lemma vm_step_wf: "vm_step s F as D tab t F' tab' f n \<Longrightarrow> vm_wf t F' as D tab'"
  and vm_step_view: "vm_step s F as D tab t F' tab' f n \<Longrightarrow> covers D w \<Longrightarrow> view t tab' w = f w"
  by (simp_all add: vm_step_def)

lemma unmap_page_any:
  fixes s :: "'a vmm_state_scheme"
  assumes wf: "vm_wf s F as D tab" and v: "covers D v"
  shows "vm_step s F as D tab (snd (vmm_unmap_page_no_flush s as v)) F tab (\<lambda>w. if vpage w = vpage v then None else view s tab w)
    (if view s tab v \<noteq> None then -1 else 0)"
proof -
  obtain r t where r: "vmm_unmap_page_no_flush s as v = (r, t)" by fastforce
  from unmap_page_step[OF wf v r] show ?thesis
  proof (elim disjE conjE)
    assume "view s tab v = None" "t = s"
    moreover from this(1) have "view s tab w = None" if "vpage w = vpage v" for w using view_vpage[OF that, of s tab] by simp
    ultimately show ?thesis using r wf by (simp add: vm_step_def)
  qed (simp add: r)
qed

lemma unmap_loop_range:
  fixes s :: "'a vmm_state_scheme"
  assumes D: "user_half D" and n: "n \<le> 2 ^ 35"
  shows "k \<le> n \<Longrightarrow> vm_wf s F as D tab \<Longrightarrow> \<exists>t. unmap_loop s as (page_va k) (page_va n) = Some t
    \<and> vm_step s F as D tab t F tab (\<lambda>w. if k \<le> pn w \<and> pn w < n then None else view s tab w) (- of_nat (mapped_pages s tab k n))"
proof (induction "n - k" arbitrary: s k)
  case 0
  then have "unmap_loop s as (page_va k) (page_va n) = Some s" by (subst unmap_loop.simps) simp
  then show ?case using 0 by (auto simp: vm_step_def mapped_pages_def)
next
  case (Suc d)
  have kn: "k < n" and k35: "k < 2 ^ 35" and d: "d = n - Suc k" using Suc(2) n by linarith+
  have lt: "page_va k < page_va n" using page_va_less[of k n] kn k35 n by simp
  have cov: "covers D (page_va k)" using covers_page_va[OF D k35] .
  let ?u = "snd (vmm_unmap_page_no_flush s as (page_va k))"
  note u = unmap_page_any[OF Suc(4) cov]
  have vu: "view ?u tab w = (if pn w = k then None else view s tab w)" if "covers D w" for w
    using vm_step_view[OF u that] page_va_eq_pn[of k w] k35 by simp
  obtain t where t: "unmap_loop ?u as (page_va (Suc k)) (page_va n) = Some t"
      "vm_step ?u F as D tab t F tab (\<lambda>w. if Suc k \<le> pn w \<and> pn w < n then None else view ?u tab w) (- of_nat (mapped_pages ?u tab (Suc k) n))"
    using Suc(1)[OF d _ vm_step_wf[OF u]] kn by auto
  have "unmap_loop s as (page_va k) (page_va n) = Some t"
    using t(1) lt by (subst unmap_loop.simps) (simp add: page_va_Suc)
  moreover have "view t tab w = (if k \<le> pn w \<and> pn w < n then None else view s tab w)" if "covers D w" for w
    using vm_step_view[OF t(2) that] vu[OF that] kn by auto
  moreover have "mapped_pages ?u tab (Suc k) n = mapped_pages s tab (Suc k) n"
  proof -
    have "view ?u tab (page_va j) = view s tab (page_va j)" if "j \<in> set [Suc k..<n]" for j
      using that n vu[OF covers_page_va[OF D, of j]] pn_page_va[of j] by simp
    then show ?thesis unfolding mapped_pages_def by (intro arg_cong[of _ _ length] filter_cong) simp_all
  qed
  moreover have "mapped_pages s tab k n = (if view s tab (page_va k) \<noteq> None then 1 else 0) + mapped_pages s tab (Suc k) n"
    using kn by (simp add: mapped_pages_def upt_conv_Cons)
  ultimately show ?case using t(2) u by (auto simp: vm_step_def algebra_simps)
qed

text \<open>The pages an unaligned byte range touches.\<close>

lemma page_range:
  assumes "unat v + unat sz \<le> 2 ^ 47" "sz \<noteq> 0"
  defines "k \<equiv> unat v div 4096" and "n \<equiv> (unat v + unat sz + 4095) div 4096"
  shows "vmm_page_align_down v = page_va k" "vmm_page_align_up (v + sz) = page_va n" "k < n" "n \<le> 2 ^ 35"
proof -
  have down: "unat (vmm_page_align_down x) = unat x div 4096 * 4096" for x
    by (simp add: vmm_page_align_down_def PAGE_MASK_mask unat_and_not_mask)
  have up: "unat (v + sz + 4096 - 1) = unat v + unat sz + 4095"
  proof -
    have "unat (v + sz) = unat v + unat sz" using assms(1) by (intro unat_plus64) simp
    then have "unat (v + sz + 4095) = unat v + unat sz + 4095" using assms(1) by (subst unat_plus64) simp_all
    then show ?thesis by (simp add: algebra_simps)
  qed
  have sz: "0 < unat sz" using assms(2) by (simp add: unat_gt_0)
  show "n \<le> 2 ^ 35" using assms(1) unfolding n_def by simp
  have "(unat v + 4096) div 4096 \<le> n" unfolding n_def using sz by (intro div_le_mono) simp
  then show "k < n" unfolding k_def by simp
  then have "k < 2 ^ 52" "n < 2 ^ 52" using \<open>n \<le> 2 ^ 35\<close> by simp_all
  then show "vmm_page_align_down v = page_va k" "vmm_page_align_up (v + sz) = page_va n"
    using down[of v] down[of "v + sz + 4096 - 1"] up
    by (simp_all add: word_unat_eq_iff unat_page_va k_def n_def vmm_page_align_up_def vmm_page_align_down_def)
qed

lemma unmap_range_pages:
  fixes s :: "'a vmm_state_scheme"
  assumes wf: "vm_wf s F as D tab" and D: "user_half D" and kn: "k < n" and n: "n \<le> 2 ^ 35"
    and a: "vmm_page_align_down v = page_va k" "vmm_page_align_up (v + sz) = page_va n" and sz: "sz \<noteq> 0"
  shows "\<exists>t. vmm_unmap_range s as v sz = Some (0, t)
    \<and> vm_step s F as D tab t F tab (\<lambda>w. if k \<le> pn w \<and> pn w < n then None else view s tab w) (- of_nat (mapped_pages s tab k n))"
proof -
  have "as \<noteq> NULL" using wf by (auto simp: vm_wf_def space_ok_def)
  then show ?thesis using unmap_loop_range[OF D n less_imp_le[OF kn] wf] a sz by (auto simp: vmm_unmap_range_def)
qed

text \<open>
  The loop of \<^verbatim>\<open>vmm_map_range\<close> from page \<open>k\<close> on, when the pages \<open>k0\<close> to \<open>k - 1\<close> have been mapped since
  the call: it either maps the rest or takes everything back.
\<close>

definition range_entry :: "u64 \<Rightarrow> u64 \<Rightarrow> nat \<Rightarrow> nat \<Rightarrow> u64" where
  "range_entry p flags k0 j = (p + page_va (j - k0)) OR flags OR PTE_PRESENT"

definition range_view :: "'a vmm_state_scheme \<Rightarrow> tree \<Rightarrow> u64 \<Rightarrow> u64 \<Rightarrow> nat \<Rightarrow> nat \<Rightarrow> u64 \<Rightarrow> u64 option" where
  "range_view s tab p flags k0 k w =
     (if k0 \<le> pn w \<and> pn w < k then Some (range_entry p flags k0 (pn w)) else view s tab w)"

definition range_post :: "'a vmm_state_scheme \<Rightarrow> nat set \<Rightarrow> u64 \<Rightarrow> u64 set \<Rightarrow> tree \<Rightarrow> u64 \<Rightarrow> u64 \<Rightarrow> nat \<Rightarrow> nat \<Rightarrow> int \<Rightarrow> 'a vmm_state_scheme \<Rightarrow> bool" where
  "range_post s F as D tab p flags k n r t \<longleftrightarrow> (\<exists>F' tab'.
     (r = 0 \<and> (\<forall>j. k \<le> j \<and> j < n \<longrightarrow> view s tab (page_va j) = None)
        \<and> vm_step s F as D tab t F' tab' (range_view s tab p flags k n) (of_nat (n - k)))
     \<or> (r = -1 \<and> ((\<exists>j. k \<le> j \<and> j < n \<and> view s tab (page_va j) \<noteq> None) \<or> F' = {})
        \<and> vm_step s F as D tab t F' tab' (view s tab) 0))"

lemma align_down_aligned: "page_aligned p \<Longrightarrow> vmm_page_align_down p = p"
  by (rule bit_eqI) (auto simp: bit_align_down dest: page_aligned_bit)

lemma page_va_aligned: "page_aligned p \<Longrightarrow> page_aligned (p + page_va k)"
proof -
  assume "page_aligned p"
  then have "4096 dvd unat p" by (simp add: aligned_def)
  moreover have "4096 dvd unat (page_va k)"
    by (simp add: page_va_def unat_word_ariths unat_of_nat dvd_mod dvd_mult)
  ultimately show ?thesis by (simp add: aligned_def unat_word_ariths dvd_mod dvd_add)
qed

lemma map_loop_rollback:
  fixes s :: "'a vmm_state_scheme"
  assumes D: "user_half D" and n: "n \<le> 2 ^ 35" and k: "k0 \<le> k" "k < n"
    and inv: "vm_step s0 F0 as D tab0 s F tab (range_view s0 tab0 p flags k0 k) (of_nat (k - k0))"
    and fresh: "\<And>j. k0 \<le> j \<Longrightarrow> j < k \<Longrightarrow> view s0 tab0 (page_va j) = None"
  shows "\<exists>r t. vmm_unmap_range s as (page_va k0) (page_va k - page_va k0) = Some (r, t)
    \<and> vm_step s0 F0 as D tab0 t F tab (view s0 tab0) 0"
proof -
  note wf = vm_step_wf[OF inv]
  show ?thesis
  proof (cases "k = k0")
    case True
    then have "vm_step s0 F0 as D tab0 s F tab (view s0 tab0) 0" using inv by (auto simp: range_view_def vm_step_def)
    then show ?thesis using True by (simp add: vmm_unmap_range_def)
  next
    case False
    then have lt: "k0 < k" using k by simp
    have u: "unat (page_va k0) = k0 * 4096" "unat (page_va k) = k * 4096" using k n by (simp_all add: unat_page_va)
    have ne: "page_va k - page_va k0 \<noteq> 0" using u lt by (auto simp: right_minus_eq)
    have al: "vmm_page_align_down (page_va k0) = page_va k0"
      using page_va_aligned[of 0 k0] by (intro align_down_aligned) (simp add: aligned_def)
    have "unat (page_va k + 4095) = k * 4096 + 4095" using u k n by (subst unat_plus64) simp_all
    then have "unat (vmm_page_align_up (page_va k)) = k * 4096"
      unfolding vmm_page_align_up_def add_diff_eq[symmetric] PAGE_MASK_mask unat_and_not_mask by simp
    then have up: "vmm_page_align_up (page_va k0 + (page_va k - page_va k0)) = page_va k" using u by (simp add: word_unat_eq_iff)
    have k35: "k \<le> 2 ^ 35" using k n by simp
    obtain t where t: "vmm_unmap_range s as (page_va k0) (page_va k - page_va k0) = Some (0, t)"
      "vm_step s F as D tab t F tab (\<lambda>w. if k0 \<le> pn w \<and> pn w < k then None else view s tab w) (- of_nat (mapped_pages s tab k0 k))"
      using unmap_range_pages[OF wf D lt k35 al up ne] by blast
    have sv: "view s tab w = range_view s0 tab0 p flags k0 k w" if "covers D w" for w using vm_step_view[OF inv that] .
    have "view s tab (page_va j) \<noteq> None" if "j \<in> set [k0..<k]" for j
      using that k35 pn_page_va[of j] sv[OF covers_page_va[OF D, of j]] by (simp add: range_view_def)
    then have all: "mapped_pages s tab k0 k = k - k0" unfolding mapped_pages_def by (subst filter_True) auto
    have "view t tab w = view s0 tab0 w" if "covers D w" for w
    proof (cases "k0 \<le> pn w \<and> pn w < k")
      case True
      then have "vpage w = vpage (page_va (pn w))" using page_va_eq_pn[of "pn w" w] k35 by simp
      from trans[OF view_vpage[OF this] fresh] True have "view s0 tab0 w = None" by blast
      then show ?thesis using vm_step_view[OF t(2) that] True by simp
    next
      case False
      then show ?thesis using vm_step_view[OF t(2) that] sv[OF that] by (auto simp: range_view_def)
    qed
    then show ?thesis using t inv all by (auto simp: vm_step_def)
  qed
qed

lemma map_loop_range:
  fixes s s0 :: "'a vmm_state_scheme"
  assumes D: "user_half D" and n: "n \<le> 2 ^ 35" and p: "page_aligned p"
  shows "k \<le> n \<Longrightarrow> k0 \<le> k \<Longrightarrow> vm_step s0 F0 as D tab0 s F tab (range_view s0 tab0 p flags k0 k) (of_nat (k - k0)) \<Longrightarrow>
    (\<And>j. k0 \<le> j \<Longrightarrow> j < k \<Longrightarrow> view s0 tab0 (page_va j) = None) \<Longrightarrow>
    \<exists>r t. map_loop s as (page_va k0) (page_va k) (p + page_va (k - k0)) (page_va n) flags = Some (r, t)
      \<and> range_post s0 F0 as D tab0 p flags k0 n r t"
proof (induction "n - k" arbitrary: s F tab k)
  case 0
  then have "map_loop s as (page_va k0) (page_va k) (p + page_va (k - k0)) (page_va n) flags = Some (0, s)"
    by (subst map_loop.simps) simp
  then show ?case using 0 by (auto simp: range_post_def)
next
  case (Suc d)
  have kn: "k < n" and k35: "k < 2 ^ 35" and d: "d = n - Suc k" using Suc(2) n by linarith+
  have lt: "page_va k < page_va n" using page_va_less[of k n] kn k35 n by simp
  have cov: "covers D (page_va k)" using covers_page_va[OF D k35] .
  note wf = vm_step_wf[OF Suc(5)]
  let ?p = "p + page_va (k - k0)"
  have pk: "vmm_page_align_down ?p = ?p" using align_down_aligned[OF page_va_aligned[OF p]] .
  have sk: "view s tab (page_va k) = view s0 tab0 (page_va k)"
    using vm_step_view[OF Suc(5) cov] pn_page_va[of k] k35 by (simp add: range_view_def)
  obtain r t where r: "vmm_map_page_no_flush s as (page_va k) ?p flags = (r, t)" by fastforce
  obtain F' tab' where st: "(r = 0 \<and> view s tab (page_va k) = None \<and> vm_step s F as D tab t F' tab'
        (\<lambda>w. if vpage w = vpage (page_va k) then Some (?p OR flags OR PTE_PRESENT) else view s tab w) 1)
    \<or> (r = -1 \<and> (view s tab (page_va k) \<noteq> None \<or> F' = {}) \<and> vm_step s F as D tab t F' tab' (view s tab) 0)"
    using map_page_step[OF wf cov r] unfolding pk by blast
  show ?case
  proof (cases "r = 0")
    case True
    then have ok: "r = 0" "view s tab (page_va k) = None" "vm_step s F as D tab t F' tab'
        (\<lambda>w. if vpage w = vpage (page_va k) then Some (?p OR flags OR PTE_PRESENT) else view s tab w) 1"
      using st by simp_all
    have "view t tab' w = range_view s0 tab0 p flags k0 (Suc k) w" if "covers D w" for w
      using vm_step_view[OF ok(3) that] vm_step_view[OF Suc(5) that] page_va_eq_pn[of k w] k35 Suc(4)
      by (auto simp: range_view_def range_entry_def)
    moreover have "of_nat (Suc k - k0) = (of_nat (k - k0) + 1 :: u64)" using Suc(4) by (simp add: Suc_diff_le)
    ultimately have st': "vm_step s0 F0 as D tab0 t F' tab' (range_view s0 tab0 p flags k0 (Suc k)) (of_nat (Suc k - k0))"
      using ok(3) Suc(5) by (auto simp: vm_step_def)
    have fresh: "view s0 tab0 (page_va j) = None" if "k0 \<le> j" "j < Suc k" for j
      using that Suc(6)[of j] ok(2) sk by (cases "j = k") auto
    have "p + page_va (Suc k - k0) = ?p + 4096" using Suc(4) by (simp add: Suc_diff_le page_va_Suc[symmetric])
    moreover obtain r' t' where "map_loop t as (page_va k0) (page_va (Suc k)) (p + page_va (Suc k - k0)) (page_va n) flags = Some (r', t')"
      "range_post s0 F0 as D tab0 p flags k0 n r' t'"
      using Suc(1)[OF d _ _ st' fresh] kn Suc(4) by auto
    ultimately show ?thesis using r ok(1) lt by (subst map_loop.simps) (simp add: page_va_Suc add.assoc)
  next
    case False
    then have bad: "r = -1" "view s tab (page_va k) \<noteq> None \<or> F' = {}" "vm_step s F as D tab t F' tab' (view s tab) 0"
      using st by simp_all
    have "vm_step s0 F0 as D tab0 t F' tab' (range_view s0 tab0 p flags k0 k) (of_nat (k - k0))"
      using bad(3) Suc(5) by (auto simp: vm_step_def)
    from map_loop_rollback[OF D n Suc(4) kn this Suc(6)]
    obtain r' t' where t': "vmm_unmap_range t as (page_va k0) (page_va k - page_va k0) = Some (r', t')"
      "vm_step s0 F0 as D tab0 t' F' tab' (view s0 tab0) 0" by blast
    have "range_post s0 F0 as D tab0 p flags k0 n (-1) t'"
      unfolding range_post_def using t'(2) bad(2) sk kn Suc(4) by (intro exI[of _ F'] exI[of _ tab']) auto
    then show ?thesis using r bad(1) lt t'(1) by (subst map_loop.simps) simp
  qed
qed

section \<open>Properties\<close>

lemma page_offset_low: "PTE_ADDR (vmm_page_align_down p OR flags OR PTE_PRESENT) = vmm_page_align_down p"
  if "unat p < 2 ^ 52" "flags_ok flags"
proof -
  have down: "unat (vmm_page_align_down p) = unat p div 4096 * 4096"
    by (simp add: vmm_page_align_down_def PAGE_MASK_mask unat_and_not_mask)
  have le: "unat p div 4096 * 4096 \<le> unat p" by simp
  have al: "page_aligned (vmm_page_align_down p)" "unat (vmm_page_align_down p) < 2 ^ 52"
    using le_less_trans[OF le that(1)] by (simp_all only: down aligned_def) simp
  have "\<not> bit (flags OR PTE_PRESENT) n" if "12 \<le> n" "n < 52" for n
    using flags_ok_bits[OF \<open>flags_ok flags\<close> that] that by (simp add: PTE_PRESENT_def bit_simps)
  from PTE_ADDR_or[OF al this] show ?thesis unfolding or.assoc .
qed

text \<open>C8: \<^verbatim>\<open>vmm_map_page\<close> in a well-formed address space. On success the page was not mapped before, it
  now translates to the given frame, every other page translates as before, and the page count goes
  up by one. On failure no translation and no count changes, and either the page was mapped already
  or no free page is left. In both cases the address space stays well formed.\<close>

theorem vmm_map_page_correct:
  assumes "vm_wf s F as D tab" "covers D v" "unat p < 2 ^ 52" "flags_ok flags"
    and "vmm_map_page s as v p flags = (r, t)"
  shows "\<exists>F' tab'. vm_wf t F' as D tab' \<and> F' \<subseteq> F \<and>
    ((r = 0 \<and> view s tab v = None \<and> as_total_pages (mem t) as = as_total_pages (mem s) as + 1
       \<and> (\<forall>w. covers D w \<longrightarrow> vmm_virt_to_phys t as w =
            (if vpage w = vpage v then vmm_page_align_down p OR PAGE_OFFSET w else vmm_virt_to_phys s as w)))
     \<or> (r = -1 \<and> (view s tab v \<noteq> None \<or> F' = {}) \<and> as_total_pages (mem t) as = as_total_pages (mem s) as
       \<and> (\<forall>w. covers D w \<longrightarrow> vmm_virt_to_phys t as w = vmm_virt_to_phys s as w)))"
proof -
  obtain F' tab' where st: "(r = 0 \<and> view s tab v = None \<and> vm_step s F as D tab t F' tab'
        (\<lambda>w. if vpage w = vpage v then Some (vmm_page_align_down p OR flags OR PTE_PRESENT) else view s tab w) 1)
    \<or> (r = -1 \<and> (view s tab v \<noteq> None \<or> F' = {}) \<and> vm_step s F as D tab t F' tab' (view s tab) 0)"
    using map_page_step[OF assms(1,2) assms(5)[unfolded map_page_flush]] by (elim exE)
  from st show ?thesis
  proof (rule disjE)
    assume a: "r = 0 \<and> view s tab v = None \<and> vm_step s F as D tab t F' tab'
        (\<lambda>w. if vpage w = vpage v then Some (vmm_page_align_down p OR flags OR PTE_PRESENT) else view s tab w) 1"
    then have wf: "vm_wf t F' as D tab'" by (blast dest: vm_step_wf)
    then show ?thesis using a page_offset_low[OF assms(3,4)]
      by (intro exI[of _ F'] exI[of _ tab']) (simp add: vm_step_def virt_to_phys_view[OF wf] virt_to_phys_view[OF assms(1)])
  next
    assume a: "r = -1 \<and> (view s tab v \<noteq> None \<or> F' = {}) \<and> vm_step s F as D tab t F' tab' (view s tab) 0"
    then have wf: "vm_wf t F' as D tab'" by (blast dest: vm_step_wf)
    then show ?thesis using a by (intro exI[of _ F'] exI[of _ tab']) (simp add: vm_step_def virt_to_phys_view[OF wf] virt_to_phys_view[OF assms(1)])
  qed
qed

text \<open>C21: Unmapping a page that \<^verbatim>\<open>vmm_map_page\<close> has just mapped succeeds and gives back every
  translation and the page count the address space had before; unmapping a page that is not mapped
  fails without any effect.\<close>

theorem vmm_map_unmap_roundtrip:
  assumes "vm_wf s F as D tab" "covers D v"
  shows "(view s tab v = None \<longrightarrow> vmm_unmap_page s as v = (-1, s))
    \<and> (\<forall>t. vmm_map_page s as v p flags = (0, t) \<longrightarrow>
        (\<exists>u F' tab'. vmm_unmap_page t as v = (0, u) \<and> vm_wf u F' as D tab'
          \<and> as_total_pages (mem u) as = as_total_pages (mem s) as
          \<and> (\<forall>w. covers D w \<longrightarrow> vmm_virt_to_phys u as w = vmm_virt_to_phys s as w)))"
proof (intro conjI impI allI)
  show "view s tab v = None \<Longrightarrow> vmm_unmap_page s as v = (-1, s)"
    using unmap_page_step[OF assms] by (cases "vmm_unmap_page_no_flush s as v") (auto simp: unmap_page_flush)
  fix t assume "vmm_map_page s as v p flags = (0, t)"
  then obtain F' tab' where st: "view s tab v = None" "vm_step s F as D tab t F' tab'
        (\<lambda>w. if vpage w = vpage v then Some (vmm_page_align_down p OR flags OR PTE_PRESENT) else view s tab w) 1"
    using map_page_step[OF assms, of p flags 0 t] by (auto simp: map_page_flush)
  note wf = vm_step_wf[OF st(2)]
  obtain r u where r: "vmm_unmap_page_no_flush t as v = (r, u)" by fastforce
  have "view t tab' v \<noteq> None" using vm_step_view[OF st(2) assms(2)] by simp
  then have un: "r = 0" "vm_step t F' as D tab' u F' tab' (\<lambda>w. if vpage w = vpage v then None else view t tab' w) (-1)"
    using unmap_page_step[OF wf assms(2) r] by auto
  note wfu = vm_step_wf[OF un(2)]
  have "view u tab' w = view s tab w" if "covers D w" for w
    using vm_step_view[OF un(2) that] vm_step_view[OF st(2) that] view_vpage[of w v s tab] st(1) by auto
  then have "vmm_virt_to_phys u as w = vmm_virt_to_phys s as w" if "covers D w" for w
    using that by (simp add: virt_to_phys_view[OF wfu] virt_to_phys_view[OF assms(1)])
  then show "\<exists>u F' tab'. vmm_unmap_page t as v = (0, u) \<and> vm_wf u F' as D tab'
          \<and> as_total_pages (mem u) as = as_total_pages (mem s) as
          \<and> (\<forall>w. covers D w \<longrightarrow> vmm_virt_to_phys u as w = vmm_virt_to_phys s as w)"
    using r un st(2) wfu by (intro exI[of _ u] exI[of _ F'] exI[of _ tab']) (simp add: unmap_page_flush vm_step_def)
qed

text \<open>C9: \<^verbatim>\<open>vmm_map_range\<close> on a non-empty range in the user half (the sum of address and size at most \<open>2^47\<close>) always returns and
  is all or nothing. Ranges in the kernel half and ranges that wrap are not covered. On success
  every page of the range was unmapped before and is now mapped to the corresponding frame. When any
  page cannot be mapped, the pages mapped so far are taken back, so that all entries and the page
  count are what they were before the call.\<close>

theorem vmm_map_range_atomic:
  assumes "vm_wf s F as D tab" "user_half D" "unat v + unat sz \<le> 2 ^ 47" "sz \<noteq> 0"
  shows "\<exists>r t. vmm_map_range s as v p sz flags = Some (r, t)
    \<and> range_post s F as D tab (vmm_page_align_down p) flags (unat v div 4096) ((unat v + unat sz + 4095) div 4096) r t"
proof -
  let ?k = "unat v div 4096" and ?n = "(unat v + unat sz + 4095) div 4096" and ?p = "vmm_page_align_down p"
  note pr = page_range[OF assms(3,4)]
  have al: "page_aligned ?p" by (simp add: vmm_page_align_down_def PAGE_MASK_mask unat_and_not_mask aligned_def)
  have as: "as \<noteq> NULL" using assms(1) by (auto simp: vm_wf_def space_ok_def)
  have "vm_step s F as D tab s F tab (range_view s tab ?p flags ?k ?k) (of_nat (?k - ?k))"
    using assms(1) by (auto simp: vm_step_def range_view_def)
  from map_loop_range[OF assms(2) pr(4) al less_imp_le[OF pr(3)] _ this]
  show ?thesis using as assms(4) pr by (simp add: vmm_map_range_def page_va_def Let_def)
qed

text \<open>C22: \<^verbatim>\<open>vmm_unmap_range\<close> on a range in the user half always returns 0; exactly the pages of the range
  are unmapped, and the page count goes down by the number of pages that were mapped.\<close>

theorem vmm_unmap_range_correct:
  assumes "vm_wf s F as D tab" "user_half D" "unat v + unat sz \<le> 2 ^ 47" "sz \<noteq> 0"
  shows "\<exists>t. vmm_unmap_range s as v sz = Some (0, t) \<and> vm_wf t F as D tab
    \<and> as_total_pages (mem t) as + of_nat (mapped_pages s tab (unat v div 4096) ((unat v + unat sz + 4095) div 4096))
        = as_total_pages (mem s) as
    \<and> (\<forall>w. covers D w \<longrightarrow> vmm_virt_to_phys t as w =
        (if unat v div 4096 \<le> pn w \<and> pn w < (unat v + unat sz + 4095) div 4096 then 0 else vmm_virt_to_phys s as w))"
proof -
  let ?k = "unat v div 4096" and ?n = "(unat v + unat sz + 4095) div 4096"
  note pr = page_range[OF assms(3,4)]
  obtain t where t: "vmm_unmap_range s as v sz = Some (0, t)"
      "vm_step s F as D tab t F tab (\<lambda>w. if ?k \<le> pn w \<and> pn w < ?n then None else view s tab w) (- of_nat (mapped_pages s tab ?k ?n))"
    using unmap_range_pages[OF assms(1,2) pr(3,4,1,2) assms(4)] by blast
  note wf = vm_step_wf[OF t(2)]
  have "vmm_virt_to_phys t as w = (if ?k \<le> pn w \<and> pn w < ?n then 0 else vmm_virt_to_phys s as w)" if "covers D w" for w
    using vm_step_view[OF t(2) that] that by (simp add: virt_to_phys_view[OF wf] virt_to_phys_view[OF assms(1)])
  then show ?thesis using t wf by (intro exI[of _ t]) (simp add: vm_step_def)
qed


section \<open>A concrete address space\<close>

text \<open>
  An address space whose first two megabytes have all their tables, at physical 2 MiB and up, and no
  free page left.
\<close>

abbreviation sample_hhdm :: u64 where "sample_hhdm \<equiv> 0xFFFF800000000000"

definition sample_as :: u64 where "sample_as = 0xFFFF800000300000"

definition sample_tables :: memory where
  "sample_tables =
     store64 (store64 (store64 (store64 (\<lambda>_. 0) sample_as (0x200000 + sample_hhdm))
       (entry_addr (0x200000 + sample_hhdm) 0) 0x201007)
       (entry_addr (0x201000 + sample_hhdm) 0) 0x202007)
       (entry_addr (0x202000 + sample_hhdm) 0) 0x203007"

definition sample_vm :: vmm_state where
  "sample_vm = \<lparr>mem = sample_tables, hhdm_offset = sample_hhdm,
     buddy_arenas = buddy_arenas sample_arena, buddy_arena_counter = 1,
     slab_caches = [], slab_caches_addr = 0,
     vmm_hhdm = sample_hhdm, current_pml4 = NULL, kernel_as = NULL, cr3 = 0x200000\<rparr>"

definition sample_tab :: tree where
  "sample_tab = [[] \<mapsto> 0x200000, [0] \<mapsto> 0x201000, [0, 0] \<mapsto> 0x202000, [0, 0, 0] \<mapsto> 0x203000]"

lemma sample_aligned: "page_aligned 0x200000" "page_aligned 0x201000" "page_aligned 0x202000" "page_aligned 0x203000"
  "page_aligned 0x300000"
  by (simp_all add: aligned_def)

lemma sample_as_eq: "sample_as = 0x300000 + sample_hhdm + 0"
  by (simp add: sample_as_def)

lemma sample_entry:
  assumes "page_aligned b" "j < 512" "b \<noteq> 0x300000"
  shows "entry sample_vm b j = (if 0x202000 = b \<and> 0 = j then 0x203007 else if 0x201000 = b \<and> 0 = j then 0x202007
     else if 0x200000 = b \<and> 0 = j then 0x201007 else 0)"
proof -
  have z: "load64 (\<lambda>_. 0) x = 0" for x by (simp add: load64_def word_rcat_def)
  have "load64 (store64 (\<lambda>_. 0) sample_as (0x200000 + sample_hhdm)) (entry_addr (b + sample_hhdm) j) = 0"
    unfolding sample_as_eq by (rule trans[OF space_entry_store(2)[OF assms(1,2) sample_aligned(5) assms(3)] z]) simp
  moreover have lt: "(0 :: u64) < 512" by simp
  note st = entry_store[OF sample_aligned(1) assms(1) lt assms(2)] entry_store[OF sample_aligned(2) assms(1) lt assms(2)]
    entry_store[OF sample_aligned(3) assms(1) lt assms(2)]
  ultimately show ?thesis
    unfolding entry_def sample_vm_def sample_tables_def buddy_state.simps st by (simp only:)
qed

lemma sample_root: "as_pml4 (mem sample_vm) sample_as = 0x200000 + sample_hhdm"
  by (simp add: sample_vm_def sample_tables_def as_pml4_def sample_as_def entry_addr_def load64_store64_disj disj_range_def)

lemma sample_tab_cases:
  "sample_tab p = Some a \<Longrightarrow> (p, a) \<in> {([], 0x200000), ([0], 0x201000), ([0, 0], 0x202000), ([0, 0, 0], 0x203000)}"
  by (auto simp: sample_tab_def split: if_splits)

lemma sample_tree: "tree_ok sample_vm UNIV sample_tab"
proof -
  have "sample_tab (p @ [i]) = (if present (entry sample_vm a i) then Some (PTE_ADDR (entry sample_vm a i)) else None)"
    if "sample_tab p = Some a" "length p < 3" "i < 512" for p a i
  proof -
    have "PTE_ADDR 0x201007 = 0x201000" "PTE_ADDR 0x202007 = 0x202000" "PTE_ADDR 0x203007 = 0x203000"
      "present 0x201007" "present 0x202007" "present 0x203007" "\<not> present 0"
      by (simp_all add: PTE_ADDR_def present_def PTE_PRESENT_def)
    then show ?thesis
      using sample_tab_cases[OF that(1)] that(2,3) sample_entry[of a i] sample_aligned by (auto simp: sample_tab_def)
  qed
  moreover have "sample_tab (p @ [i]) = None" if "sample_tab p = None" for p i
    using that by (auto simp: sample_tab_def Cons_eq_append_conv append_eq_Cons_conv split: if_splits)
  moreover have "valid_path UNIV p \<and> length p \<le> 3" if "sample_tab p = Some a" for p a
    using sample_tab_cases[OF that] by (auto simp: valid_path_def)
  moreover have "p = q" if "sample_tab p = Some a" "sample_tab q = Some a" for p q a
    using sample_tab_cases[OF that(1)] sample_tab_cases[OF that(2)] by auto
  moreover have "i < 512" if "valid_path UNIV (p @ [i])" for p i using that by (simp add: valid_path_def)
  ultimately show ?thesis unfolding tree_ok_def by blast
qed

lemma sample_vm_wf: "vm_wf sample_vm {} sample_as UNIV sample_tab"
proof -
  have "buddy_wf sample_vm (\<lambda>_ _. [])" "{} = free_bytes sample_vm (\<lambda>_ _. [])"
    by (simp_all add: buddy_wf_def arenas_wf_def arena_ok_def free_blocks_def free_bytes_def sample_vm_def sample_arena_def
        disjoint_family_on_def)
  moreover have "table_ok sample_hhdm {} a" if "a \<in> ran sample_tab" for a
    using that sample_tab_cases sample_aligned by (fastforce simp: ran_def table_ok_def)
  moreover have "space_ok sample_hhdm {} sample_tab sample_as"
    unfolding space_ok_def sample_as_eq
    by (intro conjI exI[of _ "0x300000"] exI[of _ 0]) (auto simp: sample_aligned ran_def dest: sample_tab_cases)
  moreover have "hhdm_offset sample_vm = sample_hhdm" "vmm_hhdm sample_vm = sample_hhdm" by (simp_all add: sample_vm_def)
  ultimately show ?thesis
    unfolding vm_wf_def using sample_tree sample_root by (auto simp: sample_tab_def)
qed

lemma covers_UNIV [simp]: "covers UNIV v" "user_half UNIV"
  by (simp_all add: covers_def user_half_def)

lemma sample_map: "fst (vmm_map_page sample_vm sample_as 0x5000 0x77000 2) = 0"
  by code_simp

lemma sample_virt: "vmm_virt_to_phys sample_vm sample_as 0x6000 = 0"
  by code_simp

theorem vmm_map_page_correct_witness:
  "\<exists>t F' tab'. vmm_map_page sample_vm sample_as 0x5000 0x77000 2 = (0, t) \<and> vm_wf t F' sample_as UNIV tab'
     \<and> vmm_virt_to_phys t sample_as 0x5123 = 0x77123 \<and> vmm_virt_to_phys t sample_as 0x6000 = 0"
proof -
  obtain t where t: "vmm_map_page sample_vm sample_as 0x5000 0x77000 2 = (0, t)"
    using sample_map by (cases "vmm_map_page sample_vm sample_as 0x5000 0x77000 2") simp
  have "flags_ok 2" "unat (0x77000 :: u64) < 2 ^ 52" by (simp_all add: flags_ok_def)
  moreover have "vpage 0x5123 = vpage 0x5000" "vpage 0x6000 \<noteq> vpage 0x5000" "vmm_page_align_down 0x77000 OR PAGE_OFFSET 0x5123 = 0x77123"
    by code_simp+
  ultimately show ?thesis
    using vmm_map_page_correct[OF sample_vm_wf, of "0x5000" "0x77000" 2 0 t] t sample_virt
    by auto
qed

theorem vmm_map_unmap_roundtrip_witness:
  "\<exists>t u. vmm_map_page sample_vm sample_as 0x5000 0x77000 2 = (0, t) \<and> vmm_unmap_page t sample_as 0x5000 = (0, u)
     \<and> as_total_pages (mem u) sample_as = as_total_pages (mem sample_vm) sample_as"
proof -
  obtain t where t: "vmm_map_page sample_vm sample_as 0x5000 0x77000 2 = (0, t)"
    using sample_map by (cases "vmm_map_page sample_vm sample_as 0x5000 0x77000 2") simp
  then show ?thesis using vmm_map_unmap_roundtrip[OF sample_vm_wf, of "0x5000" "0x77000" 2] by auto
qed

theorem vmm_map_range_atomic_witness:
  "\<exists>r t. vmm_map_range sample_vm sample_as 0x5800 0x77000 0x1000 2 = Some (r, t)
     \<and> range_post sample_vm {} sample_as UNIV sample_tab 0x77000 2 5 7 r t"
proof -
  have "vmm_page_align_down 0x77000 = 0x77000" by code_simp
  then show ?thesis using vmm_map_range_atomic[OF sample_vm_wf, of "0x5800" "0x1000" "0x77000" 2] by simp
qed

theorem vmm_unmap_range_correct_witness:
  "\<exists>t. vmm_unmap_range sample_vm sample_as 0x5800 0x1000 = Some (0, t) \<and> vm_wf t {} sample_as UNIV sample_tab
     \<and> vmm_virt_to_phys t sample_as 0x6000 = 0"
proof -
  have "pn 0x6000 = 6" by code_simp
  then show ?thesis using vmm_unmap_range_correct[OF sample_vm_wf, of "0x5800" "0x1000"] by auto
qed

end
