(* ===== verification/Memmgr.thy ===== *)
theory Memmgr
  imports Vmm_Correct
begin

text \<open>
  The memory manager of a task (\<^verbatim>\<open>kernel/kernel/memmgr/memmgr.c\<close>, \<^verbatim>\<open>memmgr.h\<close>): the list of memory
  regions of a task, its layout for an executable, access checks, and growing stack and heap on a
  page fault. A result \<open>None\<close> stands for a call that does not return because it writes through a
  NULL pointer (the code does not test the result of \<^verbatim>\<open>kmalloc\<close> here) or follows a cyclic list.
\<close>

section \<open>Constants and structures\<close>

definition STACK_SIZE :: u64 where "STACK_SIZE = 8 * 1024 * 1024"
definition STACK_TOP :: u64 where "STACK_TOP = 0x00007FFFFFFFFFFF"
definition HEAP_GROW_SIZE :: u64 where "HEAP_GROW_SIZE = 64 * 1024"
definition HEAP_GROW_ORDER :: u8 where "HEAP_GROW_ORDER = 4"
definition HEAP_SIZE :: u64 where "HEAP_SIZE = 1024 * 1024 * 1024"
definition GUARD_SIZE :: u64 where "GUARD_SIZE = PAGE_SIZE"

definition PF_WRITE :: u64 where "PF_WRITE = push_bit 1 1"
definition PF_INSTR :: u64 where "PF_INSTR = push_bit 4 1"

definition RP_READ :: u64 where "RP_READ = push_bit 0 1"
definition RP_WRITE :: u64 where "RP_WRITE = push_bit 1 1"
definition RP_EXEC :: u64 where "RP_EXEC = push_bit 2 1"
definition RP_HEAP :: u64 where "RP_HEAP = push_bit 3 1"
definition RP_STACK :: u64 where "RP_STACK = push_bit 4 1"

text \<open>
  \<^verbatim>\<open>struct mem_region\<close>: \<^verbatim>\<open>start\<close> at 0, \<^verbatim>\<open>end\<close> at 8, \<^verbatim>\<open>flags\<close> at 16, \<^verbatim>\<open>next\<close> at 24, 32 bytes.
  \<^verbatim>\<open>struct mem_descriptor\<close>: \<^verbatim>\<open>as\<close> at 0, \<^verbatim>\<open>regions\<close> at 8, \<^verbatim>\<open>brk\<close> at 16, \<^verbatim>\<open>mmap_base\<close> at 24,
  \<^verbatim>\<open>total_vm\<close> at 32, \<^verbatim>\<open>rss\<close> at 40, 48 bytes.
\<close>

definition sizeof_mem_region :: u64 where "sizeof_mem_region = 32"
definition mr_start :: "memory \<Rightarrow> u64 \<Rightarrow> u64" where "mr_start m p = load64 m p"
definition mr_end :: "memory \<Rightarrow> u64 \<Rightarrow> u64" where "mr_end m p = load64 m (p + 8)"
definition mr_flags :: "memory \<Rightarrow> u64 \<Rightarrow> u64" where "mr_flags m p = load64 m (p + 16)"
definition mr_next :: "memory \<Rightarrow> u64 \<Rightarrow> u64" where "mr_next m p = load64 m (p + 24)"

definition sizeof_mem_descriptor :: u64 where "sizeof_mem_descriptor = 48"
definition md_as :: "memory \<Rightarrow> u64 \<Rightarrow> u64" where "md_as m p = load64 m p"
definition md_regions :: "memory \<Rightarrow> u64 \<Rightarrow> u64" where "md_regions m p = load64 m (p + 8)"
definition md_brk :: "memory \<Rightarrow> u64 \<Rightarrow> u64" where "md_brk m p = load64 m (p + 16)"

section \<open>The list of regions\<close>

definition mm_add_region ::
  "'a vmm_state_scheme \<Rightarrow> u64 \<Rightarrow> u64 \<Rightarrow> u64 \<Rightarrow> u64 \<Rightarrow> (int \<times> 'a vmm_state_scheme) option" where
  "mm_add_region s mm start en flags =
     (if mm = NULL \<or> start \<ge> en then Some (-1, s)
      else do {
        (region, s) \<leftarrow> kmalloc s sizeof_mem_region;
        if region = NULL then None
        else
          (let m = store64 (mem s) region start;
               m = store64 m (region + 8) en;
               m = store64 m (region + 16) flags;
               m = store64 m (region + 24) (md_regions m mm);
               m = store64 m (mm + 8) region
           in Some (0, s\<lparr>mem := m\<rparr>))
      })"

text \<open>A link cell of the region list: the head field of the descriptor or the \<^verbatim>\<open>next\<close> field of a region.\<close>

fun mr_slot :: "u64 \<Rightarrow> 'a vmm_state_scheme \<Rightarrow> link \<Rightarrow> u64" where
  "mr_slot mm s Head = md_regions (mem s) mm"
| "mr_slot mm s (NextOf p) = mr_next (mem s) p"

fun set_mr_slot :: "u64 \<Rightarrow> 'a vmm_state_scheme \<Rightarrow> link \<Rightarrow> u64 \<Rightarrow> 'a vmm_state_scheme" where
  "set_mr_slot mm s Head v = s\<lparr>mem := store64 (mem s) (mm + 8) v\<rparr>"
| "set_mr_slot mm s (NextOf p) v = s\<lparr>mem := store64 (mem s) (p + 24) v\<rparr>"

definition mm_remove_region ::
  "'a vmm_state_scheme \<Rightarrow> u64 \<Rightarrow> u64 \<Rightarrow> u64 \<Rightarrow> (int \<times> 'a vmm_state_scheme) option" where
  "mm_remove_region s mm start en =
     (if mm = NULL \<or> start \<ge> en then Some (-1, s)
      else do {
        current \<leftarrow> find_slot (mr_slot mm s) (\<lambda>p. mr_start (mem s) p = start \<and> mr_end (mem s) p = en) Head;
        (case current of
           None \<Rightarrow> Some (-1, s)
         | Some l \<Rightarrow>
             (let rmr = mr_slot mm s l;
                  s = set_mr_slot mm s l (mr_next (mem s) rmr)
              in do { s \<leftarrow> kfree s rmr; Some (0, s) }))
      })"

partial_function (option) find_region_loop :: "memory \<Rightarrow> u64 \<Rightarrow> u64 \<Rightarrow> u64 option" where
  "find_region_loop m region vaddr =
     (if region = NULL then Some NULL
      else if mr_start m region \<le> vaddr \<and> vaddr \<le> mr_end m region then Some region
      else find_region_loop m (mr_next m region) vaddr)"

definition mm_find_region :: "'a vmm_state_scheme \<Rightarrow> u64 \<Rightarrow> u64 \<Rightarrow> u64 option" where
  "mm_find_region s mm vaddr =
     (if mm = NULL then Some NULL
      else find_region_loop (mem s) (md_regions (mem s) mm) vaddr)"

section \<open>Descriptors\<close>

definition mm_alloc :: "'a vmm_state_scheme \<Rightarrow> (u64 \<times> 'a vmm_state_scheme) option" where
  "mm_alloc s = do {
     (mem_desc, s) \<leftarrow> kmalloc s sizeof_mem_descriptor;
     (as, s) \<leftarrow> vmm_create_address_space s;
     if as = NULL then Some (NULL, s)
     else if mem_desc = NULL then None
     else
       (let m = store64 (mem s) mem_desc as;
            m = store64 m (mem_desc + 8) NULL;
            m = store64 m (mem_desc + 16) 0;
            m = store64 m (mem_desc + 24) 0;
            m = store64 m (mem_desc + 32) 0;
            m = store64 m (mem_desc + 40) 0
        in Some (mem_desc, s\<lparr>mem := m\<rparr>))
   }"

partial_function (option) free_regions :: "'a vmm_state_scheme \<Rightarrow> u64 \<Rightarrow> 'a vmm_state_scheme option" where
  "free_regions s current =
     (if current = NULL then Some s
      else
        (let nxt = mr_next (mem s) current in
         do { s \<leftarrow> kfree s current; free_regions s nxt }))"

definition mm_free :: "'a vmm_state_scheme \<Rightarrow> u64 \<Rightarrow> 'a vmm_state_scheme option" where
  "mm_free s mm =
     (if mm = NULL then Some s
      else do {
        s \<leftarrow> vmm_destroy_address_space s (md_as (mem s) mm);
        s \<leftarrow> free_regions s (md_regions (mem s) mm);
        let s = s\<lparr>mem := store64 (mem s) (mm + 8) NULL\<rparr>;
        kfree s mm
      })"

text \<open>
  The layout of an executable. Adding a region may fail (an empty or reversed range); the code
  ignores the result.
\<close>

definition mm_setup_executable ::
  "'a vmm_state_scheme \<Rightarrow> u64 \<Rightarrow> u64 \<Rightarrow> u64 \<Rightarrow> u64 \<Rightarrow> (int \<times> 'a vmm_state_scheme) option" where
  "mm_setup_executable s mm code_start code_end data_end = do {
     (_, s) \<leftarrow> mm_add_region s mm code_start code_end (RP_READ OR RP_EXEC);
     let data_start = (code_end + PAGE_SIZE - 1) AND NOT (PAGE_SIZE - 1);
     (_, s) \<leftarrow> mm_add_region s mm data_start data_end (RP_READ OR RP_WRITE);
     let heap_start = (data_end + PAGE_SIZE - 1) AND NOT (PAGE_SIZE - 1);
     let heap_end = heap_start + HEAP_SIZE - 1;
     if mm = NULL then None
     else do {
       let s = s\<lparr>mem := store64 (mem s) (mm + 16) heap_start\<rparr>;
       let guard_heap = heap_end + GUARD_SIZE;
       (_, s) \<leftarrow> mm_add_region s mm heap_start heap_end (RP_READ OR RP_WRITE OR RP_HEAP);
       (_, s) \<leftarrow> mm_add_region s mm (heap_end + 1) guard_heap 0;
       let stack_top = STACK_TOP;
       let stack_bottom = stack_top - STACK_SIZE + 1;
       let guard_stack = stack_bottom - GUARD_SIZE;
       (_, s) \<leftarrow> mm_add_region s mm guard_stack (stack_bottom - 1) 0;
       (_, s) \<leftarrow> mm_add_region s mm stack_bottom stack_top (RP_READ OR RP_WRITE OR RP_STACK);
       Some (0, s)
     }
   }"

section \<open>Access checks and page faults\<close>

definition mm_check_access :: "'a vmm_state_scheme \<Rightarrow> u64 \<Rightarrow> u64 \<Rightarrow> u64 \<Rightarrow> bool option" where
  "mm_check_access s mm addr access_flags = do {
     region \<leftarrow> mm_find_region s mm addr;
     if region = NULL then Some False
     else if mr_flags (mem s) region = 0 then Some False
     else Some (mr_flags (mem s) region AND access_flags = access_flags)
   }"

definition mm_expand_stack :: "'a vmm_state_scheme \<Rightarrow> u64 \<Rightarrow> u64 \<Rightarrow> int \<times> 'a vmm_state_scheme" where
  "mm_expand_stack s mm fault_addr =
     (let (phys_page, s) = pmm_alloc_page s in
      if phys_page = 0 then (-1, s)
      else
        (let flags = PTE_PRESENT OR PTE_WRITABLE OR PTE_USER OR PTE_NX
         in vmm_map_page s (md_as (mem s) mm) fault_addr phys_page flags))"

definition mm_expand_heap ::
  "'a vmm_state_scheme \<Rightarrow> u64 \<Rightarrow> u64 \<Rightarrow> (int \<times> 'a vmm_state_scheme) option" where
  "mm_expand_heap s mm fault_addr =
     (if fault_addr < md_brk (mem s) mm then Some (0, s)
      else
        (let grow_start = md_brk (mem s) mm;
             (phys_start, s) = buddy_alloc_pages s HEAP_GROW_ORDER
         in if phys_start = 0 then Some (-1, s)
            else do {
              let flags = PTE_PRESENT OR PTE_WRITABLE OR PTE_USER OR PTE_NX;
              (ret, s) \<leftarrow> vmm_map_range s (md_as (mem s) mm) grow_start phys_start HEAP_GROW_SIZE flags;
              s \<leftarrow> (if ret \<noteq> 0 then buddy_free_pages s phys_start HEAP_GROW_ORDER else Some s);
              Some (ret, s\<lparr>mem := store64 (mem s) (mm + 16) (grow_start + HEAP_GROW_SIZE)\<rparr>)
            }))"

definition err_code_to_access_flags :: "u64 \<Rightarrow> u64" where
  "err_code_to_access_flags error_code =
     (if error_code AND PF_INSTR \<noteq> 0 then RP_EXEC
      else if error_code AND PF_WRITE \<noteq> 0 then RP_WRITE
      else RP_READ)"

text \<open>The handler starts from a NULL descriptor: there is no current task to take it from yet.\<close>

definition mm_page_fault_handler :: "'a vmm_state_scheme \<Rightarrow> u64 \<Rightarrow> u64 \<Rightarrow> 'a vmm_state_scheme option" where
  "mm_page_fault_handler s fault_addr error_code = do {
     let mm = NULL;
     let access_flags = err_code_to_access_flags error_code;
     allowed \<leftarrow> mm_check_access s mm fault_addr access_flags;
     if \<not> allowed then Some s
     else do {
       region \<leftarrow> mm_find_region s mm fault_addr;
       if mr_flags (mem s) region AND RP_STACK \<noteq> 0 then Some (snd (mm_expand_stack s mm fault_addr))
       else if mr_flags (mem s) region AND RP_HEAP \<noteq> 0
         then map_option snd (mm_expand_heap s mm fault_addr)
       else Some s
     }
   }"

end
