(* ===== verification/Memmgr_Correct.thy ===== *)
theory Memmgr_Correct
  imports Pmm_Correct Memmgr Buddy_Init
begin

text \<open>
  Correctness of the memory manager of a task. The regions of a descriptor are objects of the slab cache
  for 32 bytes, so the invariant \<open>mm_wf\<close> joins the invariant of the allocators with the list of regions; what the list means is the
  sequence of triples (first address, last address, rights). Adding, removing and looking up
  refine the corresponding operations on sequences, and the layout of an executable gives every address
  the rights of its segment.
\<close>

section \<open>Room in the cache\<close>

definition room :: "'a slab_state_scheme \<Rightarrow> nat \<Rightarrow> slab_map \<Rightarrow> (u64 \<Rightarrow> nat list) \<Rightarrow> nat \<Rightarrow> bool" where
  "room s c L fr n \<longleftrightarrow> card (live s c L fr) + n \<le> card (all_slabs L) * ccount s c"

lemma finite_live: "finite (live s c L fr)"
  by (rule finite_subset[of _ "all_slabs L \<times> {..<ccount s c}"]) (auto simp: live_def)

lemma room_free:
  assumes "room s c L fr (Suc n)"
  shows "\<exists>p\<in>all_slabs L. fr p \<noteq> []"
proof (rule ccontr)
  assume "\<not> ?thesis"
  then have "live s c L fr = all_slabs L \<times> {..<ccount s c}" by (auto simp: live_def)
  then show False using assms by (simp add: room_def)
qed

lemma room_step:
  assumes "room s c L fr (Suc n)" "live t c L' fr' = insert a (live s c L fr)" "a \<notin> live s c L fr" "heap_frame s L FL t L' FL'" "ccount t c = ccount s c"
  shows "room t c L' fr' n"
proof -
  have "card (all_slabs L) \<le> card (all_slabs L')" using assms(4) by (intro card_mono) (simp_all add: heap_frame_def)
  from mult_le_mono1[OF this, of "ccount s c"] have "Suc (card (live s c L fr) + n) \<le> card (all_slabs L') * ccount s c"
    using assms(1) by (simp only: room_def add_Suc_right)
  then show ?thesis using assms(2,3,5) by (simp add: room_def finite_live)
qed

section \<open>Region records\<close>

lemma load_apart:
  assumes ap: "\<And>x. unat (x - r) < 32 \<Longrightarrow> \<not> unat (x - mm) < 48" and i: "unat i + 8 \<le> 32"
  shows "load64 (store64 m (mm + 8) v) (r + i) = load64 m (r + i)"
proof (intro load64_cong store64_outside)
  fix k :: u64 assume k: "k < 8"
  have "unat (i + k) < 32" using i k by (simp add: unat_word_ariths(1) word_less_nat_alt)
  then have no: "\<not> unat (r + i + k - mm) < 48" using ap[of "r + i + k"] by (simp add: add.assoc)
  define d where "d = r + i + k - (mm + 8)"
  have e: "r + i + k - mm = d + 8" by (simp add: d_def)
  show "\<not> r + i + k - (mm + 8) < 8"
  proof
    assume "r + i + k - (mm + 8) < 8"
    then have "unat d < 8" by (simp add: d_def word_less_nat_alt)
    then have "unat (d + 8) < 48" by (simp add: unat_word_ariths(1))
    then show False using no e by simp
  qed
qed

definition stored_region :: "memory \<Rightarrow> u64 \<Rightarrow> u64 \<Rightarrow> u64 \<Rightarrow> u64 \<Rightarrow> u64 \<Rightarrow> memory" where
  "stored_region m mm r a b f =
     (let m = store64 m r a; m = store64 m (r + 8) b; m = store64 m (r + 16) f; m = store64 m (r + 24) (md_regions m mm)
      in store64 m (mm + 8) r)"

lemma stored_region_fields:
  assumes ap: "\<And>x. unat (x - r) < 32 \<Longrightarrow> \<not> unat (x - mm) < 48"
    and m'_def: "m' = stored_region m mm r a b f"
  shows "mr_start m' r = a" "mr_end m' r = b" "mr_flags m' r = f" "mr_next m' r = md_regions m mm" "md_regions m' mm = r"
    and "\<And>x. 32 \<le> unat (x - r) \<Longrightarrow> \<not> x - (mm + 8) < 8 \<Longrightarrow> m' x = m x"
proof -
  note d = load64_store64_disj[of "r + 8" r] load64_store64_disj[of "r + 16" r] load64_store64_disj[of "r + 24" r]
    load64_store64_disj[of "r + 16" "r + 8"] load64_store64_disj[of "r + 24" "r + 8"] load64_store64_disj[of "r + 24" "r + 16"]
  have dd: "disj_range (8 :: u64) 8 0 8" "disj_range (16 :: u64) 8 0 8" "disj_range (24 :: u64) 8 0 8"
    "disj_range (16 :: u64) 8 8 8" "disj_range (24 :: u64) 8 8 8" "disj_range (24 :: u64) 8 16 8" by code_simp+
  have la: "load64 (store64 n (mm + 8) v) (r + i) = load64 n (r + i)" if "unat i + 8 \<le> 32" for n v i
    by (rule load_apart[OF _ that]) (rule ap)
  have la0: "load64 (store64 n (mm + 8) v) r = load64 n r" for n v using la[of 0] by simp
  have in_r: "\<not> unat (x - r) < 32" if "unat (x - mm) < 48" for x using ap that by blast
  have out: "store64 n (r + i) v x = n x" if "32 \<le> unat (x - r)" "i \<in> {0, 8, 16, 24}" for n i v x
  proof (rule store64_outside, rule notI)
    assume lt: "x - (r + i) < 8"
    define e where "e = x - (r + i)"
    have "x - r = e + i" by (simp add: e_def)
    moreover have "unat e < 8" using lt by (simp add: e_def word_less_nat_alt)
    then have "unat (e + i) < 32" using that(2) by (auto simp: unat_word_ariths(1))
    ultimately show False using that(1) by simp
  qed
  have head: "md_regions (store64 (store64 (store64 m r a) (r + 8) b) (r + 16) f) mm = md_regions m mm"
    unfolding md_regions_def
  proof (rule load64_cong)
    fix k :: u64 assume "k < 8"
    then have "unat (mm + 8 + k - mm) < 48" by (simp add: unat_word_ariths(1) word_less_nat_alt)
    then have "32 \<le> unat (mm + 8 + k - r)" using in_r by fastforce
    then show "store64 (store64 (store64 m r a) (r + 8) b) (r + 16) f (mm + 8 + k) = m (mm + 8 + k)"
      using out[of "mm + 8 + k" 0] by (simp add: out)
  qed
  show "mr_start m' r = a" "mr_end m' r = b" "mr_flags m' r = f" "mr_next m' r = md_regions m mm" "md_regions m' mm = r"
    using d dd by (simp_all add: la la0 m'_def stored_region_def Let_def mr_start_def mr_end_def mr_flags_def mr_next_def head) (simp add: md_regions_def)
  show "m' x = m x" if "32 \<le> unat (x - r)" "\<not> x - (mm + 8) < 8" for x
    using that out[of x 0] by (simp add: m'_def stored_region_def Let_def out store64_outside)
qed

section \<open>The regions of a descriptor\<close>

definition region_of :: "memory \<Rightarrow> u64 \<Rightarrow> u64 \<times> u64 \<times> u64" where
  "region_of m r = (mr_start m r, mr_end m r, mr_flags m r)"

definition mm_wf :: "'a vmm_state_scheme \<Rightarrow> slab_map \<Rightarrow> (u64 \<Rightarrow> nat list) \<Rightarrow> free_map \<Rightarrow> u64 \<Rightarrow> u64 list \<Rightarrow> bool" where
  "mm_wf s L fr FL mm R \<longleftrightarrow> alloc_wf s 1 L fr FL \<and> csize s 1 = 32 \<and> cache_ptr s 1 \<noteq> NULL \<and> mm \<noteq> NULL
     \<and> (\<forall>x. unat (x - mm) < 48 \<longrightarrow> outside_heap s L FL x) \<and> lseg (mr_slot mm s) Head R
     \<and> (\<forall>r\<in>set R. \<exists>q j. (q, j) \<in> live s 1 L fr \<and> r = slab_obj q 32 j)"

lemma region_bytes:
  fixes x r :: u64
  assumes "\<not> unat (x - r) < 32" shows "\<not> x - (r + 24) < 8"
proof
  assume lt: "x - (r + 24) < 8"
  define d where "d = x - (r + 24)"
  have "x - r = d + 24" "unat d < 8" using lt by (simp_all add: d_def word_less_nat_alt)
  then show False using assms by (simp add: unat_word_ariths(1))
qed

lemma descriptor_bytes:
  fixes x mm :: u64
  assumes "\<not> unat (x - mm) < 48" shows "\<not> x - (mm + 8) < 8"
proof
  assume lt: "x - (mm + 8) < 8"
  define d where "d = x - (mm + 8)"
  have "x - mm = d + 8" "unat d < 8" using lt by (simp_all add: d_def word_less_nat_alt)
  then show False using assms by (simp add: unat_word_ariths(1))
qed

lemma object_load:
  assumes "\<And>x. in_object q 32 j x \<Longrightarrow> m x = m' x" "unat i + 8 \<le> 32"
  shows "load64 m (slab_obj q 32 j + i) = load64 m' (slab_obj q 32 j + i)"
proof (intro load64_cong assms(1))
  fix k :: u64 assume "k < 8"
  then show "in_object q 32 j (slab_obj q 32 j + i + k)"
    using assms(2) by (simp add: in_object_def unat_word_ariths(1) word_less_nat_alt add.assoc)
qed

lemma object_region:
  assumes "\<And>x. in_object q 32 j x \<Longrightarrow> m x = m' x"
  shows "region_of m (slab_obj q 32 j) = region_of m' (slab_obj q 32 j)" "mr_next m (slab_obj q 32 j) = mr_next m' (slab_obj q 32 j)"
proof -
  have l: "load64 m (slab_obj q 32 j + i) = load64 m' (slab_obj q 32 j + i)" if "unat i + 8 \<le> 32" for i
    by (rule object_load[OF _ that]) (rule assms)
  have l0: "load64 m (slab_obj q 32 j) = load64 m' (slab_obj q 32 j)" using l[of 0] by simp
  show "region_of m (slab_obj q 32 j) = region_of m' (slab_obj q 32 j)" "mr_next m (slab_obj q 32 j) = mr_next m' (slab_obj q 32 j)"
    by (simp_all add: region_of_def mr_start_def mr_end_def mr_flags_def mr_next_def l l0)
qed

text \<open>Adding a region puts it in front of the list and keeps the others.\<close>

lemma mm_add_region_step:
  assumes wf: "mm_wf s L fr FL mm R" and rm: "room s 1 L fr (Suc n)" and lt: "start < en"
  obtains t L' fr' FL' r where "mm_add_region s mm start en flags = Some (0, t)" "mm_wf t L' fr' FL' mm (r # R)" "room t 1 L' fr' n"
    "map (region_of (mem t)) (r # R) = (start, en, flags) # map (region_of (mem s)) R" "md_brk (mem t) mm = md_brk (mem s) mm"
proof -
  have aw: "alloc_wf s 1 L fr FL" and z: "csize s 1 = 32" and mm: "mm \<noteq> NULL" "\<And>x. unat (x - mm) < 48 \<Longrightarrow> outside_heap s L FL x"
    and ls: "lseg (mr_slot mm s) Head R" and R: "\<And>r. r \<in> set R \<Longrightarrow> \<exists>q j. (q, j) \<in> live s 1 L fr \<and> r = slab_obj q 32 j"
    using wf by (auto simp: mm_wf_def)
  have sc: "1 = size_class sizeof_mem_region" "0 < sizeof_mem_region" "sizeof_mem_region \<le> SLAB_THRESHOLD"
    by (simp_all add: size_class_def sizeof_mem_region_def slab_sizes_def SLAB_THRESHOLD_def)
  obtain p k t L' fr' FL' where t: "kmalloc s sizeof_mem_region = Some (slab_obj p (csize s 1) k, t)" "(p, k) \<notin> live s 1 L fr" "(p, k) \<in> live t 1 L' fr'"
      "alloc_wf t 1 L' fr' FL'" "live t 1 L' fr' = insert (p, k) (live s 1 L fr)" "csize t 1 = csize s 1" "ccount t 1 = ccount s 1"
      "slab_caches_addr t = slab_caches_addr s" "\<And>q j x. (q, j) \<in> live s 1 L fr \<Longrightarrow> in_object q (csize s 1) j x \<Longrightarrow> mem t x = mem s x"
      "heap_frame s L FL t L' FL'"
    by (rule kmalloc_small[OF aw sc disjI1[OF room_free[OF rm]]]) (rule that)
  let ?r = "slab_obj p 32 k" let ?m = "stored_region (mem t) mm ?r start en flags" let ?u = "t\<lparr>mem := ?m\<rparr>"
  have mmo: "outside_heap t L' FL' x \<and> mem t x = mem s x" if "unat (x - mm) < 48" for x
    using t(10) mm(2)[OF that] by (simp add: heap_frame_def)
  have ap: "\<not> unat (x - mm) < 48" if "(q, j) \<in> live t 1 L' fr'" "in_object q 32 j x" for q j x
    using heap_live_outside[OF t(4) that(1)] that(2) mmo t(6) z by auto
  have apr: "\<not> unat (x - mm) < 48" if "unat (x - ?r) < 32" for x using ap[OF t(3)] that by (simp add: in_object_def)
  note f = stored_region_fields[OF apr refl, where m = "mem t" and a = start and b = en and f = flags]
  have hd8: "unat (x - mm) < 48" if "x - (mm + 8) < 8" for x using descriptor_bytes[of x mm] that by blast
  have keep: "?m x = mem t x" if "\<not> in_object p 32 k x" "\<not> x - (mm + 8) < 8" for x using f(6) that by (simp add: in_object_def not_less)
  have uw: "alloc_wf ?u 1 L' fr' FL'"
  proof -
    let ?v = "t\<lparr>mem := \<lambda>x. if in_object p 32 k x then ?m x else mem t x\<rparr>"
    have v: "alloc_wf ?v 1 L' fr' FL'" using t(6) z by (intro alloc_wf_user_write[OF t(4,3)]) simp
    have o: "outside_heap ?v L' FL' x = outside_heap t L' FL' x" for x by (simp add: outside_heap_def free_bytes_def free_blocks_def)
    have "?m x = mem ?v x" if "\<not> outside_heap ?v L' FL' x" for x using that keep[of x] mmo[of x] hd8[of x] unfolding o by auto
    from alloc_wf_outside_write[OF v this] show ?thesis by simp
  qed
  have old: "?m x = mem s x" if "(q, j) \<in> live s 1 L fr" "in_object q 32 j x" for q j x
  proof -
    have qt: "(q, j) \<in> live t 1 L' fr'" using that(1) t(5) by simp
    have "\<not> in_object p 32 k x" using live_objects_apart[OF t(4) qt t(3), of x] that t(2,6) z by auto
    then show ?thesis using keep[of x] hd8[of x] ap[OF qt that(2)] t(9)[OF that(1), of x] that(2) z by auto
  qed
  have reg: "region_of ?m r = region_of (mem s) r" "mr_next ?m r = mr_next (mem s) r" if "r \<in> set R" for r
    using R[OF that] object_region[of _ _ ?m "mem s"] old by metis+
  have hd: "md_regions (mem t) mm = md_regions (mem s) mm"
    unfolding md_regions_def
  proof (rule load64_cong)
    fix d :: u64 assume "d < 8"
    then have "unat (mm + 8 + d - mm) < 48" by (simp add: unat_word_ariths(1) word_less_nat_alt)
    then show "mem t (mm + 8 + d) = mem s (mm + 8 + d)" using mmo by blast
  qed
  have nz: "?r \<noteq> NULL"
  proof -
    have p: "p \<in> all_slabs L'" "k < ccount t 1" using t(3) by (simp_all add: live_def)
    have "contents t 1 L' fr'" using t(4) by (simp add: alloc_wf_def slab_wf_def)
    from slab_in[OF this p(1)] show ?thesis using slab_obj_nonnull[of p "csize t 1" "ccount t 1" k] p(2) t(6) z by simp
  qed
  have "mm_add_region s mm start en flags = Some (0, ?u)"
    using mm(1) lt t(1) nz z by (simp add: mm_add_region_def stored_region_def Let_def)
  moreover have "mm_wf ?u L' fr' FL' mm (?r # R)"
  proof -
    have "lseg (mr_slot mm ?u) (NextOf ?r) R" by (rule lseg_start[OF ls]) (simp_all add: f hd reg)
    moreover have "\<exists>q j. (q, j) \<in> live ?u 1 L' fr' \<and> r = slab_obj q 32 j" if "r \<in> set (?r # R)" for r
    proof (cases "r = ?r")
      case True
      then show ?thesis using t(3) by (auto simp: live_def)
    next
      case False
      then have "r \<in> set R" using that by simp
      then obtain q j where "(q, j) \<in> live s 1 L fr" "r = slab_obj q 32 j" using R by blast
      moreover from this(1) have "(q, j) \<in> live ?u 1 L' fr'" using t(5) by (simp add: live_def)
      ultimately show ?thesis by blast
    qed
    moreover have "outside_heap ?u L' FL' x = outside_heap t L' FL' x" for x by (simp add: outside_heap_def free_bytes_def free_blocks_def)
    moreover have "cache_ptr ?u 1 \<noteq> NULL" using wf t(8) by (simp add: mm_wf_def cache_ptr_def)
    ultimately show ?thesis unfolding mm_wf_def using uw t(6) z mm(1) mmo nz by (intro conjI allI impI ballI) (simp_all add: f)
  qed
  moreover have "room ?u 1 L' fr' n"
    using room_step[OF rm t(5) t(2) t(10) t(7)] by (simp add: room_def live_def)
  moreover have "map (region_of (mem ?u)) (?r # R) = (start, en, flags) # map (region_of (mem s)) R"
    using reg by (simp add: region_of_def f)
  moreover have "md_brk (mem ?u) mm = md_brk (mem s) mm"
    unfolding md_brk_def
  proof (rule load64_cong)
    fix d :: u64 assume d: "d < 8"
    then have "unat (mm + 16 + d - mm) < 48" by (simp add: unat_word_ariths(1) word_less_nat_alt)
    then have o: "mem t (mm + 16 + d) = mem s (mm + 16 + d)" "\<not> in_object p 32 k (mm + 16 + d)" using mmo ap[OF t(3)] by blast+
    have "\<not> mm + 16 + d - (mm + 8) < 8" using d by (simp add: unat_word_ariths(1) word_less_nat_alt)
    from keep[OF o(2) this] o(1) show "mem ?u (mm + 16 + d) = mem s (mm + 16 + d)" by simp
  qed
  ultimately show ?thesis by (rule that)
qed

section \<open>Looking up an address\<close>

definition covers :: "u64 \<Rightarrow> u64 \<times> u64 \<times> u64 \<Rightarrow> bool" where
  "covers a = (\<lambda>(lo, hi, _). lo \<le> a \<and> a \<le> hi)"

lemma find_region_loop_lseg:
  "lseg (mr_slot mm s) l R \<Longrightarrow> find_region_loop (mem s) (mr_slot mm s l) a =
    Some (case find (\<lambda>r. covers a (region_of (mem s) r)) R of None \<Rightarrow> NULL | Some r \<Rightarrow> r)"
proof (induction R arbitrary: l)
  case Nil
  then show ?case by (simp add: find_region_loop.simps)
next
  case (Cons r R)
  then show ?case by (subst find_region_loop.simps) (force simp: covers_def region_of_def)
qed

definition access_allowed :: "(u64 \<times> u64 \<times> u64) list \<Rightarrow> u64 \<Rightarrow> u64 \<Rightarrow> bool" where
  "access_allowed rs a acc = (case find (covers a) rs of None \<Rightarrow> False | Some (_, _, f) \<Rightarrow> f \<noteq> 0 \<and> f AND acc = acc)"

lemma find_map: "find P (map f xs) = map_option f (find (\<lambda>x. P (f x)) xs)"
  by (induction xs) simp_all

lemma mm_check_access_regions:
  assumes "mm \<noteq> NULL" "lseg (mr_slot mm s) Head R"
  shows "mm_check_access s mm a acc = Some (access_allowed (map (region_of (mem s)) R) a acc)"
proof -
  have f: "mm_find_region s mm a = Some (case find (\<lambda>r. covers a (region_of (mem s) r)) R of None \<Rightarrow> NULL | Some r \<Rightarrow> r)"
    using find_region_loop_lseg[OF assms(2), of a] assms(1) by (simp add: mm_find_region_def)
  show ?thesis
  proof (cases "find (\<lambda>r. covers a (region_of (mem s) r)) R")
    case None
    then show ?thesis by (simp add: mm_check_access_def f access_allowed_def find_map)
  next
    case (Some r)
    then have "r \<in> set R" by (auto simp: find_Some_iff)
    then have "r \<noteq> NULL" using lseg_nonnull[OF assms(2)] by auto
    then show ?thesis using Some by (simp add: mm_check_access_def f access_allowed_def find_map region_of_def)
  qed
qed

section \<open>The layout of an executable\<close>

lemma mm_wf_set_brk:
  assumes wf: "mm_wf s L fr FL mm R"
    and t_def: "t = s\<lparr>mem := store64 (mem s) (mm + 16) v\<rparr>"
  shows "mm_wf t L fr FL mm R" "map (region_of (mem t)) R = map (region_of (mem s)) R" "md_brk (mem t) mm = v"
proof -
  have aw: "alloc_wf s 1 L fr FL" and z: "csize s 1 = 32" and mm: "\<And>x. unat (x - mm) < 48 \<Longrightarrow> outside_heap s L FL x"
    and ls: "lseg (mr_slot mm s) Head R" and R: "\<And>r. r \<in> set R \<Longrightarrow> \<exists>q j. (q, j) \<in> live s 1 L fr \<and> r = slab_obj q 32 j"
    using wf by (auto simp: mm_wf_def)
  have same: "mem t x = mem s x" if "\<not> outside_heap s L FL x" for x
  proof -
    have "\<not> x - (mm + 16) < 8"
    proof
      assume lt: "x - (mm + 16) < 8"
      define d where "d = x - (mm + 16)"
      have "x - mm = d + 16" "unat d < 8" using lt by (simp_all add: d_def word_less_nat_alt)
      then have "unat (x - mm) < 48" by (simp add: unat_word_ariths(1))
      then show False using mm that by blast
    qed
    then show ?thesis by (simp add: t_def store64_outside)
  qed
  have lv: "live t 1 L fr = live s 1 L fr" by (simp add: live_def t_def)
  have oh: "outside_heap t L FL x = outside_heap s L FL x" for x by (simp add: t_def outside_heap_def free_bytes_def free_blocks_def)
  have "alloc_wf t 1 L fr FL" using same unfolding t_def by (intro alloc_wf_outside_write[OF aw]) simp
  moreover have reg: "region_of (mem t) r = region_of (mem s) r" "mr_next (mem t) r = mr_next (mem s) r" if r: "r \<in> set R" for r
  proof -
    obtain q j where q: "(q, j) \<in> live s 1 L fr" "r = slab_obj q 32 j" using R[OF r] by blast
    have "mem t x = mem s x" if "in_object q 32 j x" for x using heap_live_outside[OF aw q(1)] that z by (intro same) auto
    then show "region_of (mem t) r = region_of (mem s) r" "mr_next (mem t) r = mr_next (mem s) r" unfolding q(2) by (auto intro: object_region)
  qed
  moreover have "md_regions (mem t) mm = md_regions (mem s) mm"
  proof -
    have "disj_range (16 :: u64) 8 8 8" by code_simp
    then show ?thesis by (simp add: md_regions_def t_def load64_store64_disj)
  qed
  then have "lseg (mr_slot mm t) Head R" using reg by (intro lseg_cong[OF ls]) simp_all
  moreover have "csize t 1 = 32" "cache_ptr t 1 \<noteq> NULL" using z wf by (simp_all add: t_def mm_wf_def cache_ptr_def)
  ultimately show "mm_wf t L fr FL mm R" using wf R unfolding mm_wf_def lv oh by blast
  show "map (region_of (mem t)) R = map (region_of (mem s)) R" using reg by simp
  show "md_brk (mem t) mm = v" by (simp add: md_brk_def t_def)
qed

text \<open>The access rights that an address is meant to have, from the top down: above the stack nothing, the stack, its
  guard page and everything down to the end of the heap nothing, the heap, the data, the code. The end addresses of the
  code and the data are the first that do not belong to them, as for every segment of an executable.\<close>

definition segment :: "u64 \<Rightarrow> u64 \<Rightarrow> u64 \<Rightarrow> u64 \<Rightarrow> u64" where
  "segment code_start code_end data_end a =
     (if a > STACK_TOP then 0
      else if a \<ge> STACK_TOP - STACK_SIZE + 1 then RP_READ OR RP_WRITE OR RP_STACK
      else if a \<ge> align_page_up data_end + HEAP_SIZE then 0
      else if a \<ge> align_page_up data_end then RP_READ OR RP_WRITE OR RP_HEAP
      else if a \<ge> data_end then 0
      else if a \<ge> align_page_up code_end then RP_READ OR RP_WRITE
      else if a \<ge> code_end then 0
      else if a \<ge> code_start then RP_READ OR RP_EXEC
      else 0)"

text \<open>The rights that the search through the regions grants: \<^verbatim>\<open>mm_find_region\<close> takes the end of a region to be inside,
  so the end address of the code, or of the data, is granted to the segment below it unless it begins the next one.\<close>

definition granted :: "u64 \<Rightarrow> u64 \<Rightarrow> u64 \<Rightarrow> u64 \<Rightarrow> u64" where
  "granted code_start code_end data_end a =
     (if a = data_end \<and> align_page_up data_end \<noteq> data_end then RP_READ OR RP_WRITE
      else if a = code_end \<and> align_page_up code_end \<noteq> code_end then RP_READ OR RP_EXEC
      else segment code_start code_end data_end a)"

definition layout :: "u64 \<Rightarrow> u64 \<Rightarrow> u64 \<Rightarrow> (u64 \<times> u64 \<times> u64) list" where
  "layout cs ce de =
     (let he = align_page_up de + HEAP_SIZE - 1; sb = STACK_TOP - STACK_SIZE + 1 in
     [(sb, STACK_TOP, RP_READ OR RP_WRITE OR RP_STACK), (sb - GUARD_SIZE, sb - 1, 0), (he + 1, he + GUARD_SIZE, 0),
      (align_page_up de, he, RP_READ OR RP_WRITE OR RP_HEAP), (align_page_up ce, de, RP_READ OR RP_WRITE), (cs, ce, RP_READ OR RP_EXEC)])"

definition fits :: "u64 \<Rightarrow> u64 \<Rightarrow> u64 \<Rightarrow> bool" where
  "fits cs ce de \<longleftrightarrow> cs < ce \<and> ce \<le> de \<and> align_page_up ce < de \<and> unat de + unat HEAP_SIZE + 3 * 4096 \<le> unat (STACK_TOP - STACK_SIZE)"

lemma layout_numbers:
  assumes "fits cs ce de"
  defines "h \<equiv> unat (align_page_up de)" and "he \<equiv> align_page_up de + HEAP_SIZE - 1"
  shows "unat ce \<le> unat (align_page_up ce)" "unat (align_page_up ce) < unat de" "unat de \<le> h" "unat cs < unat ce" "h + 1073741824 + 4096 \<le> 140737479962624"
    "unat (align_page_up de + HEAP_SIZE) = h + 1073741824" "unat he = h + 1073741823" "unat (he + 1) = h + 1073741824"
    "unat (he + GUARD_SIZE) = h + 1073745919"
proof -
  have d: "unat de + 1073741824 + 3 * 4096 \<le> 140737479966719" "unat ce \<le> unat de" "unat cs < unat ce" "unat (align_page_up ce) < unat de"
    using assms(1) by (simp_all add: fits_def HEAP_SIZE_def STACK_TOP_def STACK_SIZE_def word_le_nat_alt word_less_nat_alt)
  have up: "unat (align_page_up x) = (unat x + 4095) div 4096 * 4096" if "unat x \<le> unat de" for x using that d(1) by (intro unat_align_page_up) simp
  show "unat ce \<le> unat (align_page_up ce)" "unat de \<le> h" unfolding h_def using up[OF d(2)] up[of de] align_up_ge by simp_all
  show "unat (align_page_up ce) < unat de" "unat cs < unat ce" by (rule d)+
  have h: "h \<le> unat de + 4095" unfolding h_def using up[of de] by simp
  show b: "h + 1073741824 + 4096 \<le> 140737479962624"
    using h d(1) by simp
  show "unat (align_page_up de + HEAP_SIZE) = h + 1073741824" using b by (simp add: h_def HEAP_SIZE_def unat_word_ariths(1))
  then show e: "unat he = h + 1073741823"
    unfolding he_def by (subst unat_sub) (simp_all add: word_le_nat_alt)
  show "unat (he + 1) = h + 1073741824" "unat (he + GUARD_SIZE) = h + 1073745919" using b by (simp_all add: unat_word_ariths(1) e GUARD_SIZE_def)
qed

lemma layout_access:
  assumes "fits cs ce de"
  shows "access_allowed (layout cs ce de) a acc = (granted cs ce de a \<noteq> 0 \<and> granted cs ce de a AND acc = acc)"
proof -
  note n = layout_numbers[OF assms]
  have f: "RP_READ OR RP_WRITE OR RP_STACK \<noteq> 0" "RP_READ OR RP_WRITE OR RP_HEAP \<noteq> 0" "RP_READ OR RP_WRITE \<noteq> 0" "RP_READ OR RP_EXEC \<noteq> 0"
    by (simp_all add: RP_READ_def RP_WRITE_def RP_STACK_def RP_HEAP_def RP_EXEC_def)
  have sb: "unat (STACK_TOP - STACK_SIZE + 1) = 140737479966720" "unat (STACK_TOP - STACK_SIZE + 1 - GUARD_SIZE) = 140737479962624"
    "unat (STACK_TOP - STACK_SIZE + 1 - 1) = 140737479966719" "unat STACK_TOP = 140737488355327"
    by (simp_all add: STACK_TOP_def STACK_SIZE_def GUARD_SIZE_def)
  show ?thesis
    unfolding access_allowed_def granted_def segment_def layout_def Let_def word_le_nat_alt word_less_nat_alt sb n(6) word_unat_eq_iff[of a]
      word_unat_eq_iff[of "align_page_up de"] word_unat_eq_iff[of "align_page_up ce"]
    using n(1-5) f by (auto simp: covers_def word_le_nat_alt sb n(6-9))
qed

text \<open>A descriptor with the given regions, room for \<open>n\<close> more and the given end of the heap.\<close>

definition has_layout :: "'a vmm_state_scheme \<Rightarrow> u64 \<Rightarrow> nat \<Rightarrow> (u64 \<times> u64 \<times> u64) list \<Rightarrow> u64 \<Rightarrow> bool" where
  "has_layout s mm n rs b \<longleftrightarrow> (\<exists>L fr FL R. mm_wf s L fr FL mm R \<and> room s 1 L fr n \<and> map (region_of (mem s)) R = rs \<and> md_brk (mem s) mm = b)"

lemma has_layout_add:
  assumes "has_layout s mm (Suc n) rs b" "start < en"
  shows "\<exists>t. mm_add_region s mm start en flags = Some (0, t) \<and> has_layout t mm n ((start, en, flags) # rs) b"
proof -
  obtain L fr FL R where l: "mm_wf s L fr FL mm R" "room s 1 L fr (Suc n)" "map (region_of (mem s)) R = rs" "md_brk (mem s) mm = b"
    using assms(1) by (auto simp: has_layout_def)
  show ?thesis
  proof (rule mm_add_region_step[OF l(1,2) assms(2), of flags])
    fix t L' fr' FL' r
    assume "mm_add_region s mm start en flags = Some (0, t)" "mm_wf t L' fr' FL' mm (r # R)" "room t 1 L' fr' n"
      "map (region_of (mem t)) (r # R) = (start, en, flags) # map (region_of (mem s)) R" "md_brk (mem t) mm = md_brk (mem s) mm"
    then show ?thesis unfolding has_layout_def l(3)[symmetric] l(4)[symmetric]
      by (intro exI[of _ t] exI[of _ L'] exI[of _ fr'] exI[of _ FL'] exI[of _ "r # R"] conjI)
  qed
qed

lemma has_layout_set_brk:
  assumes "has_layout s mm n rs b"
  shows "has_layout (s\<lparr>mem := store64 (mem s) (mm + 16) v\<rparr>) mm n rs v"
proof -
  obtain L fr FL R where l: "mm_wf s L fr FL mm R" "room s 1 L fr n" "map (region_of (mem s)) R = rs"
    using assms(1) by (auto simp: has_layout_def)
  have "room (s\<lparr>mem := store64 (mem s) (mm + 16) v\<rparr>) 1 L fr n" using l(2) by (simp add: room_def live_def)
  then show ?thesis unfolding has_layout_def using mm_wf_set_brk[OF l(1) refl, of v] l(3) by blast
qed

lemma mm_setup_executable_regions:
  assumes "has_layout s mm 6 [] b" and fit: "fits cs ce de" and mm: "mm \<noteq> NULL"
  shows "\<exists>t. mm_setup_executable s mm cs ce de = Some (0, t) \<and> has_layout t mm 0 (layout cs ce de) (align_page_up de)"
proof -
  let ?ds = "align_page_up ce" let ?hs = "align_page_up de" let ?he = "?hs + HEAP_SIZE - 1" let ?sb = "STACK_TOP - STACK_SIZE + 1"
  note n = layout_numbers[OF fit]
  have lt: "cs < ce" "?ds < de" "?hs < ?he" "?he + 1 < ?he + GUARD_SIZE" "?sb - GUARD_SIZE < ?sb - 1" "?sb < STACK_TOP"
    using n by (simp_all only: word_less_nat_alt) (simp_all add: STACK_TOP_def STACK_SIZE_def GUARD_SIZE_def)
  have "has_layout s mm (Suc (Suc (Suc (Suc (Suc (Suc 0)))))) [] b" using assms(1) by (simp add: eval_nat_numeral)
  then obtain t1 where 1: "mm_add_region s mm cs ce (RP_READ OR RP_EXEC) = Some (0, t1)" "has_layout t1 mm (Suc (Suc (Suc (Suc (Suc 0))))) [(cs, ce, RP_READ OR RP_EXEC)] b" using has_layout_add[OF _ lt(1)] by blast
  obtain t2 where 2: "mm_add_region t1 mm ?ds de (RP_READ OR RP_WRITE) = Some (0, t2)" "has_layout t2 mm (Suc (Suc (Suc (Suc 0)))) [(?ds, de, RP_READ OR RP_WRITE), (cs, ce, RP_READ OR RP_EXEC)] b"
    using has_layout_add[OF 1(2) lt(2)] by blast
  obtain t3 where 3: "mm_add_region (t2\<lparr>mem := store64 (mem t2) (mm + 16) ?hs\<rparr>) mm ?hs ?he (RP_READ OR RP_WRITE OR RP_HEAP) = Some (0, t3)" "has_layout t3 mm (Suc (Suc (Suc 0))) [(?hs, ?he, RP_READ OR RP_WRITE OR RP_HEAP), (?ds, de, RP_READ OR RP_WRITE), (cs, ce, RP_READ OR RP_EXEC)] ?hs"
    using has_layout_add[OF has_layout_set_brk[OF 2(2)] lt(3)] by blast
  obtain t4 where 4: "mm_add_region t3 mm (?he + 1) (?he + GUARD_SIZE) 0 = Some (0, t4)" "has_layout t4 mm (Suc (Suc 0)) [(?he + 1, ?he + GUARD_SIZE, 0), (?hs, ?he, RP_READ OR RP_WRITE OR RP_HEAP), (?ds, de, RP_READ OR RP_WRITE), (cs, ce, RP_READ OR RP_EXEC)] ?hs"
    using has_layout_add[OF 3(2) lt(4)] by blast
  obtain t5 where 5: "mm_add_region t4 mm (?sb - GUARD_SIZE) (?sb - 1) 0 = Some (0, t5)" "has_layout t5 mm (Suc 0) [(?sb - GUARD_SIZE, ?sb - 1, 0), (?he + 1, ?he + GUARD_SIZE, 0), (?hs, ?he, RP_READ OR RP_WRITE OR RP_HEAP), (?ds, de, RP_READ OR RP_WRITE), (cs, ce, RP_READ OR RP_EXEC)] ?hs"
    using has_layout_add[OF 4(2) lt(5)] by blast
  obtain t6 where 6: "mm_add_region t5 mm ?sb STACK_TOP (RP_READ OR RP_WRITE OR RP_STACK) = Some (0, t6)" "has_layout t6 mm 0 [(?sb, STACK_TOP, RP_READ OR RP_WRITE OR RP_STACK), (?sb - GUARD_SIZE, ?sb - 1, 0), (?he + 1, ?he + GUARD_SIZE, 0), (?hs, ?he, RP_READ OR RP_WRITE OR RP_HEAP), (?ds, de, RP_READ OR RP_WRITE), (cs, ce, RP_READ OR RP_EXEC)] ?hs"
    using has_layout_add[OF 5(2) lt(6)] by blast
  have "mm_setup_executable s mm cs ce de = Some (0, t6)"
    unfolding mm_setup_executable_def align_page_up_def[symmetric] 1(1) using 2(1) 3(1) 4(1) 5(1) 6(1) mm by (simp add: Let_def)
  then show ?thesis using 6(2) by (simp add: layout_def Let_def)
qed

text \<open>C28: The layout of an executable. For a task's descriptor outside the heap, on a well-formed heap whose cache of
  regions has room for six more objects (otherwise the code writes through the NULL that \<^verbatim>\<open>kmalloc\<close> returns) and for
  segments that fit below the stack, \<^verbatim>\<open>mm_setup_executable\<close> succeeds and sets the heap's end to the first page after the
  data. From then on \<^verbatim>\<open>mm_check_access\<close> returns, and at every address but the two end addresses it grants exactly
  what the layout gives: an access is allowed if the segment of its address is not a guard page or a hole and has all
  the rights asked for. The end address of the code and that of the data belong to no segment unless they are page
  aligned; the code grants them the rights of the code and of the data, because it takes the end of a region to be inside.\<close>

theorem mm_setup_executable_correct:
  assumes "mm_wf s L fr FL mm []" "room s 1 L fr 6" "fits code_start code_end data_end"
  shows "\<exists>t L' fr' FL' R. mm_setup_executable s mm code_start code_end data_end = Some (0, t) \<and> mm_wf t L' fr' FL' mm R
    \<and> length R = 6 \<and> md_brk (mem t) mm = align_page_up data_end
    \<and> (\<forall>a acc. (a = code_end \<longrightarrow> align_page_up code_end = code_end) \<and> (a = data_end \<longrightarrow> align_page_up data_end = data_end) \<longrightarrow>
         mm_check_access t mm a acc =
           Some (segment code_start code_end data_end a \<noteq> 0 \<and> segment code_start code_end data_end a AND acc = acc))
    \<and> (align_page_up code_end \<noteq> code_end \<longrightarrow>
         (\<forall>acc. mm_check_access t mm code_end acc = Some ((RP_READ OR RP_EXEC) AND acc = acc)))
    \<and> (align_page_up data_end \<noteq> data_end \<longrightarrow>
         (\<forall>acc. mm_check_access t mm data_end acc = Some ((RP_READ OR RP_WRITE) AND acc = acc)))"
proof -
  have mm: "mm \<noteq> NULL" using assms(1) by (simp add: mm_wf_def)
  have "has_layout s mm 6 [] (md_brk (mem s) mm)" unfolding has_layout_def using assms(1,2) by (intro exI conjI) simp_all
  from mm_setup_executable_regions[OF this assms(3) mm] obtain t L' fr' FL' R
    where t: "mm_setup_executable s mm code_start code_end data_end = Some (0, t)" "mm_wf t L' fr' FL' mm R"
      "map (region_of (mem t)) R = layout code_start code_end data_end" "md_brk (mem t) mm = align_page_up data_end"
    by (auto simp: has_layout_def)
  have "lseg (mr_slot mm t) Head R" using t(2) by (simp add: mm_wf_def)
  note c = mm_check_access_regions[OF mm this, unfolded t(3) layout_access[OF assms(3)]]
  have "length R = 6" using arg_cong[OF t(3), of length] by (simp add: layout_def Let_def)
  moreover have "granted code_start code_end data_end a = segment code_start code_end data_end a"
    if "(a = code_end \<longrightarrow> align_page_up code_end = code_end) \<and> (a = data_end \<longrightarrow> align_page_up data_end = data_end)" for a
    using that by (auto simp: granted_def)
  moreover have "granted code_start code_end data_end code_end = RP_READ OR RP_EXEC" if "align_page_up code_end \<noteq> code_end"
    using that layout_numbers(1,2)[OF assms(3)] by (auto simp: granted_def)
  moreover have "granted code_start code_end data_end data_end = RP_READ OR RP_WRITE" if "align_page_up data_end \<noteq> data_end"
    using that by (simp add: granted_def)
  moreover have "RP_READ OR RP_EXEC \<noteq> 0" "RP_READ OR RP_WRITE \<noteq> 0" by (simp_all add: RP_READ_def RP_WRITE_def RP_EXEC_def)
  ultimately show ?thesis using t(1,2,4) c by (intro exI[of _ t] exI[of _ L'] exI[of _ fr'] exI[of _ FL'] exI[of _ R]) simp
qed

text \<open>A cache of regions with one object in use, and a descriptor at the address 0x2000.\<close>

definition sample_mm_arena :: vmm_state where
  "sample_mm_arena = slab_cache_init
     \<lparr>mem = (\<lambda>_. 0), hhdm_offset = 0xFFFF800000000000, buddy_arenas = buddy_arenas sample_arena, buddy_arena_counter = 1,
      slab_caches = replicate 8 \<lparr>object_size = 0, objects_per_slab = 0, slab_size = 0, full_slabs = 0, partial_slabs = 0, empty_slabs = 0,
        total_objects = 0, allocated_objects = 0, total_slabs = 0\<rparr>, slab_caches_addr = 0xFFFFFFFF80001000,
      vmm_hhdm = 0, current_pml4 = 0, kernel_as = 0, cr3 = 0\<rparr> 1 32"

definition sample_mm_heap :: vmm_state where
  "sample_mm_heap = push_free_block sample_mm_arena 0 2 0x100000"

definition sample_mm :: vmm_state where
  "sample_mm = snd (the (kmalloc sample_mm_heap 32))"

lemmas sample_mm_unfold = sample_mm_heap_def sample_mm_arena_def sample_arena_def push_free_block_def set_free_head_def set_arena_def
  slab_cache_init_def set_cache_def Let_def

lemma sample_mm_heap_wf: "alloc_wf sample_mm_heap 1 (\<lambda>_. []) (\<lambda>_. []) sample_free"
  "(0, 2, 0x100000) \<in> free_blocks sample_mm_heap sample_free" "free_bytes sample_mm_heap sample_free = {0x100000..<0x104000}"
proof -
  have a: "buddy_wf sample_mm_arena (\<lambda>_ _. [])"
    by (simp add: buddy_wf_def arenas_wf_def arena_ok_def free_blocks_def disjoint_family_on_def sample_mm_unfold)
  have ok: "block_ok sample_mm_arena 0 2 0x100000" by (simp add: block_ok_def aligned_def sample_mm_unfold)
  have fb: "free_bytes sample_mm_arena (\<lambda>_ _. []) = {}" by (simp add: free_bytes_def free_blocks_def)
  have c: "0 < unat (buddy_arena_counter sample_mm_arena)" by (simp add: sample_mm_unfold)
  have b: "buddy_wf sample_mm_heap sample_free"
    unfolding sample_mm_heap_def sample_free_def using push_wf(1)[OF a _ ok] fb c by simp
  have "list_head w (cache_at sample_mm_heap 1) = NULL" for w by (cases w) (simp_all add: sample_mm_unfold)
  then show "alloc_wf sample_mm_heap 1 (\<lambda>_. []) (\<lambda>_. []) sample_free"
    using b by (intro alloc_wf_empty) (simp_all add: sample_mm_unfold layout_ok_def aligned_def calculate_objects_per_slab_def sizeof_slab_def)
  show "(0, 2, 0x100000) \<in> free_blocks sample_mm_heap sample_free" by (simp add: free_blocks_def sample_free_def fm_upd_def sample_mm_unfold)
  show "free_bytes sample_mm_heap sample_free = {0x100000..<0x104000}"
    unfolding sample_mm_heap_def sample_free_def using push_wf(2)[OF a _ ok] fb c by (simp add: brange_def)
qed

lemma sample_mm_wf: "\<exists>L fr FL. mm_wf sample_mm L fr FL 0x2000 [] \<and> room sample_mm 1 L fr 6"
proof -
  let ?s = sample_mm_heap
  note w = sample_mm_heap_wf
  have z: "csize ?s 1 = 32" "ccount ?s 1 = 254" by (simp_all add: sample_mm_unfold calculate_objects_per_slab_def sizeof_slab_def)
  have lv: "live ?s 1 (\<lambda>_. []) (\<lambda>_. []) = {}" by (simp add: live_def all_slabs_def)
  have sc: "1 = size_class 32" "0 < (32 :: u64)" "32 \<le> SLAB_THRESHOLD" by (simp_all add: size_class_def slab_sizes_def SLAB_THRESHOLD_def)
  have f: "(\<exists>p\<in>all_slabs (\<lambda>_. []). ([] :: nat list) \<noteq> []) \<or> (\<exists>i k a. (i, k, a) \<in> free_blocks ?s sample_free \<and> 0 < k)"
    using w(2) by (intro disjI2 exI[of _ 0] exI[of _ 2] exI[of _ "0x100000"]) simp
  obtain p k t L fr FL where t: "kmalloc ?s 32 = Some (slab_obj p (csize ?s 1) k, t)" "(p, k) \<in> live t 1 L fr" "alloc_wf t 1 L fr FL"
      "live t 1 L fr = insert (p, k) (live ?s 1 (\<lambda>_. []) (\<lambda>_. []))" "csize t 1 = csize ?s 1" "ccount t 1 = ccount ?s 1"
      "slab_caches_addr t = slab_caches_addr ?s" "heap_frame ?s (\<lambda>_. []) sample_free t L FL"
    by (rule kmalloc_small[OF w(1) sc f]) (rule that)
  have m: "sample_mm = t" using t(1) by (simp add: sample_mm_def)
  have keep: "outside_heap t L FL x \<and> mem t x = mem ?s x" if "unat (x - 0x2000) < 48" for x
  proof -
    define d where "d = x - 0x2000"
    have d: "x - hhdm_offset ?s = d + 0x800000002000" "unat d < 48" using that by (simp_all add: d_def sample_mm_unfold)
    then have "unat (x - hhdm_offset ?s) = unat d + 0x800000002000" by (simp add: unat_word_ariths(1))
    then have "outside_heap ?s (\<lambda>_. []) sample_free x" using w(3) by (simp add: outside_heap_def all_slabs_def)
    then show ?thesis using t(8) by (simp add: heap_frame_def)
  qed
  have "md_regions (mem t) 0x2000 = md_regions (mem ?s) 0x2000"
    unfolding md_regions_def by (intro load64_cong) (use keep in \<open>simp add: unat_word_ariths(1) word_less_nat_alt\<close>)
  also have "md_regions (mem ?s) 0x2000 = NULL" by (simp add: sample_mm_unfold md_regions_def phys_to_virt_def set_free_block_def load64_store64_disj load64_store8_disj load64_store32_disj disj_range_def) (simp add: load64_def word_rcat_def store8_def)
  finally have "md_regions (mem t) 0x2000 = NULL" .
  moreover have "cache_ptr t 1 \<noteq> NULL" unfolding cache_ptr_def t(7) by (simp add: sample_mm_unfold sizeof_slab_cache_def)
  ultimately have "mm_wf t L fr FL 0x2000 []" using t(3,5) z keep by (simp add: mm_wf_def)
  moreover have "room t 1 L fr 6"
  proof -
    have "p \<in> all_slabs L" using t(2) by (simp add: live_def)
    then have "1 \<le> card (all_slabs L)" by (metis One_nat_def Suc_leI card_gt_0_iff empty_iff finite_all_slabs)
    then show ?thesis using t(4,6) z lv by (simp add: room_def)
  qed
  ultimately show ?thesis unfolding m by blast
qed

theorem mm_setup_executable_correct_witness:
  "\<exists>t. mm_setup_executable sample_mm 0x2000 0x400000 0x401800 0x403000 = Some (0, t)
     \<and> mm_check_access t 0x2000 0x400010 RP_EXEC = Some True \<and> mm_check_access t 0x2000 0x400010 RP_WRITE = Some False
     \<and> mm_check_access t 0x2000 0x402010 RP_WRITE = Some True \<and> mm_check_access t 0x2000 0x7FFFFF7FF010 RP_READ = Some False
     \<and> mm_check_access t 0x2000 0x401800 RP_EXEC = Some True \<and> mm_check_access t 0x2000 0x401801 RP_EXEC = Some False"
proof -
  have fit: "fits 0x400000 0x401800 0x403000"
    by (simp add: fits_def HEAP_SIZE_def STACK_TOP_def STACK_SIZE_def align_page_up_def)
  obtain L fr FL where "mm_wf sample_mm L fr FL 0x2000 []" "room sample_mm 1 L fr 6" using sample_mm_wf by blast
  from mm_setup_executable_correct[OF this fit] obtain t where t: "mm_setup_executable sample_mm 0x2000 0x400000 0x401800 0x403000 = Some (0, t)"
    "\<And>a acc. a \<noteq> 0x401800 \<Longrightarrow> a \<noteq> 0x403000 \<Longrightarrow> mm_check_access t 0x2000 a acc =
       Some (segment 0x400000 0x401800 0x403000 a \<noteq> 0 \<and> segment 0x400000 0x401800 0x403000 a AND acc = acc)"
    "align_page_up 0x401800 \<noteq> 0x401800 \<longrightarrow> (\<forall>acc. mm_check_access t 0x2000 0x401800 acc = Some ((RP_READ OR RP_EXEC) AND acc = acc))" by blast
  have g: "segment 0x400000 0x401800 0x403000 0x400010 = 5" "segment 0x400000 0x401800 0x403000 0x402010 = 3"
    "segment 0x400000 0x401800 0x403000 0x7FFFFF7FF010 = 0" "segment 0x400000 0x401800 0x403000 0x401801 = 0"
    by (simp_all add: segment_def STACK_TOP_def STACK_SIZE_def HEAP_SIZE_def align_page_up_def RP_READ_def RP_WRITE_def RP_EXEC_def)
  have "align_page_up 0x401800 \<noteq> 0x401800" by (simp add: align_page_up_def)
  then have e: "mm_check_access t 0x2000 0x401800 acc = Some ((RP_READ OR RP_EXEC) AND acc = acc)" for acc using t(3) by blast
  show ?thesis using t(1) by (intro exI[of _ t]) (simp add: t(2) e g, simp add: RP_READ_def RP_WRITE_def RP_EXEC_def)
qed

section \<open>Removing a region\<close>

text \<open>The bytes of a link cell: in the descriptor or in the object of a region.\<close>

fun link_addr :: "u64 \<Rightarrow> link \<Rightarrow> u64" where
  "link_addr mm Head = mm + 8"
| "link_addr mm (NextOf p) = p + 24"

lemma set_mr_slot_eq: "set_mr_slot mm s l v = s\<lparr>mem := store64 (mem s) (link_addr mm l) v\<rparr>"
  "mr_slot mm s l = load64 (mem s) (link_addr mm l)"
  by (cases l; simp add: md_regions_def mr_next_def)+

text \<open>Writing a link of the list changes no other link and no region, and keeps the heap.\<close>

lemma mm_wf_set_link:
  assumes wf: "mm_wf s L fr FL mm R" and l: "l \<in> insert Head (NextOf ` set R)" and t: "t = set_mr_slot mm s l v"
  shows "alloc_wf t 1 L fr FL" "\<And>k. k \<in> insert Head (NextOf ` set R) \<Longrightarrow> k \<noteq> l \<Longrightarrow> mr_slot mm t k = mr_slot mm s k" "mr_slot mm t l = v"
    "\<And>r. r \<in> set R \<Longrightarrow> region_of (mem t) r = region_of (mem s) r"
proof -
  have aw: "alloc_wf s 1 L fr FL" and z: "csize s 1 = 32" and mm: "\<And>x. unat (x - mm) < 48 \<Longrightarrow> outside_heap s L FL x"
    and R: "\<And>r. r \<in> set R \<Longrightarrow> \<exists>q j. (q, j) \<in> live s 1 L fr \<and> r = slab_obj q 32 j"
    using wf by (auto simp: mm_wf_def)
  have memt: "mem t = store64 (mem s) (link_addr mm l) v" by (simp add: t set_mr_slot_eq)
  have lo: "\<not> outside_heap s L FL x" if "r \<in> set R" "unat (x - r) < 32" for r x
    using R[OF that(1)] heap_live_outside[OF aw] that(2) z by (auto simp: in_object_def)
  have apart: "\<not> unat (x - r') < 32" if a: "r \<in> set R" "r' \<in> set R" "r \<noteq> r'" "unat (x - r) < 32" for r r' x
  proof -
    obtain q j q' j' where "(q, j) \<in> live s 1 L fr" "r = slab_obj q 32 j" "(q', j') \<in> live s 1 L fr" "r' = slab_obj q' 32 j'" using R a(1,2) by meson
    then show ?thesis using live_objects_apart[OF aw, of q j q' j' x] a(3,4) z by (auto simp: in_object_def)
  qed
  have out: "mem t x = mem s x" if "\<And>p. l = NextOf p \<Longrightarrow> \<not> unat (x - p) < 32" "l = Head \<Longrightarrow> \<not> unat (x - mm) < 48" for x
    unfolding memt using that by (cases l) (simp_all add: store64_outside region_bytes descriptor_bytes)
  show "alloc_wf t 1 L fr FL"
  proof (cases l)
    case Head
    have "mem t x = mem s x" if "\<not> outside_heap s L FL x" for x using that mm Head by (intro out) auto
    then show ?thesis using alloc_wf_outside_write[OF aw, of "mem t"] by (simp add: t set_mr_slot_eq)
  next
    case (NextOf p)
    then have "p \<in> set R" using l by auto
    then obtain q j where q: "(q, j) \<in> live s 1 L fr" "p = slab_obj q 32 j" using R by blast
    have "mem t x = mem s x" if "\<not> in_object q (csize s 1) j x" for x using that z q(2) NextOf by (intro out) (auto simp: in_object_def)
    then show ?thesis using alloc_wf_user_write[OF aw q(1), of "mem t"] by (simp add: t set_mr_slot_eq)
  qed
  show "mr_slot mm t l = v" by (simp add: set_mr_slot_eq memt)
  have sel: "mem t x = mem s x" if "r \<in> set R" "unat (x - r) < 32" "l \<noteq> NextOf r" for r x
    using that l apart[of r _ x] lo[of r x] mm[of x] by (intro out) auto
  show "mr_slot mm t k = mr_slot mm s k" if k: "k \<in> insert Head (NextOf ` set R)" "k \<noteq> l" for k
  proof (cases k)
    case Head
    have "mem t (mm + 8 + d) = mem s (mm + 8 + d)" if "d < 8" for d
    proof -
      have "unat (mm + 8 + d - mm) < 48" using that by (simp add: unat_word_ariths(1) word_less_nat_alt)
      then show ?thesis using mm lo l k Head by (intro out) blast+
    qed
    then show ?thesis unfolding Head by (simp add: md_regions_def) (rule load64_cong)
  next
    case (NextOf r)
    have r: "r \<in> set R" using k(1) NextOf by auto
    have "mem t (r + 24 + d) = mem s (r + 24 + d)" if "d < 8" for d
      using that k(2) NextOf by (intro sel[OF r]) (simp_all add: unat_word_ariths(1) word_less_nat_alt)
    then show ?thesis unfolding NextOf by (simp add: mr_next_def) (rule load64_cong)
  qed
  show "region_of (mem t) r = region_of (mem s) r" if r: "r \<in> set R" for r
  proof -
    have "mem t (r + i + d) = mem s (r + i + d)" if "d < 8" "unat i + 8 \<le> 24" for d i
    proof (cases "l = NextOf r")
      case True
      have "\<not> r + i + d - (r + 24) < 8"
      proof
        assume lt: "r + i + d - (r + 24) < 8"
        define e where "e = i + d"
        have "unat e < 24" using that by (simp add: e_def unat_word_ariths(1) word_less_nat_alt)
        moreover have "r + i + d - (r + 24) = e - 24" by (simp add: e_def)
        with lt have "e - 24 < 8" by (simp only:)
        then have "unat (e - 24) < 8" by (simp add: word_less_nat_alt)
        ultimately show False by (simp add: unat_sub_wrap)
      qed
      then show ?thesis unfolding memt True by (simp add: store64_outside)
    next
      case False
      then show ?thesis using that by (intro sel[OF r]) (simp_all add: unat_word_ariths(1) word_less_nat_alt add.assoc)
    qed
    then have "load64 (mem t) (r + i) = load64 (mem s) (r + i)" if "unat i + 8 \<le> 24" for i using that by (intro load64_cong)
    from this[of 0] this[of 8] this[of 16] show ?thesis by (simp add: region_of_def mr_start_def mr_end_def mr_flags_def)
  qed
qed

text \<open>Freeing an object that is not on the list keeps the descriptor.\<close>

lemma mm_wf_kfree:
  assumes wf: "mm_wf s L fr FL mm R" and qj: "(q, j) \<in> live s 1 L fr" and c: "c = slab_obj q 32 j" "c \<notin> set R" "load64 (mem s) c \<noteq> FREED_PATTERN"
  shows "\<exists>t L' fr'. kfree s c = Some t \<and> mm_wf t L' fr' FL mm R \<and> live t 1 L' fr' = live s 1 L fr - {(q, j)}
    \<and> map (region_of (mem t)) R = map (region_of (mem s)) R"
proof -
  have aw: "alloc_wf s 1 L fr FL" and z: "csize s 1 = 32" and cp: "cache_ptr s 1 \<noteq> NULL" and mm: "mm \<noteq> NULL" "\<And>x. unat (x - mm) < 48 \<Longrightarrow> outside_heap s L FL x"
    and ls: "lseg (mr_slot mm s) Head R" and R: "\<And>r. r \<in> set R \<Longrightarrow> \<exists>q j. (q, j) \<in> live s 1 L fr \<and> r = slab_obj q 32 j"
    using wf by (auto simp: mm_wf_def)
  obtain t L' fr' where t: "slab_free s q (slab_obj q (csize s 1) j) = Some t" "alloc_wf t 1 L' fr' FL" "live t 1 L' fr' = live s 1 L fr - {(q, j)}"
      "same_frame s t 1" "\<forall>(p, k)\<in>live s 1 L fr - {(q, j)}. \<forall>x. in_object p (csize s 1) k x \<longrightarrow> mem t x = mem s x" "heap_frame s L FL t L' FL"
    using slab_free_live[OF aw qj] by blast
  have "kfree s c = Some t" using kfree_object[OF aw qj cp, of c] c(1,3) t(1) z by simp
  moreover have live: "\<exists>p k. (p, k) \<in> live t 1 L' fr' \<and> r = slab_obj p 32 k" if "r \<in> set R" for r
  proof -
    obtain p k where "(p, k) \<in> live s 1 L fr" "r = slab_obj p 32 k" using R[OF \<open>r \<in> set R\<close>] by blast
    then show ?thesis using t(3) c(1,2) \<open>r \<in> set R\<close> by auto
  qed
  have reg: "region_of (mem t) r = region_of (mem s) r" "mr_next (mem t) r = mr_next (mem s) r" if "r \<in> set R" for r
  proof -
    obtain p k where p: "(p, k) \<in> live t 1 L' fr'" "r = slab_obj p 32 k" using live[OF \<open>r \<in> set R\<close>] by blast
    then have "mem t x = mem s x" if "in_object p 32 k x" for x using bspec[OF t(5), of "(p, k)"] p(1) t(3) z that by simp
    then show "region_of (mem t) r = region_of (mem s) r" "mr_next (mem t) r = mr_next (mem s) r" unfolding p(2) by (auto intro: object_region)
  qed
  have mmo: "outside_heap t L' FL x \<and> mem t x = mem s x" if "unat (x - mm) < 48" for x using t(6) mm(2)[OF that] by (simp add: heap_frame_def)
  have "md_regions (mem t) mm = md_regions (mem s) mm"
    unfolding md_regions_def by (intro load64_cong) (use mmo in \<open>simp add: unat_word_ariths(1) word_less_nat_alt\<close>)
  then have "lseg (mr_slot mm t) Head R" using reg by (intro lseg_cong[OF ls]) simp_all
  moreover have "csize t 1 = 32" "cache_ptr t 1 \<noteq> NULL" using same_frame_fields[OF t(4)] z cp by (simp_all add: cache_ptr_def)
  ultimately show ?thesis using t(2,3) mm(1) mmo reg live unfolding mm_wf_def by (intro exI[of _ t] exI[of _ L'] exI[of _ fr']) simp
qed

text \<open>C39: Removing a region. On a well-formed heap and for a range that is not empty, \<^verbatim>\<open>mm_remove_region\<close> returns; the list loses the first region with
  exactly these bounds, its object goes back to the cache, and the other regions keep their order, bounds and rights; without such
  a region it returns -1 and changes nothing. The start address must not be the pattern of
  freed memory, which \<^verbatim>\<open>kfree\<close> would take for a double free.\<close>

theorem mm_remove_region_correct:
  assumes wf: "mm_wf s L fr FL mm R" and lt: "start < en" and pat: "start \<noteq> FREED_PATTERN"
    and rs: "rs = map (region_of (mem s)) R" and hit: "hit = (\<lambda>(lo, hi, f). lo = start \<and> hi = en)"
  shows "\<exists>t L' fr' R'. mm_remove_region s mm start en = Some (if \<exists>r\<in>set rs. hit r then 0 else -1, t) \<and> mm_wf t L' fr' FL mm R'
    \<and> map (region_of (mem t)) R' = takeWhile (\<lambda>r. \<not> hit r) rs @ tl (dropWhile (\<lambda>r. \<not> hit r) rs)
    \<and> card (live t 1 L' fr') + (if \<exists>r\<in>set rs. hit r then 1 else 0) = card (live s 1 L fr)"
proof -
  let ?h = "\<lambda>r. mr_start (mem s) r = start \<and> mr_end (mem s) r = en"
  have ls: "lseg (mr_slot mm s) Head R" and mm: "mm \<noteq> NULL" using wf by (simp_all add: mm_wf_def)
  have hr: "hit (region_of (mem s) r) = ?h r" for r by (simp add: hit region_of_def)
  note f = find_slot_spec[OF ls, of ?h]
  show ?thesis
  proof (cases "\<exists>r\<in>set R. ?h r")
    case False
    then have "mm_remove_region s mm start en = Some (-1, s)" using f mm lt by (auto simp: mm_remove_region_def)
    moreover have "\<not> hit r" if "r \<in> set rs" for r using that False hr by (auto simp: rs)
    then have tw: "takeWhile (\<lambda>r. \<not> hit r) rs = rs" "dropWhile (\<lambda>r. \<not> hit r) rs = []" "\<not> (\<exists>r\<in>set rs. hit r)" by auto
    moreover have "map (region_of (mem s)) R = takeWhile (\<lambda>r. \<not> hit r) rs @ tl (dropWhile (\<lambda>r. \<not> hit r) rs)" by (simp only: tw list.sel(2) append_Nil2 rs[symmetric])
    ultimately show ?thesis using wf by (intro exI[of _ s] exI[of _ L] exI[of _ fr] exI[of _ R]) (simp only: if_False simp_thms add_0_right)
  next
    case True
    define ys where "ys = takeWhile (\<lambda>r. \<not> ?h r) R"
    obtain c zs where d: "dropWhile (\<lambda>r. \<not> ?h r) R = c # zs" using True by (cases "dropWhile (\<lambda>r. \<not> ?h r) R") auto
    have R: "R = ys @ c # zs" unfolding ys_def d[symmetric] by simp
    have c: "?h c" using hd_dropWhile[of "\<lambda>r. \<not> ?h r" R] d True by simp
    let ?l = "slot_after Head ys"
    have l: "?l \<in> insert Head (NextOf ` set R)" using R by (auto simp: slot_after_cases)
    have sc: "mr_slot mm s ?l = c" using lseg_suffix[OF ls[unfolded R]] by simp
    let ?u = "set_mr_slot mm s ?l (mr_next (mem s) c)"
    note u = mm_wf_set_link[OF wf l refl, where v = "mr_next (mem s) c"]
    have dist: "distinct R" using lseg_distinct[OF ls] .
    have ul: "lseg (mr_slot mm ?u) Head (ys @ zs)"
      using ls unfolding R by (rule lseg_redirect) (use u(2,3) R in \<open>auto\<close>)
    obtain q j where q: "(q, j) \<in> live s 1 L fr" "c = slab_obj q 32 j" using wf R by (auto simp: mm_wf_def)
    have uo: "outside_heap ?u L FL x = outside_heap s L FL x" "live ?u 1 L fr = live s 1 L fr" "csize ?u 1 = csize s 1" "cache_ptr ?u 1 = cache_ptr s 1" for x
      by (simp_all add: set_mr_slot_eq outside_heap_def free_bytes_def free_blocks_def live_def cache_ptr_def)
    have uw: "mm_wf ?u L fr FL mm (ys @ zs)" using wf u(1) ul R unfolding mm_wf_def uo by auto
    have "load64 (mem ?u) c = start" using u(4)[of c] R c by (simp add: region_of_def mr_start_def)
    then have "load64 (mem ?u) c \<noteq> FREED_PATTERN" "c \<notin> set (ys @ zs)" using pat dist R by auto
    from mm_wf_kfree[OF uw q(1)[folded uo(2)] q(2) this(2,1)] obtain t L' fr' where t: "kfree ?u c = Some t" "mm_wf t L' fr' FL mm (ys @ zs)"
        "live t 1 L' fr' = live s 1 L fr - {(q, j)}" "map (region_of (mem t)) (ys @ zs) = map (region_of (mem ?u)) (ys @ zs)" unfolding uo by blast
    have "find_slot (mr_slot mm s) ?h Head = Some (Some ?l)" using f True by (simp add: ys_def)
    then have "mm_remove_region s mm start en = Some (0, t)" using mm lt sc t(1) by (simp add: mm_remove_region_def Let_def)
    moreover have "\<exists>r\<in>set rs. hit r" using True hr by (auto simp: rs)
    moreover have "map (region_of (mem t)) (ys @ zs) = takeWhile (\<lambda>r. \<not> hit r) rs @ tl (dropWhile (\<lambda>r. \<not> hit r) rs)"
      unfolding t(4) rs takeWhile_map dropWhile_map o_def hr ys_def[symmetric] d using u(4) R by (simp add: map_tl)
    moreover have "card (live s 1 L fr) = Suc (card (live s 1 L fr - {(q, j)}))" by (rule card.remove[OF finite_live q(1)])
    ultimately show ?thesis using t(2,3) by (intro exI[of _ t] exI[of _ L'] exI[of _ fr'] exI[of _ "ys @ zs"]) simp
  qed
qed

text \<open>The example with one region added, which is then removed.\<close>

definition sample_region :: vmm_state where
  "sample_region = snd (the (mm_add_region sample_mm 0x2000 0x400000 0x401000 RP_READ))"

theorem mm_remove_region_correct_witness:
  "\<exists>t L fr FL. mm_remove_region sample_region 0x2000 0x400000 0x401000 = Some (0, t) \<and> mm_wf t L fr FL 0x2000 []"
proof -
  obtain L fr FL where "mm_wf sample_mm L fr FL 0x2000 []" "room sample_mm 1 L fr 6" using sample_mm_wf by blast
  then have "has_layout sample_mm 0x2000 (Suc 5) [] (md_brk (mem sample_mm) 0x2000)" unfolding has_layout_def by (intro exI conjI) simp_all
  from has_layout_add[OF this, of "0x400000" "0x401000" RP_READ] obtain u
    where u: "mm_add_region sample_mm 0x2000 0x400000 0x401000 RP_READ = Some (0, u)"
      "has_layout u 0x2000 5 [(0x400000, 0x401000, RP_READ)] (md_brk (mem sample_mm) 0x2000)" by auto
  have e: "sample_region = u" using u(1) by (simp add: sample_region_def)
  obtain L fr FL R where w: "mm_wf sample_region L fr FL 0x2000 R" "map (region_of (mem sample_region)) R = [(0x400000, 0x401000, RP_READ)]"
    using u(2)[folded e, unfolded has_layout_def] by (elim exE conjE) (rule that)
  obtain t L' fr' R' where "mm_remove_region sample_region 0x2000 0x400000 0x401000 = Some (0, t)" "mm_wf t L' fr' FL 0x2000 R'" "map (region_of (mem t)) R' = []"
    using mm_remove_region_correct[OF w(1) _ _ w(2)[symmetric] refl, of "0x400000" "0x401000"] by (auto simp: FREED_PATTERN_def)
  then show ?thesis by blast
qed

end
