(* ===== verification/Tasks.thy ===== *)
theory Tasks
  imports Memmgr Mem_List
begin

text \<open>
  Tasks (\<^verbatim>\<open>arch/x86_64/tasks/tasks.c\<close>), the task manager (\<^verbatim>\<open>task_manager.c\<close>) and the scheduler
  (\<^verbatim>\<open>kernel/scheduler/scheduler.c\<close>). A task is a structure in memory; the list of all tasks, the
  family lists and the run queue of each core are intrusive lists through it. The locks serialise the
  calls; the functions below are what one call does. The per-core arrays are lists indexed by core,
  \<open>this_core\<close> is the core that runs the code. A context switch (assembly) does not return: its model
  is the address of the context that is loaded.
\<close>

section \<open>State\<close>

definition MAX_CORES :: nat where "MAX_CORES = 4"
definition PID_MAX :: u32 where "PID_MAX = 1111111111"
definition KERNEL_STACK_SIZE :: u64 where "KERNEL_STACK_SIZE = 4 * PAGE_SIZE"

definition TASK_RUNNING :: u8 where "TASK_RUNNING = 0"
definition TASK_SLEEPING_INTERRUPTIBLE :: u8 where "TASK_SLEEPING_INTERRUPTIBLE = 1"
definition TASK_ZOMBIE :: u8 where "TASK_ZOMBIE = 6"

record task_state = vmm_state +
  pid_counter :: u32
  all_tasks :: u64
  cpu_runqueue :: u64
  current_task :: "u64 list"
  task_counter :: "u32 list"
  this_core :: nat

text \<open>
  \<^verbatim>\<open>struct task\<close>: the context (20 words, \<^verbatim>\<open>rip\<close> at 120, \<^verbatim>\<open>cs\<close> at 128, \<^verbatim>\<open>rflags\<close> at 136, \<^verbatim>\<open>stack_ptr\<close>
  at 144, \<^verbatim>\<open>ss\<close> at 152), then \<^verbatim>\<open>pid\<close>, \<^verbatim>\<open>tgid\<close>, \<^verbatim>\<open>cpu_id\<close> and \<^verbatim>\<open>priority\<close> (32 bits each, at 160 to
  172), \<^verbatim>\<open>state\<close> (8 bits) at 176, pointers from 184, six list nodes from 208, \<^verbatim>\<open>exit_code\<close> at 304 and
  \<^verbatim>\<open>exit_signal\<close> at 308; 312 bytes.
\<close>

definition sizeof_task :: u64 where "sizeof_task = 312"
definition sizeof_task_context :: u64 where "sizeof_task_context = 160"
definition t_pid :: "memory \<Rightarrow> u64 \<Rightarrow> u32" where "t_pid m t = load32 m (t + 160)"
definition t_cpu_id :: "memory \<Rightarrow> u64 \<Rightarrow> u32" where "t_cpu_id m t = load32 m (t + 168)"
definition t_state :: "memory \<Rightarrow> u64 \<Rightarrow> u8" where "t_state m t = load8 m (t + 176)"
definition t_md :: "memory \<Rightarrow> u64 \<Rightarrow> u64" where "t_md m t = load64 m (t + 184)"
definition t_kernel_stack_base :: "memory \<Rightarrow> u64 \<Rightarrow> u64" where "t_kernel_stack_base m t = load64 m (t + 192)"
definition t_parent :: "memory \<Rightarrow> u64 \<Rightarrow> u64" where "t_parent m t = load64 m (t + 200)"

definition children_node :: "u64 \<Rightarrow> u64" where "children_node t = t + 208"
definition siblings_node :: "u64 \<Rightarrow> u64" where "siblings_node t = t + 224"
definition zombie_children_node :: "u64 \<Rightarrow> u64" where "zombie_children_node t = t + 240"
definition zombie_siblings_node :: "u64 \<Rightarrow> u64" where "zombie_siblings_node t = t + 256"
definition tasks_node :: "u64 \<Rightarrow> u64" where "tasks_node t = t + 272"
definition runnable_node :: "u64 \<Rightarrow> u64" where "runnable_node t = t + 288"

text \<open>\<^verbatim>\<open>container_of(node, struct task, tasks_runnable)\<close> and \<^verbatim>\<open>&__percpu_cpu_runqueue[i]\<close>.\<close>

definition task_of_runnable :: "u64 \<Rightarrow> u64" where "task_of_runnable node = node - 288"
definition runqueue_addr :: "'a task_state_scheme \<Rightarrow> nat \<Rightarrow> u64" where
  "runqueue_addr s i = cpu_runqueue s + of_nat i * 16"

section \<open>Creating and destroying tasks\<close>

definition incr_pid_ctr :: "'a task_state_scheme \<Rightarrow> u32 \<times> 'a task_state_scheme" where
  "incr_pid_ctr s =
     (let pid = pid_counter s;
          s = s\<lparr>pid_counter := pid_counter s + 1\<rparr>;
          s = (if pid_counter s > PID_MAX then s\<lparr>pid_counter := 2\<rparr> else s)
      in (pid, s))"

definition create_task :: "'a task_state_scheme \<Rightarrow> (u64 \<times> 'a task_state_scheme) option" where
  "create_task s = do {
     (task, s) \<leftarrow> kmalloc s sizeof_task;
     if task = NULL then Some (NULL, s)
     else
       (let m = store32 (mem s) (task + 160) 0;
            m = store32 m (task + 164) (t_pid m task);
            m = store32 m (task + 172) 99;
            m = store8 m (task + 176) TASK_RUNNING;
            m = store64 m (task + 184) NULL;
            m = memset m task 0 sizeof_task_context;
            m = store64 m (task + 200) NULL;
            m = node_init m (siblings_node task);
            m = node_init m (children_node task);
            m = node_init m (zombie_siblings_node task);
            m = node_init m (zombie_children_node task);
            m = store32 m (task + 304) 0;
            m = store32 m (task + 308) 0
        in Some (task, s\<lparr>mem := m\<rparr>))
   }"

definition create_kernel_task :: "'a task_state_scheme \<Rightarrow> u64 \<Rightarrow> (u64 \<times> 'a task_state_scheme) option" where
  "create_kernel_task s func = do {
     (ktask, s) \<leftarrow> create_task s;
     if ktask = NULL then Some (NULL, s)
     else do {
       (stack, s) \<leftarrow> kmalloc s KERNEL_STACK_SIZE;
       if stack = NULL then do { s \<leftarrow> kfree s ktask; Some (NULL, s) }
       else
         (let m = store64 (mem s) (ktask + 192) stack;
              m = store64 m (ktask + 144) (stack + KERNEL_STACK_SIZE);
              m = store64 m (ktask + 120) func;
              m = store64 m (ktask + 136) 0x202;
              m = store64 m (ktask + 128) 0x08;
              m = store64 m (ktask + 152) 0x10;
              m = node_init m (runnable_node ktask);
              m = node_add_tail m (tasks_node ktask) (all_tasks s)
          in Some (ktask, s\<lparr>mem := m\<rparr>))
     }
   }"

definition create_user_task :: "'a task_state_scheme \<Rightarrow> (u64 \<times> 'a task_state_scheme) option" where
  "create_user_task s = do {
     (utask, s) \<leftarrow> create_task s;
     if utask = NULL then Some (NULL, s)
     else do {
       let (pid, s) = incr_pid_ctr s;
       let s = s\<lparr>mem := store32 (mem s) (utask + 160) pid\<rparr>;
       let s = s\<lparr>mem := store32 (mem s) (utask + 164) (t_pid (mem s) utask)\<rparr>;
       (md, s) \<leftarrow> kmalloc s sizeof_mem_descriptor;
       let s = s\<lparr>mem := store64 (mem s) (utask + 184) md\<rparr>;
       if md = NULL then do { s \<leftarrow> kfree s utask; Some (NULL, s) }
       else
         (let m = node_init (mem s) (runnable_node utask);
              m = node_add_tail m (tasks_node utask) (all_tasks s)
          in Some (utask, s\<lparr>mem := m\<rparr>))
     }
   }"

definition task_destroy :: "'a task_state_scheme \<Rightarrow> u64 \<Rightarrow> 'a task_state_scheme option" where
  "task_destroy s task =
     (let s = s\<lparr>mem := node_del (mem s) (tasks_node task)\<rparr>;
          s = s\<lparr>mem := node_del (mem s) (siblings_node task)\<rparr>
      in do {
        s \<leftarrow> (if t_md (mem s) task \<noteq> NULL then mm_free s (t_md (mem s) task) else Some s);
        s \<leftarrow> (if t_kernel_stack_base (mem s) task \<noteq> NULL then kfree s (t_kernel_stack_base (mem s) task) else Some s);
        kfree s task
      })"

section \<open>Families\<close>

definition task_add_child :: "'a task_state_scheme \<Rightarrow> u64 \<Rightarrow> u64 \<Rightarrow> 'a task_state_scheme" where
  "task_add_child s parent child =
     (if t_parent (mem s) child \<noteq> parent then s
      else s\<lparr>mem := node_add_tail (mem s) (siblings_node child) (children_node parent)\<rparr>)"

definition task_remove_child :: "'a task_state_scheme \<Rightarrow> u64 \<Rightarrow> u64 \<Rightarrow> 'a task_state_scheme" where
  "task_remove_child s parent child =
     (if t_parent (mem s) child \<noteq> parent then s
      else s\<lparr>mem := node_del (mem s) (siblings_node child)\<rparr>)"

definition task_add_zombie :: "'a task_state_scheme \<Rightarrow> u64 \<Rightarrow> u64 \<Rightarrow> 'a task_state_scheme" where
  "task_add_zombie s parent zombie =
     (if t_parent (mem s) zombie \<noteq> parent then s
      else
        (let m = node_del (mem s) (siblings_node zombie);
             m = node_add_tail m (zombie_siblings_node zombie) (zombie_children_node parent)
         in s\<lparr>mem := m\<rparr>))"

definition task_remove_zombie :: "'a task_state_scheme \<Rightarrow> u64 \<Rightarrow> u64 \<Rightarrow> 'a task_state_scheme" where
  "task_remove_zombie s parent zombie =
     (if t_parent (mem s) zombie \<noteq> parent then s
      else s\<lparr>mem := node_del (mem s) (zombie_siblings_node zombie)\<rparr>)"

partial_function (option) orphan_loop :: "memory \<Rightarrow> u64 \<Rightarrow> u64 \<Rightarrow> memory option" where
  "orphan_loop m node children =
     (if node = children then Some m
      else
        (let node_to_remove = node;
             node = node_next m node
         in orphan_loop (node_del m node_to_remove) node children))"

definition task_orphan_children :: "'a task_state_scheme \<Rightarrow> u64 \<Rightarrow> 'a task_state_scheme option" where
  "task_orphan_children s dead_parent =
     map_option (\<lambda>m. s\<lparr>mem := m\<rparr>)
       (orphan_loop (mem s) (node_next (mem s) (children_node dead_parent)) (children_node dead_parent))"

section \<open>The scheduler\<close>

fun init_runqueues :: "'a task_state_scheme \<Rightarrow> nat list \<Rightarrow> 'a task_state_scheme" where
  "init_runqueues s [] = s"
| "init_runqueues s (i # is) =
     init_runqueues (s\<lparr>mem := node_init (mem s) (runqueue_addr s i), current_task := (current_task s)[i := NULL]\<rparr>) is"

definition scheduler_init :: "'a task_state_scheme \<Rightarrow> 'a task_state_scheme" where
  "scheduler_init s =
     (let s = s\<lparr>mem := node_init (mem s) (all_tasks s)\<rparr>
      in init_runqueues s [0..<MAX_CORES])"

definition sched_task :: "'a task_state_scheme \<Rightarrow> u64 \<Rightarrow> nat \<Rightarrow> 'a task_state_scheme" where
  "sched_task s task cpu_id =
     (if task = NULL then s
      else s\<lparr>mem := node_add_tail (mem s) (runnable_node task) (runqueue_addr s cpu_id)\<rparr>)"

definition sched_remove_task :: "'a task_state_scheme \<Rightarrow> u64 \<Rightarrow> 'a task_state_scheme" where
  "sched_remove_task s task =
     (if task = NULL then s else s\<lparr>mem := node_del (mem s) (runnable_node task)\<rparr>)"

definition get_current_task :: "'a task_state_scheme \<Rightarrow> u64" where
  "get_current_task s = current_task s ! this_core s"

text \<open>The choice of the next task; NULL when there is none.\<close>

definition pick_next :: "'a task_state_scheme \<Rightarrow> u64" where
  "pick_next s =
     (let current = current_task s ! this_core s;
          runqueue = runqueue_addr s (this_core s)
      in if current = NULL then
           (if \<not> node_empty (mem s) runqueue then task_of_runnable (node_next (mem s) runqueue) else NULL)
         else
           (let next_node = node_next (mem s) (runnable_node current);
                next_node = (if next_node = runqueue then node_next (mem s) runqueue else next_node)
            in if next_node \<noteq> runqueue then task_of_runnable next_node else NULL))"

text \<open>\<^verbatim>\<open>schedule\<close>: the result is the context that is loaded.\<close>

definition schedule :: "'a task_state_scheme \<Rightarrow> u64 \<times> 'a task_state_scheme" where
  "schedule s =
     (let current = current_task s ! this_core s;
          nxt = pick_next s
      in if nxt \<noteq> NULL \<and> nxt \<noteq> current
         then (nxt, s\<lparr>current_task := (current_task s)[this_core s := nxt]\<rparr>)
         else (current, s))"

text \<open>
  The traversal of \<^verbatim>\<open>debug_print_runqueue\<close>, which stops after more than 100 nodes; the result is the
  number of tasks it prints. An empty queue is reported before the traversal.
\<close>

function runqueue_count :: "memory \<Rightarrow> u64 \<Rightarrow> u64 \<Rightarrow> nat \<Rightarrow> nat" where
  "runqueue_count m runqueue current count =
     (if current = runqueue then count
      else if count + 1 > 100 then count + 1
      else runqueue_count m runqueue (node_next m current) (count + 1))"
  by pat_completeness auto
termination by (relation "measure (\<lambda>(m, rq, current, count). 101 - count)") auto

definition debug_print_runqueue :: "'a task_state_scheme \<Rightarrow> nat \<Rightarrow> nat option" where
  "debug_print_runqueue s cpu_id =
     (let runqueue = runqueue_addr s cpu_id in
      if node_empty (mem s) runqueue then None
      else Some (runqueue_count (mem s) runqueue (node_next (mem s) runqueue) 0))"

section \<open>The task manager\<close>

text \<open>\<^verbatim>\<open>init_task_ctr\<close>; writing past the array is \<open>None\<close>.\<close>

definition init_task_ctr :: "'a task_state_scheme \<Rightarrow> nat \<Rightarrow> 'a task_state_scheme option" where
  "init_task_ctr s cpu_count =
     (if cpu_count > MAX_CORES then None
      else Some (s\<lparr>task_counter := replicate cpu_count 0 @ drop cpu_count (task_counter s)\<rparr>))"

text \<open>The counters are C \<^verbatim>\<open>int\<close>s: 32-bit words that are compared signed and whose increment wraps.\<close>

fun least_busy :: "u32 list \<Rightarrow> nat \<Rightarrow> u32 \<Rightarrow> nat list \<Rightarrow> nat" where
  "least_busy cs ident mn [] = ident"
| "least_busy cs ident mn (i # is) =
     (if sint (cs ! i) < sint mn then least_busy cs i (cs ! i) is else least_busy cs ident mn is)"

definition find_least_busy_cpu :: "'a task_state_scheme \<Rightarrow> nat \<times> 'a task_state_scheme" where
  "find_least_busy_cpu s =
     (let ident = least_busy (task_counter s) 0 (task_counter s ! 0) [1..<MAX_CORES]
      in (ident, s\<lparr>task_counter := (task_counter s)[ident := task_counter s ! ident + 1]\<rparr>))"

text \<open>\<^verbatim>\<open>create_and_schedule_kernel_task\<close> does not test the result of \<^verbatim>\<open>create_kernel_task\<close>: a NULL task is written through.\<close>

definition create_and_schedule_kernel_task ::
  "'a task_state_scheme \<Rightarrow> u64 \<Rightarrow> (u64 \<times> 'a task_state_scheme) option" where
  "create_and_schedule_kernel_task s func = do {
     (t, s) \<leftarrow> create_kernel_task s func;
     let (ident, s) = find_least_busy_cpu s;
     if t = NULL then None
     else
       (let s = s\<lparr>mem := store32 (mem s) (t + 168) (of_nat ident)\<rparr>
        in Some (t, sched_task s t ident))
   }"

text \<open>\<^verbatim>\<open>task_exit\<close>; \<open>None\<close> also stands for a core without a current task and for a core number outside the array.\<close>

definition task_exit :: "'a task_state_scheme \<Rightarrow> u32 \<Rightarrow> (u64 \<times> 'a task_state_scheme) option" where
  "task_exit s exit_code =
     (let current = get_current_task s;
          s = s\<lparr>mem := store32 (mem s) (current + 304) exit_code\<rparr>;
          s = s\<lparr>mem := store8 (mem s) (current + 176) TASK_ZOMBIE\<rparr>;
          s = sched_remove_task s current;
          cpu = unat (t_cpu_id (mem s) current);
          s = s\<lparr>task_counter := (task_counter s)[cpu := task_counter s ! cpu - 1]\<rparr>
      in if current = NULL \<or> cpu \<ge> MAX_CORES then None else do {
        s \<leftarrow> (if t_md (mem s) current \<noteq> NULL then do {
                 s \<leftarrow> mm_free s (t_md (mem s) current);
                 Some (s\<lparr>mem := store64 (mem s) (current + 184) NULL\<rparr>)
               } else Some s);
        let parent = t_parent (mem s) current;
        let s = (if parent \<noteq> NULL \<and> t_state (mem s) parent = TASK_SLEEPING_INTERRUPTIBLE
                 then task_add_zombie s parent current else s);
        s \<leftarrow> (if children_node current \<noteq> node_next (mem s) (children_node current)
              then task_orphan_children s current else Some s);
        Some (schedule s)
      })"

definition wake_up_task :: "'a task_state_scheme \<Rightarrow> u64 \<Rightarrow> 'a task_state_scheme" where
  "wake_up_task s task =
     (let s = s\<lparr>mem := store8 (mem s) (task + 176) TASK_RUNNING\<rparr>;
          (ident, s) = find_least_busy_cpu s;
          s = s\<lparr>mem := store32 (mem s) (task + 168) (of_nat ident)\<rparr>
      in sched_task s task ident)"

end
