(* ===== verification/Tasks_Correct.thy ===== *)
theory Tasks_Correct
  imports Tasks
begin

text \<open>
  Properties of tasks and of the scheduler: the run queues as sequences of tasks and round robin over
  them, initialisation, process numbers, load balancing, orphans and zombies, and what exiting does.
\<close>

section \<open>The run queues\<close>

definition cores :: "nat set" where "cores = {..<MAX_CORES}"

lemma cores_iff [simp]: "i \<in> cores \<longleftrightarrow> i < 4"
  by (simp add: cores_def MAX_CORES_def)

definition sched_nodes :: "'a task_state_scheme \<Rightarrow> u64 set \<Rightarrow> u64 set" where
  "sched_nodes s T = runqueue_addr s ` cores \<union> runnable_node ` T"

text \<open>
  \<open>T\<close> are the addresses of all task structures, \<open>Q i\<close> the tasks in the run queue of core \<open>i\<close>: their
  nodes and the queue heads do not overlap, every queue is well linked, and no task is in two queues.
\<close>

definition sched_wf :: "'a task_state_scheme \<Rightarrow> u64 set \<Rightarrow> (nat \<Rightarrow> u64 list) \<Rightarrow> bool" where
  "sched_wf s T Q \<longleftrightarrow> length (current_task s) = 4 \<and> this_core s < 4 \<and> NULL \<notin> T
     \<and> nodes_sep (sched_nodes s T) \<and> runqueue_addr s ` cores \<inter> runnable_node ` T = {}
     \<and> (\<forall>i<4. set (Q i) \<subseteq> T \<and> mlist (mem s) (runqueue_addr s i) (map runnable_node (Q i)))
     \<and> (\<forall>i<4. \<forall>j<4. i \<noteq> j \<longrightarrow> set (Q i) \<inter> set (Q j) = {})"

lemma runnable_inj [simp]: "runnable_node a = runnable_node b \<longleftrightarrow> a = b"
  by (simp add: runnable_node_def)

lemma task_of_runnable_node [simp]: "task_of_runnable (runnable_node t) = t"
  by (simp add: task_of_runnable_def runnable_node_def)

lemma runqueue_inj: "i < 4 \<Longrightarrow> j < 4 \<Longrightarrow> runqueue_addr s i = runqueue_addr s j \<longleftrightarrow> i = j"
proof -
  assume "i < 4" "j < 4"
  then have "unat (of_nat i * 16 :: u64) = i * 16" "unat (of_nat j * 16 :: u64) = j * 16"
    by (simp_all add: unat_word_ariths unat_of_nat)
  then have "(of_nat i * 16 :: u64) = of_nat j * 16 \<longleftrightarrow> i = j" by (simp add: word_unat_eq_iff)
  then show ?thesis unfolding runqueue_addr_def add_left_cancel .
qed

lemma sched_wf_queue:
  assumes "sched_wf s T Q" "i < 4"
  shows "mlist (mem s) (runqueue_addr s i) (map runnable_node (Q i))" "set (Q i) \<subseteq> T" "NULL \<notin> set (Q i)"
    "set (runqueue_addr s i # map runnable_node (Q i)) \<subseteq> sched_nodes s T" "distinct (Q i)"
    "runqueue_addr s i \<notin> runnable_node ` T"
proof -
  show l: "mlist (mem s) (runqueue_addr s i) (map runnable_node (Q i))" and sub: "set (Q i) \<subseteq> T"
    using assms unfolding sched_wf_def by blast+
  then show "NULL \<notin> set (Q i)" using assms(1) unfolding sched_wf_def by blast
  show "set (runqueue_addr s i # map runnable_node (Q i)) \<subseteq> sched_nodes s T"
    using sub assms(2) by (auto simp: sched_nodes_def)
  show "distinct (Q i)" using mlist_distinct[OF l] by (simp add: distinct_map)
  have "runqueue_addr s i \<in> runqueue_addr s ` cores" using assms(2) by simp
  then show "runqueue_addr s i \<notin> runnable_node ` T" using assms(1) unfolding sched_wf_def by blast
qed

section \<open>Choosing the next task\<close>

lemma pick_next_current:
  assumes wf: "sched_wf s T Q" and q: "Q (this_core s) = us @ c # vs" and c: "current_task s ! this_core s = c"
  shows "pick_next s = hd (vs @ us @ [c])"
proof -
  let ?q = "runqueue_addr s (this_core s)"
  have core: "this_core s < 4" using wf by (simp add: sched_wf_def)
  note l = sched_wf_queue[OF wf core]
  have ml: "mlist (mem s) ?q (map runnable_node us @ runnable_node c # map runnable_node vs)" using l(1) q by simp
  have nx: "node_next (mem s) (runnable_node c) = hd (map runnable_node vs @ [?q])" using mlist_links(2)[OF ml] .
  have ft: "node_next (mem s) ?q = runnable_node (hd (us @ [c]))" using mlist_first[OF l(1)] q by (cases us) simp_all
  have ne: "?q \<noteq> runnable_node t" if "t \<in> set (us @ c # vs)" for t using that l(2,6) q by auto
  have c0: "c \<noteq> NULL" using l(3) q by auto
  have hd_in: "hd (us @ [c]) \<in> set (us @ c # vs)" by (cases us) auto
  show ?thesis
  proof (cases vs)
    case Nil
    then show ?thesis using c c0 nx ft ne[OF hd_in] by (simp add: pick_next_def Let_def)
  next
    case (Cons v vs')
    then show ?thesis using c c0 nx ne[of v] by (simp add: pick_next_def Let_def)
  qed
qed

lemma pick_next_idle:
  assumes wf: "sched_wf s T Q" and c: "current_task s ! this_core s = NULL"
  shows "pick_next s = (if Q (this_core s) = [] then NULL else hd (Q (this_core s)))"
proof -
  have core: "this_core s < 4" using wf by (simp add: sched_wf_def)
  note l = sched_wf_queue[OF wf core]
  show ?thesis
    using c mlist_first[OF l(1)] mlist_empty_iff[OF l(1)] by (cases "Q (this_core s)") (simp_all add: pick_next_def Let_def)
qed

lemma sched_wf_current:
  "sched_wf s T Q \<Longrightarrow> sched_wf (s\<lparr>current_task := (current_task s)[i := t]\<rparr>) T Q"
  by (simp add: sched_wf_def sched_nodes_def runqueue_addr_def)

lemma schedule_wf: "sched_wf s T Q \<Longrightarrow> sched_wf (snd (schedule s)) T Q"
  and schedule_core: "this_core (snd (schedule s)) = this_core s"
  by (auto simp: schedule_def Let_def sched_wf_current)

lemma schedule_next:
  assumes wf: "sched_wf s T Q" and ts: "Q (this_core s) = ts" and i: "i < length ts" and c: "get_current_task s = ts ! i"
  shows "fst (schedule s) = ts ! ((i + 1) mod length ts)"
    and "get_current_task (snd (schedule s)) = ts ! ((i + 1) mod length ts)"
proof -
  have core: "this_core s < 4" "length (current_task s) = 4" using wf by (simp_all add: sched_wf_def)
  have sp: "ts = take i ts @ ts ! i # drop (Suc i) ts" using i by (simp add: id_take_nth_drop)
  have pn: "pick_next s = hd (drop (Suc i) ts @ take i ts @ [ts ! i])"
    using pick_next_current[OF wf, of "take i ts" "ts ! i" "drop (Suc i) ts"] ts sp c by (simp add: get_current_task_def)
  have nxt: "hd (drop (Suc i) ts @ take i ts @ [ts ! i]) = ts ! ((i + 1) mod length ts)"
  proof (cases "Suc i < length ts")
    case True
    then show ?thesis by (simp add: hd_append hd_drop_conv_nth)
  next
    case False
    then have "Suc i = length ts" using i by simp
    then show ?thesis using i by (cases i) (auto simp: hd_append hd_take hd_conv_nth)
  qed
  have "ts ! ((i + 1) mod length ts) \<in> set ts" using i by (intro nth_mem mod_less_divisor) linarith
  then have "ts ! ((i + 1) mod length ts) \<noteq> NULL" using sched_wf_queue(3)[OF wf core(1)] ts by auto
  then show "fst (schedule s) = ts ! ((i + 1) mod length ts)"
    and "get_current_task (snd (schedule s)) = ts ! ((i + 1) mod length ts)"
    using pn nxt c core by (auto simp: schedule_def Let_def get_current_task_def)
qed

text \<open>C10: Round robin. On a core whose run queue is \<open>ts\<close> and whose current task is number \<open>i\<close> of it, the
  \<open>k\<close>-th call of \<^verbatim>\<open>schedule\<close> from now makes task number \<open>i + k\<close> (modulo the length of the queue) current
  and loads its context; so every task of the queue runs again within one round, whatever its
  position.\<close>

theorem schedule_round_robin:
  assumes "sched_wf s T Q" "Q (this_core s) = ts" "i < length ts" "get_current_task s = ts ! i"
  shows "get_current_task (((\<lambda>s. snd (schedule s)) ^^ k) s) = ts ! ((i + k) mod length ts)
    \<and> fst (schedule (((\<lambda>s. snd (schedule s)) ^^ k) s)) = ts ! ((i + k + 1) mod length ts)
    \<and> sched_wf (((\<lambda>s. snd (schedule s)) ^^ k) s) T Q"
proof -
  let ?s = "\<lambda>k. ((\<lambda>s. snd (schedule s)) ^^ k) s"
  have inv: "sched_wf (?s k) T Q \<and> this_core (?s k) = this_core s \<and> get_current_task (?s k) = ts ! ((i + k) mod length ts)" for k
  proof (induction k)
    case 0
    then show ?case using assms by simp
  next
    case (Suc k)
    have lt: "(i + k) mod length ts < length ts" using assms(3) by (intro mod_less_divisor) linarith
    have "get_current_task (?s (Suc k)) = ts ! (((i + k) mod length ts + 1) mod length ts)"
      using schedule_next(2)[of "?s k" T Q ts, OF _ _ lt] Suc assms(2) by simp
    then show ?case using Suc schedule_wf[of "?s k" T Q] schedule_core[of "?s k"] by (simp add: mod_Suc_eq)
  qed
  have lt: "(i + k) mod length ts < length ts" using assms(3) by (intro mod_less_divisor) linarith
  have "fst (schedule (?s k)) = ts ! (((i + k) mod length ts + 1) mod length ts)"
    using schedule_next(1)[of "?s k" T Q ts, OF _ _ lt] inv[of k] assms(2) by simp
  then show ?thesis using inv[of k] by (simp add: mod_Suc_eq)
qed

section \<open>Adding to and removing from a queue\<close>

lemma sched_wfI:
  assumes "sched_wf s T Q" "sched_nodes s' T = sched_nodes s T" "runqueue_addr s' = runqueue_addr s"
    and "current_task s' = current_task s" "this_core s' = this_core s"
    and "\<And>i. i < 4 \<Longrightarrow> set (Q' i) \<subseteq> T \<and> mlist (mem s') (runqueue_addr s i) (map runnable_node (Q' i))"
    and "\<And>i j. i < 4 \<Longrightarrow> j < 4 \<Longrightarrow> i \<noteq> j \<Longrightarrow> set (Q' i) \<inter> set (Q' j) = {}"
  shows "sched_wf s' T Q'"
  using assms unfolding sched_wf_def by simp

lemma mem_update_queue [simp]: "runqueue_addr (s\<lparr>mem := m\<rparr>) = runqueue_addr s" "sched_nodes (s\<lparr>mem := m\<rparr>) T = sched_nodes s T"
  by (auto simp: runqueue_addr_def sched_nodes_def fun_eq_iff)

lemma other_queue_disjoint:
  assumes wf: "sched_wf s T Q" and i: "i < 4" "j < 4" "i \<noteq> j"
  shows "set (runqueue_addr s i # map runnable_node (Q i)) \<inter> set (runqueue_addr s j # map runnable_node (Q j)) = {}"
proof -
  have "set (Q i) \<inter> set (Q j) = {}" using wf i unfolding sched_wf_def by blast
  moreover note sched_wf_queue(2,6)[OF wf i(1)] sched_wf_queue(2,6)[OF wf i(2)]
  ultimately show ?thesis using runqueue_inj[OF i(1,2), of s] i(3) by auto
qed

lemma sched_task_wf:
  assumes wf: "sched_wf s T Q" and t: "t \<in> T" "\<And>i. i < 4 \<Longrightarrow> t \<notin> set (Q i)" and c: "cpu < 4"
  shows "sched_wf (sched_task s t cpu) T (Q(cpu := Q cpu @ [t]))"
proof -
  let ?m = "node_add_tail (mem s) (runnable_node t) (runqueue_addr s cpu)"
  have sep: "nodes_sep (sched_nodes s T)" and t0: "t \<noteq> NULL" using wf t(1) by (auto simp: sched_wf_def)
  have tn: "runnable_node t \<in> sched_nodes s T" using t(1) by (simp add: sched_nodes_def)
  note q = sched_wf_queue[OF wf c]
  have fresh: "runnable_node t \<notin> set (runqueue_addr s i # map runnable_node (Q i))" if "i < 4" for i
    using t(2)[OF that] imageI[OF t(1), of runnable_node] sched_wf_queue(6)[OF wf that] by auto
  note add = mlist_add_tail[OF sep q(4) tn q(1) fresh[OF c]]
  have "mlist ?m (runqueue_addr s i) (map runnable_node ((Q(cpu := Q cpu @ [t])) i))" if "i < 4" for i
  proof (cases "i = cpu")
    case False
    have "mlist ?m (runqueue_addr s i) (map runnable_node (Q i))"
      using sched_wf_queue[OF wf that] fresh[OF that] other_queue_disjoint[OF wf c that] False by (intro add(2)) auto
    then show ?thesis using False by simp
  qed (use add(1) in simp)
  moreover have "sched_task s t cpu = s\<lparr>mem := ?m\<rparr>" using t0 by (simp add: sched_task_def)
  moreover have "set ((Q(cpu := Q cpu @ [t])) i) \<inter> set ((Q(cpu := Q cpu @ [t])) j) = {}" if "i < 4" "j < 4" "i \<noteq> j" for i j
    using that t(2) wf unfolding sched_wf_def by auto
  ultimately show ?thesis using sched_wf_queue(2)[OF wf] t(1) by (intro sched_wfI[OF wf]) auto
qed

lemma sched_remove_wf:
  assumes wf: "sched_wf s T Q" and c: "cpu < 4" and t: "Q cpu = us @ t # vs"
  shows "sched_wf (sched_remove_task s t) T (Q(cpu := us @ vs))"
proof -
  let ?m = "node_del (mem s) (runnable_node t)"
  have sep: "nodes_sep (sched_nodes s T)" using wf by (simp add: sched_wf_def)
  note q = sched_wf_queue[OF wf c]
  have t0: "t \<noteq> NULL" using q(3) t by auto
  have sub: "set (runqueue_addr s cpu # map runnable_node us @ runnable_node t # map runnable_node vs) \<subseteq> sched_nodes s T"
    and l: "mlist (mem s) (runqueue_addr s cpu) (map runnable_node us @ runnable_node t # map runnable_node vs)"
    using q(1,4) t by simp_all
  note del = mlist_del[OF sep sub l]
  have "mlist ?m (runqueue_addr s i) (map runnable_node ((Q(cpu := us @ vs)) i))" if "i < 4" for i
  proof (cases "i = cpu")
    case False
    have "mlist ?m (runqueue_addr s i) (map runnable_node (Q i))"
      using sched_wf_queue[OF wf that] other_queue_disjoint[OF wf c that] False t by (intro del(4)) auto
    then show ?thesis using False by simp
  qed (use del(1) in simp)
  moreover have "sched_remove_task s t = s\<lparr>mem := ?m\<rparr>" using t0 by (simp add: sched_remove_task_def)
  moreover have "set ((Q(cpu := us @ vs)) i) \<inter> set ((Q(cpu := us @ vs)) j) = {}" if "i < 4" "j < 4" "i \<noteq> j" for i j
  proof -
    have "set (Q i) \<inter> set (Q j) = {}" using that wf unfolding sched_wf_def by blast
    then show ?thesis using t by auto
  qed
  ultimately show ?thesis using sched_wf_queue(2)[OF wf] q(2) t by (intro sched_wfI[OF wf]) auto
qed

section \<open>Initialisation\<close>

lemma init_runqueues_fields:
  "cpu_runqueue (init_runqueues s is) = cpu_runqueue s" "this_core (init_runqueues s is) = this_core s"
  "length (current_task (init_runqueues s is)) = length (current_task s)"
  "runqueue_addr (init_runqueues s is) = runqueue_addr s"
  by (induction s "is" rule: init_runqueues.induct) (simp_all add: runqueue_addr_def fun_eq_iff)

lemma init_runqueues_lists:
  assumes "nodes_sep N"
  shows "runqueue_addr s ` set is \<subseteq> N \<Longrightarrow> p \<in> N \<Longrightarrow> p \<in> runqueue_addr s ` set is \<or> mlist (mem s) p [] \<Longrightarrow>
    mlist (mem (init_runqueues s is)) p []"
proof (induction s "is" rule: init_runqueues.induct)
  case (2 s i "is")
  let ?s = "s\<lparr>mem := node_init (mem s) (runqueue_addr s i), current_task := (current_task s)[i := NULL]\<rparr>"
  have rq: "runqueue_addr ?s = runqueue_addr s" by (simp add: runqueue_addr_def fun_eq_iff)
  have iN: "runqueue_addr s i \<in> N" using 2(2) by simp
  have "p \<in> runqueue_addr s ` set is \<or> mlist (mem ?s) p []"
  proof (cases "p = runqueue_addr s i")
    case True
    then show ?thesis using mlist_init(1)[OF assms iN] by simp
  next
    case False
    then have "mlist (mem s) p [] \<Longrightarrow> mlist (mem ?s) p []" using mlist_init(2)[OF assms iN, of "mem s" p "[]"] 2(3) by simp
    then show ?thesis using 2(4) False by auto
  qed
  then show ?case using 2(1)[unfolded rq, OF _ 2(3)] 2(2) by simp
qed simp

lemma init_runqueues_current:
  "length (current_task s) = 4 \<Longrightarrow> j < 4 \<Longrightarrow> current_task (init_runqueues s is) ! j = (if j \<in> set is then NULL else current_task s ! j)"
proof (induction s "is" rule: init_runqueues.induct)
  case (2 s i "is")
  then show ?case by (cases "i = j") auto
qed simp

lemma scheduler_init_wf:
  assumes "nodes_sep (insert (all_tasks s) (sched_nodes s T))" "all_tasks s \<notin> sched_nodes s T"
    and "runqueue_addr s ` cores \<inter> runnable_node ` T = {}" "NULL \<notin> T"
    and "length (current_task s) = 4" "this_core s < 4"
  shows "sched_wf (scheduler_init s) T (\<lambda>_. []) \<and> mlist (mem (scheduler_init s)) (all_tasks s) []
    \<and> current_task (scheduler_init s) = replicate 4 NULL"
proof -
  let ?s = "s\<lparr>mem := node_init (mem s) (all_tasks s)\<rparr>" and ?N = "insert (all_tasks s) (sched_nodes s T)"
  have sub: "runqueue_addr ?s ` cores \<subseteq> ?N" by (auto simp: sched_nodes_def)
  have is4: "set [0..<MAX_CORES] \<subseteq> cores" "set [0..<MAX_CORES] = {..<4}" by (auto simp: MAX_CORES_def)
  have sub': "runqueue_addr ?s ` set [0..<MAX_CORES] \<subseteq> ?N" using sub is4(1) by (meson image_mono order_trans)
  note q = init_runqueues_lists[OF assms(1) sub']
  have "mlist (mem ?s) (all_tasks s) []" using mlist_init(1)[OF assms(1)] by simp
  then have all: "mlist (mem (scheduler_init s)) (all_tasks s) []"
    unfolding scheduler_init_def Let_def using assms(2) is4(1)
    by (intro q) auto
  have cur: "current_task (scheduler_init s) = replicate 4 NULL"
    using init_runqueues_current[of ?s] init_runqueues_fields(3)[of ?s] assms(5) is4
    by (intro nth_equalityI) (simp_all add: scheduler_init_def)
  have nodes: "sched_nodes (scheduler_init s) T = sched_nodes s T" "runqueue_addr (scheduler_init s) = runqueue_addr s"
    by (simp_all add: sched_nodes_def scheduler_init_def init_runqueues_fields)
  have sep: "nodes_sep (sched_nodes s T)" using assms(1) by (simp add: nodes_sep_def)
  have "mlist (mem (scheduler_init s)) (runqueue_addr s i) []" if "i < 4" for i
    unfolding scheduler_init_def Let_def using that sub' is4(2) by (intro q) auto
  then have "sched_wf (scheduler_init s) T (\<lambda>_. [])"
    unfolding sched_wf_def nodes using cur assms(3,4,6) sep
    by (simp add: scheduler_init_def init_runqueues_fields)
  then show ?thesis using all cur by blast
qed

text \<open>C23: The run queues behave as queues of tasks: \<^verbatim>\<open>sched_task\<close> appends a task to the queue of the chosen
  core, \<^verbatim>\<open>sched_remove_task\<close> takes it out of the queue it is in, and neither touches the queues of the
  other cores.\<close>

theorem run_queue_refines:
  assumes "sched_wf s T Q" "t \<in> T" "\<forall>i<4. t \<notin> set (Q i)" "cpu < (4 :: nat)"
  shows "sched_wf (sched_task s t cpu) T (Q(cpu := Q cpu @ [t]))
    \<and> sched_wf (sched_remove_task (sched_task s t cpu) t) T Q
    \<and> (\<forall>us u vs. Q cpu = us @ u # vs \<longrightarrow> sched_wf (sched_remove_task s u) T (Q(cpu := us @ vs)))"
proof -
  have a: "sched_wf (sched_task s t cpu) T (Q(cpu := Q cpu @ [t]))" using assms by (intro sched_task_wf) auto
  moreover have "sched_wf (sched_remove_task (sched_task s t cpu) t) T ((Q(cpu := Q cpu @ [t]))(cpu := Q cpu @ []))"
    using sched_remove_wf[OF a assms(4), of "Q cpu" t "[]"] by simp
  ultimately show ?thesis using sched_remove_wf[OF assms(1,4)] by simp
qed

text \<open>\<^verbatim>\<open>scheduler_init\<close> sets up a well-formed scheduler: every core has an empty run queue and no
  current task, and the list of all tasks is empty.\<close>

theorem scheduler_init_correct:
  assumes "nodes_sep (insert (all_tasks s) (sched_nodes s T))" "all_tasks s \<notin> sched_nodes s T"
    and "runqueue_addr s ` cores \<inter> runnable_node ` T = {}" "NULL \<notin> T"
    and "length (current_task s) = 4" "this_core s < 4"
  shows "sched_wf (scheduler_init s) T (\<lambda>_. []) \<and> mlist (mem (scheduler_init s)) (all_tasks s) []
    \<and> current_task (scheduler_init s) = replicate 4 NULL"
  using scheduler_init_wf[OF assms] .

section \<open>A concrete scheduler\<close>

definition sample_sched :: task_state where
  "sample_sched = \<lparr>mem = (\<lambda>_. 0), hhdm_offset = 0, buddy_arenas = [], buddy_arena_counter = 0, slab_caches = [], slab_caches_addr = 0,
     vmm_hhdm = 0, current_pml4 = NULL, kernel_as = NULL, cr3 = 0, pid_counter = 1, all_tasks = 0x1000, cpu_runqueue = 0x2000,
     current_task = [0x3000, 0, 0, 0], task_counter = [0, 0, 0, 0], this_core = 0\<rparr>"

definition sample_tasks :: "u64 set" where "sample_tasks = {0x3000, 0x4000}"

lemma cores_set: "cores = {0, Suc 0, 2, 3}"
  by (auto simp: cores_def MAX_CORES_def)

lemma sample_sched_nodes: "sched_nodes sample_sched sample_tasks = {0x3120, 0x4120, 0x2000, 0x2010, 0x2020, 0x2030}"
proof -
  show ?thesis unfolding sched_nodes_def cores_set by (simp add: sample_sched_def sample_tasks_def runqueue_addr_def runnable_node_def)
qed

lemma sample_sched_assms:
  "nodes_sep (insert (all_tasks sample_sched) (sched_nodes sample_sched sample_tasks))"
  "all_tasks sample_sched \<notin> sched_nodes sample_sched sample_tasks"
  "runqueue_addr sample_sched ` cores \<inter> runnable_node ` sample_tasks = {}" "NULL \<notin> sample_tasks"
  "length (current_task sample_sched) = 4" "this_core sample_sched < 4"
proof -
  show "runqueue_addr sample_sched ` cores \<inter> runnable_node ` sample_tasks = {}"
    unfolding cores_set by (simp add: sample_sched_def sample_tasks_def runqueue_addr_def runnable_node_def)
  show "nodes_sep (insert (all_tasks sample_sched) (sched_nodes sample_sched sample_tasks))"
    unfolding sample_sched_nodes by (simp add: sample_sched_def nodes_sep_def disj_range_def)
qed (simp_all add: sample_sched_nodes, simp_all add: sample_sched_def sample_tasks_def)

theorem scheduler_init_correct_witness:
  "sched_wf (scheduler_init sample_sched) sample_tasks (\<lambda>_. []) \<and> current_task (scheduler_init sample_sched) = replicate 4 NULL"
  using scheduler_init_correct[OF sample_sched_assms] by blast

lemma sample_init_wf: "sched_wf (scheduler_init sample_sched) sample_tasks (\<lambda>_. [])"
  using scheduler_init_wf[OF sample_sched_assms] by blast

definition sample_queued :: task_state where
  "sample_queued = (let s = sched_task (sched_task (scheduler_init sample_sched) 0x3000 0) 0x4000 0 in s\<lparr>current_task := (current_task s)[0 := 0x3000]\<rparr>)"

lemma sample_queued_wf: "sched_wf sample_queued sample_tasks ((\<lambda>_. [])(0 := [0x3000, 0x4000]))"
proof -
  have t: "0x3000 \<in> sample_tasks" "0x4000 \<in> sample_tasks" by (simp_all add: sample_tasks_def)
  have 1: "sched_wf (sched_task (scheduler_init sample_sched) 0x3000 0) sample_tasks ((\<lambda>_. [])(0 := [0x3000]))"
    using sched_task_wf[OF sample_init_wf t(1), of 0] by simp
  have "sched_wf (sched_task (sched_task (scheduler_init sample_sched) 0x3000 0) 0x4000 0) sample_tasks ((\<lambda>_. [])(0 := [0x3000, 0x4000]))"
    using sched_task_wf[OF 1 t(2), of 0] by simp
  from sched_wf_current[OF this] show ?thesis by (simp add: sample_queued_def Let_def)
qed

theorem schedule_round_robin_witness:
  "get_current_task (snd (schedule sample_queued)) = 0x4000 \<and> get_current_task (snd (schedule (snd (schedule sample_queued)))) = 0x3000"
proof -
  have c: "this_core sample_queued = 0" "length (current_task sample_queued) = 4"
    using sample_queued_wf by (simp_all add: sched_wf_def sample_queued_def Let_def sched_task_def scheduler_init_def init_runqueues_fields sample_sched_def)
  moreover have "get_current_task sample_queued = 0x3000" using c by (simp add: get_current_task_def sample_queued_def Let_def)
  ultimately show ?thesis
    using schedule_round_robin[OF sample_queued_wf, of "[0x3000, 0x4000]" 0 1] schedule_round_robin[OF sample_queued_wf, of "[0x3000, 0x4000]" 0 2]
    by (simp add: numeral_2_eq_2)
qed

theorem run_queue_refines_witness:
  "sched_wf (sched_task (scheduler_init sample_sched) 0x3000 1) sample_tasks ((\<lambda>_. [])(1 := [0x3000]))
    \<and> sched_wf (sched_remove_task (sched_task (scheduler_init sample_sched) 0x3000 1) 0x3000) sample_tasks (\<lambda>_. [])"
  using run_queue_refines[OF sample_init_wf, of "0x3000" 1] by (simp add: sample_tasks_def)

section \<open>Process numbers\<close>

text \<open>The number the \<open>n\<close>-th call of \<^verbatim>\<open>incr_pid_ctr\<close> gives.\<close>

definition pid_seq :: "nat \<Rightarrow> nat" where
  "pid_seq n = (if n = 0 then 1 else (n - 1) mod 1111111110 + 2)"

lemma pid_seq_Suc: "pid_seq (Suc n) = (if pid_seq n + 1 > 1111111111 then 2 else pid_seq n + 1)"
  by (auto simp: pid_seq_def mod_Suc gr0_conv_Suc)

lemma pid_seq_bounds: "1 \<le> pid_seq n" "pid_seq n \<le> 1111111111"
  using mod_less_divisor[of 1111111110 "n - 1"] by (auto simp: pid_seq_def)

lemma pid_counter_step:
  assumes "unat (pid_counter s) = p" "p \<le> 1111111111"
  shows "unat (pid_counter (snd (incr_pid_ctr s))) = (if p + 1 > 1111111111 then 2 else p + 1)"
proof -
  have "unat (pid_counter s + 1) = p + 1" using assms by (simp add: unat_word_ariths)
  then show ?thesis by (simp add: incr_pid_ctr_def Let_def PID_MAX_def word_less_nat_alt)
qed

lemma pid_counter_seq:
  "pid_counter s = 1 \<Longrightarrow> unat (pid_counter (((\<lambda>s. snd (incr_pid_ctr s)) ^^ n) s)) = pid_seq n"
proof (induction n)
  case (Suc n)
  then show ?case using pid_counter_step[OF _ pid_seq_bounds(2)[of n], of "((\<lambda>s. snd (incr_pid_ctr s)) ^^ n) s"]
    by (simp add: pid_seq_Suc)
qed (simp add: pid_seq_def)

lemma pid_seq_inj: "i < j \<Longrightarrow> j < i + 1111111110 \<Longrightarrow> pid_seq i \<noteq> pid_seq j"
proof
  assume a: "i < j" "j < i + 1111111110" "pid_seq i = pid_seq j"
  have "i \<noteq> 0" using a(1,3) by (cases i) (simp_all add: pid_seq_def)
  then have "(j - 1) mod 1111111110 = (i - 1) mod 1111111110" using a by (simp add: pid_seq_def)
  then have "1111111110 dvd (j - 1) - (i - 1)" using a(1) by (metis mod_eq_dvd_iff_nat diff_le_mono less_imp_le_nat)
  then show False using a \<open>i \<noteq> 0\<close> by (auto dest: dvd_imp_le)
qed

text \<open>C32: Process numbers, counted from the initial state: every number is between 1 and \<^verbatim>\<open>PID_MAX\<close>,
  number 1 is given once, and no number comes again before \<^verbatim>\<open>PID_MAX - 1\<close> further calls, in spite of
  the counter wrapping around.\<close>

theorem incr_pid_ctr_unique:
  assumes "pid_counter s = 1" "i < j" "j < i + 1111111110"
  shows "fst (incr_pid_ctr (((\<lambda>s. snd (incr_pid_ctr s)) ^^ i) s)) \<noteq> fst (incr_pid_ctr (((\<lambda>s. snd (incr_pid_ctr s)) ^^ j) s))
    \<and> 1 \<le> fst (incr_pid_ctr (((\<lambda>s. snd (incr_pid_ctr s)) ^^ i) s))
    \<and> fst (incr_pid_ctr (((\<lambda>s. snd (incr_pid_ctr s)) ^^ i) s)) \<le> PID_MAX
    \<and> fst (incr_pid_ctr (((\<lambda>s. snd (incr_pid_ctr s)) ^^ j) s)) \<noteq> 1"
proof -
  have f: "fst (incr_pid_ctr t) = pid_counter t" for t by (simp add: incr_pid_ctr_def Let_def)
  note u = pid_counter_seq[OF assms(1)]
  have "pid_seq j \<noteq> 1" using assms(2) by (simp add: pid_seq_def)
  then show ?thesis
    unfolding f using u[of i] u[of j] pid_seq_inj[OF assms(2,3)] pid_seq_bounds[of i]
    by (auto simp: word_le_nat_alt PID_MAX_def word_unat_eq_iff)
qed

theorem incr_pid_ctr_unique_witness:
  "fst (incr_pid_ctr (snd (incr_pid_ctr sample_sched))) \<noteq> fst (incr_pid_ctr sample_sched)
    \<and> fst (incr_pid_ctr sample_sched) \<le> PID_MAX"
  using incr_pid_ctr_unique[of sample_sched 0 1] by (auto simp: sample_sched_def)

section \<open>Load balancing\<close>

lemma least_busy_spec:
  "mn = cs ! ident \<Longrightarrow> least_busy cs ident mn is \<in> insert ident (set is)
    \<and> (\<forall>i \<in> insert ident (set is). sint (cs ! least_busy cs ident mn is) \<le> sint (cs ! i))"
proof (induction "is" arbitrary: ident mn)
  case (Cons i "is")
  show ?case
  proof (cases "sint (cs ! i) < sint mn")
    case True
    then show ?thesis using Cons.IH[OF refl, of i] Cons.prems by fastforce
  next
    case False
    then show ?thesis using Cons.IH[OF Cons.prems] Cons.prems by fastforce
  qed
qed simp

lemma sint32_inc: "sint w < 2 ^ 31 - 1 \<Longrightarrow> sint (w + 1) = sint w + 1" for w :: u32
proof -
  assume w: "sint w < 2 ^ 31 - 1"
  have "w + 1 = word_of_int (sint w + 1)" by simp
  also have "sint (word_of_int (sint w + 1) :: u32) = sint w + 1"
    unfolding sint_sbintrunc' by (rule signed_take_bit_int_eq_self) (use w sint_ge[of w] in simp_all)
  finally show ?thesis .
qed

text \<open>C33: \<^verbatim>\<open>find_least_busy_cpu\<close> returns a core whose counter, read as the signed 32-bit \<^verbatim>\<open>int\<close> it is, is
  the smallest of the four. Unless all four counters are \<^verbatim>\<open>INT_MAX\<close>, the new task is counted there
  without overflow and the other counters are unchanged, and if the loads of all cores differed by
  at most one before, they still do.\<close>

theorem find_least_busy_cpu_balances:
  assumes "length (task_counter s) = 4" "find_least_busy_cpu s = (c, t)" "\<exists>i<4. sint (task_counter s ! i) < 2 ^ 31 - 1"
  shows "c < 4 \<and> (\<forall>i<4. sint (task_counter s ! c) \<le> sint (task_counter s ! i))
    \<and> (\<forall>i<4. sint (task_counter t ! i) = sint (task_counter s ! i) + of_bool (i = c)) \<and> length (task_counter t) = 4
    \<and> ((\<forall>i<4. \<forall>j<4. sint (task_counter s ! i) \<le> sint (task_counter s ! j) + 1) \<longrightarrow>
        (\<forall>i<4. \<forall>j<4. sint (task_counter t ! i) \<le> sint (task_counter t ! j) + 1))"
proof -
  let ?cs = "task_counter s"
  have r: "c = least_busy ?cs 0 (?cs ! 0) [1..<MAX_CORES]" "task_counter t = ?cs[c := ?cs ! c + 1]"
    using assms(2) by (auto simp: find_least_busy_cpu_def Let_def)
  have "set [1..<MAX_CORES] = {1..<4}" by (auto simp: MAX_CORES_def)
  then have "insert 0 (set [1..<MAX_CORES]) = {..<4}" by auto
  then have min: "c < 4" "\<And>i. i < 4 \<Longrightarrow> sint (?cs ! c) \<le> sint (?cs ! i)"
    using least_busy_spec[of "?cs ! 0" ?cs 0 "[1..<MAX_CORES]"] r(1) by auto
  have "sint (?cs ! c) < 2 ^ 31 - 1" using assms(3) min(2) by fastforce
  then have inc: "sint (task_counter t ! i) = sint (?cs ! i) + of_bool (i = c)" if "i < 4" for i
    using that r(2) assms(1) min(1) sint32_inc[of "?cs ! c"] by (cases "i = c") simp_all
  have bal: "sint (task_counter t ! i) \<le> sint (task_counter t ! j) + 1"
    if "\<forall>i<4. \<forall>j<4. sint (?cs ! i) \<le> sint (?cs ! j) + 1" "i < 4" "j < 4" for i j
  proof -
    have "sint (?cs ! i) \<le> sint (?cs ! j) + 1" "sint (?cs ! c) \<le> sint (?cs ! j)" using that min(2)[of j] by blast+
    then show ?thesis using inc[OF that(2)] inc[OF that(3)] by (cases "i = c"; cases "j = c") simp_all
  qed
  show ?thesis using min inc r(2) assms(1) bal by (intro conjI impI allI) simp_all
qed

theorem find_least_busy_cpu_balances_witness:
  "find_least_busy_cpu (sample_sched\<lparr>task_counter := [2, -1, 2, 1]\<rparr>) = (1, sample_sched\<lparr>task_counter := [2, 0, 2, 1]\<rparr>)
    \<and> sint ([2, -1, 2, 1 :: u32] ! 1) \<le> sint ([2, -1, 2, 1 :: u32] ! 2)"
proof -
  let ?s = "sample_sched\<lparr>task_counter := [2, -1, 2, 1]\<rparr>"
  have e: "find_least_busy_cpu ?s = (1, sample_sched\<lparr>task_counter := [2, 0, 2, 1]\<rparr>)"
    by (simp add: find_least_busy_cpu_def Let_def MAX_CORES_def sample_sched_def upt_rec)
  have "\<exists>i<4. sint (task_counter ?s ! i) < 2 ^ 31 - 1" by (rule exI[of _ 3]) simp
  from find_least_busy_cpu_balances[OF _ e this] e show ?thesis by simp
qed

section \<open>Orphans and zombies\<close>

lemma orphan_loop_empties:
  assumes N: "nodes_sep N" "head \<notin> set done_nodes"
  shows "mlist m head xs \<Longrightarrow> set (head # xs) \<subseteq> N \<Longrightarrow> set done_nodes \<subseteq> N \<Longrightarrow> set xs \<inter> set done_nodes = {} \<Longrightarrow> head \<notin> set done_nodes
    \<Longrightarrow> (\<And>p. p \<in> set done_nodes \<Longrightarrow> mlist m p []) \<Longrightarrow>
    \<exists>m'. orphan_loop m (hd (xs @ [head])) head = Some m' \<and> mlist m' head [] \<and> (\<forall>p\<in>set xs \<union> set done_nodes. mlist m' p [])"
proof (induction xs arbitrary: m done_nodes)
  case Nil
  then show ?case by (subst orphan_loop.simps) auto
next
  case (Cons x xs)
  have ml: "mlist m head ([] @ x # xs)" using Cons(2) by simp
  note del = mlist_del[OF N(1) _ ml]
  have sub: "set (head # [] @ x # xs) \<subseteq> N" using Cons(3) by simp
  have xh: "x \<noteq> head" "x \<notin> set xs" using mlist_distinct[OF Cons(2)] by auto
  have self: "mlist (node_del m x) x []" using del(2,3)[OF sub] by (simp add: mlist_def dlist_def)
  have "\<exists>m'. orphan_loop (node_del m x) (hd (xs @ [head])) head = Some m' \<and> mlist m' head [] \<and> (\<forall>p\<in>set xs \<union> set (x # done_nodes). mlist m' p [])"
  proof (rule Cons(1))
    show "mlist (node_del m x) head xs" using del(1)[OF sub] by simp
    show "mlist (node_del m x) p []" if p: "p \<in> set (x # done_nodes)" for p
    proof (cases "p = x")
      case False
      then have "mlist m p []" "p \<in> N" "p \<notin> set (head # x # xs)" using p Cons(4-7) by auto
      then show ?thesis using del(4)[OF sub, of p "[]"] by auto
    qed (use self in simp)
  qed (use Cons(3-6) xh in auto)
  moreover have "node_next m x = hd (xs @ [head])" using mlist_links(2)[OF ml] .
  ultimately show ?case using xh by (subst orphan_loop.simps) auto
qed

text \<open>C34: \<^verbatim>\<open>task_orphan_children\<close> of a parent with a well-linked list of children always returns; the
  parent's list is empty afterwards and every child's node is linked to itself, so that no orphan
  still refers to the list.\<close>

theorem task_orphan_children_correct:
  assumes "mlist (mem s) (children_node p) (map siblings_node cs)"
    and "nodes_sep (insert (children_node p) (siblings_node ` set cs))"
  shows "\<exists>t. task_orphan_children s p = Some t \<and> mlist (mem t) (children_node p) []
    \<and> (\<forall>c\<in>set cs. mlist (mem t) (siblings_node c) [])"
proof -
  have "\<exists>m'. orphan_loop (mem s) (hd (map siblings_node cs @ [children_node p])) (children_node p) = Some m'
      \<and> mlist m' (children_node p) [] \<and> (\<forall>q\<in>set (map siblings_node cs) \<union> set []. mlist m' q [])"
    using assms by (intro orphan_loop_empties) auto
  then show ?thesis
    using mlist_first[OF assms(1)] by (auto simp: task_orphan_children_def)
qed

text \<open>\<^verbatim>\<open>task_add_zombie\<close> moves a dead child from its parent's list of children to the end of the
  parent's list of zombies and keeps the order of both lists; a child with another parent is left
  alone.\<close>

theorem task_add_zombie_moves:
  assumes "nodes_sep N" "set (children_node p # map siblings_node (us @ z # vs)) \<subseteq> N"
    and "set (zombie_children_node p # map zombie_siblings_node (zs @ [z])) \<subseteq> N"
    and "set (children_node p # map siblings_node (us @ z # vs)) \<inter> set (zombie_children_node p # map zombie_siblings_node (zs @ [z])) = {}"
    and "zombie_siblings_node z \<notin> set (zombie_children_node p # map zombie_siblings_node zs)"
    and "mlist (mem s) (children_node p) (map siblings_node (us @ z # vs))"
    and "mlist (mem s) (zombie_children_node p) (map zombie_siblings_node zs)"
  shows "if t_parent (mem s) z = p
    then mlist (mem (task_add_zombie s p z)) (children_node p) (map siblings_node (us @ vs))
      \<and> mlist (mem (task_add_zombie s p z)) (zombie_children_node p) (map zombie_siblings_node (zs @ [z]))
    else task_add_zombie s p z = s"
proof -
  let ?m = "node_del (mem s) (siblings_node z)"
  have ml: "mlist (mem s) (children_node p) (map siblings_node us @ siblings_node z # map siblings_node vs)"
    and sub: "set (children_node p # map siblings_node us @ siblings_node z # map siblings_node vs) \<subseteq> N"
    using assms(2,6) by simp_all
  note del = mlist_del[OF assms(1) sub ml]
  have zl: "mlist ?m (zombie_children_node p) (map zombie_siblings_node zs)"
    using assms(3,4) by (intro del(4)[OF assms(7)]) auto
  have zsub: "set (zombie_children_node p # map zombie_siblings_node zs) \<subseteq> N" "zombie_siblings_node z \<in> N"
    using assms(3) by auto
  note add = mlist_add_tail[OF assms(1) zsub zl assms(5)]
  have "mlist (node_add_tail ?m (zombie_siblings_node z) (zombie_children_node p)) (children_node p) (map siblings_node us @ map siblings_node vs)"
    using assms(2,4) by (intro add(2)[OF del(1)]) auto
  then show ?thesis using add(1) by (simp add: task_add_zombie_def Let_def)
qed

section \<open>Exit\<close>

lemma node_del_self: "node_next (node_del m e) e = e" 
  by (simp add: node_del_def Let_def node_next_def load64_store64_disj disj_range_def)

text \<open>\<^verbatim>\<open>task_exit\<close> does not give up the processor: unlinking the task from its run queue links its node
  to itself, so \<^verbatim>\<open>schedule\<close> finds the task as its own successor and loads the context of the task that
  has just exited, even when other tasks are waiting in the queue. (Stated for a kernel task without
  parent and children, whose node is not the queue head.)\<close>

theorem task_exit_reloads_itself:
  assumes "get_current_task s = c" "c \<noteq> NULL" "this_core s < length (current_task s)"
    and "m = node_del (store8 (store32 (mem s) (c + 304) code) (c + 176) TASK_ZOMBIE) (runnable_node c)"
    and "t_md m c = NULL" "t_parent m c = NULL" "node_next m (children_node c) = children_node c"
    and "unat (t_cpu_id m c) < MAX_CORES" "runnable_node c \<noteq> runqueue_addr s (this_core s)"
  shows "\<exists>t. task_exit s code = Some (c, t) \<and> get_current_task t = c"
proof -
  let ?t = "s\<lparr>mem := m, task_counter := (task_counter s)[unat (t_cpu_id m c) := task_counter s ! unat (t_cpu_id m c) - 1]\<rparr>"
  have self: "node_next m (runnable_node c) = runnable_node c" using node_del_self assms(4) by simp
  have "pick_next ?t = c"
    using assms(1,2,9) self by (simp add: pick_next_def Let_def get_current_task_def runqueue_addr_def)
  then have "schedule ?t = (c, ?t)" using assms(1) by (simp add: schedule_def Let_def get_current_task_def)
  moreover have "task_exit s code = Some (schedule ?t)"
    using assms(1,2,4-8) by (simp add: task_exit_def Let_def sched_remove_task_def)
  ultimately show ?thesis using assms(1) by (simp add: get_current_task_def)
qed

section \<open>Concrete families\<close>

definition sample_family :: task_state where
  "sample_family = sample_sched\<lparr>mem := node_init (node_add_tail (node_init (\<lambda>_. 0) (children_node 0x3000)) (siblings_node 0x4000) (children_node 0x3000))
     (zombie_children_node 0x3000)\<rparr>"

definition family_nodes :: "u64 set" where
  "family_nodes = {children_node 0x3000, siblings_node 0x4000, zombie_children_node 0x3000, zombie_siblings_node 0x4000}"

lemma family_nodes_sep: "nodes_sep family_nodes"
  by (simp add: nodes_sep_def family_nodes_def disj_range_def children_node_def siblings_node_def zombie_children_node_def zombie_siblings_node_def)

lemma sample_family_lists:
  "mlist (mem sample_family) (children_node 0x3000) [siblings_node 0x4000]" "mlist (mem sample_family) (zombie_children_node 0x3000) []"
proof -
  let ?m = "node_add_tail (node_init (\<lambda>_. 0) (children_node 0x3000)) (siblings_node 0x4000) (children_node 0x3000)"
  have d: "siblings_node 0x4000 \<noteq> children_node 0x3000" "zombie_children_node 0x3000 \<notin> set [children_node 0x3000, siblings_node 0x4000]"
    by (simp_all add: children_node_def siblings_node_def zombie_children_node_def)
  have N: "children_node 0x3000 \<in> family_nodes" "siblings_node 0x4000 \<in> family_nodes" "zombie_children_node 0x3000 \<in> family_nodes"
    by (simp_all add: family_nodes_def)
  have "mlist ?m (children_node 0x3000) ([] @ [siblings_node 0x4000])"
    using N d(1) mlist_init(1)[OF family_nodes_sep N(1)] by (intro mlist_add_tail(1)[OF family_nodes_sep]) auto
  then show "mlist (mem sample_family) (children_node 0x3000) [siblings_node 0x4000]"
    unfolding sample_family_def using mlist_init(2)[OF family_nodes_sep N(3), of ?m "children_node 0x3000" "[siblings_node 0x4000]"] N d(2) by simp
  show "mlist (mem sample_family) (zombie_children_node 0x3000) []"
    unfolding sample_family_def using mlist_init(1)[OF family_nodes_sep N(3)] by simp
qed

theorem task_orphan_children_correct_witness:
  "\<exists>t. task_orphan_children sample_family 0x3000 = Some t \<and> mlist (mem t) (children_node 0x3000) [] \<and> mlist (mem t) (siblings_node 0x4000) []"
proof -
  have "nodes_sep (insert (children_node 0x3000) (siblings_node ` set [0x4000]))"
    using family_nodes_sep by (simp add: nodes_sep_def family_nodes_def)
  then show ?thesis using task_orphan_children_correct[of sample_family "0x3000" "[0x4000]"] sample_family_lists(1) by simp
qed

theorem task_add_zombie_moves_witness:
  "mlist (mem (task_add_zombie (sample_family\<lparr>mem := store64 (mem sample_family) 0x40C8 0x3000\<rparr>) 0x3000 0x4000)) (zombie_children_node 0x3000) [zombie_siblings_node 0x4000]"
proof -
  let ?s = "sample_family\<lparr>mem := store64 (mem sample_family) 0x40C8 0x3000\<rparr>"
  have l: "mlist (mem ?s) (children_node 0x3000) [siblings_node 0x4000]" "mlist (mem ?s) (zombie_children_node 0x3000) []"
    using sample_family_lists
    by (auto elim!: mlist_cong simp: load64_store64_disj disj_range_def children_node_def siblings_node_def zombie_children_node_def)
  have "t_parent (mem ?s) 0x4000 = 0x3000" by (simp add: t_parent_def)
  moreover have "set (children_node 0x3000 # map siblings_node ([] @ 0x4000 # [])) \<inter> set (zombie_children_node 0x3000 # map zombie_siblings_node ([] @ [0x4000])) = {}"
    "zombie_siblings_node 0x4000 \<noteq> zombie_children_node 0x3000"
    by (simp_all add: children_node_def siblings_node_def zombie_children_node_def zombie_siblings_node_def)
  moreover have "set (children_node 0x3000 # map siblings_node ([] @ 0x4000 # [])) \<subseteq> family_nodes"
    "set (zombie_children_node 0x3000 # map zombie_siblings_node ([] @ [0x4000])) \<subseteq> family_nodes" by (simp_all add: family_nodes_def)
  ultimately show ?thesis
    using task_add_zombie_moves[OF family_nodes_sep, of "0x3000" "[]" "0x4000" "[]" "[]" ?s] l by simp
qed

definition sample_exiting :: task_state where
  "sample_exiting = sample_sched\<lparr>mem := node_init (\<lambda>_. 0) (children_node 0x3000)\<rparr>"

theorem task_exit_reloads_itself_witness:
  "\<exists>t. task_exit sample_exiting 7 = Some (0x3000, t) \<and> get_current_task t = 0x3000"
proof -
  let ?m = "node_del (store8 (store32 (mem sample_exiting) (0x3000 + 304) 7) (0x3000 + 176) TASK_ZOMBIE) (runnable_node 0x3000)"
  have "t_md ?m 0x3000 = NULL" "t_parent ?m 0x3000 = NULL" "node_next ?m (children_node 0x3000) = children_node 0x3000"
    "unat (t_cpu_id ?m 0x3000) < MAX_CORES" "runnable_node 0x3000 \<noteq> runqueue_addr sample_exiting (this_core sample_exiting)"
    "get_current_task sample_exiting = 0x3000" "this_core sample_exiting < length (current_task sample_exiting)"
    by code_simp+
  then show ?thesis using task_exit_reloads_itself[of sample_exiting "0x3000" ?m 7] by simp
qed

end
