(* ===== verification/Cpu_Tables.thy ===== *)
theory Cpu_Tables
  imports Prelude
begin

text \<open>
  The descriptor tables of a processor (\<^verbatim>\<open>arch/x86_64/gdt/gdt_init.c\<close>, \<^verbatim>\<open>arch/x86_64/idt/idt_init.c\<close>) and the
  legacy interrupt controllers (\<^verbatim>\<open>interrupt_controllers/pic.c\<close>). The tables are structures as the code has
  them; what the assembly routines \<^verbatim>\<open>reload_gdt\<close> and \<^verbatim>\<open>setIdt\<close> and the instruction \<^verbatim>\<open>ltr\<close> load is a
  register of the state, a write to an I/O port is an entry of the port log. The
  theorem says which handler every interrupt vector has after initialisation.
\<close>

section \<open>Structures\<close>

record gdt_entry =
  limit_lower :: "16 word"
  base_lower :: "16 word"
  base_middle :: u8
  access :: u8
  granularity :: u8
  base_higher :: u8

record tss_descriptor =
  td_limit_lower :: "16 word"
  td_base_lower :: "16 word"
  td_base_middle :: u8
  td_access :: u8
  td_granularity :: u8
  td_base_high :: u8
  td_base_upper :: u32
  td_reserved :: u32

record global_descr_table =
  entries :: "gdt_entry list"
  tss_desc :: tss_descriptor

text \<open>\<^verbatim>\<open>struct gdt_ptr\<close> and \<^verbatim>\<open>struct idt_ptr\<close> have the same fields.\<close>

record table_ptr =
  limit :: "16 word"
  table_base :: u64

record task_state_seg =
  reserved1 :: u32
  rsp0 :: u64
  rsp1 :: u64
  rsp2 :: u64
  reserved2 :: u64
  ist1 :: u64
  ist2 :: u64
  ist3 :: u64
  ist4 :: u64
  ist5 :: u64
  ist6 :: u64
  ist7 :: u64
  reserved3 :: u64
  reserved4 :: "16 word"
  iomap_base :: "16 word"

record idt_entry_t =
  isr_low :: "16 word"
  kernel_cs :: "16 word"
  ist :: u8
  attributes :: u8
  isr_mid :: "16 word"
  isr_high :: u32
  gate_reserved :: u32

text \<open>
  \<open>gdt_addr\<close>, \<open>tss_addr\<close> and \<open>idt_addr\<close> are the addresses of the three static objects; \<open>cpu_gdtr\<close>,
  \<open>cpu_tr\<close>, \<open>cpu_cs\<close>, \<open>cpu_ds\<close> (the value of all data segment registers), \<open>cpu_idtr\<close> and \<open>cpu_if\<close> are registers of the processor.
\<close>

record cpu_tables =
  gdt :: global_descr_table
  gdt_addr :: u64
  gdtr :: table_ptr
  tss :: task_state_seg
  tss_addr :: u64
  idt :: "idt_entry_t list"
  idt_addr :: u64
  idtr :: table_ptr
  cpu_gdtr :: table_ptr
  cpu_tr :: "16 word"
  cpu_cs :: "16 word"
  cpu_ds :: "16 word"
  cpu_idtr :: table_ptr
  cpu_if :: bool
  port_log :: "(16 word \<times> u8) list"

definition sizeof_gdt_entry :: nat where "sizeof_gdt_entry = 8"
definition sizeof_tss_descriptor :: nat where "sizeof_tss_descriptor = 16"
definition sizeof_global_descr_table :: nat where
  "sizeof_global_descr_table = 5 * sizeof_gdt_entry + sizeof_tss_descriptor"
definition sizeof_task_state_seg :: nat where "sizeof_task_state_seg = 104"
definition IDT_SIZE :: nat where "IDT_SIZE = 256"
definition sizeof_idt_entry :: nat where "sizeof_idt_entry = 16"

text \<open>The values \<^verbatim>\<open>memset\<close> leaves in the structures.\<close>

definition zero_gdt_entry :: gdt_entry where
  "zero_gdt_entry = \<lparr>limit_lower = 0, base_lower = 0, base_middle = 0, access = 0, granularity = 0, base_higher = 0\<rparr>"
definition zero_tss_desc :: tss_descriptor where
  "zero_tss_desc = \<lparr>td_limit_lower = 0, td_base_lower = 0, td_base_middle = 0, td_access = 0, td_granularity = 0,
     td_base_high = 0, td_base_upper = 0, td_reserved = 0\<rparr>"
definition zero_tss :: task_state_seg where
  "zero_tss = \<lparr>reserved1 = 0, rsp0 = 0, rsp1 = 0, rsp2 = 0, reserved2 = 0, ist1 = 0, ist2 = 0, ist3 = 0, ist4 = 0, ist5 = 0,
     ist6 = 0, ist7 = 0, reserved3 = 0, reserved4 = 0, iomap_base = 0\<rparr>"
definition zero_gate :: idt_entry_t where
  "zero_gate = \<lparr>isr_low = 0, kernel_cs = 0, ist = 0, attributes = 0, isr_mid = 0, isr_high = 0, gate_reserved = 0\<rparr>"

section \<open>Segments\<close>

definition set_gdt_entry :: "global_descr_table \<Rightarrow> nat \<Rightarrow> u8 \<Rightarrow> u8 \<Rightarrow> global_descr_table" where
  "set_gdt_entry g index acc gran =
     g\<lparr>entries := (entries g)[index := \<lparr>limit_lower = 0, base_lower = 0, base_middle = 0, access = acc,
        granularity = gran, base_higher = 0\<rparr>]\<rparr>"

definition load_tss :: "'a cpu_tables_scheme \<Rightarrow> 'a cpu_tables_scheme" where
  "load_tss s =
     (let addr = tss_addr s;
          d = \<lparr>td_limit_lower = of_nat (sizeof_task_state_seg - 1), td_base_lower = ucast (addr AND 0xFFFF),
               td_base_middle = ucast (drop_bit 16 addr AND 0xFF), td_access = 0x89, td_granularity = 0,
               td_base_high = ucast (drop_bit 24 addr AND 0xFF), td_base_upper = ucast (drop_bit 32 addr), td_reserved = 0\<rparr>
      in s\<lparr>gdt := (gdt s)\<lparr>tss_desc := d\<rparr>, cpu_tr := 5 * 8\<rparr>)"

text \<open>The assembly routine: \<^verbatim>\<open>lgdt\<close>, a far return that loads \<^verbatim>\<open>cs\<close>, and the data segments.\<close>

definition reload_gdt :: "'a cpu_tables_scheme \<Rightarrow> 'a cpu_tables_scheme" where
  "reload_gdt s = s\<lparr>cpu_gdtr := gdtr s, cpu_cs := 0x08, cpu_ds := 0x10\<rparr>"

definition init_gdt :: "'a cpu_tables_scheme \<Rightarrow> 'a cpu_tables_scheme" where
  "init_gdt s =
     (let g = \<lparr>entries = replicate 5 zero_gdt_entry, tss_desc = zero_tss_desc\<rparr>;
          g = set_gdt_entry g 0 0 0;
          g = set_gdt_entry g 1 0x9A 0x20;
          g = set_gdt_entry g 2 0x92 0;
          g = set_gdt_entry g 3 0xFA 0x20;
          g = set_gdt_entry g 4 0xF2 0;
          s = s\<lparr>gdt := g, gdtr := \<lparr>limit = of_nat (sizeof_global_descr_table - 1), table_base = gdt_addr s\<rparr>\<rparr>;
          s = reload_gdt s;
          s = s\<lparr>tss := zero_tss\<rparr>
      in load_tss s)"

section \<open>The legacy interrupt controllers\<close>

definition PIC1_COMMAND :: "16 word" where "PIC1_COMMAND = 0x20"
definition PIC1_DATA :: "16 word" where "PIC1_DATA = 0x21"
definition PIC2_COMMAND :: "16 word" where "PIC2_COMMAND = 0xA0"
definition PIC2_DATA :: "16 word" where "PIC2_DATA = 0xA1"
definition ICW1_INIT :: u8 where "ICW1_INIT = 0x10"
definition ICW1_ICW4 :: u8 where "ICW1_ICW4 = 0x01"
definition ICW4_8086 :: u8 where "ICW4_8086 = 0x01"

definition outb :: "'a cpu_tables_scheme \<Rightarrow> 16 word \<Rightarrow> u8 \<Rightarrow> 'a cpu_tables_scheme" where
  "outb s port val = s\<lparr>port_log := port_log s @ [(port, val)]\<rparr>"

definition io_wait :: "'a cpu_tables_scheme \<Rightarrow> 'a cpu_tables_scheme" where
  "io_wait s = outb s 0x80 0"

definition pic_remap :: "'a cpu_tables_scheme \<Rightarrow> u8 \<Rightarrow> u8 \<Rightarrow> 'a cpu_tables_scheme" where
  "pic_remap s offset1 offset2 =
     (let s = io_wait (outb s PIC1_COMMAND (ICW1_INIT OR ICW1_ICW4));
          s = io_wait (outb s PIC2_COMMAND (ICW1_INIT OR ICW1_ICW4));
          s = io_wait (outb s PIC1_DATA offset1);
          s = io_wait (outb s PIC2_DATA offset2);
          s = io_wait (outb s PIC1_DATA 4);
          s = io_wait (outb s PIC2_DATA 2);
          s = io_wait (outb s PIC1_DATA ICW4_8086);
          s = io_wait (outb s PIC2_DATA ICW4_8086)
      in s)"

definition disable_pic :: "'a cpu_tables_scheme \<Rightarrow> 'a cpu_tables_scheme" where
  "disable_pic s = outb (outb s PIC1_DATA 0xFF) PIC2_DATA 0xFF"

section \<open>Interrupt gates\<close>

definition create_gate_entry :: "'a cpu_tables_scheme \<Rightarrow> u8 \<Rightarrow> u64 \<Rightarrow> 16 word \<Rightarrow> u8 \<Rightarrow> 'a cpu_tables_scheme" where
  "create_gate_entry s entry_index handler_addr seg_selector attr =
     s\<lparr>idt := (idt s)[unat entry_index :=
        \<lparr>isr_low = ucast (handler_addr AND 0xFFFF), kernel_cs = seg_selector, ist = 0, attributes = attr,
         isr_mid = ucast (drop_bit 16 handler_addr AND 0xFFFF),
         isr_high = ucast (drop_bit 32 handler_addr AND 0xFFFFFFFF), gate_reserved = 0\<rparr>]\<rparr>"

text \<open>The assembly routine: \<^verbatim>\<open>lidt\<close> and \<^verbatim>\<open>sti\<close>.\<close>

definition setIdt :: "'a cpu_tables_scheme \<Rightarrow> table_ptr \<Rightarrow> 'a cpu_tables_scheme" where
  "setIdt s p = s\<lparr>cpu_idtr := p, cpu_if := True\<rparr>"

text \<open>\<open>isr\<close> gives the addresses of the assembly entry points \<^verbatim>\<open>isr0\<close> to \<^verbatim>\<open>isr31\<close> (and \<^verbatim>\<open>isr64\<close>), which the linker places.\<close>

definition init_idt :: "(nat \<Rightarrow> u64) \<Rightarrow> 'a cpu_tables_scheme \<Rightarrow> 'a cpu_tables_scheme" where
  "init_idt isr s =
     (let s = s\<lparr>idtr := \<lparr>limit = of_nat (IDT_SIZE * sizeof_idt_entry - 1), table_base = idt_addr s\<rparr>\<rparr>;
          s = s\<lparr>idt := replicate IDT_SIZE zero_gate\<rparr>;
          s = pic_remap s 0x20 0x28;
          s = disable_pic s;
          s = foldl (\<lambda>s i. create_gate_entry s (of_nat i) (isr i) 0x08 0x8E) s [0..<32]
      in setIdt s (idtr s))"

definition reload_idt :: "'a cpu_tables_scheme \<Rightarrow> 'a cpu_tables_scheme" where
  "reload_idt s = setIdt s (idtr s)"

definition APIC_TIMER_VECTOR :: u8 where "APIC_TIMER_VECTOR = 0x40"

definition apic_timer_register_handler :: "(nat \<Rightarrow> u64) \<Rightarrow> 'a cpu_tables_scheme \<Rightarrow> 'a cpu_tables_scheme" where
  "apic_timer_register_handler isr s = create_gate_entry s APIC_TIMER_VECTOR (isr 64) 0x08 0x8E"

section \<open>What the processor reads\<close>

text \<open>
  The handler of a gate, whether the gate is present (bit 7 of the attributes) and the base address in a task
  state segment descriptor, as the processor assembles them from the fields.
\<close>

definition gate_target :: "idt_entry_t \<Rightarrow> u64" where
  "gate_target g = ucast (isr_low g) OR push_bit 16 (ucast (isr_mid g)) OR push_bit 32 (ucast (isr_high g))"

definition gate_present :: "idt_entry_t \<Rightarrow> bool" where
  "gate_present g \<longleftrightarrow> bit (attributes g) 7"

definition tss_base :: "tss_descriptor \<Rightarrow> u64" where
  "tss_base d = ucast (td_base_lower d) OR push_bit 16 (ucast (td_base_middle d)) OR push_bit 24 (ucast (td_base_high d))
     OR push_bit 32 (ucast (td_base_upper d))"

lemma gate_target_fields:
  fixes a :: u64
  shows "ucast (ucast (a AND 0xFFFF) :: 16 word) OR push_bit 16 (ucast (ucast (drop_bit 16 a AND 0xFFFF) :: 16 word))
    OR push_bit 32 (ucast (ucast (drop_bit 32 a AND 0xFFFFFFFF) :: u32)) = a" (is "?b = a")
proof (rule bit_word_eqI)
  fix n assume n: "n < LENGTH(64)"
  have m: "(0xFFFF :: u64) = mask 16" "(0xFFFFFFFF :: u64) = mask 32" by (simp_all add: mask_eq_exp_minus_1)
  consider "n < 16" | "16 \<le> n" "n < 32" | "32 \<le> n" by linarith
  then show "bit ?b n = bit a n"
    unfolding m using n by cases (auto simp: bit_or_iff bit_and_iff bit_push_bit_iff bit_drop_bit_eq bit_ucast_iff bit_mask_iff)
qed

lemma tss_base_fields:
  fixes a :: u64
  shows "ucast (ucast (a AND 0xFFFF) :: 16 word) OR push_bit 16 (ucast (ucast (drop_bit 16 a AND 0xFF) :: u8))
    OR push_bit 24 (ucast (ucast (drop_bit 24 a AND 0xFF) :: u8)) OR push_bit 32 (ucast (ucast (drop_bit 32 a) :: u32)) = a" (is "?b = a")
proof (rule bit_word_eqI)
  fix n assume n: "n < LENGTH(64)"
  have m: "(0xFFFF :: u64) = mask 16" "(0xFF :: u64) = mask 8" by (simp_all add: mask_eq_exp_minus_1)
  consider "n < 16" | "16 \<le> n" "n < 24" | "24 \<le> n" "n < 32" | "32 \<le> n" by linarith
  then show "bit ?b n = bit a n"
    unfolding m using n by cases (auto simp: bit_or_iff bit_and_iff bit_push_bit_iff bit_drop_bit_eq bit_ucast_iff bit_mask_iff)
qed

text \<open>A kernel interrupt gate to a handler.\<close>

definition gate_for :: "u64 \<Rightarrow> idt_entry_t \<Rightarrow> bool" where
  "gate_for h g \<longleftrightarrow> gate_present g \<and> gate_target g = h \<and> kernel_cs g = 0x08 \<and> ist g = 0"

definition kernel_gate :: "u64 \<Rightarrow> idt_entry_t" where
  "kernel_gate h = \<lparr>isr_low = ucast (h AND 0xFFFF), kernel_cs = 0x08, ist = 0, attributes = 0x8E,
     isr_mid = ucast (drop_bit 16 h AND 0xFFFF), isr_high = ucast (drop_bit 32 h AND 0xFFFFFFFF), gate_reserved = 0\<rparr>"

lemma gate_for_kernel_gate: "gate_for h (kernel_gate h)"
proof -
  have "bit (0x8E :: u8) 7" by simp
  then show ?thesis by (simp add: gate_for_def kernel_gate_def gate_present_def gate_target_def gate_target_fields)
qed

lemma create_gate_kernel: "create_gate_entry s v h 0x08 0x8E = s\<lparr>idt := (idt s)[unat v := kernel_gate h]\<rparr>"
  by (simp add: create_gate_entry_def kernel_gate_def)

lemma create_gates:
  assumes "n \<le> 256"
  shows "foldl (\<lambda>s i. create_gate_entry s (of_nat i) (isr i) 0x08 0x8E) s [0..<n] =
    s\<lparr>idt := map (\<lambda>i. if i < n then kernel_gate (isr i) else idt s ! i) [0..<length (idt s)]\<rparr>"
  using assms
proof (induction n)
  case 0
  then show ?case by (simp add: map_nth)
next
  case (Suc n)
  let ?f = "\<lambda>k i. if i < k then kernel_gate (isr i) else idt s ! i"
  have "unat (of_nat n :: u8) = n" using Suc.prems by (simp add: unat_of_nat)
  moreover have "(map (?f n) [0..<length (idt s)])[n := kernel_gate (isr n)] = map (?f (Suc n)) [0..<length (idt s)]"
  proof (rule nth_equalityI)
    fix i assume "i < length ((map (?f n) [0..<length (idt s)])[n := kernel_gate (isr n)])"
    then show "(map (?f n) [0..<length (idt s)])[n := kernel_gate (isr n)] ! i = map (?f (Suc n)) [0..<length (idt s)] ! i"
      by (cases "i = n") auto
  qed simp
  ultimately show ?case using Suc by (simp add: create_gate_kernel)
qed

lemma pic_fields:
  "\<exists>ps. pic_remap s a b = s\<lparr>port_log := port_log s @ ps\<rparr>" "disable_pic s = s\<lparr>port_log := port_log s @ [(PIC1_DATA, 0xFF), (PIC2_DATA, 0xFF)]\<rparr>"
  by (auto simp: pic_remap_def disable_pic_def outb_def io_wait_def Let_def)

text \<open>The last value written to a port.\<close>

definition port_value :: "(16 word \<times> u8) list \<Rightarrow> 16 word \<Rightarrow> u8 option" where
  "port_value ps port = map_of (rev ps) port"

lemma init_idt_eq:
  "\<exists>ps. init_idt isr s = s\<lparr>idt := map (\<lambda>i. if i < 32 then kernel_gate (isr i) else zero_gate) [0..<256],
     idtr := \<lparr>limit = 4095, table_base = idt_addr s\<rparr>, port_log := ps @ [(PIC1_DATA, 0xFF), (PIC2_DATA, 0xFF)],
     cpu_idtr := \<lparr>limit = 4095, table_base = idt_addr s\<rparr>, cpu_if := True\<rparr>"
proof -
  let ?p = "\<lparr>limit = 4095, table_base = idt_addr s\<rparr>"
  let ?s = "s\<lparr>idtr := ?p, idt := replicate IDT_SIZE zero_gate\<rparr>"
  have g: "map (\<lambda>i. if i < 32 then kernel_gate (isr i) else replicate 256 zero_gate ! i) [0..<256]
      = map (\<lambda>i. if i < 32 then kernel_gate (isr i) else zero_gate) [0..<256]" by (rule map_cong) simp_all
  have l: "(of_nat (IDT_SIZE * sizeof_idt_entry - 1) :: 16 word) = 4095" by (simp add: IDT_SIZE_def sizeof_idt_entry_def)
  obtain ps where p: "pic_remap ?s 0x20 0x28 = ?s\<lparr>port_log := port_log ?s @ ps\<rparr>" using pic_fields(1) by blast
  have "init_idt isr s = setIdt (s\<lparr>idtr := ?p, port_log := (port_log s @ ps) @ [(PIC1_DATA, 0xFF), (PIC2_DATA, 0xFF)],
      idt := map (\<lambda>i. if i < 32 then kernel_gate (isr i) else zero_gate) [0..<256]\<rparr>) ?p"
    unfolding init_idt_def Let_def l p pic_fields(2) create_gates[of 32, simplified] by (simp add: IDT_SIZE_def cong: if_cong) (simp only: g)
  then show ?thesis by (intro exI[of _ "port_log s @ ps"]) (cases s, simp add: setIdt_def)
qed

text \<open>The table set-up of the boot processor, in the order of \<^verbatim>\<open>_start\<close>.\<close>

definition boot_tables :: "(nat \<Rightarrow> u64) \<Rightarrow> 'a cpu_tables_scheme \<Rightarrow> 'a cpu_tables_scheme" where
  "boot_tables isr s = reload_idt (apic_timer_register_handler isr (init_idt isr (init_gdt s)))"

lemma boot_tables_idt:
  "idt (boot_tables isr s) = (map (\<lambda>i. if i < 32 then kernel_gate (isr i) else zero_gate) [0..<256])[64 := kernel_gate (isr 64)]"
  "idtr (boot_tables isr s) = \<lparr>limit = 4095, table_base = idt_addr s\<rparr>" "cpu_idtr (boot_tables isr s) = idtr (boot_tables isr s)"
  "cpu_if (boot_tables isr s)" "gdt (boot_tables isr s) = gdt (init_gdt s)" "cpu_gdtr (boot_tables isr s) = cpu_gdtr (init_gdt s)"
  "cpu_cs (boot_tables isr s) = cpu_cs (init_gdt s)" "cpu_tr (boot_tables isr s) = cpu_tr (init_gdt s)"
  "\<exists>ps. port_log (boot_tables isr s) = ps @ [(PIC1_DATA, 0xFF), (PIC2_DATA, 0xFF)]"
proof -
  have a: "idt_addr (init_gdt s) = idt_addr s" by (simp add: init_gdt_def load_tss_def reload_gdt_def Let_def)
  obtain ps where i: "init_idt isr (init_gdt s) = (init_gdt s)\<lparr>idt := map (\<lambda>i. if i < 32 then kernel_gate (isr i) else zero_gate) [0..<256],
      idtr := \<lparr>limit = 4095, table_base = idt_addr s\<rparr>, port_log := ps @ [(PIC1_DATA, 0xFF), (PIC2_DATA, 0xFF)],
      cpu_idtr := \<lparr>limit = 4095, table_base = idt_addr s\<rparr>, cpu_if := True\<rparr>"
    using init_idt_eq[of isr "init_gdt s"] a by auto
  note d = boot_tables_def reload_idt_def apic_timer_register_handler_def create_gate_kernel setIdt_def APIC_TIMER_VECTOR_def i
  show "idt (boot_tables isr s) = (map (\<lambda>i. if i < 32 then kernel_gate (isr i) else zero_gate) [0..<256])[64 := kernel_gate (isr 64)]"
    "idtr (boot_tables isr s) = \<lparr>limit = 4095, table_base = idt_addr s\<rparr>" "cpu_idtr (boot_tables isr s) = idtr (boot_tables isr s)"
    "cpu_if (boot_tables isr s)" "gdt (boot_tables isr s) = gdt (init_gdt s)" "cpu_gdtr (boot_tables isr s) = cpu_gdtr (init_gdt s)"
    "cpu_cs (boot_tables isr s) = cpu_cs (init_gdt s)" "cpu_tr (boot_tables isr s) = cpu_tr (init_gdt s)"
    "\<exists>ps. port_log (boot_tables isr s) = ps @ [(PIC1_DATA, 0xFF), (PIC2_DATA, 0xFF)]"
    by (simp_all add: d)
qed

text \<open>C38: After the boot processor has set up its tables (\<^verbatim>\<open>init_gdt\<close>, \<^verbatim>\<open>init_idt\<close>, the timer's gate, \<^verbatim>\<open>reload_idt\<close>) the
  processor finds, for each of the 32 exceptions and the timer vector, a present gate whose handler
  is the entry point of that vector, in the kernel code segment of the loaded global table; every other vector has no gate,
  both legacy controllers have all lines masked, the loaded limits cover the tables, and the task register
  selects a descriptor with the address of the task state segment.\<close>

theorem cpu_tables_correct:
  "(\<forall>v < 256. if v < 32 \<or> v = 64 then gate_for (isr v) (idt (boot_tables isr s) ! v) else \<not> gate_present (idt (boot_tables isr s) ! v))
    \<and> length (idt (boot_tables isr s)) = 256 \<and> cpu_idtr (boot_tables isr s) = \<lparr>limit = 256 * 16 - 1, table_base = idt_addr s\<rparr>
    \<and> cpu_if (boot_tables isr s)
    \<and> port_value (port_log (boot_tables isr s)) PIC1_DATA = Some 0xFF \<and> port_value (port_log (boot_tables isr s)) PIC2_DATA = Some 0xFF
    \<and> cpu_gdtr (boot_tables isr s) = \<lparr>limit = 5 * 8 + 16 - 1, table_base = gdt_addr s\<rparr> \<and> cpu_cs (boot_tables isr s) = 1 * 8
    \<and> access (entries (gdt (boot_tables isr s)) ! 1) = 0x9A \<and> cpu_tr (boot_tables isr s) = 5 * 8
    \<and> tss_base (tss_desc (gdt (boot_tables isr s))) = tss_addr s"
proof -
  note b = boot_tables_idt[of isr s]
  have "\<not> gate_present zero_gate" by (simp add: gate_present_def zero_gate_def)
  then have g: "if v < 32 \<or> v = 64 then gate_for (isr v) (idt (boot_tables isr s) ! v) else \<not> gate_present (idt (boot_tables isr s) ! v)"
    if "v < 256" for v using that gate_for_kernel_gate by (cases "v = 64") (simp_all add: b(1))
  obtain ps where ps: "port_log (boot_tables isr s) = ps @ [(PIC1_DATA, 0xFF), (PIC2_DATA, 0xFF)]" using b(9) by blast
  have p: "port_value (port_log (boot_tables isr s)) PIC1_DATA = Some 0xFF" "port_value (port_log (boot_tables isr s)) PIC2_DATA = Some 0xFF"
    unfolding ps by (simp_all add: port_value_def PIC1_DATA_def PIC2_DATA_def)
  have t: "tss_base (tss_desc (gdt (init_gdt s))) = tss_addr s"
    by (simp add: init_gdt_def load_tss_def reload_gdt_def Let_def tss_base_def tss_base_fields)
  have "cpu_gdtr (init_gdt s) = \<lparr>limit = 55, table_base = gdt_addr s\<rparr>" "cpu_cs (init_gdt s) = 8" "access (entries (gdt (init_gdt s)) ! 1) = 0x9A"
    "cpu_tr (init_gdt s) = 40"
    by (simp_all add: init_gdt_def load_tss_def reload_gdt_def Let_def set_gdt_entry_def sizeof_global_descr_table_def sizeof_gdt_entry_def
        sizeof_tss_descriptor_def)
  moreover have "length (idt (boot_tables isr s)) = 256" by (simp add: b(1))
  ultimately show ?thesis using g p t b(2-8) by (intro conjI allI impI) simp_all
qed

text \<open>A processor before its tables are set up.\<close>

definition sample_cpu :: cpu_tables where
  "sample_cpu = \<lparr>gdt = \<lparr>entries = [], tss_desc = zero_tss_desc\<rparr>, gdt_addr = 0xFFFFFFFF80002000, gdtr = \<lparr>limit = 0, table_base = 0\<rparr>,
     tss = zero_tss, tss_addr = 0xFFFFFFFF80003000, idt = [], idt_addr = 0xFFFFFFFF80004000, idtr = \<lparr>limit = 0, table_base = 0\<rparr>,
     cpu_gdtr = \<lparr>limit = 0, table_base = 0\<rparr>, cpu_tr = 0, cpu_cs = 0, cpu_ds = 0, cpu_idtr = \<lparr>limit = 0, table_base = 0\<rparr>,
     cpu_if = False, port_log = []\<rparr>"

theorem cpu_tables_correct_witness:
  "gate_for 0xFFFFFFFF80012345 (idt (boot_tables (\<lambda>v. 0xFFFFFFFF80012337 + of_nat v) sample_cpu) ! 14)
    \<and> \<not> gate_present (idt (boot_tables (\<lambda>v. 0xFFFFFFFF80012337 + of_nat v) sample_cpu) ! 33)"
proof -
  note c = cpu_tables_correct[of "\<lambda>v. 0xFFFFFFFF80012337 + of_nat v" sample_cpu, THEN conjunct1, rule_format]
  show ?thesis using c[of 14] c[of 33] by simp
qed

end
