(* ===== verification/Timer.thy ===== *)
theory Timer
  imports Prelude "HOL-Library.Monad_Syntax"
begin

text \<open>
  Delays by the time stamp counter (\<^verbatim>\<open>arch/x86_64/timer/timer.c\<close>): the number of cycles in ten milliseconds is
  taken from \<^verbatim>\<open>cpuid\<close>, measured with the real-time clock, or guessed, and \<^verbatim>\<open>cpu_wait_10ms\<close> waits that
  many cycles. What the hardware answers is part of the state: the results of \<^verbatim>\<open>cpuid\<close>, the values of the
  successive executions of \<^verbatim>\<open>rdtsc\<close> and of the successive reads of the clock's data port. A loop that waits for the hardware may run
  forever, which is the result \<open>None\<close>. Console messages are left out.
\<close>

section \<open>State\<close>

record timer_state =
  cpu_cycles_per_10ms :: u64
  cpuid :: "u32 \<Rightarrow> u32 \<times> u32 \<times> u32 \<times> u32"
  rdtsc :: "nat \<Rightarrow> u32 \<times> u32"
  tsc_pos :: nat
  cmos_in :: "nat \<Rightarrow> u8"
  cmos_pos :: nat
  cmos_out :: "(16 word \<times> u8) list"

definition RTC_SECONDS :: u8 where "RTC_SECONDS = 0x00"
definition RTC_REGISTER_A :: u8 where "RTC_REGISTER_A = 0x0A"
definition CMOS_ADDRESS :: "16 word" where "CMOS_ADDRESS = 0x70"
definition CMOS_DATA :: "16 word" where "CMOS_DATA = 0x71"

text \<open>\<^verbatim>\<open>outb\<close>, \<^verbatim>\<open>io_wait\<close> and \<^verbatim>\<open>inb\<close> of this file; the only port it reads is the data port of the clock.\<close>

definition timer_outb :: "timer_state \<Rightarrow> 16 word \<Rightarrow> u8 \<Rightarrow> timer_state" where
  "timer_outb s port val = s\<lparr>cmos_out := cmos_out s @ [(port, val)]\<rparr>"

definition timer_io_wait :: "timer_state \<Rightarrow> timer_state" where
  "timer_io_wait s = timer_outb s 0x80 0"

definition inb :: "timer_state \<Rightarrow> u8 \<times> timer_state" where
  "inb s = (cmos_in s (cmos_pos s), s\<lparr>cmos_pos := cmos_pos s + 1\<rparr>)"

definition tsc_value :: "u32 \<times> u32 \<Rightarrow> u64" where
  "tsc_value r = (case r of (lo, hi) \<Rightarrow> push_bit 32 (ucast hi) OR ucast lo)"

definition get_cpu_cycles :: "timer_state \<Rightarrow> u64 \<times> timer_state" where
  "get_cpu_cycles s = (tsc_value (rdtsc s (tsc_pos s)), s\<lparr>tsc_pos := tsc_pos s + 1\<rparr>)"

section \<open>Calibration\<close>

definition get_cpu_frequency_mhz :: "timer_state \<Rightarrow> u64" where
  "get_cpu_frequency_mhz s =
     (let (eax, ebx, ecx, edx) = cpuid s 0x15 in
      if eax \<noteq> 0 \<and> ebx \<noteq> 0 \<and> ecx \<noteq> 0 then
        (let tsc_freq = (ucast ecx * ucast ebx) div ucast eax in tsc_freq div 1000000)
      else
        (let (eax, ebx, ecx, edx) = cpuid s 0x16 in
         if eax \<noteq> 0 then ucast eax else 0))"

definition read_rtc_register :: "timer_state \<Rightarrow> u8 \<Rightarrow> u8 \<times> timer_state" where
  "read_rtc_register s reg = inb (timer_io_wait (timer_outb s CMOS_ADDRESS reg))"

partial_function (option) wait_rtc_update :: "timer_state \<Rightarrow> timer_state option" where
  "wait_rtc_update s =
     (let (a, s) = read_rtc_register s RTC_REGISTER_A in
      if a AND 0x80 \<noteq> 0 then wait_rtc_update s else Some s)"

text \<open>The loop \<^verbatim>\<open>while (current_second == start_second) current_second = read_rtc_register(RTC_SECONDS);\<close>\<close>

partial_function (option) wait_second :: "timer_state \<Rightarrow> u8 \<Rightarrow> u8 \<Rightarrow> (u8 \<times> timer_state) option" where
  "wait_second s start_second current_second =
     (if current_second = start_second
      then (let (c, s) = read_rtc_register s RTC_SECONDS in wait_second s start_second c)
      else Some (current_second, s))"

definition calibrate_with_rtc :: "timer_state \<Rightarrow> timer_state option" where
  "calibrate_with_rtc s = do {
     s \<leftarrow> wait_rtc_update s;
     let (start_second, s) = read_rtc_register s RTC_SECONDS;
     (current_second, s) \<leftarrow> wait_second s start_second start_second;
     let (start_cycles, s) = get_cpu_cycles s;
     (_, s) \<leftarrow> wait_second s current_second current_second;
     let (end_cycles, s) = get_cpu_cycles s;
     let cycles_per_second = end_cycles - start_cycles;
     Some (s\<lparr>cpu_cycles_per_10ms := cycles_per_second div 100\<rparr>)
   }"

text \<open>The table of known frequencies is only printed.\<close>

definition known_freqs :: "(string \<times> u64) list" where
  "known_freqs = [(''3.0 GHz CPU'', 30000000), (''2.4 GHz CPU'', 24000000), (''3.6 GHz CPU'', 36000000),
     (''2.0 GHz CPU'', 20000000), (''1.0 GHz CPU'', 10000000)]"

definition calibrate_with_known_frequencies :: "timer_state \<Rightarrow> timer_state" where
  "calibrate_with_known_frequencies s = s\<lparr>cpu_cycles_per_10ms := 24000000\<rparr>"

definition calibrate_cpu_timing :: "timer_state \<Rightarrow> timer_state option" where
  "calibrate_cpu_timing s =
     (if cpu_cycles_per_10ms s \<noteq> 0 then Some s
      else
        (let cpu_freq_mhz = get_cpu_frequency_mhz s in
         if cpu_freq_mhz > 0 then Some (s\<lparr>cpu_cycles_per_10ms := cpu_freq_mhz * 10000\<rparr>)
         else do {
           s \<leftarrow> calibrate_with_rtc s;
           if cpu_cycles_per_10ms s > 0 then
             (if cpu_cycles_per_10ms s < 1000000 \<or> cpu_cycles_per_10ms s > 100000000
              then Some (calibrate_with_known_frequencies (s\<lparr>cpu_cycles_per_10ms := 0\<rparr>))
              else Some s)
           else Some (calibrate_with_known_frequencies s)
         }))"

section \<open>Waiting\<close>

partial_function (option) wait_cycles :: "timer_state \<Rightarrow> u64 \<Rightarrow> timer_state option" where
  "wait_cycles s target =
     (let (now, s) = get_cpu_cycles s in if now < target then wait_cycles s target else Some s)"

definition cpu_wait_10ms :: "timer_state \<Rightarrow> timer_state option" where
  "cpu_wait_10ms s = do {
     s \<leftarrow> (if cpu_cycles_per_10ms s = 0 then calibrate_cpu_timing s else Some s);
     let (start, s) = get_cpu_cycles s;
     wait_cycles s (start + cpu_cycles_per_10ms s)
   }"

text \<open>
  The measurement of \<^verbatim>\<open>test_timing_methods\<close>: five waits, their total, least and greatest number of
  cycles, and one more. The percentages it prints from these numbers are computed in floating point
  and left out.
\<close>

record timing_stats =
  total_cycles :: u64
  min_cycles :: u64
  max_cycles :: u64

definition timed_wait :: "timer_state \<Rightarrow> (u64 \<times> timer_state) option" where
  "timed_wait s = do {
     let (start, s) = get_cpu_cycles s;
     s \<leftarrow> cpu_wait_10ms s;
     let (fin, s) = get_cpu_cycles s;
     Some (fin - start, s)
   }"

definition timing_test_step :: "timing_stats \<times> timer_state \<Rightarrow> nat \<Rightarrow> (timing_stats \<times> timer_state) option" where
  "timing_test_step r i = (case r of (st, s) \<Rightarrow> do {
     (elapsed, s) \<leftarrow> timed_wait s;
     Some (\<lparr>total_cycles = total_cycles st + elapsed,
            min_cycles = (if elapsed < min_cycles st then elapsed else min_cycles st),
            max_cycles = (if elapsed > max_cycles st then elapsed else max_cycles st)\<rparr>, s)
   })"

definition test_timing_methods :: "timer_state \<Rightarrow> (u64 \<times> u64 \<times> u64 \<times> timer_state) option" where
  "test_timing_methods s = do {
     s \<leftarrow> calibrate_cpu_timing s;
     (st, s) \<leftarrow> fold_opt timing_test_step (\<lparr>total_cycles = 0, min_cycles = - 1, max_cycles = 0\<rparr>, s) [0..<5];
     let avg_cycles = total_cycles st div 5;
     let variance = max_cycles st - min_cycles st;
     (actual, s) \<leftarrow> timed_wait s;
     Some (avg_cycles, variance, actual, s)
   }"

definition run_pit_tests :: "timer_state \<Rightarrow> timer_state option" where
  "run_pit_tests s = map_option (\<lambda>(_, _, _, s). s) (test_timing_methods s)"

section \<open>Correctness\<close>

definition tsc_at :: "timer_state \<Rightarrow> nat \<Rightarrow> u64" where
  "tsc_at s n = tsc_value (rdtsc s n)"

lemma wait_cycles_until:
  assumes "target \<le> tsc_at s (tsc_pos s + n)" "\<And>k. k < n \<Longrightarrow> tsc_at s (tsc_pos s + k) < target"
  shows "wait_cycles s target = Some (s\<lparr>tsc_pos := tsc_pos s + n + 1\<rparr>)"
  using assms
proof (induction n arbitrary: s)
  case 0
  then show ?case by (subst wait_cycles.simps) (simp add: get_cpu_cycles_def tsc_at_def not_less[symmetric])
next
  case (Suc n)
  let ?s = "s\<lparr>tsc_pos := tsc_pos s + 1\<rparr>"
  have "wait_cycles ?s target = Some (?s\<lparr>tsc_pos := tsc_pos ?s + n + 1\<rparr>)"
  proof (rule Suc.IH)
    show "target \<le> tsc_at ?s (tsc_pos ?s + n)" using Suc.prems(1) by (simp add: tsc_at_def)
    show "tsc_at ?s (tsc_pos ?s + k) < target" if "k < n" for k using Suc.prems(2)[of "Suc k"] that by (simp add: tsc_at_def)
  qed
  moreover have "tsc_at s (tsc_pos s) < target" using Suc.prems(2)[of 0] by simp
  ultimately show ?case by (subst wait_cycles.simps) (simp add: get_cpu_cycles_def tsc_at_def)
qed

text \<open>The frequency that \<^verbatim>\<open>cpuid\<close> reports, in numbers without wrap-around, and the cycles computed from it.\<close>

lemma frequency_bound: "unat (get_cpu_frequency_mhz s) * 10000 < 2 ^ 64"
proof -
  have "unat (ucast a :: u64) \<le> 4294967295" for a :: u32 using unsigned_less[of a, where ?'a = nat] by (simp add: unsigned_ucast_eq take_bit_nat_eq_self)
  note b = this
  obtain a b' c d where "cpuid s 0x15 = (a, b', c, d)" by (cases "cpuid s 0x15") auto
  moreover obtain a' b2 c' d' where "cpuid s 0x16 = (a', b2, c', d')" by (cases "cpuid s 0x16") auto
  moreover have "unat (x div 1000000 :: u64) * 10000 < 2 ^ 64" for x :: u64
  proof -
    have "unat x div 1000000 * 1000000 \<le> unat x" by simp
    then have "unat x div 1000000 * 10000 < 18446744073709551616" using unat_lt64[of x] by linarith
    then show ?thesis by (simp add: unat_div)
  qed
  moreover have "unat (ucast a' :: u64) * 10000 < 2 ^ 64" using b[of a'] by simp
  ultimately show ?thesis by (simp add: get_cpu_frequency_mhz_def Let_def)
qed

lemma calibrate_by_cpuid:
  assumes "cpu_cycles_per_10ms s = 0" "get_cpu_frequency_mhz s \<noteq> 0"
  shows "calibrate_cpu_timing s = Some (s\<lparr>cpu_cycles_per_10ms := get_cpu_frequency_mhz s * 10000\<rparr>)"
    "unat (get_cpu_frequency_mhz s * 10000) = unat (get_cpu_frequency_mhz s) * 10000" "get_cpu_frequency_mhz s * 10000 \<noteq> 0"
proof -
  show "calibrate_cpu_timing s = Some (s\<lparr>cpu_cycles_per_10ms := get_cpu_frequency_mhz s * 10000\<rparr>)"
    using assms by (simp add: calibrate_cpu_timing_def word_neq_0_conv)
  show e: "unat (get_cpu_frequency_mhz s * 10000) = unat (get_cpu_frequency_mhz s) * 10000"
    using frequency_bound[of s] by (simp add: unat_word_ariths(2))
  show "get_cpu_frequency_mhz s * 10000 \<noteq> 0"
  proof
    assume "get_cpu_frequency_mhz s * 10000 = 0"
    then show False using e assms(2) by (simp add: unat_eq_0)
  qed
qed

text \<open>\<^verbatim>\<open>cpu_wait_10ms\<close> on a calibrated timer, or one whose processor reports its frequency, returns once the time stamp
  counter has advanced far enough: it reads the counter until the first reading that is at least the number of cycles
  in ten milliseconds (ten thousand per megahertz reported) past the first reading, changes nothing else, and leaves the timer calibrated.\<close>

theorem cpu_wait_10ms_correct:
  assumes cal: "cpu_cycles_per_10ms s \<noteq> 0 \<or> get_cpu_frequency_mhz s \<noteq> 0"
    and c: "c = (if cpu_cycles_per_10ms s \<noteq> 0 then unat (cpu_cycles_per_10ms s) else unat (get_cpu_frequency_mhz s) * 10000)"
    and top: "unat (tsc_at s (tsc_pos s)) + c < 2 ^ 64"
    and runs: "\<exists>n. unat (tsc_at s (tsc_pos s)) + c \<le> unat (tsc_at s (tsc_pos s + 1 + n))"
  shows "\<exists>t n. cpu_wait_10ms s = Some t \<and> t = s\<lparr>tsc_pos := tsc_pos s + 2 + n, cpu_cycles_per_10ms := of_nat c\<rparr> \<and> 0 < c
    \<and> unat (tsc_at s (tsc_pos s)) + c \<le> unat (tsc_at s (tsc_pos s + 1 + n))
    \<and> (\<forall>k<n. unat (tsc_at s (tsc_pos s + 1 + k)) < unat (tsc_at s (tsc_pos s)) + c)"
proof -
  define w where "w = (of_nat c :: u64)"
  have w: "unat w = c" using top by (simp add: w_def unat_of_nat)
  let ?s = "s\<lparr>cpu_cycles_per_10ms := w\<rparr>"
  have start: "(if cpu_cycles_per_10ms s = 0 then calibrate_cpu_timing s else Some s) = Some ?s" and pos: "0 < c"
  proof -
    show "(if cpu_cycles_per_10ms s = 0 then calibrate_cpu_timing s else Some s) = Some ?s"
      using calibrate_by_cpuid[of s] cal c w by (auto simp: w_def word_unat_eq_iff)
    show "0 < c" using calibrate_by_cpuid(2,3)[of s] cal c by (auto simp: unat_gt_0)
  qed
  define target where "target = tsc_at s (tsc_pos s) + w"
  have t: "unat target = unat (tsc_at s (tsc_pos s)) + c" unfolding target_def using top w by (simp add: unat_word_ariths(1))
  define n where "n = (LEAST n. unat target \<le> unat (tsc_at s (tsc_pos s + 1 + n)))"
  have reach: "unat target \<le> unat (tsc_at s (tsc_pos s + 1 + n))" unfolding n_def using runs[folded t] by (rule LeastI_ex)
  have before: "unat (tsc_at s (tsc_pos s + 1 + k)) < unat target" if "k < n" for k using not_less_Least[OF that[unfolded n_def]] by simp
  let ?u = "?s\<lparr>tsc_pos := tsc_pos s + 1\<rparr>"
  have "wait_cycles ?u target = Some (?u\<lparr>tsc_pos := tsc_pos ?u + n + 1\<rparr>)"
    using reach before by (intro wait_cycles_until) (simp_all add: tsc_at_def word_le_nat_alt word_less_nat_alt)
  then have "cpu_wait_10ms s = Some (?u\<lparr>tsc_pos := tsc_pos ?u + n + 1\<rparr>)"
    unfolding cpu_wait_10ms_def start by (simp add: get_cpu_cycles_def target_def tsc_at_def)
  moreover have "?u\<lparr>tsc_pos := tsc_pos ?u + n + 1\<rparr> = s\<lparr>tsc_pos := tsc_pos s + 2 + n, cpu_cycles_per_10ms := of_nat c\<rparr>"
    by (cases s) (simp add: w_def)
  ultimately show ?thesis using reach before pos unfolding t by blast
qed

text \<open>A processor that reports 24 MHz and a counter that advances 100000 cycles between two readings.\<close>

definition sample_timer :: timer_state where
  "sample_timer = \<lparr>cpu_cycles_per_10ms = 0, cpuid = (\<lambda>leaf. if leaf = 0x16 then (24, 0, 0, 0) else (0, 0, 0, 0)),
     rdtsc = (\<lambda>n. (of_nat n * 100000, 0)), tsc_pos = 0, cmos_in = (\<lambda>_. 0), cmos_pos = 0, cmos_out = []\<rparr>"

theorem cpu_wait_10ms_correct_witness:
  "\<exists>t n. cpu_wait_10ms sample_timer = Some t \<and> cpu_cycles_per_10ms t = 240000 \<and> tsc_pos t = 2 + n \<and> 240000 \<le> unat (tsc_at sample_timer (1 + n))"
proof -
  have f: "get_cpu_frequency_mhz sample_timer = 24" by (simp add: get_cpu_frequency_mhz_def sample_timer_def)
  have z: "tsc_at sample_timer (tsc_pos sample_timer) = 0" "cpu_cycles_per_10ms sample_timer = 0" "tsc_pos sample_timer = 0"
    by (simp_all add: sample_timer_def tsc_at_def tsc_value_def)
  have e: "unat (tsc_at sample_timer (0 + 1 + 2)) = 300000" by (simp add: sample_timer_def tsc_at_def tsc_value_def)
  have "\<exists>n. unat (tsc_at sample_timer (tsc_pos sample_timer)) + 240000 \<le> unat (tsc_at sample_timer (tsc_pos sample_timer + 1 + n))"
    unfolding z by (intro exI[of _ 2]) (simp only: e, simp add: z(1)[unfolded z(3)])
  then have "\<exists>t n. cpu_wait_10ms sample_timer = Some t \<and> t = sample_timer\<lparr>tsc_pos := tsc_pos sample_timer + 2 + n, cpu_cycles_per_10ms := of_nat 240000\<rparr>
      \<and> unat (tsc_at sample_timer (tsc_pos sample_timer)) + 240000 \<le> unat (tsc_at sample_timer (tsc_pos sample_timer + 1 + n))"
    using cpu_wait_10ms_correct[of sample_timer 240000] z f by auto
  then show ?thesis using z(1) unfolding z(3) by auto
qed

end
