(* ===== verification/Interrupts.thy ===== *)
theory Interrupts
  imports Tasks_Correct Cpu_Tables Timer
begin

text \<open>
  The local interrupt controller with its timer (\<^verbatim>\<open>arch/x86_64/interrupt_controllers/apic.c\<close>, \<^verbatim>\<open>apic.h\<close>) and
  the dispatch of interrupts (\<^verbatim>\<open>interrupts/isr_handler.c\<close>). The registers of the controller are
  hardware: the state keeps the sequence of reads and writes of this processor, and the function
  \<open>lapic\<close> of the state says what a read returns after such a sequence. Console messages are left out, except
  for the decoding of a page fault, which is nothing else.
\<close>

section \<open>Registers\<close>

datatype apic_event = ApicRead u32 | ApicWrite u32 u32

record arch_state = task_state +
  apic_base :: u64
  apic_timer_frequency :: u32
  timer_ticks :: "u64 list"
  apic_log :: "apic_event list"
  lapic :: "apic_event list \<Rightarrow> u32 \<Rightarrow> u32"
  timer :: timer_state
  tables :: cpu_tables

definition APIC_BASE_ADDR :: u64 where "APIC_BASE_ADDR = 0xFEE00000"
definition APIC_EOI :: u32 where "APIC_EOI = 0xB0"
definition APIC_SPURIOUS_VECTOR :: u32 where "APIC_SPURIOUS_VECTOR = 0xF0"
definition APIC_ERROR_STATUS :: u32 where "APIC_ERROR_STATUS = 0x280"
definition APIC_LINT0 :: u32 where "APIC_LINT0 = 0x350"
definition APIC_LINT1 :: u32 where "APIC_LINT1 = 0x360"
definition APIC_ERROR :: u32 where "APIC_ERROR = 0x370"
definition APIC_TIMER_LVT :: u32 where "APIC_TIMER_LVT = 0x320"
definition APIC_TIMER_INITIAL :: u32 where "APIC_TIMER_INITIAL = 0x380"
definition APIC_TIMER_CURRENT :: u32 where "APIC_TIMER_CURRENT = 0x390"
definition APIC_TIMER_DIVIDE :: u32 where "APIC_TIMER_DIVIDE = 0x3E0"
definition APIC_TIMER_LVT_MASKED :: u32 where "APIC_TIMER_LVT_MASKED = 0x10000"
definition APIC_TIMER_PERIODIC :: u32 where "APIC_TIMER_PERIODIC = 0x00020000"
definition PTE_WRITETHROUGH :: u64 where "PTE_WRITETHROUGH = push_bit 3 1"
definition PTE_CACHE_DISABLE :: u64 where "PTE_CACHE_DISABLE = push_bit 4 1"

text \<open>The macros \<^verbatim>\<open>apic_read\<close> and \<^verbatim>\<open>apic_write\<close>: nothing happens while the base is NULL.\<close>

definition apic_read :: "'a arch_state_scheme \<Rightarrow> u32 \<Rightarrow> u32 \<times> 'a arch_state_scheme" where
  "apic_read s reg =
     (if apic_base s \<noteq> NULL
      then (lapic s (apic_log s) (drop_bit 2 reg), s\<lparr>apic_log := apic_log s @ [ApicRead (drop_bit 2 reg)]\<rparr>)
      else (0, s))"

definition apic_write :: "'a arch_state_scheme \<Rightarrow> u32 \<Rightarrow> u32 \<Rightarrow> 'a arch_state_scheme" where
  "apic_write s reg val =
     (if apic_base s \<noteq> NULL then s\<lparr>apic_log := apic_log s @ [ApicWrite (drop_bit 2 reg) val]\<rparr> else s)"

section \<open>The timer\<close>

text \<open>The calibration counts the ticks of the timer during ten milliseconds.\<close>

definition apic_timer_calibrate :: "'a arch_state_scheme \<Rightarrow> 'a arch_state_scheme option" where
  "apic_timer_calibrate s =
     (let s = apic_write s APIC_TIMER_LVT 0x10000;
          s = apic_write s APIC_TIMER_DIVIDE 0x3;
          s = apic_write s APIC_TIMER_INITIAL 0xFFFFFFFF
      in do {
        tm \<leftarrow> cpu_wait_10ms (timer s);
        let s = s\<lparr>timer := tm\<rparr>;
        let (apic_current, s) = apic_read s APIC_TIMER_CURRENT;
        let apic_ticks_in_10ms = 0xFFFFFFFF - apic_current;
        let s = s\<lparr>apic_timer_frequency := apic_ticks_in_10ms * 100\<rparr>;
        let s = apic_write s APIC_TIMER_LVT 0x10000;
        Some (apic_write s APIC_TIMER_INITIAL 0)
      })"

definition apic_global_init :: "'a arch_state_scheme \<Rightarrow> (int \<times> 'a arch_state_scheme) option" where
  "apic_global_init s =
     (let apic_vaddr = 0xFFFFFF8000000000;
          mmio_flags = PTE_PRESENT OR PTE_WRITABLE OR PTE_CACHE_DISABLE OR PTE_WRITETHROUGH;
          kas = get_kernel_as s
      in do {
        (result, s) \<leftarrow> vmm_map_range s kas apic_vaddr APIC_BASE_ADDR 0x1000 mmio_flags;
        if result \<noteq> 0 then Some (-1, s)
        else do {
          s \<leftarrow> apic_timer_calibrate (s\<lparr>apic_base := apic_vaddr\<rparr>);
          Some (0, s)
        }
      })"

definition apic_timer_init_cpu :: "'a arch_state_scheme \<Rightarrow> u32 \<Rightarrow> int \<times> 'a arch_state_scheme" where
  "apic_timer_init_cpu s cpu_id =
     (if apic_base s = NULL then (-1, s)
      else
        (let (spurious, s) = apic_read s APIC_SPURIOUS_VECTOR;
             spurious = spurious OR 0x100;
             spurious = spurious AND NOT 0xFF;
             spurious = spurious OR 0xFF;
             s = apic_write s APIC_SPURIOUS_VECTOR spurious;
             (spurious_check, s) = apic_read s APIC_SPURIOUS_VECTOR
         in if spurious_check AND 0x100 = 0 then (-1, s)
            else
              (let s = apic_write s APIC_TIMER_LVT 0x10000;
                   s = apic_write s APIC_LINT0 0x10000;
                   s = apic_write s APIC_LINT1 0x10000;
                   s = apic_write s APIC_ERROR 0x10000;
                   s = apic_write s APIC_ERROR_STATUS 0;
                   s = apic_write s APIC_ERROR_STATUS 0;
                   (error_status, s) = apic_read s APIC_ERROR_STATUS;
                   s = apic_write s APIC_EOI 0
               in (0, s))))"

definition apic_timer_set_frequency :: "'a arch_state_scheme \<Rightarrow> u32 \<Rightarrow> 'a arch_state_scheme" where
  "apic_timer_set_frequency s frequency =
     (if apic_timer_frequency s = 0 then s
      else if frequency = 0 then s
      else
        (let initial_count = apic_timer_frequency s div frequency;
             initial_count = (if initial_count = 0 then 1 else initial_count);
             s = apic_write s APIC_TIMER_DIVIDE 0x3;
             s = apic_write s APIC_TIMER_LVT (APIC_TIMER_PERIODIC OR ucast APIC_TIMER_VECTOR OR APIC_TIMER_LVT_MASKED)
         in apic_write s APIC_TIMER_INITIAL initial_count))"

definition apic_timer_handler :: "'a arch_state_scheme \<Rightarrow> u64 \<times> 'a arch_state_scheme" where
  "apic_timer_handler s = schedule (apic_write s APIC_EOI 0)"

definition apic_timer_enable :: "'a arch_state_scheme \<Rightarrow> 'a arch_state_scheme" where
  "apic_timer_enable s =
     (let (lvt, s) = apic_read s APIC_TIMER_LVT in apic_write s APIC_TIMER_LVT (lvt AND NOT 0x10000))"

definition apic_timer_disable :: "'a arch_state_scheme \<Rightarrow> 'a arch_state_scheme" where
  "apic_timer_disable s =
     (let (lvt, s) = apic_read s APIC_TIMER_LVT in apic_write s APIC_TIMER_LVT (lvt OR 0x10000))"

definition apic_timer_get_ticks :: "'a arch_state_scheme \<Rightarrow> u64" where
  "apic_timer_get_ticks s = timer_ticks s ! this_core s"

section \<open>Dispatch\<close>

definition KERNEL_SPACE_START :: u64 where "KERNEL_SPACE_START = 0xFFFF800000000000"

record interrupt_frame =
  if_cr2 :: u64
  int_no :: u64
  err_code :: u64

text \<open>The lines that \<^verbatim>\<open>decode_page_fault_error\<close> prints after the error code.\<close>

definition decode_page_fault_error :: "u64 \<Rightarrow> string list" where
  "decode_page_fault_error err =
     [if err AND 0x1 \<noteq> 0 then '' - Protection Violation (page present) -'' else '' - Page Not Present -'',
      if err AND 0x2 \<noteq> 0 then '' - Fault caused by Write -'' else '' - Fault caused by Read -'',
      if err AND 0x4 \<noteq> 0 then '' - Fault in User Mode -'' else '' - Fault in Supervisor Mode -'']
     @ (if err AND 0x8 \<noteq> 0 then ['' - Reserved Bit Violation -''] else [])
     @ (if err AND 0x10 \<noteq> 0 then ['' - Instruction Fetch Fault -''] else [])"

text \<open>How a handler ends: it returns to the entry stub, it calls \<^verbatim>\<open>load_next_task\<close> or \<^verbatim>\<open>build_iretq_frame\<close> on a context and does not
  return, or it halts. The context of a task is at the start of the task.\<close>

datatype isr_result = IsrReturn | IsrLoad u64 | IsrFrame u64 | IsrHalt

definition isr0_divide_by_zero :: "'a arch_state_scheme \<Rightarrow> isr_result \<times> 'a arch_state_scheme" where
  "isr0_divide_by_zero s = (IsrFrame (get_current_task s), s)"

definition isr14_page_fault :: "'a arch_state_scheme \<Rightarrow> u64 \<Rightarrow> u64 \<Rightarrow> isr_result \<times> 'a arch_state_scheme" where
  "isr14_page_fault s cr2 err = (if cr2 \<ge> KERNEL_SPACE_START then (IsrHalt, s) else (IsrHalt, s))"

definition isr_reserved :: "'a arch_state_scheme \<Rightarrow> isr_result \<times> 'a arch_state_scheme" where
  "isr_reserved s = (IsrReturn, s)"

definition isr_dispatch :: "'a arch_state_scheme \<Rightarrow> interrupt_frame \<Rightarrow> isr_result \<times> 'a arch_state_scheme" where
  "isr_dispatch s fr =
     (if int_no fr = 0 then isr0_divide_by_zero s
      else if int_no fr = 14 then isr14_page_fault s (if_cr2 fr) (err_code fr)
      else if int_no fr \<in> {15, 22, 23, 24, 25, 26, 27, 31} then isr_reserved s
      else if int_no fr = 13 then (IsrReturn, s)
      else if int_no fr = 33 then (IsrReturn, s)
      else if int_no fr = 64 then (let (ctx, s) = apic_timer_handler s in (IsrLoad ctx, s))
      else (IsrHalt, s))"

section \<open>Preemption by the timer\<close>

lemma schedule_arch [simp]: "apic_log (snd (schedule s)) = apic_log s" "apic_base (snd (schedule s)) = apic_base s"
  by (simp_all add: schedule_def Let_def)

lemma sched_wf_apic: "sched_wf (s\<lparr>apic_log := l\<rparr>) T Q = sched_wf s T Q"
  by (simp add: sched_wf_def sched_nodes_def runqueue_addr_def)

lemma timer_dispatch:
  assumes "sched_wf s T Q" "Q (this_core s) = ts" "i < length ts" "get_current_task s = ts ! i" "apic_base s \<noteq> NULL" "int_no fr = 64"
  shows "fst (isr_dispatch s fr) = IsrLoad (ts ! ((i + 1) mod length ts))"
    "get_current_task (snd (isr_dispatch s fr)) = ts ! ((i + 1) mod length ts)" "sched_wf (snd (isr_dispatch s fr)) T Q"
    "this_core (snd (isr_dispatch s fr)) = this_core s" "apic_base (snd (isr_dispatch s fr)) = apic_base s"
    "apic_log (snd (isr_dispatch s fr)) = apic_log s @ [ApicWrite (drop_bit 2 APIC_EOI) 0]"
proof -
  let ?s = "s\<lparr>apic_log := apic_log s @ [ApicWrite (drop_bit 2 APIC_EOI) 0]\<rparr>"
  have d: "isr_dispatch s fr = (IsrLoad (fst (schedule ?s)), snd (schedule ?s))"
    using assms(5,6) by (simp add: isr_dispatch_def apic_timer_handler_def apic_write_def split_def Let_def)
  have wf: "sched_wf ?s T Q" using assms(1) by (simp add: sched_wf_apic)
  have c: "Q (this_core ?s) = ts" "get_current_task ?s = ts ! i" using assms(2,4) by (simp_all add: get_current_task_def)
  note n = schedule_next[OF wf c(1) assms(3) c(2)]
  show "fst (isr_dispatch s fr) = IsrLoad (ts ! ((i + 1) mod length ts))"
    "get_current_task (snd (isr_dispatch s fr)) = ts ! ((i + 1) mod length ts)" "sched_wf (snd (isr_dispatch s fr)) T Q"
    "this_core (snd (isr_dispatch s fr)) = this_core s" "apic_base (snd (isr_dispatch s fr)) = apic_base s"
    "apic_log (snd (isr_dispatch s fr)) = apic_log s @ [ApicWrite (drop_bit 2 APIC_EOI) 0]"
    using n schedule_wf[OF wf] schedule_core[of ?s] by (simp_all add: d)
qed

text \<open>C27: Preemption. On a core with a mapped interrupt controller, a run queue \<open>ts\<close> and task number \<open>i\<close> current, the
  dispatch of the timer vector acknowledges the interrupt and loads the next task of the queue: after \<open>k\<close> timer interrupts the controller has
  received exactly \<open>k\<close> end-of-interrupt writes and nothing else, the queues are unchanged, and the next one loads
  the context of task \<open>i + k + 1\<close> modulo the length of the queue.\<close>

theorem timer_interrupts_preempt:
  assumes "sched_wf s T Q" "Q (this_core s) = ts" "i < length ts" "get_current_task s = ts ! i" "apic_base s \<noteq> NULL" "int_no fr = 64"
    and "u = ((\<lambda>s. snd (isr_dispatch s fr)) ^^ k) s"
  shows "fst (isr_dispatch u fr) = IsrLoad (ts ! ((i + k + 1) mod length ts)) \<and> get_current_task u = ts ! ((i + k) mod length ts)
    \<and> sched_wf u T Q \<and> apic_log u = apic_log s @ replicate k (ApicWrite (drop_bit 2 APIC_EOI) 0)"
proof -
  let ?s = "\<lambda>k. ((\<lambda>s. snd (isr_dispatch s fr)) ^^ k) s"
  have lt: "(i + k) mod length ts < length ts" for k using assms(3) by (intro mod_less_divisor) linarith
  have inv: "sched_wf (?s k) T Q \<and> this_core (?s k) = this_core s \<and> get_current_task (?s k) = ts ! ((i + k) mod length ts)
    \<and> apic_base (?s k) \<noteq> NULL \<and> apic_log (?s k) = apic_log s @ replicate k (ApicWrite (drop_bit 2 APIC_EOI) 0)" for k
  proof (induction k)
    case 0
    then show ?case using assms by simp
  next
    case (Suc k)
    then show ?case using timer_dispatch[of "?s k" T Q ts, OF _ _ lt[of k] _ _ assms(6)] assms(2)
      by (simp add: mod_Suc_eq replicate_append_same[symmetric])
  qed
  show ?thesis using inv[of k] timer_dispatch(1)[of "?s k" T Q ts, OF _ _ lt[of k] _ _ assms(6)] assms(2,7) by (simp add: mod_Suc_eq)
qed

text \<open>The two tasks of the scheduler's example, on a processor whose controller is mapped.\<close>

definition sample_arch :: arch_state where
  "sample_arch = \<lparr>mem = mem sample_queued, hhdm_offset = 0, buddy_arenas = [], buddy_arena_counter = 0, slab_caches = [], slab_caches_addr = 0,
     vmm_hhdm = 0, current_pml4 = NULL, kernel_as = NULL, cr3 = 0, pid_counter = 1, all_tasks = 0x1000, cpu_runqueue = cpu_runqueue sample_queued,
     current_task = current_task sample_queued, task_counter = [0, 0, 0, 0], this_core = this_core sample_queued,
     apic_base = 0xFFFFFF8000000000, apic_timer_frequency = 1000, timer_ticks = [0, 0, 0, 0], apic_log = [], lapic = (\<lambda>_ _. 0),
     timer = sample_timer, tables = boot_tables (\<lambda>_. 0xFFFFFFFF80001000) sample_cpu\<rparr>"

lemma sample_arch_wf:
  "sched_wf sample_arch sample_tasks ((\<lambda>_. [])(0 := [0x3000, 0x4000]))" "this_core sample_arch = 0" "get_current_task sample_arch = 0x3000"
  "apic_base sample_arch \<noteq> NULL" "apic_log sample_arch = []"
proof -
  have q: "this_core sample_queued = 0" "get_current_task sample_queued = 0x3000"
    using sample_queued_wf by (simp_all add: sched_wf_def sample_queued_def Let_def sched_task_def scheduler_init_def init_runqueues_fields sample_sched_def get_current_task_def)
  show "sched_wf sample_arch sample_tasks ((\<lambda>_. [])(0 := [0x3000, 0x4000]))"
    using sample_queued_wf by (simp add: sched_wf_def sched_nodes_def runqueue_addr_def sample_arch_def)
  show "this_core sample_arch = 0" "get_current_task sample_arch = 0x3000" "apic_base sample_arch \<noteq> NULL" "apic_log sample_arch = []"
    using q by (simp_all add: sample_arch_def get_current_task_def)
qed

theorem timer_interrupts_preempt_witness:
  "fst (isr_dispatch sample_arch \<lparr>if_cr2 = 0, int_no = 64, err_code = 0\<rparr>) = IsrLoad 0x4000
    \<and> apic_log (snd (isr_dispatch sample_arch \<lparr>if_cr2 = 0, int_no = 64, err_code = 0\<rparr>)) = [ApicWrite 0x2C 0]"
proof -
  let ?fr = "\<lparr>if_cr2 = 0, int_no = 64, err_code = 0\<rparr>"
  have d: "drop_bit 2 APIC_EOI = 0x2C" by (simp add: APIC_EOI_def drop_bit_eq_div)
  show ?thesis
    using timer_interrupts_preempt[OF sample_arch_wf(1), of "[0x3000, 0x4000]" 0 ?fr sample_arch 0]
      timer_interrupts_preempt[OF sample_arch_wf(1), of "[0x3000, 0x4000]" 0 ?fr "snd (isr_dispatch sample_arch ?fr)" 1] sample_arch_wf(2-5) d by simp
qed

end
