(* ===== verification/Smp.thy ===== *)
theory Smp
  imports Interrupts Console_Correct
begin

text \<open>
  Starting the processors (\<^verbatim>\<open>arch/x86_64/smp/smp.c\<close>) and the kernel (\<^verbatim>\<open>kernel/kernel.c\<close>). A processor finds
  its number through the segment base \<^verbatim>\<open>gs\<close>, which points into an array of numbers; reading through a base outside the array
  is \<open>None\<close>. \<open>ap_entry_point\<close> and \<open>smp_init\<close> are what one processor does; the counter of
  processors is taken under a lock. The answers of the boot loader are arguments. Both end in \<^verbatim>\<open>schedule\<close>, which does not
  return: the result says which context is loaded.
\<close>

section \<open>State\<close>

record limine_smp_info =
  lapic_id :: u32
  goto_address :: u64

record limine_smp_response =
  bsp_lapic_id :: u32
  cpus :: "limine_smp_info list"

record smp_state = arch_state +
  percpu_processor_ids :: "u32 list"
  percpu_ids_addr :: u64
  gs_base :: u64
  cpu_id_ctr :: nat
  total_cpus :: nat

section \<open>Processor numbers\<close>

definition init_percpu_data :: "'a smp_state_scheme \<Rightarrow> nat \<Rightarrow> 'a smp_state_scheme" where
  "init_percpu_data s processor_id =
     (if processor_id \<ge> MAX_CORES then s
      else
        (let s = s\<lparr>percpu_processor_ids := (percpu_processor_ids s)[processor_id := of_nat processor_id]\<rparr>;
             ptr = percpu_ids_addr s + of_nat (4 * processor_id);
             eax = (ucast ptr :: u32);
             edx = (ucast (drop_bit 32 ptr) :: u32)
         in s\<lparr>gs_base := push_bit 32 (ucast edx) OR ucast eax\<rparr>))"

definition get_current_core_id :: "'a smp_state_scheme \<Rightarrow> u32 option" where
  "get_current_core_id s =
     (let off = unat (gs_base s - percpu_ids_addr s)
      in if off mod 4 = 0 \<and> off div 4 < MAX_CORES then Some (percpu_processor_ids s ! (off div 4)) else None)"

text \<open>What \<^verbatim>\<open>this_core_read\<close> and \<^verbatim>\<open>this_core_write\<close> index with, as the scheduler's state has it.\<close>

definition on_core :: "'a smp_state_scheme \<Rightarrow> 'a smp_state_scheme option" where
  "on_core s = map_option (\<lambda>i. s\<lparr>this_core := unat i\<rparr>) (get_current_core_id s)"

text \<open>The critical section of both starting routines: \<^verbatim>\<open>init_percpu_data(cpu_id_ctr++)\<close>.\<close>

definition take_cpu_id :: "'a smp_state_scheme \<Rightarrow> 'a smp_state_scheme" where
  "take_cpu_id s = init_percpu_data (s\<lparr>cpu_id_ctr := cpu_id_ctr s + 1\<rparr>) (cpu_id_ctr s)"

section \<open>Starting\<close>

text \<open>\<^verbatim>\<open>boot_idle_task\<close> up to its endless loop.\<close>

definition boot_idle_task :: "'a smp_state_scheme \<Rightarrow> 'a smp_state_scheme" where
  "boot_idle_task s = apic_timer_enable s"

definition ap_entry_point :: "'a smp_state_scheme \<Rightarrow> limine_smp_info \<Rightarrow> (isr_result \<times> 'a smp_state_scheme) option" where
  "ap_entry_point s cpu_info =
     (let s = s\<lparr>tables := reload_idt (init_gdt (tables s))\<rparr>;
          s = take_cpu_id s;
          (r, s) = apic_timer_init_cpu s (lapic_id cpu_info)
      in if r \<noteq> 0 then Some (IsrHalt, s)
         else do {
           let s = apic_timer_set_frequency s 100;
           s \<leftarrow> on_core s;
           let (ctx, s) = schedule s;
           Some (IsrLoad ctx, s)
         })"

text \<open>The loop over the processors: the boot processor takes its number, the others are given the address of \<^verbatim>\<open>ap_entry_point\<close>.\<close>

fun start_cpus :: "'a smp_state_scheme \<Rightarrow> u64 \<Rightarrow> u32 \<Rightarrow> limine_smp_info list \<Rightarrow> limine_smp_info list \<times> 'a smp_state_scheme" where
  "start_cpus s ap_addr bsp [] = ([], s)"
| "start_cpus s ap_addr bsp (cpu # rest) =
     (if lapic_id cpu = bsp
      then (let (cs, s) = start_cpus (take_cpu_id s) ap_addr bsp rest in (cpu # cs, s))
      else (let (cs, s) = start_cpus s ap_addr bsp rest in (cpu\<lparr>goto_address := ap_addr\<rparr> # cs, s)))"

text \<open>
  \<^verbatim>\<open>smp_init\<close>: \<open>idle\<close> and \<open>ap_addr\<close> are the addresses of \<^verbatim>\<open>boot_idle_task\<close> and \<^verbatim>\<open>ap_entry_point\<close>. The result of setting up the boot
  processor's own controller is ignored.
\<close>

definition smp_init ::
  "'a smp_state_scheme \<Rightarrow> limine_smp_response option \<Rightarrow> u64 \<Rightarrow> u64 \<Rightarrow> (isr_result \<times> limine_smp_info list \<times> 'a smp_state_scheme) option" where
  "smp_init s response idle ap_addr =
     (case response of
        None \<Rightarrow> Some (IsrReturn, [], s)
      | Some r \<Rightarrow> do {
          let (_, s) = apic_timer_init_cpu s (bsp_lapic_id r);
          let s = apic_timer_set_frequency s 100;
          let s = s\<lparr>total_cpus := length (cpus r)\<rparr>;
          s \<leftarrow> init_task_ctr s (total_cpus s);
          s \<leftarrow> fold_opt (\<lambda>s _. map_option snd (create_and_schedule_kernel_task s idle)) s [0..<5];
          let (cs, s) = start_cpus s ap_addr (bsp_lapic_id r) (cpus r);
          s \<leftarrow> on_core s;
          let (ctx, s) = schedule s;
          Some (IsrLoad ctx, cs, s)
        })"

text \<open>
  \<^verbatim>\<open>_start\<close>: the whole initialisation. The arguments are what the boot loader answers (revision, frame buffers, memory map,
  processors) and the addresses of the entry points. A failure of the virtual memory manager is only reported.
\<close>

definition kernel_start ::
  "'a smp_state_scheme \<Rightarrow> 'b console_state_scheme \<Rightarrow> bool \<Rightarrow> limine_fb list option \<Rightarrow> limine_memmap_entry list \<Rightarrow> limine_smp_response option
     \<Rightarrow> (nat \<Rightarrow> u64) \<Rightarrow> u64 \<Rightarrow> u64 \<Rightarrow> (isr_result \<times> 'a smp_state_scheme \<times> 'b console_state_scheme) option" where
  "kernel_start s con supported fbs memmap smp isr idle ap_addr =
     (if \<not> supported then Some (IsrHalt, s, con)
      else
        (let (r, con) = fb_init con fbs in
         if r \<noteq> 0 then Some (IsrHalt, s, con)
         else do {
           con \<leftarrow> fb_clear con 0;
           con \<leftarrow> terminal_initialize con 0xFFFFFF 0x000035;
           let s = s\<lparr>tables := init_idt isr (init_gdt (tables s))\<rparr>;
           s \<leftarrow> buddy_allocator_init s memmap;
           let s = slab_allocator_init s;
           (_, s) \<leftarrow> vmm_init s;
           (_, s) \<leftarrow> apic_global_init s;
           let s = s\<lparr>tables := reload_idt (apic_timer_register_handler isr (tables s))\<rparr>;
           let s = scheduler_init s;
           (res, _, s) \<leftarrow> smp_init s smp idle ap_addr;
           Some (res, s, con)
         }))"

section \<open>Every processor has its own number\<close>

lemma gs_base_write: "(push_bit 32 (ucast (ucast (drop_bit 32 p) :: u32)) OR ucast (ucast p :: u32) :: u64) = p" for p :: u64
proof (rule bit_word_eqI)
  fix n assume "n < LENGTH(64)"
  then show "bit (push_bit 32 (ucast (ucast (drop_bit 32 p) :: u32)) OR ucast (ucast p :: u32) :: u64) n = bit p n"
    by (cases "n < 32") (auto simp: bit_or_iff bit_push_bit_iff bit_drop_bit_eq bit_ucast_iff)
qed

text \<open>The processor that is the \<open>k\<close>-th to take a number, in whatever order they get the lock, is processor
  \<open>k\<close> and reads this number back, as long as there are no more than \<^const>\<open>MAX_CORES\<close>; the numbers taken before stay.\<close>

lemma take_cpu_id_number:
  assumes "cpu_id_ctr s < MAX_CORES" "length (percpu_processor_ids s) = MAX_CORES"
  shows "get_current_core_id (take_cpu_id s) = Some (of_nat (cpu_id_ctr s))" "cpu_id_ctr (take_cpu_id s) = cpu_id_ctr s + 1"
    "\<And>i. i < cpu_id_ctr s \<Longrightarrow> percpu_processor_ids (take_cpu_id s) ! i = percpu_processor_ids s ! i"
proof -
  have t: "take_cpu_id s = s\<lparr>cpu_id_ctr := cpu_id_ctr s + 1, percpu_processor_ids := (percpu_processor_ids s)[cpu_id_ctr s := of_nat (cpu_id_ctr s)],
      gs_base := percpu_ids_addr s + of_nat (4 * cpu_id_ctr s)\<rparr>"
    using assms(1) by (simp only: take_cpu_id_def init_percpu_data_def Let_def gs_base_write) simp
  have "unat (of_nat (4 * cpu_id_ctr s) :: u64) = 4 * cpu_id_ctr s" using assms(1) by (simp add: unat_word_ariths(2) unat_of_nat MAX_CORES_def)
  then show "get_current_core_id (take_cpu_id s) = Some (of_nat (cpu_id_ctr s))"
    unfolding t get_current_core_id_def Let_def using assms by (simp del: of_nat_mult)
  show "cpu_id_ctr (take_cpu_id s) = cpu_id_ctr s + 1"
    "\<And>i. i < cpu_id_ctr s \<Longrightarrow> percpu_processor_ids (take_cpu_id s) ! i = percpu_processor_ids s ! i" unfolding t by simp_all
qed

text \<open>A processor beyond the fourth gets no number: its segment base stays what it was.\<close>

lemma take_cpu_id_too_many: "MAX_CORES \<le> cpu_id_ctr s \<Longrightarrow> gs_base (take_cpu_id s) = gs_base s"
  by (simp add: take_cpu_id_def init_percpu_data_def)

end
