(* ===== verification/Boot_Requests.thy ===== *)
theory Boot_Requests
  imports Smp
begin

text \<open>
  The boot loader protocol as the kernel uses it (\<^verbatim>\<open>arch/x86_64/limine/limine_requests.c\<close>, \<^verbatim>\<open>memutils.h\<close> and the structures of
  \<^verbatim>\<open>limine.h\<close> that the kernel reads): the static requests, their getters, and what the routines of the
  initialisation read from the answers in memory. The boot loader itself is a function from the identifier
  of a request to the address of its answer. The initialisation of the kernel is then a function of the requests and the
  memory.
\<close>

section \<open>Requests\<close>

text \<open>All request structures have the same fields: \<^verbatim>\<open>id\<close>, \<^verbatim>\<open>revision\<close> and the pointer \<^verbatim>\<open>response\<close>.\<close>

record limine_request =
  request_id :: "u64 list"
  request_revision :: u64
  request_response :: u64

definition LIMINE_COMMON_MAGIC :: "u64 list" where
  "LIMINE_COMMON_MAGIC = [0xc7b1dd30df4c8b88, 0x0a82e883a194f07b]"
definition LIMINE_HHDM_REQUEST :: "u64 list" where
  "LIMINE_HHDM_REQUEST = LIMINE_COMMON_MAGIC @ [0x48dcf1cb8ad2b852, 0x63984e959a98244b]"
definition LIMINE_FRAMEBUFFER_REQUEST :: "u64 list" where
  "LIMINE_FRAMEBUFFER_REQUEST = LIMINE_COMMON_MAGIC @ [0x9d5827dcd881dd75, 0xa3148604f6fab11b]"
definition LIMINE_SMP_REQUEST :: "u64 list" where
  "LIMINE_SMP_REQUEST = LIMINE_COMMON_MAGIC @ [0x95a67b819a1b857e, 0xa0b61b723b6a73e0]"
definition LIMINE_MEMMAP_REQUEST :: "u64 list" where
  "LIMINE_MEMMAP_REQUEST = LIMINE_COMMON_MAGIC @ [0x67cf3d9d378a806f, 0xe304acdfc50c3c62]"
definition LIMINE_KERNEL_ADDRESS_REQUEST :: "u64 list" where
  "LIMINE_KERNEL_ADDRESS_REQUEST = LIMINE_COMMON_MAGIC @ [0x71ba76863cc55f63, 0xb2644a48c516a487]"

record limine_requests =
  framebuffer_request :: limine_request
  memmap_request :: limine_request
  hhdm_request :: limine_request
  kernel_address_request :: limine_request
  smp_request :: limine_request
  base_revision :: "u64 list"

definition unanswered :: "u64 list \<Rightarrow> limine_request" where
  "unanswered i = \<lparr>request_id = i, request_revision = 0, request_response = NULL\<rparr>"

definition LIMINE_BASE_REVISION :: "u64 \<Rightarrow> u64 list" where
  "LIMINE_BASE_REVISION n = [0xf9562b2d5c95a6c8, 0x6a7b384944536bdc, n]"

definition static_requests :: limine_requests where
  "static_requests = \<lparr>framebuffer_request = unanswered LIMINE_FRAMEBUFFER_REQUEST, memmap_request = unanswered LIMINE_MEMMAP_REQUEST,
     hhdm_request = unanswered LIMINE_HHDM_REQUEST, kernel_address_request = unanswered LIMINE_KERNEL_ADDRESS_REQUEST,
     smp_request = unanswered LIMINE_SMP_REQUEST, base_revision = LIMINE_BASE_REVISION 3\<rparr>"

definition LIMINE_BASE_REVISION_SUPPORTED :: "limine_requests \<Rightarrow> bool" where
  "LIMINE_BASE_REVISION_SUPPORTED rq \<longleftrightarrow> base_revision rq ! 2 = 0"

definition get_framebuffer_request :: "limine_requests \<Rightarrow> limine_request" where
  "get_framebuffer_request rq = framebuffer_request rq"
definition get_memmap_request :: "limine_requests \<Rightarrow> limine_request" where
  "get_memmap_request rq = memmap_request rq"
definition get_hhdm_request :: "limine_requests \<Rightarrow> limine_request" where
  "get_hhdm_request rq = hhdm_request rq"
definition get_kernel_address_request :: "limine_requests \<Rightarrow> limine_request" where
  "get_kernel_address_request rq = kernel_address_request rq"
definition get_smp_request :: "limine_requests \<Rightarrow> limine_request" where
  "get_smp_request rq = smp_request rq"

section \<open>Answers\<close>

text \<open>\<^verbatim>\<open>get_hhdm_offset\<close>; without an answer the kernel halts.\<close>

definition get_hhdm_offset :: "limine_requests \<Rightarrow> memory \<Rightarrow> u64 option" where
  "get_hhdm_offset rq m =
     (let response = request_response (get_hhdm_request rq) in if response = NULL then None else Some (load64 m (response + 8)))"

text \<open>An array of pointers, of which the answers to the other requests consist.\<close>

definition pointer_array :: "memory \<Rightarrow> u64 \<Rightarrow> u64 \<Rightarrow> u64 list" where
  "pointer_array m a n = map (\<lambda>i. load64 m (a + 8 * of_nat i)) [0..<unat n]"

definition read_memmap_entry :: "memory \<Rightarrow> u64 \<Rightarrow> limine_memmap_entry" where
  "read_memmap_entry m p = \<lparr>entry_base = load64 m p, entry_length = load64 m (p + 8), entry_type = load64 m (p + 16)\<rparr>"

definition memmap_entries :: "memory \<Rightarrow> u64 \<Rightarrow> limine_memmap_entry list" where
  "memmap_entries m r = map (read_memmap_entry m) (pointer_array m (load64 m (r + 16)) (load64 m (r + 8)))"

definition read_framebuffer :: "memory \<Rightarrow> u64 \<Rightarrow> limine_fb" where
  "read_framebuffer m p = \<lparr>fb_width = load64 m (p + 8), fb_height = load64 m (p + 16), fb_pitch = load64 m (p + 24)\<rparr>"

definition framebuffers :: "memory \<Rightarrow> u64 \<Rightarrow> limine_fb list option" where
  "framebuffers m r = (if r = NULL then None else Some (map (read_framebuffer m) (pointer_array m (load64 m (r + 16)) (load64 m (r + 8)))))"

definition read_smp_info :: "memory \<Rightarrow> u64 \<Rightarrow> limine_smp_info" where
  "read_smp_info m p = \<lparr>lapic_id = load32 m (p + 4), goto_address = load64 m (p + 16)\<rparr>"

definition smp_response :: "memory \<Rightarrow> u64 \<Rightarrow> limine_smp_response option" where
  "smp_response m r =
     (if r = NULL then None
      else Some \<lparr>bsp_lapic_id = load32 m (r + 12), cpus = map (read_smp_info m) (pointer_array m (load64 m (r + 24)) (load64 m (r + 16)))\<rparr>)"

text \<open>The kernel from its entry, with the answers in memory. \<open>None\<close> is also the halt for a missing memory map or a missing offset of the
  direct map. The answers are read at the start: they are not in memory that the map calls usable.\<close>

definition kernel_boot ::
  "limine_requests \<Rightarrow> 'a smp_state_scheme \<Rightarrow> 'b console_state_scheme \<Rightarrow> (nat \<Rightarrow> u64) \<Rightarrow> u64 \<Rightarrow> u64
     \<Rightarrow> (isr_result \<times> 'a smp_state_scheme \<times> 'b console_state_scheme) option" where
  "kernel_boot rq s con isr idle ap_addr =
     (let fbs = framebuffers (mem s) (request_response (get_framebuffer_request rq));
          memmap = request_response (get_memmap_request rq);
          smp = smp_response (mem s) (request_response (get_smp_request rq))
      in if memmap = NULL then None
         else do {
           offset \<leftarrow> get_hhdm_offset rq (mem s);
           kernel_start (s\<lparr>hhdm_offset := offset\<rparr>) con (LIMINE_BASE_REVISION_SUPPORTED rq) fbs (memmap_entries (mem s) memmap) smp isr idle ap_addr
         })"

section \<open>The boot loader\<close>

text \<open>A boot loader answers a request according to its identifier and acknowledges the revision. No request of
  the kernel gets the answer to another one, since the identifiers differ.\<close>

definition answer_requests :: "(u64 list \<Rightarrow> u64) \<Rightarrow> limine_requests \<Rightarrow> limine_requests" where
  "answer_requests loader rq =
     (let ans = (\<lambda>r. r\<lparr>request_response := loader (request_id r)\<rparr>) in
      \<lparr>framebuffer_request = ans (framebuffer_request rq), memmap_request = ans (memmap_request rq), hhdm_request = ans (hhdm_request rq),
       kernel_address_request = ans (kernel_address_request rq), smp_request = ans (smp_request rq), base_revision = (base_revision rq)[2 := 0]\<rparr>)"

lemma request_ids_distinct:
  "distinct [LIMINE_FRAMEBUFFER_REQUEST, LIMINE_MEMMAP_REQUEST, LIMINE_HHDM_REQUEST, LIMINE_KERNEL_ADDRESS_REQUEST, LIMINE_SMP_REQUEST]"
  by (simp add: LIMINE_FRAMEBUFFER_REQUEST_def LIMINE_MEMMAP_REQUEST_def LIMINE_HHDM_REQUEST_def LIMINE_KERNEL_ADDRESS_REQUEST_def LIMINE_SMP_REQUEST_def)

lemma answered_requests:
  "request_response (get_framebuffer_request (answer_requests loader static_requests)) = loader LIMINE_FRAMEBUFFER_REQUEST"
  "request_response (get_memmap_request (answer_requests loader static_requests)) = loader LIMINE_MEMMAP_REQUEST"
  "request_response (get_hhdm_request (answer_requests loader static_requests)) = loader LIMINE_HHDM_REQUEST"
  "request_response (get_kernel_address_request (answer_requests loader static_requests)) = loader LIMINE_KERNEL_ADDRESS_REQUEST"
  "request_response (get_smp_request (answer_requests loader static_requests)) = loader LIMINE_SMP_REQUEST"
  "LIMINE_BASE_REVISION_SUPPORTED (answer_requests loader static_requests)" "\<not> LIMINE_BASE_REVISION_SUPPORTED static_requests"
  by (simp_all add: answer_requests_def static_requests_def unanswered_def Let_def get_framebuffer_request_def get_memmap_request_def
      get_hhdm_request_def get_kernel_address_request_def get_smp_request_def LIMINE_BASE_REVISION_SUPPORTED_def LIMINE_BASE_REVISION_def)

lemma memmap_entries_length: "length (memmap_entries m r) = unat (load64 m (r + 8))"
  by (simp add: memmap_entries_def pointer_array_def)

lemma memmap_entries_nth:
  "i < unat (load64 m (r + 8)) \<Longrightarrow> memmap_entries m r ! i = read_memmap_entry m (load64 m (load64 m (r + 16) + 8 * of_nat i))"
  by (simp add: memmap_entries_def pointer_array_def)

end
