(* ===== verification/Context_Switch.thy ===== *)
theory Context_Switch
  imports Interrupts
begin

text \<open>
  The assembly between an interrupt and the C code: the entry stubs (\<^verbatim>\<open>interrupts/isr_stubs.S\<close>) and the loading of a
  context (\<^verbatim>\<open>scheduler/context_switch.S\<close>), on the registers of the processor and the bytes of memory. Each instruction
  is a function on the record of registers; its meaning, the delivery of an interrupt and \<^verbatim>\<open>iretq\<close> are those of the
  processor's manual. Together with the dispatch and the scheduler a timer interrupt is then a switch between the contexts of
  two tasks.
\<close>

section \<open>The processor\<close>

record x86 =
  r15 :: u64
  r14 :: u64
  r13 :: u64
  r12 :: u64
  r11 :: u64
  r10 :: u64
  r9 :: u64
  r8 :: u64
  rbp :: u64
  rdi :: u64
  rsi :: u64
  rdx :: u64
  rcx :: u64
  rbx :: u64
  rax :: u64
  rip :: u64
  cs :: u64
  rflags :: u64
  rsp :: u64
  ss :: u64
  cr2 :: u64
  ram :: memory

definition pushq :: "u64 \<Rightarrow> x86 \<Rightarrow> x86" where
  "pushq v c = c\<lparr>rsp := rsp c - 8, ram := store64 (ram c) (rsp c - 8) v\<rparr>"

definition popq :: "x86 \<Rightarrow> u64 \<times> x86" where
  "popq c = (load64 (ram c) (rsp c), c\<lparr>rsp := rsp c + 8\<rparr>)"

definition cli :: "x86 \<Rightarrow> x86" where
  "cli c = c\<lparr>rflags := rflags c AND NOT 0x200\<rparr>"

definition iretq :: "x86 \<Rightarrow> x86" where
  "iretq c = (let p = rsp c; m = ram c in
     c\<lparr>rip := load64 m p, cs := load64 m (p + 8), rflags := load64 m (p + 16), rsp := load64 m (p + 24), ss := load64 m (p + 32)\<rparr>)"

text \<open>Delivery of an interrupt in 64-bit mode without a change of the privilege level: the stack pointer is aligned and stack
  segment, stack pointer, flags, code segment and instruction pointer are pushed, then the error code of the exceptions
  that have one; an interrupt gate disables interrupts.\<close>

definition deliver :: "u64 option \<Rightarrow> u64 \<Rightarrow> x86 \<Rightarrow> x86" where
  "deliver err entry_point c =
     (let sp = rsp c;
          c' = pushq (rip c) (pushq (cs c) (pushq (rflags c) (pushq sp (pushq (ss c) (c\<lparr>rsp := sp AND NOT 15\<rparr>)))));
          c' = (case err of None \<Rightarrow> c' | Some e \<Rightarrow> pushq e c')
      in cli (c'\<lparr>rip := entry_point\<rparr>))"

section \<open>Interrupt entry\<close>

definition ISR_NOERR :: "u64 \<Rightarrow> x86 \<Rightarrow> x86" where
  "ISR_NOERR n c = pushq n (pushq 0 (cli c))"

definition ISR_ERR :: "u64 \<Rightarrow> x86 \<Rightarrow> x86" where
  "ISR_ERR n c = pushq n (cli c)"

definition isr_stub :: "u64 \<Rightarrow> x86 \<Rightarrow> x86" where
  "isr_stub n = (if n \<in> {8, 10, 11, 12, 13, 14} then ISR_ERR n else ISR_NOERR n)"

text \<open>\<^verbatim>\<open>movq\<close> of the registers into the context at \<^verbatim>\<open>%rax\<close>; the original \<^verbatim>\<open>%rax\<close> comes from the stack, as do \<^verbatim>\<open>%rip\<close>, the flags and
  the code segment.\<close>

definition save_registers :: "x86 \<Rightarrow> x86" where
  "save_registers c =
     (let p = rax c;
          m = store64 (ram c) p (r15 c); m = store64 m (p + 8) (r14 c); m = store64 m (p + 16) (r13 c); m = store64 m (p + 24) (r12 c);
          m = store64 m (p + 32) (r11 c); m = store64 m (p + 40) (r10 c); m = store64 m (p + 48) (r9 c); m = store64 m (p + 56) (r8 c);
          m = store64 m (p + 64) (rbp c); m = store64 m (p + 72) (rdi c); m = store64 m (p + 80) (rsi c); m = store64 m (p + 88) (rdx c);
          m = store64 m (p + 96) (rcx c); m = store64 m (p + 104) (rbx c)
      in c\<lparr>ram := m\<rparr>)"

definition save_frame :: "x86 \<Rightarrow> x86" where
  "save_frame c =
     (let (v, c) = popq c; p = rax c; q = rsp c;
          m = store64 (ram c) (p + 112) v;
          m = store64 m (p + 120) (load64 m (q + 16));
          m = store64 m (p + 136) (load64 m (q + 32));
          v = load64 m (q + 24);
          m = store64 m (p + 128) v
      in c\<lparr>rcx := v, ram := m\<rparr>)"

definition build_frame :: "x86 \<Rightarrow> x86" where
  "build_frame c =
     (let (v, c) = popq c; c = c\<lparr>rax := v\<rparr>; (v, c) = popq c; c = c\<lparr>rbx := v\<rparr>;
          (v, c) = popq c; c = c\<lparr>rcx := v\<rparr>; (v, c) = popq c; c = c\<lparr>rcx := v\<rparr>; (v, c) = popq c; c = c\<lparr>rcx := v\<rparr>;
          c = (if rsp c AND 15 \<noteq> 0 then c else c\<lparr>rsp := rsp c - 8\<rparr>);
          c = pushq (rbx c) c; c = pushq (rax c) c; c = c\<lparr>rax := cr2 c\<rparr>; c = pushq (rax c) c
      in c\<lparr>rdi := rsp c\<rparr>)"

definition isr_common_stub :: "u64 \<Rightarrow> x86 \<Rightarrow> x86 + x86" where
  "isr_common_stub task c =
     (let c = pushq (rax c) c; c = save_frame (save_registers (c\<lparr>rax := task\<rparr>))
      in if rcx c AND 3 \<noteq> 0 then Inl c else Inr (build_frame c))"

definition read_frame :: "memory \<Rightarrow> u64 \<Rightarrow> interrupt_frame" where
  "read_frame m fr = \<lparr>if_cr2 = load64 m fr, int_no = load64 m (fr + 8), err_code = load64 m (fr + 16)\<rparr>"

section \<open>Loading a context\<close>

definition push_context :: "x86 \<Rightarrow> x86" where
  "push_context c =
     (let p = rdi c; c = pushq (load64 (ram c) (p + 152)) c; c = pushq (load64 (ram c) (p + 144)) c;
          c = pushq (load64 (ram c) (p + 136)) c; c = pushq (load64 (ram c) (p + 128)) c
      in pushq (load64 (ram c) (p + 120)) c)"

definition build_iretq_frame :: "x86 \<Rightarrow> x86" where
  "build_iretq_frame c = iretq (push_context c)"

definition load_registers :: "x86 \<Rightarrow> x86" where
  "load_registers c =
     (let m = ram c; p = rdi c in
      c\<lparr>r15 := load64 m p, r14 := load64 m (p + 8), r13 := load64 m (p + 16), r12 := load64 m (p + 24), r11 := load64 m (p + 32),
        r10 := load64 m (p + 40), r9 := load64 m (p + 48), r8 := load64 m (p + 56), rbp := load64 m (p + 64), rsi := load64 m (p + 80),
        rdx := load64 m (p + 88), rcx := load64 m (p + 96), rbx := load64 m (p + 104), rax := load64 m (p + 112)\<rparr>)"

definition load_next_task :: "x86 \<Rightarrow> x86" where
  "load_next_task c =
     (let c = push_context (load_registers c);
          c = c\<lparr>rdi := load64 (ram c) (rdi c + 72)\<rparr>
      in iretq c)"

section \<open>Contexts\<close>

lemma disj_sub:
  fixes a b n k i l j q :: u64
  assumes "disj_range a n b k" "unat i + unat l \<le> unat n" "unat j + unat q \<le> unat k" "0 < unat l" "0 < unat q"
  shows "disj_range (a + i) l (b + j) q"
proof -
  have d: "unat n \<le> unat (b - a)" "unat k \<le> unat (a - b)" using assms(1) by (simp_all add: disj_range_def word_le_nat_alt)
  have s: "unat (a - b) + unat (b - a) = 2 ^ 64"
    using d assms unat_sub_if_size[of a b] unat_sub_if_size[of b a] unat_lt64[of a] unat_lt64[of b] by (simp add: word_size word_le_nat_alt split: if_splits)
  have e: "b + j - (a + i) = (b - a) + j - i" "a + i - (b + j) = (a - b) + i - j" by simp_all
  have "unat ((b - a) + j - i) = unat (b - a) + unat j - unat i" "unat ((a - b) + i - j) = unat (a - b) + unat i - unat j"
    using d s assms by (simp_all add: unat_plus64 unat_sub word_le_nat_alt)
  then show ?thesis unfolding disj_range_def e word_le_nat_alt using d assms(2-5) s by linarith
qed

lemma pushq_at: "rsp c = b + k \<Longrightarrow> pushq v c = c\<lparr>rsp := b + (k - 8), ram := store64 (ram c) (b + (k - 8)) v\<rparr>"
  by (simp add: pushq_def add_diff_eq)

lemma popq_at: "rsp c = b + k \<Longrightarrow> popq c = (load64 (ram c) (b + k), c\<lparr>rsp := b + (k + 8)\<rparr>)"
  by (simp add: popq_def add.assoc)

definition context_at :: "memory \<Rightarrow> u64 \<Rightarrow> u64 list" where
  "context_at m p = map (\<lambda>i. load64 m (p + 8 * of_nat i)) [0..<20]"

lemma context_at_eq: "context_at m p = [load64 m p, load64 m (p + 8), load64 m (p + 16), load64 m (p + 24), load64 m (p + 32), load64 m (p + 40),
    load64 m (p + 48), load64 m (p + 56), load64 m (p + 64), load64 m (p + 72), load64 m (p + 80), load64 m (p + 88), load64 m (p + 96),
    load64 m (p + 104), load64 m (p + 112), load64 m (p + 120), load64 m (p + 128), load64 m (p + 136), load64 m (p + 144), load64 m (p + 152)]"
  by (simp add: context_at_def upt_rec)

definition context_of :: "x86 \<Rightarrow> u64 list" where
  "context_of c = [r15 c, r14 c, r13 c, r12 c, r11 c, r10 c, r9 c, r8 c, rbp c, rdi c, rsi c, rdx c, rcx c, rbx c, rax c, rip c, cs c, rflags c, rsp c, ss c]"

text \<open>A context and the part of the stack that is in use share no byte.\<close>

lemma apart_loads:
  assumes "disj_range p 160 b 64" "unat i \<le> 152" "unat j \<le> 56"
  shows "load64 (store64 m (b + j) v) (p + i) = load64 m (p + i)" "load64 (store64 m (p + i) v) (b + j) = load64 m (b + j)"
  using disj_sub[OF assms(1), of i 8 j 8] assms(2,3) disj_range_sym[of "p + i"] by (auto intro!: load64_store64_disj)

lemmas apart_simps = apart_loads apart_loads[where i = 0, simplified] apart_loads[where j = 0, simplified] apart_loads[where i = 0 and j = 0, simplified]

lemma field_loads:
  assumes "disj_range i 8 j 8"
  shows "load64 (store64 m (p + i) v) (p + j) = load64 m (p + j)"
  using assms by (intro load64_store64_disj) simp

lemmas own_field_simps = field_loads field_loads[where i = 0, simplified] field_loads[where j = 0, simplified]

lemma push_context_at:
  assumes sep: "disj_range (rdi c) 160 b 64" and sp: "rsp c = b + 64"
  shows "push_context c = c\<lparr>rsp := b + 24, ram := store64 (store64 (store64 (store64 (store64 (ram c) (b + 56) (load64 (ram c) (rdi c + 152)))
    (b + 48) (load64 (ram c) (rdi c + 144))) (b + 40) (load64 (ram c) (rdi c + 136))) (b + 32) (load64 (ram c) (rdi c + 128)))
    (b + 24) (load64 (ram c) (rdi c + 120))\<rparr>"
  by (simp add: push_context_def Let_def pushq_at[where b = b] sp apart_simps[OF sep])

lemma load_next_task_context:
  assumes sep: "disj_range (rdi c) 160 b 64" and sp: "rsp c = b + 64"
  shows "context_of (load_next_task c) = context_at (ram c) (rdi c)"
proof -
  let ?c = "load_registers c"
  have f: "rdi ?c = rdi c" "rsp ?c = b + 64" "ram ?c = ram c" by (simp_all add: load_registers_def Let_def sp)
  have pc: "push_context ?c = ?c\<lparr>rsp := b + 24, ram := store64 (store64 (store64 (store64 (store64 (ram c) (b + 56) (load64 (ram c) (rdi c + 152)))
    (b + 48) (load64 (ram c) (rdi c + 144))) (b + 40) (load64 (ram c) (rdi c + 136))) (b + 32) (load64 (ram c) (rdi c + 128)))
    (b + 24) (load64 (ram c) (rdi c + 120))\<rparr>" using push_context_at[of ?c b] sep f by simp
  have "context_of (load_next_task c) = context_of (?c\<lparr>rdi := load64 (ram c) (rdi c + 72), rip := load64 (ram c) (rdi c + 120),
     cs := load64 (ram c) (rdi c + 128), rflags := load64 (ram c) (rdi c + 136), rsp := load64 (ram c) (rdi c + 144), ss := load64 (ram c) (rdi c + 152)\<rparr>)"
    unfolding load_next_task_def pc Let_def iretq_def by (simp add: f apart_simps[OF sep] own_field_simps disj_range_def context_of_def add.assoc)
  then show ?thesis by (simp add: context_of_def context_at_eq load_registers_def Let_def)
qed

section \<open>The entry stubs\<close>

lemma times16: "(16 * z :: u64) AND 15 = 0"
proof -
  have "16 * z = push_bit 4 z" "(15 :: u64) = mask 4" by (simp_all add: push_bit_eq_mult mask_eq_exp_minus_1)
  then show ?thesis by (simp add: bit_eq_iff bit_and_iff bit_push_bit_iff bit_mask_iff)
qed

lemma aligned16: obtains z :: u64 where "x AND NOT 15 = 16 * z"
proof -
  have m: "(15 :: u64) = mask 4" by (simp add: mask_eq_exp_minus_1)
  have "x AND NOT 15 = push_bit 4 (drop_bit 4 x)"
    unfolding m by (rule bit_word_eqI) (auto simp: bit_and_iff bit_not_iff bit_push_bit_iff bit_drop_bit_eq bit_mask_iff not_less)
  then show thesis by (intro that[of "drop_bit 4 x"]) (simp add: push_bit_eq_mult)
qed

definition entry_mem :: "u64 \<Rightarrow> u64 \<Rightarrow> u64 \<Rightarrow> x86 \<Rightarrow> memory" where
  "entry_mem b err n c = store64 (store64 (store64 (store64 (store64 (store64 (store64 (store64 (ram c) (b + 56) (ss c)) (b + 48) (rsp c)) (b + 40) (rflags c))
     (b + 32) (cs c)) (b + 24) (rip c)) (b + 16) err) (b + 8) n) b (rax c)"

lemma entry_at:
  assumes sp: "rsp c AND NOT 15 = b + 64" and err: "err = None \<longleftrightarrow> n \<notin> {8, 10, 11, 12, 13, 14}"
  shows "pushq (rax c) (isr_stub n (deliver err e c))
    = c\<lparr>rip := e, rflags := rflags c AND NOT 0x200, rsp := b, ram := entry_mem b (case err of None \<Rightarrow> 0 | Some v \<Rightarrow> v) n c\<rparr>"
proof (cases err)
  case None
  then show ?thesis using err
    by (simp add: isr_stub_def ISR_NOERR_def deliver_def Let_def cli_def pushq_at[where b = b] sp[simplified] entry_mem_def)
next
  case (Some v)
  then have "isr_stub n = ISR_ERR n" using err by (simp add: isr_stub_def)
  then show ?thesis using Some
    by (simp add: ISR_ERR_def deliver_def Let_def cli_def pushq_at[where b = b] sp[simplified] entry_mem_def)
qed

lemma entry_loads:
  "load64 (entry_mem b err n c) b = rax c" "load64 (entry_mem b err n c) (b + 8) = n" "load64 (entry_mem b err n c) (b + 16) = err"
  "load64 (entry_mem b err n c) (b + 24) = rip c" "load64 (entry_mem b err n c) (b + 32) = cs c" "load64 (entry_mem b err n c) (b + 40) = rflags c"
  by (simp_all add: entry_mem_def own_field_simps disj_range_def)

text \<open>The memory after the registers have been written to the context.\<close>

lemma save_registers_context:
  "context_at (ram (save_registers c)) (rax c) = [r15 c, r14 c, r13 c, r12 c, r11 c, r10 c, r9 c, r8 c, rbp c, rdi c, rsi c, rdx c, rcx c, rbx c,
    load64 (ram c) (rax c + 112), load64 (ram c) (rax c + 120), load64 (ram c) (rax c + 128), load64 (ram c) (rax c + 136),
    load64 (ram c) (rax c + 144), load64 (ram c) (rax c + 152)]"
  by (simp add: context_at_eq save_registers_def Let_def own_field_simps disj_range_def)

lemma save_registers_stack:
  assumes sep: "disj_range (rax c) 160 b 64" and j: "unat j \<le> 56"
  shows "load64 (ram (save_registers c)) (b + j) = load64 (ram c) (b + j)"
  using j by (simp add: save_registers_def Let_def apart_simps[OF sep])

lemma save_registers_rest:
  "load64 (ram (save_registers c)) (rax c + 144) = load64 (ram c) (rax c + 144)" "load64 (ram (save_registers c)) (rax c + 152) = load64 (ram c) (rax c + 152)"
  by (simp_all add: save_registers_def Let_def own_field_simps disj_range_def)

lemma store_out:
  fixes x p i n :: u64
  assumes "\<not> x - p < n" "unat i + 8 \<le> unat n"
  shows "store64 m (p + i) v x = m x"
proof (rule store64_outside, rule notI)
  assume "x - (p + i) < 8"
  then have k: "unat (x - (p + i)) < 8" by (simp add: word_less_nat_alt)
  have "unat (x - p) = unat (x - (p + i)) + unat i" using unat_plus64[of "x - (p + i)" i] k assms(2) unat_lt64[of n] by simp
  then show False using assms k by (simp add: word_less_nat_alt)
qed

lemmas out_simps = store_out store_out[where i = 0, simplified]

lemma save_registers_fields: "rsp (save_registers c) = rsp c" "rax (save_registers c) = rax c" "cr2 (save_registers c) = cr2 c"
  by (simp_all add: save_registers_def Let_def)

lemma save_frame_context:
  assumes sep: "disj_range (rax c) 160 b 64" and sp: "rsp c = b"
  shows "context_at (ram (save_frame c)) (rax c) = take 14 (context_at (ram c) (rax c)) @ [load64 (ram c) b, load64 (ram c) (b + 24),
      load64 (ram c) (b + 32), load64 (ram c) (b + 40), load64 (ram c) (rax c + 144), load64 (ram c) (rax c + 152)]"
    and "unat j \<le> 56 \<Longrightarrow> load64 (ram (save_frame c)) (b + j) = load64 (ram c) (b + j)"
    and "rcx (save_frame c) = load64 (ram c) (b + 32)" "rsp (save_frame c) = b + 8" "cr2 (save_frame c) = cr2 c" "rax (save_frame c) = rax c"
  by (simp_all add: context_at_eq save_frame_def popq_def Let_def sp apart_simps[OF sep] own_field_simps disj_range_def add.assoc)

lemma build_frame_at:
  assumes sp: "rsp c = b + 8" and al: "(b + 48) AND 15 = 0"
  shows "build_frame c = c\<lparr>rax := cr2 c, rbx := load64 (ram c) (b + 16), rcx := load64 (ram c) (b + 40), rdi := b + 16, rsp := b + 16,
    ram := store64 (store64 (store64 (ram c) (b + 32) (load64 (ram c) (b + 16))) (b + 24) (load64 (ram c) (b + 8))) (b + 16) (cr2 c)\<rparr>"
  by (simp add: build_frame_def popq_at[where b = b] pushq_at[where b = b] sp al Let_def)

text \<open>The context that an interrupt leaves behind.\<close>

definition saved_context :: "x86 \<Rightarrow> u64 \<Rightarrow> u64 list" where
  "saved_context c p = take 18 (context_of c) @ drop 18 (context_at (ram c) p)"

lemma entry_context:
  assumes sep: "disj_range p 160 b 64" and i: "unat i \<le> 152"
  shows "load64 (entry_mem b err n c) (p + i) = load64 (ram c) (p + i)"
  using i by (simp add: entry_mem_def apart_simps[OF sep])

lemma entry_outside: "\<not> x - b < 64 \<Longrightarrow> entry_mem b err n c x = ram c x"
  by (simp add: entry_mem_def out_simps)

lemma save_outside: "\<not> x - rax c < 160 \<Longrightarrow> ram (save_frame (save_registers c)) x = ram c x"
  by (simp add: save_frame_def save_registers_def popq_def Let_def out_simps)

lemma interrupt_entry:
  assumes sep: "disj_range p 160 (b :: u64) 64" and sp: "rsp c AND NOT 15 = b + 64" and err: "err = None \<longleftrightarrow> n \<notin> {8, 10, 11, 12, 13, 14}"
    and ring0: "cs c AND 3 = 0"
  obtains d where "isr_common_stub p (isr_stub n (deliver err e c)) = Inr d" "context_at (ram d) p = saved_context c p"
    "read_frame (ram d) (rdi d) = \<lparr>if_cr2 = cr2 c, int_no = n, err_code = (case err of None \<Rightarrow> 0 | Some v \<Rightarrow> v)\<rparr>"
    "rsp d = b + 16" "rsp d AND 15 = 0" "\<And>x. \<not> x - p < 160 \<Longrightarrow> \<not> x - b < 64 \<Longrightarrow> ram d x = ram c x"
proof -
  let ?err = "case err of None \<Rightarrow> 0 | Some v \<Rightarrow> v"
  obtain z where z: "b + 64 = 16 * z" using aligned16[of "rsp c"] sp by metis
  have b: "b = 16 * (z - 4)" using z by (simp add: algebra_simps)
  have al: "(b + 48) AND 15 = 0" "(b + 16) AND 15 = 0"
    using times16[of "z - 1"] times16[of "z - 3"] by (simp_all add: b algebra_simps)
  define c1 where "c1 = (pushq (rax c) (isr_stub n (deliver err e c)))\<lparr>rax := p\<rparr>"
  note en = entry_at[OF sp err, of e]
  have c1: "rsp c1 = b" "rax c1 = p" "ram c1 = entry_mem b ?err n c" "cr2 c1 = cr2 c" "take 14 (context_of c1) = take 14 (context_of c)"
    by (simp_all add: c1_def en context_of_def)
  define c2 where "c2 = save_frame (save_registers c1)"
  have sep1: "disj_range (rax (save_registers c1)) 160 b 64" and sep0: "disj_range (rax c1) 160 b 64" using sep by (simp_all add: save_registers_fields c1)
  note sf = save_frame_context[OF sep1, unfolded save_registers_fields, folded c2_def, OF c1(1)]
  have st: "load64 (ram (save_registers c1)) (b + j) = load64 (entry_mem b ?err n c) (b + j)" if "unat j \<le> 56" for j
    using save_registers_stack[OF sep0 that] c1 by simp
  have rx: "rax (isr_stub n (deliver err e c)) = rax c"
    by (simp add: isr_stub_def ISR_ERR_def ISR_NOERR_def deliver_def cli_def pushq_def Let_def split: option.split)
  have stub: "isr_common_stub p (isr_stub n (deliver err e c)) = Inr (build_frame c2)"
    using sf(3) st[of 32] ring0 rx by (simp add: isr_common_stub_def Let_def c1_def[symmetric] c2_def[symmetric] entry_loads)
  have "take 14 (context_at (ram (save_registers c1)) p) = take 14 (context_of c)"
    unfolding c1(5)[symmetric] using save_registers_context[of c1] by (simp add: c1(2) context_of_def)
  then have ctx: "context_at (ram c2) p = saved_context c p"
    using sf(1) st[of 0] st[of 24] st[of 32] st[of 40] save_registers_rest[of c1] entry_context[OF sep]
    by (simp add: c1 entry_loads saved_context_def context_of_def context_at_eq)
  note bf = build_frame_at[OF sf(4) al(1)]
  have "context_at (ram (build_frame c2)) p = context_at (ram c2) p" by (simp add: bf context_at_eq apart_simps[OF sep])
  moreover have "read_frame (ram (build_frame c2)) (rdi (build_frame c2)) = \<lparr>if_cr2 = cr2 c, int_no = n, err_code = ?err\<rparr>"
    using sf(2)[of 16] sf(2)[of 8] sf(5) st[of 16] st[of 8] c1(4)
    by (simp add: bf read_frame_def own_field_simps disj_range_def entry_loads add.assoc save_registers_fields)
  moreover have "ram (build_frame c2) x = ram c x" if "\<not> x - p < 160" "\<not> x - b < 64" for x
  proof -
    have "ram c2 x = ram c x" using save_outside[of x c1] entry_outside[OF that(2)] that by (simp add: c2_def c1)
    then show ?thesis using that by (simp add: bf out_simps)
  qed
  ultimately show thesis using ctx al(2) by (intro that[OF stub]) (simp_all add: bf)
qed

section \<open>A timer interrupt\<close>

text \<open>An interrupt of the running task. \<open>isr_dispatch\<close> is what the C code means, and \<open>code\<close> what its compiled form does besides, to the
  registers and to the bytes of its stack, between the call of \<^verbatim>\<open>isr_dispatch\<close> and the call of \<^verbatim>\<open>load_next_task\<close> or \<^verbatim>\<open>build_iretq_frame\<close>. The result is \<open>None\<close> when no task runs afterwards: the
  handler halts, or the stub calls \<^verbatim>\<open>print_check\<close>, which never ends. It does so for an interrupt in user mode and, because
  the code of user mode follows the call of \<^verbatim>\<open>isr_dispatch\<close>, after every handler that returns.\<close>

definition interrupt ::
  "(x86 \<Rightarrow> x86) \<Rightarrow> u64 option \<Rightarrow> u64 \<Rightarrow> u64 \<Rightarrow> x86 \<Rightarrow> 'a arch_state_scheme \<Rightarrow> (x86 \<times> 'a arch_state_scheme) option" where
  "interrupt code err n entry_point c s =
     (case isr_common_stub (get_current_task s) (isr_stub n (deliver err entry_point (c\<lparr>ram := mem s\<rparr>))) of
        Inl d \<Rightarrow> None
      | Inr d \<Rightarrow>
          (case isr_dispatch (s\<lparr>mem := ram d\<rparr>) (read_frame (ram d) (rdi d)) of
             (IsrLoad p, s) \<Rightarrow> (let d = load_next_task ((code (d\<lparr>ram := mem s\<rparr>))\<lparr>rdi := p\<rparr>) in Some (d, s\<lparr>mem := ram d\<rparr>))
           | (IsrFrame p, s) \<Rightarrow> (let d = build_iretq_frame ((code (d\<lparr>ram := mem s\<rparr>))\<lparr>rdi := p\<rparr>) in Some (d, s\<lparr>mem := ram d\<rparr>))
           | (IsrReturn, s) \<Rightarrow> None
           | (IsrHalt, s) \<Rightarrow> None))"

text \<open>A stack area: 64 bytes that are apart from the contexts of the tasks and the nodes of the run queues.\<close>

definition area_apart :: "'a task_state_scheme \<Rightarrow> u64 set \<Rightarrow> u64 \<Rightarrow> bool" where
  "area_apart s T b \<longleftrightarrow> (\<forall>t\<in>T. disj_range t 160 b 64) \<and> (\<forall>n\<in>sched_nodes s T. disj_range n 16 b 64)"

definition contexts_apart :: "'a task_state_scheme \<Rightarrow> u64 set \<Rightarrow> bool" where
  "contexts_apart s T \<longleftrightarrow> (\<forall>t\<in>T. \<forall>u\<in>T. t \<noteq> u \<longrightarrow> disj_range t 160 u 160) \<and> (\<forall>t\<in>T. \<forall>n\<in>sched_nodes s T. disj_range n 16 t 160)"

text \<open>The bytes of the contexts and of the nodes; and compiled code that is entered with the stack pointer at \<open>a\<close>, leaves it \<open>depth\<close> bytes lower and
  does not use these bytes for its stack.\<close>

definition task_bytes :: "'a task_state_scheme \<Rightarrow> u64 set \<Rightarrow> u64 set" where
  "task_bytes s T = {x. (\<exists>t\<in>T. x - t < 160) \<or> (\<exists>n\<in>sched_nodes s T. x - n < 16)}"

definition stack_code :: "'a task_state_scheme \<Rightarrow> u64 set \<Rightarrow> (x86 \<Rightarrow> x86) \<Rightarrow> u64 \<Rightarrow> u64 \<Rightarrow> bool" where
  "stack_code s T code a depth \<longleftrightarrow>
     (\<forall>d. rsp d = a \<longrightarrow> rsp (code d) = a - depth \<and> (\<forall>x\<in>task_bytes s T. ram (code d) x = ram d x))"

lemma disj_not_in: "disj_range a n b k \<Longrightarrow> x - a < n \<Longrightarrow> \<not> x - b < (k :: u64)"
  unfolding disj_range_def by unat_arith

lemma context_cong: "(\<And>x. x - p < 160 \<Longrightarrow> m x = m' x) \<Longrightarrow> context_at m p = context_at m' p"
  unfolding context_at_def
proof (intro map_cong refl load64_cong)
  fix i and k :: u64 assume h: "\<And>x. x - p < 160 \<Longrightarrow> m x = m' x" and i: "i \<in> set [0..<20]" and k: "k < 8"
  have "unat (8 * of_nat i :: u64) = 8 * i" using i by (simp add: unat_word_ariths(2) unat_of_nat)
  then have "unat (8 * of_nat i + k) = 8 * i + unat k" using unat_plus64[of "8 * of_nat i" k] i k by (simp add: word_less_nat_alt)
  then have "p + 8 * of_nat i + k - p < 160" using i k by (simp add: word_less_nat_alt)
  then show "m (p + 8 * of_nat i + k) = m' (p + 8 * of_nat i + k)" by (rule h)
qed

lemma sched_wf_frame:
  assumes wf: "sched_wf s T Q" and same: "\<And>n x. n \<in> sched_nodes s T \<Longrightarrow> x - n < 16 \<Longrightarrow> m x = mem s x"
  shows "sched_wf (s\<lparr>mem := m\<rparr>) T Q"
proof -
  have k16: "k < 16" "8 + k < (16 :: u64)" if "k < 8" for k :: u64 using that by unat_arith+
  have "m (n + k) = mem s (n + k) \<and> m (n + 8 + k) = mem s (n + 8 + k)" if "n \<in> sched_nodes s T" "k < 8" for n k
    using same[OF that(1), of "n + k"] same[OF that(1), of "n + 8 + k"] k16[OF that(2)] by (simp add: add.assoc)
  then have "node_next m n = node_next (mem s) n \<and> node_prev m n = node_prev (mem s) n" if "n \<in> sched_nodes s T" for n
    unfolding node_next_def node_prev_def using that by (auto intro!: load64_cong)
  then have ag: "agree (sched_nodes s T) (heap_of m) (heap_of (mem s))" by (simp add: agree_def)
  show ?thesis
  proof (rule sched_wfI[OF wf])
    fix i :: nat assume i: "i < 4"
    have "mlist m (runqueue_addr s i) (map runnable_node (Q i))"
      using sched_wf_queue[OF wf i] by (intro mlist_agree[OF ag]) (auto simp: mlist_def)
    then show "set (Q i) \<subseteq> T \<and> mlist (mem (s\<lparr>mem := m\<rparr>)) (runqueue_addr s i) (map runnable_node (Q i))"
      using sched_wf_queue[OF wf i] by simp
  qed (use wf in \<open>auto simp: sched_wf_def\<close>)
qed

lemma push_outside:
  assumes "rsp c = b + 64" "\<not> x - b < 64"
  shows "ram (load_next_task c) x = ram c x"
  using assms(2) by (simp add: load_next_task_def iretq_def push_context_def load_registers_def Let_def pushq_at[where b = b] assms(1) out_simps)

text \<open>The contexts of the tasks after the task at \<open>p\<close> was interrupted with the registers \<open>regs\<close>: its stack pointer and stack segment are
  those of the context before.\<close>

definition preempted :: "(u64 \<Rightarrow> u64 list) \<Rightarrow> u64 \<Rightarrow> u64 list \<Rightarrow> u64 \<Rightarrow> u64 list" where
  "preempted contexts p regs = contexts(p := take 18 regs @ drop 18 (contexts p))"

lemma dispatch_mem:
  "mem (snd (isr_dispatch s \<lparr>if_cr2 = v, int_no = 64, err_code = e\<rparr>)) = mem s"
  "cpu_runqueue (snd (isr_dispatch s \<lparr>if_cr2 = v, int_no = 64, err_code = e\<rparr>)) = cpu_runqueue s"
  by (simp_all add: isr_dispatch_def apic_timer_handler_def apic_write_def schedule_def Let_def split_def)

lemma contexts_saved:
  assumes tasks: "contexts_apart s T" and b: "area_apart s T b" and p: "p \<in> T" and t: "t \<in> T"
    and d: "context_at m p = saved_context c p" "ram c = mem s" and out: "\<And>x. \<not> x - p < 160 \<Longrightarrow> \<not> x - b < 64 \<Longrightarrow> m x = mem s x"
  shows "context_at m t = preempted (context_at (mem s)) p (context_of c) t"
proof (cases "t = p")
  case True
  then show ?thesis using d by (simp add: preempted_def saved_context_def)
next
  case False
  have "context_at m t = context_at (mem s) t"
  proof (rule context_cong)
    fix x assume "x - t < 160"
    then have "\<not> x - p < 160" "\<not> x - b < 64" using tasks b p t False disj_not_in unfolding contexts_apart_def area_apart_def by blast+
    then show "m x = mem s x" by (rule out)
  qed
  then show ?thesis using False by (simp add: preempted_def)
qed

lemma timer_interrupt:
  assumes wf: "sched_wf s T Q" and ts: "Q (this_core s) = ts" "i < length ts" "get_current_task s = ts ! i" and apic: "apic_base s \<noteq> NULL"
    and ring0: "cs c AND 3 = 0" and tasks: "contexts_apart s T"
    and sp: "rsp c AND NOT 15 = b + 64" and b: "area_apart s T b" and b': "area_apart s T b'" "stack_code s T code (b + 16) depth" "b + 16 - depth = b' + 64"
  obtains d s' where "interrupt code None 64 e c s = Some (d, s')" "get_current_task s' = ts ! ((i + 1) mod length ts)" "sched_wf s' T Q"
    "context_of d = preempted (context_at (mem s)) (ts ! i) (context_of c) (ts ! ((i + 1) mod length ts))"
    "\<And>t. t \<in> T \<Longrightarrow> context_at (mem s') t = preempted (context_at (mem s)) (ts ! i) (context_of c) t"
    "apic_log s' = apic_log s @ [ApicWrite (drop_bit 2 APIC_EOI) 0]"
    "this_core s' = this_core s \<and> apic_base s' = apic_base s \<and> cpu_runqueue s' = cpu_runqueue s"
proof -
  let ?c = "c\<lparr>ram := mem s\<rparr>" and ?p = "ts ! i" and ?q = "ts ! ((i + 1) mod length ts)"
  have core: "this_core s < 4" using wf by (simp add: sched_wf_def)
  have "(i + 1) mod length ts < length ts" using ts(2) by (intro mod_less_divisor) linarith
  then have inT: "?p \<in> T" "?q \<in> T" using sched_wf_queue(2)[OF wf core] ts(1,2) nth_mem by blast+
  have sep: "disj_range ?p 160 b 64" "disj_range ?q 160 b' 64" using b b'(1) inT by (simp_all add: area_apart_def)
  obtain d where d: "isr_common_stub ?p (isr_stub 64 (deliver None e ?c)) = Inr d" "context_at (ram d) ?p = saved_context ?c ?p"
      "read_frame (ram d) (rdi d) = \<lparr>if_cr2 = cr2 ?c, int_no = 64, err_code = 0\<rparr>" "rsp d = b + 16"
    and out: "\<And>x. \<not> x - ?p < 160 \<Longrightarrow> \<not> x - b < 64 \<Longrightarrow> ram d x = mem s x"
    by (rule interrupt_entry[OF sep(1), of ?c None 64 e]) (use sp ring0 in simp_all)
  let ?s = "s\<lparr>mem := ram d\<rparr>" and ?fr = "\<lparr>if_cr2 = cr2 ?c, int_no = 64, err_code = 0\<rparr>"
  have nodes: "\<not> x - ?p < 160 \<and> \<not> x - b < 64 \<and> \<not> x - b' < 64" if "n \<in> sched_nodes s T" "x - n < 16" for n x
    using that tasks b b'(1) inT disj_not_in unfolding contexts_apart_def area_apart_def by blast
  have wf1: "sched_wf ?s T Q" by (rule sched_wf_frame[OF wf]) (use nodes out in blast)
  have cur: "Q (this_core ?s) = ts" "get_current_task ?s = ts ! i" "apic_base ?s \<noteq> NULL" using ts apic by (simp_all add: get_current_task_def)
  define s1 where "s1 = snd (isr_dispatch ?s ?fr)"
  note td = timer_dispatch[OF wf1 cur(1) ts(2) cur(2,3), of ?fr, folded s1_def, simplified]
  have m1: "mem s1 = ram d" unfolding s1_def by (simp only: dispatch_mem) simp
  define d1 where "d1 = (code (d\<lparr>ram := mem s1\<rparr>))\<lparr>rdi := ?q\<rparr>"
  have d1: "rsp d1 = b' + 64" "rdi d1 = ?q" "\<And>x. x \<in> task_bytes s T \<Longrightarrow> ram d1 x = ram d x"
    using d(4) b'(2,3) m1 by (simp_all add: d1_def stack_code_def)
  have far: "\<not> x - b' < 64" if "x \<in> task_bytes s T" for x
    using that b'(1) disj_not_in unfolding task_bytes_def area_apart_def by blast
  have kept: "ram (load_next_task d1) x = ram d x" if "x \<in> task_bytes s T" for x using push_outside[OF d1(1) far[OF that]] d1(3)[OF that] by simp
  have run: "interrupt code None 64 e c s = Some (load_next_task d1, s1\<lparr>mem := ram (load_next_task d1)\<rparr>)"
  proof -
    have "isr_dispatch ?s ?fr = (IsrLoad ?q, s1)" using td(1) by (intro prod_eqI) (simp_all add: s1_def)
    then show ?thesis using d(1,3) by (simp add: interrupt_def ts(3) d1_def Let_def)
  qed
  have saved: "context_at (ram d) t = preempted (context_at (mem s)) ?p (context_of c) t" if "t \<in> T" for t
    using contexts_saved[OF tasks b inT(1) that d(2) _ out] by (simp add: context_of_def)
  have ctx: "context_at (ram (load_next_task d1)) t = context_at (ram d) t" if "t \<in> T" for t
    by (rule context_cong, rule kept) (use that in \<open>auto simp: task_bytes_def\<close>)
  have "context_at (ram d1) ?q = context_at (ram d) ?q"
    by (rule context_cong, rule d1(3)) (use inT(2) in \<open>auto simp: task_bytes_def\<close>)
  then have "context_of (load_next_task d1) = context_at (ram d) ?q" using load_next_task_context[of d1 b'] sep(2) d1 by simp
  moreover have "sched_nodes s1 T = sched_nodes s T" by (simp add: s1_def sched_nodes_def runqueue_addr_def dispatch_mem)
  then have "sched_wf (s1\<lparr>mem := ram (load_next_task d1)\<rparr>) T Q" using td(3) kept m1 by (intro sched_wf_frame) (auto simp: task_bytes_def)
  moreover have "this_core s1 = this_core s \<and> apic_base s1 = apic_base s \<and> cpu_runqueue s1 = cpu_runqueue s" using td(4,5) by (simp add: s1_def dispatch_mem)
  ultimately show thesis using td(2,6) saved ctx inT(2) by (intro that[OF run]) (simp_all add: get_current_task_def)
qed

text \<open>No task continues after the exceptions whose handlers return, the general protection fault among them.\<close>

lemma returning_handler_stops:
  assumes "disj_range (get_current_task s) 160 b 64" "rsp c AND NOT 15 = b + 64" "err = None \<longleftrightarrow> n \<noteq> 13" "cs c AND 3 = 0"
    and n: "n \<in> {13, 15, 22, 23, 24, 25, 26, 27, 31}"
  shows "interrupt code err n e c s = None"
proof -
  have "rsp (c\<lparr>ram := mem s\<rparr>) AND NOT 15 = b + 64" "cs (c\<lparr>ram := mem s\<rparr>) AND 3 = 0" "err = None \<longleftrightarrow> n \<notin> {8, 10, 11, 12, 13, 14}"
    using assms(2-4) n by auto
  then obtain d where d: "isr_common_stub (get_current_task s) (isr_stub n (deliver err e (c\<lparr>ram := mem s\<rparr>))) = Inr d"
      "int_no (read_frame (ram d) (rdi d)) = n"
    using interrupt_entry[OF assms(1), of "c\<lparr>ram := mem s\<rparr>" err n e] by (metis interrupt_frame.select_convs(2))
  then have "fst (isr_dispatch (s\<lparr>mem := ram d\<rparr>) (read_frame (ram d) (rdi d))) = IsrReturn"
    using n by (auto simp: isr_dispatch_def isr_reserved_def)
  then show ?thesis using d(1) by (auto simp: interrupt_def split: prod.splits)
qed

text \<open>C3: A timer interrupt in kernel mode is a context switch. The entry stubs save the registers of the running task to its context, the
  handler acknowledges the interrupt and the scheduler chooses the next task of the run queue; the processor
  then continues with exactly the twenty registers of the context of that task (of the interrupted task itself when it is alone). The contexts of all other tasks and the run queues are as before. Of the interrupted
  task the general registers, the instruction pointer, the code segment and the flags are saved; the stack pointer and the stack
  segment in its context are not written. The stack areas that the stubs push to, and the stack that the compiled C code writes, have to be apart from
  the contexts and the nodes of the queues.\<close>

theorem timer_interrupt_switches:
  assumes "sched_wf s T Q" "Q (this_core s) = ts" "i < length ts" "get_current_task s = ts ! i" "apic_base s \<noteq> NULL"
    and "cs c AND 3 = 0" "contexts_apart s T" "rsp c AND NOT 15 = b + 64" "area_apart s T b" "area_apart s T b'"
    and "stack_code s T code (b + 16) depth" "b + 16 - depth = b' + 64"
  shows "\<exists>d s'. interrupt code None 64 e c s = Some (d, s') \<and> get_current_task s' = ts ! ((i + 1) mod length ts) \<and> sched_wf s' T Q
    \<and> context_of d = preempted (context_at (mem s)) (ts ! i) (context_of c) (ts ! ((i + 1) mod length ts))
    \<and> (\<forall>t\<in>T. context_at (mem s') t = preempted (context_at (mem s)) (ts ! i) (context_of c) t)
    \<and> apic_log s' = apic_log s @ [ApicWrite (drop_bit 2 APIC_EOI) 0]"
  by (rule timer_interrupt[OF assms, of e]) blast

section \<open>Two tasks\<close>

text \<open>The first of two tasks is interrupted.\<close>

definition sample_regs :: x86 where
  "sample_regs = \<lparr>r15 = 15, r14 = 14, r13 = 13, r12 = 12, r11 = 11, r10 = 10, r9 = 9, r8 = 8, rbp = 7, rdi = 6, rsi = 5, rdx = 4, rcx = 3,
     rbx = 2, rax = 1, rip = 0xFFFFFFFF80002000, cs = 8, rflags = 0x202, rsp = 0x8048, ss = 0x10, cr2 = 0, ram = (\<lambda>_. 0)\<rparr>"

lemma sample_arch_nodes: "sched_nodes sample_arch sample_tasks = {0x3120, 0x4120, 0x2000, 0x2010, 0x2020, 0x2030}"
proof -
  have "cpu_runqueue sample_arch = cpu_runqueue sample_sched"
    by (simp add: sample_arch_def sample_queued_def Let_def sched_task_def scheduler_init_def init_runqueues_fields)
  then show ?thesis unfolding sample_sched_nodes[symmetric] by (simp add: sched_nodes_def runqueue_addr_def)
qed

lemma sample_arch_apart: "contexts_apart sample_arch sample_tasks" "area_apart sample_arch sample_tasks 0x8000" "area_apart sample_arch sample_tasks 0x7FC0"
  unfolding contexts_apart_def area_apart_def sample_arch_nodes by (simp_all add: sample_tasks_def disj_range_def)

text \<open>Code that saves a register on its stack.\<close>

definition sample_code :: "x86 \<Rightarrow> x86" where
  "sample_code d = d\<lparr>rsp := rsp d - 16, ram := store64 (ram d) (rsp d - 8) (rbp d)\<rparr>"

lemma sample_stack_code: "area_apart s T b \<Longrightarrow> stack_code s T sample_code (b + 16) 16"
proof -
  assume b: "area_apart s T b"
  have "\<not> x - b < 64" if "x \<in> task_bytes s T" for x using that b disj_not_in unfolding task_bytes_def area_apart_def by blast
  moreover have "x - b < 64" if "x - (8 + b) < 8" for x using that by unat_arith
  ultimately have "store64 m (8 + b) v x = m x" if "x \<in> task_bytes s T" for m v x using that by (intro store64_outside) blast
  then show ?thesis by (simp add: stack_code_def sample_code_def)
qed

theorem timer_interrupt_switches_witness:
  "\<exists>d s'. interrupt sample_code None 64 0xFFFFFFFF80001000 sample_regs sample_arch = Some (d, s') \<and> context_of d = context_at (mem sample_arch) 0x4000
    \<and> take 18 (context_at (mem s') 0x3000) = take 18 (context_of sample_regs)"
proof -
  have "\<exists>d s'. interrupt sample_code None 64 0xFFFFFFFF80001000 sample_regs sample_arch = Some (d, s') \<and> get_current_task s' = [0x3000, 0x4000] ! ((0 + 1) mod length [0x3000, 0x4000 :: u64])
    \<and> sched_wf s' sample_tasks ((\<lambda>_. [])(0 := [0x3000, 0x4000]))
    \<and> context_of d = preempted (context_at (mem sample_arch)) ([0x3000, 0x4000] ! 0) (context_of sample_regs) ([0x3000, 0x4000] ! ((0 + 1) mod length [0x3000, 0x4000 :: u64]))
    \<and> (\<forall>t\<in>sample_tasks. context_at (mem s') t = preempted (context_at (mem sample_arch)) ([0x3000, 0x4000] ! 0) (context_of sample_regs) t)
    \<and> apic_log s' = apic_log sample_arch @ [ApicWrite (drop_bit 2 APIC_EOI) 0]"
    by (rule timer_interrupt_switches[OF sample_arch_wf(1) _ _ _ sample_arch_wf(4) _ sample_arch_apart(1) _ sample_arch_apart(2,3) sample_stack_code[OF sample_arch_apart(2)]])
       (simp_all add: sample_arch_wf sample_regs_def)
  then show ?thesis by (auto simp: preempted_def sample_tasks_def context_of_def)
qed

end
