(* ===== verification/Preemption.thy ===== *)
theory Preemption
  imports Context_Switch Simulation
begin

text \<open>
  Preemptive multitasking on one core: the tasks compute, the timer interrupts. Every sequence of these steps refines
  a machine in which each task has registers of its own and the timer hands the processor around the run queue. A
  preempted task is continued after one round with the registers it was interrupted with, except for its stack pointer.
\<close>

section \<open>A processor with its tasks\<close>

text \<open>The tasks of a core run and are interrupted by the timer. A running task may change its registers and every byte of memory outside
  the contexts and the nodes of the run queues; it stays in kernel mode. At an interrupt the stack pointers of
  the task and of the handler are in areas apart from those bytes, and the compiled handler does not use them for its stack.\<close>

datatype cpu_action = Run "u64 list" | Tick

inductive cpu_step :: "u64 set \<Rightarrow> x86 \<times> 'a arch_state_scheme \<Rightarrow> cpu_action \<Rightarrow> x86 \<times> 'a arch_state_scheme \<Rightarrow> bool" for T where
  runs: "cs c' AND 3 = 0 \<Longrightarrow> \<forall>t\<in>T. \<forall>x. x - t < 160 \<longrightarrow> m x = mem s x \<Longrightarrow> \<forall>n\<in>sched_nodes s T. \<forall>x. x - n < 16 \<longrightarrow> m x = mem s x \<Longrightarrow>
    cpu_step T (c, s) (Run (context_of c')) (c', s\<lparr>mem := m\<rparr>)"
| ticks: "rsp c AND NOT 15 = b + 64 \<Longrightarrow> area_apart s T b \<Longrightarrow> area_apart s T b' \<Longrightarrow> stack_code s T code (b + 16) depth \<Longrightarrow> b + 16 - depth = b' + 64 \<Longrightarrow>
    interrupt code None 64 e c s = Some (d, t) \<Longrightarrow> cpu_step T (c, s) Tick (d, t)"

text \<open>The specification: every task has its own registers; the timer passes the processor on to the next task of the queue.
  \<open>contexts\<close> are the registers of the tasks that do not run.\<close>

inductive switch_step :: "u64 list \<Rightarrow> (u64 \<Rightarrow> u64 list) \<times> u64 \<times> u64 list \<Rightarrow> cpu_action \<Rightarrow> (u64 \<Rightarrow> u64 list) \<times> u64 \<times> u64 list \<Rightarrow> bool" for ts where
  run: "switch_step ts (contexts, p, regs) (Run regs') (contexts, p, regs')"
| tick: "i < length ts \<Longrightarrow> q = ts ! ((i + 1) mod length ts) \<Longrightarrow> contexts' = preempted contexts (ts ! i) regs \<Longrightarrow>
    switch_step ts (contexts, ts ! i, regs) Tick (contexts', q, contexts' q)"

definition cpu_view :: "u64 set \<Rightarrow> x86 \<times> 'a arch_state_scheme \<Rightarrow> (u64 \<Rightarrow> u64 list) \<times> u64 \<times> u64 list" where
  "cpu_view T = (\<lambda>(c, s). (\<lambda>t. if t \<in> T then context_at (mem s) t else [], get_current_task s, context_of c))"

definition cpu_good :: "u64 set \<Rightarrow> (nat \<Rightarrow> u64 list) \<Rightarrow> u64 list \<Rightarrow> x86 \<times> 'a arch_state_scheme \<Rightarrow> bool" where
  "cpu_good T Q ts = (\<lambda>(c, s). sched_wf s T Q \<and> Q (this_core s) = ts \<and> get_current_task s \<in> set ts \<and> apic_base s \<noteq> NULL \<and> contexts_apart s T
     \<and> cs c AND 3 = 0 \<and> (\<forall>t\<in>T. context_at (mem s) t ! 16 AND 3 = 0))"

lemma context_nth: "context_of c ! 16 = cs c" "length (context_of c) = 20" "length (context_at m p) = 20"
  by (simp_all add: context_of_def context_at_def)

lemma preempted_ring0: "\<forall>t\<in>T. K t ! 16 AND 3 = 0 \<Longrightarrow> regs ! 16 AND 3 = 0 \<Longrightarrow> length regs = 20 \<Longrightarrow> t \<in> T \<Longrightarrow> preempted K p regs t ! 16 AND 3 = 0"
  by (simp add: preempted_def nth_append)

lemma cpu_step_correct:
  fixes \<sigma> \<sigma>' :: "x86 \<times> 'a arch_state_scheme"
  assumes good: "cpu_good T Q ts \<sigma>" and step: "cpu_step T \<sigma> a \<sigma>'"
  shows "cpu_good T Q ts \<sigma>' \<and> switch_step ts (cpu_view T \<sigma>) a (cpu_view T \<sigma>')"
  using step good
proof cases
  case (runs c' m s c)
  have "sched_wf (s\<lparr>mem := m\<rparr>) T Q" using good runs by (intro sched_wf_frame) (auto simp: cpu_good_def)
  moreover have "context_at m t = context_at (mem s) t" if "t \<in> T" for t by (rule context_cong) (use runs that in blast)
  ultimately show ?thesis
    using good runs by (auto simp: cpu_good_def cpu_view_def contexts_apart_def get_current_task_def fun_eq_iff intro!: switch_step.run cong: if_cong)
next
  case (ticks c b s b' code depth e d t)
  have wf: "sched_wf s T Q" and q: "Q (this_core s) = ts" and cur: "get_current_task s \<in> set ts" and apic: "apic_base s \<noteq> NULL"
    and apart: "contexts_apart s T" and r0: "cs c AND 3 = 0" "\<forall>t\<in>T. context_at (mem s) t ! 16 AND 3 = 0" using good ticks by (auto simp: cpu_good_def)
  obtain i where i: "i < length ts" "get_current_task s = ts ! i" using cur by (metis in_set_conv_nth)
  let ?q = "ts ! ((i + 1) mod length ts)" and ?K = "preempted (context_at (mem s)) (ts ! i) (context_of c)"
  have lt: "(i + 1) mod length ts < length ts" using i(1) by (intro mod_less_divisor) linarith
  have sub: "set ts \<subseteq> T" using sched_wf_queue(2)[OF wf, of "this_core s"] q wf by (simp add: sched_wf_def)
  obtain d' t' where run: "interrupt code None 64 e c s = Some (d', t')" and t': "get_current_task t' = ?q" "sched_wf t' T Q" "context_of d' = ?K ?q"
      "\<And>u. u \<in> T \<Longrightarrow> context_at (mem t') u = ?K u" and kept: "this_core t' = this_core s \<and> apic_base t' = apic_base s \<and> cpu_runqueue t' = cpu_runqueue s"
    by (rule timer_interrupt[OF wf q i apic r0(1) apart ticks(4-8), of e]) blast
  have eq: "d' = d" "t' = t" using run ticks(9) by simp_all
  have nodes: "sched_nodes t T = sched_nodes s T" using kept by (simp add: eq sched_nodes_def runqueue_addr_def)
  have r0': "?K u ! 16 AND 3 = 0" if "u \<in> T" for u by (rule preempted_ring0[OF r0(2) _ _ that]) (simp_all add: context_nth r0(1))
  have inT: "ts ! i \<in> T" "?q \<in> T" using sub nth_mem[OF i(1)] nth_mem[OF lt] by blast+
  have "cs d AND 3 = 0" using r0'[OF inT(2)] t'(3) context_nth(1)[of d] by (simp add: eq)
  then have good': "cpu_good T Q ts (d, t)"
    using t' kept q apic apart nodes nth_mem[OF lt] r0' by (simp add: cpu_good_def eq contexts_apart_def)
  have "(\<lambda>u. if u \<in> T then context_at (mem t) u else []) = preempted (\<lambda>u. if u \<in> T then context_at (mem s) u else []) (ts ! i) (context_of c)"
    using t'(4) inT(1) by (auto simp: fun_eq_iff eq preempted_def)
  moreover have "preempted (\<lambda>u. if u \<in> T then context_at (mem s) u else []) (ts ! i) (context_of c) ?q = ?K ?q" using inT by (simp add: preempted_def)
  ultimately have "switch_step ts (cpu_view T (c, s)) Tick (cpu_view T (d, t))"
    using switch_step.tick[OF i(1) refl refl, of "\<lambda>u. if u \<in> T then context_at (mem s) u else []" "context_of c"] t'(1,3,4) inT
    by (simp add: cpu_view_def i(2) eq)
  then show ?thesis using ticks good' by simp
qed

interpretation cpu: stepwise_refinement "cpu_good T Q ts" "cpu_step T" "cpu_view T" "switch_step ts" for T Q ts
  by unfold_locales (rule cpu_step_correct)

section \<open>A round of the run queue\<close>

inductive_cases runE: "switch_step ts \<sigma> (Run r) \<sigma>'"

lemma switch_tick:
  assumes "switch_step ts (K, ts ! i, r) Tick \<sigma>" "distinct ts" "i < length ts"
  shows "\<sigma> = (preempted K (ts ! i) r, ts ! ((i + 1) mod length ts), preempted K (ts ! i) r (ts ! ((i + 1) mod length ts)))"
  using assms(1)
proof (cases rule: switch_step.cases)
  case (tick j)
  then have "j = i" using assms(2,3) by (simp add: nth_eq_iff_index_eq)
  then show ?thesis using tick by simp
qed

text \<open>After \<open>k\<close> ticks the \<open>k\<close>-th task after the first one runs; the context of a task that had not its turn is unchanged.\<close>

lemma switch_trace:
  assumes d: "distinct ts"
  shows "trace (switch_step ts) \<sigma> as \<sigma>' \<Longrightarrow> \<sigma> = (K, ts ! j, r) \<Longrightarrow> j < length ts \<Longrightarrow>
    fst (snd \<sigma>') = ts ! ((j + count_list as Tick) mod length ts)
    \<and> (\<forall>i<length ts. (\<forall>k<count_list as Tick. (j + k) mod length ts \<noteq> i) \<longrightarrow> fst \<sigma>' (ts ! i) = K (ts ! i))"
proof (induction arbitrary: K j r rule: trace.induct)
  case (trace_cons \<sigma> a \<tau> as \<sigma>')
  show ?case
  proof (cases a)
    case (Run r')
    then have "\<tau> = (K, ts ! j, r')" using trace_cons by (auto elim: runE)
    then show ?thesis using trace_cons.IH[of K j r'] trace_cons.prems Run by simp
  next
    case Tick
    let ?j = "(j + 1) mod length ts"
    have \<tau>: "\<tau> = (preempted K (ts ! j) r, ts ! ?j, preempted K (ts ! j) r (ts ! ?j))"
      using trace_cons(1,4,5) Tick by (intro switch_tick[OF _ d]) simp_all
    have lt: "?j < length ts" using trace_cons.prems(2) by (intro mod_less_divisor) linarith
    note IH = trace_cons.IH[OF \<tau> lt]
    have add: "(?j + k) mod length ts = (j + Suc k) mod length ts" for k by (simp add: mod_simps)
    show ?thesis
    proof (intro conjI allI impI)
      have "count_list (a # as) Tick = Suc (count_list as Tick)" by (simp add: Tick)
      then show "fst (snd \<sigma>') = ts ! ((j + count_list (a # as) Tick) mod length ts)" using conjunct1[OF IH] unfolding add by (simp only:)
      fix l assume l: "l < length ts" "\<forall>k<count_list (a # as) Tick. (j + k) mod length ts \<noteq> l"
      have "j mod length ts \<noteq> l" using l(2)[rule_format, of 0] Tick by simp
      then have ne: "ts ! l \<noteq> ts ! j" using d l(1) trace_cons.prems(2) by (simp add: nth_eq_iff_index_eq)
      have "\<forall>k<count_list as Tick. (?j + k) mod length ts \<noteq> l" using l(2)[rule_format, of "Suc _"] unfolding add by (simp add: Tick)
      then have "fst \<sigma>' (ts ! l) = preempted K (ts ! j) r (ts ! l)" using IH l(1) by blast
      then show "fst \<sigma>' (ts ! l) = K (ts ! l)" using ne by (simp add: preempted_def)
    qed
  qed
qed simp

lemma switch_round:
  assumes d: "distinct ts" and i: "i < length ts" and tr: "trace (switch_step ts) (K, ts ! i, r) (Tick # as) (K', p, r')"
    and n: "count_list (Tick # as) Tick = length ts" and l: "last (Tick # as) = Tick"
  shows "p = ts ! i \<and> r' = take 18 r @ drop 18 (K (ts ! i))"
proof (cases as rule: rev_cases)
  case Nil
  then have "length ts = 1" using n by simp
  moreover have "switch_step ts (K, ts ! i, r) Tick (K', p, r')" using tr Nil by (simp add: trace_single)
  from switch_tick[OF this d i] calculation show ?thesis using i by (simp add: preempted_def)
next
  case (snoc as' a)
  then have a: "a = Tick" using l by simp
  let ?n = "length ts" and ?saved = "take 18 r @ drop 18 (K (ts ! i))"
  have n2: "?n = count_list as' Tick + 2" using n by (simp add: snoc a)
  obtain \<tau> where t1: "switch_step ts (K, ts ! i, r) Tick \<tau>" "trace (switch_step ts) \<tau> (as' @ [Tick]) (K', p, r')"
    using trace_first[OF tr] snoc a by blast
  obtain K1 r1 where K1: "\<tau> = (K1, ts ! ((i + 1) mod ?n), r1)" "K1 (ts ! i) = ?saved"
    using switch_tick[OF t1(1) d i] by (simp add: preempted_def)
  obtain \<upsilon> where t2: "trace (switch_step ts) \<tau> as' \<upsilon>" "switch_step ts \<upsilon> Tick (K', p, r')"
    using trace_append[OF t1(2)] unfolding trace_single by blast
  have lt: "(i + 1) mod ?n < ?n" using i by (intro mod_less_divisor) linarith
  have pos: "((i + 1) mod ?n + k) mod ?n \<noteq> i" if "k < ?n - 1" for k
  proof -
    have "((i + 1) mod ?n + k) mod ?n = (i + (k + 1)) mod ?n" by (simp add: mod_simps add_ac)
    moreover have "(i + (k + 1)) mod ?n \<noteq> i" using that i by (cases "i + (k + 1) < ?n") (auto simp: mod_if)
    ultimately show ?thesis by simp
  qed
  note s2 = switch_trace[OF d t2(1) K1(1) lt]
  have cur: "fst (snd \<upsilon>) = ts ! (((i + 1) mod ?n + (?n - 2)) mod ?n)" and keep: "fst \<upsilon> (ts ! i) = ?saved"
    using s2 i pos n2 K1(2) by auto
  obtain K2 r2 where \<upsilon>: "\<upsilon> = (K2, ts ! (((i + 1) mod ?n + (?n - 2)) mod ?n), r2)" using cur by (metis prod.collapse)
  let ?l = "((i + 1) mod ?n + (?n - 2)) mod ?n"
  have ll: "?l < ?n" "?l \<noteq> i" using i pos[of "?n - 2"] n2 by (simp, linarith)
  have "(?l + 1) mod ?n = (i + (1 + (?n - 2) + 1)) mod ?n" by (simp add: mod_simps add_ac)
  also have "i + (1 + (?n - 2) + 1) = i + ?n" using n2 by simp
  finally have nx: "(?l + 1) mod ?n = i" using i by simp
  from switch_tick[OF t2(2)[unfolded \<upsilon>] d ll(1)] have "p = ts ! i" "r' = preempted K2 (ts ! ?l) r2 (ts ! i)" unfolding nx by simp_all
  moreover have "ts ! i \<noteq> ts ! ?l" using nth_eq_iff_index_eq[OF d i ll(1)] ll(2) by metis
  ultimately show ?thesis using keep \<upsilon> by (simp add: preempted_def)
qed

text \<open>A timer interrupt can be taken whenever the stacks are apart.\<close>

lemma tick_progress:
  fixes code :: "x86 \<Rightarrow> x86"
  assumes good: "cpu_good T Q ts (c, s)" and i: "i < length ts" "get_current_task s = ts ! i"
    and sp: "rsp c AND NOT 15 = b + 64" "area_apart s T b" "area_apart s T b'" "stack_code s T code (b + 16) depth" "b + 16 - depth = b' + 64"
  obtains d t where "cpu_step T (c, s) Tick (d, t)" "context_of d = preempted (context_at (mem s)) (ts ! i) (context_of c) (ts ! ((i + 1) mod length ts))"
    "get_current_task t = ts ! ((i + 1) mod length ts)" "sched_nodes t T = sched_nodes s T"
proof -
  have g: "sched_wf s T Q" "Q (this_core s) = ts" "apic_base s \<noteq> NULL" "contexts_apart s T" "cs c AND 3 = 0" using good by (simp_all add: cpu_good_def)
  obtain d t where t: "interrupt code None 64 0 c s = Some (d, t)" "get_current_task t = ts ! ((i + 1) mod length ts)"
      "context_of d = preempted (context_at (mem s)) (ts ! i) (context_of c) (ts ! ((i + 1) mod length ts))" "cpu_runqueue t = cpu_runqueue s"
    by (rule timer_interrupt[OF g(1,2) i g(3,5,4) sp, of 0]) blast
  show thesis
    by (rule that[OF ticks[OF sp t(1)] t(3,2)]) (simp add: sched_nodes_def runqueue_addr_def t(4))
qed

text \<open>C15: A preempted task continues where it was interrupted. When the task that runs is interrupted by the timer and every task of the run queue
  has had its turn since, with any computation of the tasks in between that does not write to the contexts or the queues, then this task
  runs again, and of its twenty registers the general ones, the instruction pointer, the code segment and the flags are what they were at the
  interrupt. The stack pointer and the stack segment are those that its context held before the interrupt.\<close>

theorem preempted_task_resumes:
  assumes "cpu_good T Q ts (c, s)" and "trace (cpu_step T) (c, s) (Tick # as) (d, t)"
    and "count_list (Tick # as) Tick = length ts" and "last (Tick # as) = Tick"
  shows "get_current_task t = get_current_task s \<and> context_of d = take 18 (context_of c) @ drop 18 (context_at (mem s) (get_current_task s))"
proof -
  have cur: "get_current_task s \<in> set ts" and q: "sched_wf s T Q" "Q (this_core s) = ts" using assms(1) by (simp_all add: cpu_good_def)
  have core: "this_core s < 4" using q(1) by (simp add: sched_wf_def)
  have d: "distinct ts" and inT: "get_current_task s \<in> T" using sched_wf_queue(2,5)[OF q(1) core] q(2) cur by auto
  obtain i where i: "i < length ts" "get_current_task s = ts ! i" using cur by (metis in_set_conv_nth)
  let ?K = "\<lambda>t. if t \<in> T then context_at (mem s) t else []"
  have "trace (switch_step ts) (cpu_view T (c, s)) (Tick # as) (cpu_view T (d, t))" using cpu.trace_sim[OF assms(2,1)] by blast
  then have "trace (switch_step ts) (?K, ts ! i, context_of c) (Tick # as)
      (\<lambda>u. if u \<in> T then context_at (mem t) u else [], get_current_task t, context_of d)" by (simp add: cpu_view_def i(2))
  from switch_round[OF d i(1) this assms(3,4)] show ?thesis using inT by (simp add: i(2))
qed

text \<open>Two tasks, each interrupted once.\<close>

definition fresh_tasks :: arch_state where
  "fresh_tasks = sample_arch\<lparr>mem := (\<lambda>x. if x - 0x3000 < 160 \<or> x - 0x4000 < 160 then 0 else mem sample_arch x)\<rparr>"

lemma fresh_contexts: "t \<in> sample_tasks \<Longrightarrow> context_at (mem fresh_tasks) t = replicate 20 0"
proof -
  assume "t \<in> sample_tasks"
  then have "context_at (mem fresh_tasks) t = context_at (\<lambda>_. 0) t" by (intro context_cong) (auto simp: fresh_tasks_def sample_tasks_def)
  also have "\<dots> = replicate 20 0" by (simp add: context_at_def load64_def word_rcat_def map_replicate_const)
  finally show ?thesis .
qed

lemma fresh_good: "cpu_good sample_tasks ((\<lambda>_. [])(0 := [0x3000, 0x4000])) [0x3000, 0x4000] (sample_regs, fresh_tasks)"
proof -
  have n: "sched_nodes fresh_tasks sample_tasks = sched_nodes sample_arch sample_tasks" by (simp add: fresh_tasks_def)
  have "sched_wf fresh_tasks sample_tasks ((\<lambda>_. [])(0 := [0x3000, 0x4000]))"
    unfolding fresh_tasks_def
  proof (rule sched_wf_frame[OF sample_arch_wf(1)])
    fix n x assume "n \<in> sched_nodes sample_arch sample_tasks" "x - n < 16"
    then have "\<not> x - 0x3000 < 160" "\<not> x - 0x4000 < 160"
      using sample_arch_apart(1) disj_not_in unfolding contexts_apart_def sample_tasks_def by blast+
    then show "(if x - 0x3000 < 160 \<or> x - 0x4000 < 160 then 0 else mem sample_arch x) = mem sample_arch x" by simp
  qed
  moreover have "contexts_apart fresh_tasks sample_tasks" using sample_arch_apart(1) unfolding contexts_apart_def n .
  ultimately show ?thesis
    using sample_arch_wf(2-4) fresh_contexts unfolding cpu_good_def by (simp add: get_current_task_def sample_regs_def fresh_tasks_def)
qed

theorem preempted_task_resumes_witness:
  "\<exists>d t. trace (cpu_step sample_tasks) (sample_regs, fresh_tasks) [Tick, Tick] (d, t) \<and> get_current_task t = 0x3000
    \<and> context_of d = take 18 (context_of sample_regs) @ [0, 0]"
proof -
  let ?T = sample_tasks and ?Q = "(\<lambda>_. [])(0 := [0x3000, 0x4000])" and ?ts = "[0x3000, 0x4000] :: u64 list"
  note good = fresh_good
  have cur: "get_current_task fresh_tasks = 0x3000" using sample_arch_wf(3) by (simp add: fresh_tasks_def get_current_task_def)
  have apart: "area_apart fresh_tasks ?T 0x8000" "area_apart fresh_tasks ?T 0x7FC0" using sample_arch_apart(2,3) by (simp_all add: fresh_tasks_def area_apart_def)
  obtain d1 t1 where s1: "cpu_step ?T (sample_regs, fresh_tasks) Tick (d1, t1)" "context_of d1 = replicate 20 0" "get_current_task t1 = 0x4000"
      "sched_nodes t1 ?T = sched_nodes fresh_tasks ?T"
    by (rule tick_progress[OF good, of 0 "0x8000" "0x7FC0" sample_code 16])
       (use cur apart sample_stack_code[OF apart(1)] fresh_contexts[of "0x4000"] in \<open>simp_all add: sample_regs_def preempted_def sample_tasks_def\<close>)
  have good1: "cpu_good ?T ?Q ?ts (d1, t1)" using cpu_step_correct[OF good s1(1)] by blast
  have area: "area_apart t1 ?T 0xFFFFFFFFFFFFFFC0" "area_apart t1 ?T 0xFFFFFFFFFFFFFF80"
    unfolding area_apart_def s1(4) by (simp_all add: fresh_tasks_def sample_arch_nodes) (simp_all add: sample_tasks_def disj_range_def)
  have rsp: "rsp d1 = 0" using s1(2) by (simp add: context_of_def numeral_eq_Suc)
  obtain d2 t2 where s2: "cpu_step ?T (d1, t1) Tick (d2, t2)"
    by (rule tick_progress[OF good1, of 1 "0xFFFFFFFFFFFFFFC0" "0xFFFFFFFFFFFFFF80" sample_code 16]) (use s1(3) area sample_stack_code[OF area(1)] rsp in simp_all)
  have tr: "trace (cpu_step ?T) (sample_regs, fresh_tasks) (Tick # [Tick]) (d2, t2)" by (blast intro: trace_cons trace_nil s1(1) s2)
  from preempted_task_resumes[OF good this] show ?thesis using tr cur fresh_contexts[of "0x3000"] by (intro exI[of _ d2] exI[of _ t2]) (simp add: sample_tasks_def numeral_2_eq_2)
qed

end
