(* ===== verification/Reports.thy ===== *)
theory Reports
  imports Buddy_Frame Slab Tasks
begin

text \<open>
  The diagnostic routines: what \<^verbatim>\<open>print_buddy_arena\<close> and \<^verbatim>\<open>print_arena_summary\<close> (\<^verbatim>\<open>buddy_allocator.c\<close>),
  \<^verbatim>\<open>slab_print_all_stats\<close> (\<^verbatim>\<open>slab_allocator.c\<close>) and \<^verbatim>\<open>debug_print_all_runqueues\<close> (\<^verbatim>\<open>scheduler.c\<close>) compute before they print
  it. The number of free bytes that the arena summary reports is the number of free bytes the allocator
  has in that arena.
\<close>

section \<open>Definitions\<close>

text \<open>The blocks printed for one order: after more than twenty the loop stops.\<close>

function printed_blocks :: "memory \<Rightarrow> u64 \<Rightarrow> nat \<Rightarrow> u64 list" where
  "printed_blocks m block count =
     (if block = NULL then []
      else fb_phys_addr m block # (if count + 1 > 20 then [] else printed_blocks m (fb_next m block) (count + 1)))"
  by pat_completeness auto
termination by (relation "measure (\<lambda>(m, block, count). 21 - count)") auto

definition print_buddy_arena :: "'a buddy_state_scheme \<Rightarrow> nat \<Rightarrow> u64 list list" where
  "print_buddy_arena s i =
     map (\<lambda>order. printed_blocks (mem s) (free_list (arena_at s i) ! order) 0) [0..<unat (max_arena_order (arena_at s i)) + 1]"

partial_function (option) count_blocks :: "memory \<Rightarrow> u64 \<Rightarrow> u64 \<Rightarrow> u64 option" where
  "count_blocks m block block_count =
     (if block = NULL then Some block_count else count_blocks m (fb_next m block) (block_count + 1))"

definition order_total :: "'a buddy_state_scheme \<Rightarrow> nat \<Rightarrow> nat \<Rightarrow> u64 option" where
  "order_total s i order = do {
     block_count \<leftarrow> count_blocks (mem s) (free_list (arena_at s i) ! order) 0;
     let blk_size = push_bit order 1 * PAGE_FRAME_SIZE;
     Some (block_count * blk_size)
   }"

text \<open>The total of free bytes and the difference to the length of the arena.\<close>

definition print_arena_summary :: "'a buddy_state_scheme \<Rightarrow> nat \<Rightarrow> (u64 \<times> u64) option" where
  "print_arena_summary s i = do {
     total_free_bytes \<leftarrow> fold_opt (\<lambda>total order. map_option (\<lambda>n. total + n) (order_total s i order)) 0
       [0..<unat (max_arena_order (arena_at s i)) + 1];
     Some (total_free_bytes, arena_length (arena_at s i) - total_free_bytes)
   }"

definition slab_print_all_stats :: "'a slab_state_scheme \<Rightarrow> (u64 \<times> u64) list" where
  "slab_print_all_stats s = map (\<lambda>i. slab_cache_stats (cache_at s i)) [0..<length slab_sizes]"

definition debug_print_all_runqueues :: "'a task_state_scheme \<Rightarrow> nat option list" where
  "debug_print_all_runqueues s = map (debug_print_runqueue s) [0..<4]"

section \<open>The summary of an arena\<close>

definition arena_free_bytes :: "'a buddy_state_scheme \<Rightarrow> free_map \<Rightarrow> nat \<Rightarrow> nat set" where
  "arena_free_bytes s FL i = (\<Union>k\<le>20. \<Union>a\<in>set (FL i k). brange a k)"

lemma count_blocks_lseg:
  "lseg (fl_slot i k s) l xs \<Longrightarrow> count_blocks (mem s) (fl_slot i k s l) n = Some (n + of_nat (length xs))"
proof (induction xs arbitrary: l n)
  case Nil
  then show ?case by (simp add: count_blocks.simps)
next
  case (Cons x xs)
  then have "count_blocks (mem s) (fb_next (mem s) x) (n + 1) = Some (n + 1 + of_nat (length xs))" by force
  then show ?case using Cons.prems by (subst count_blocks.simps) (simp add: add.assoc)
qed

lemma order_total_eq:
  assumes "buddy_wf s FL" "i < unat (buddy_arena_counter s)" "k \<le> 20"
  shows "order_total s i k = Some (of_nat (length (FL i k) * 2 ^ (12 + k)))"
proof -
  have "count_blocks (mem s) (free_list (arena_at s i) ! k) 0 = Some (of_nat (length (FL i k)))"
    using count_blocks_lseg[OF wf_lseg[OF assms], of 0] by simp
  then show ?thesis by (simp add: order_total_def push_bit_eq_mult power_add)
qed

lemma card_arena_free:
  assumes wf: "buddy_wf s FL" and i: "i < unat (buddy_arena_counter s)"
  shows "card (arena_free_bytes s FL i) = (\<Sum>k\<le>20. length (FL i k) * 2 ^ (12 + k))"
proof -
  have disj: "brange a k \<inter> brange b l = {}" if "k \<le> 20" "l \<le> 20" "a \<in> set (FL i k)" "b \<in> set (FL i l)" "(k, a) \<noteq> (l, b)" for k l a b
    using wf that i unfolding buddy_wf_def disjoint_family_on_def free_blocks_def by fastforce
  have one: "card (\<Union>a\<in>set (FL i k). brange a k) = length (FL i k) * 2 ^ (12 + k)" if "k \<le> 20" for k
  proof -
    have "card (\<Union>a\<in>set (FL i k). brange a k) = (\<Sum>a\<in>set (FL i k). card (brange a k))"
      using disj[OF that that] by (intro card_UN_disjoint) (auto simp: brange_def)
    also have "\<dots> = length (FL i k) * 2 ^ (12 + k)"
      using wf_distinct[OF wf i that] by (simp add: brange_def distinct_card)
    finally show ?thesis .
  qed
  have "card (arena_free_bytes s FL i) = (\<Sum>k\<le>20. card (\<Union>a\<in>set (FL i k). brange a k))"
    unfolding arena_free_bytes_def
  proof (rule card_UN_disjoint)
    show "\<forall>k\<in>{..20}. finite (\<Union>a\<in>set (FL i k). brange a k)" by (simp add: brange_def)
    show "\<forall>k\<in>{..20}. \<forall>l\<in>{..20}. k \<noteq> l \<longrightarrow> (\<Union>a\<in>set (FL i k). brange a k) \<inter> (\<Union>a\<in>set (FL i l). brange a l) = {}"
    proof (intro ballI impI)
      fix k l :: nat assume "k \<in> {..20}" "l \<in> {..20}" "k \<noteq> l"
      then have "brange a k \<inter> brange b l = {}" if "a \<in> set (FL i k)" "b \<in> set (FL i l)" for a b using disj[of k l a b] that by simp
      then show "(\<Union>a\<in>set (FL i k). brange a k) \<inter> (\<Union>a\<in>set (FL i l). brange a l) = {}" by fastforce
    qed
  qed simp
  then show ?thesis using one by simp
qed

lemma fold_totals:
  "(\<And>k. k < n \<Longrightarrow> f k = Some (of_nat (g k))) \<Longrightarrow>
    fold_opt (\<lambda>total k. map_option (\<lambda>n. total + n) (f k)) (0 :: u64) [0..<n] = Some (of_nat (\<Sum>k<n. g k))"
  by (induction n) (simp_all add: fold_opt_append add.commute)

text \<open>On a well-formed allocator \<^verbatim>\<open>print_arena_summary\<close> returns and reports the number of free bytes of the arena.\<close>

lemma print_arena_summary_correct:
  assumes wf: "buddy_wf s FL" and i: "i < unat (buddy_arena_counter s)"
  shows "\<exists>total. print_arena_summary s i = Some (total, arena_length (arena_at s i) - total) \<and> unat total = card (arena_free_bytes s FL i)"
proof -
  let ?mx = "unat (max_arena_order (arena_at s i))" let ?g = "\<lambda>k. length (FL i k) * 2 ^ (12 + k)"
  have aw: "arena_ok s i" using wf i by (simp add: buddy_wf_def arenas_wf_def)
  then have mx: "?mx \<le> 20" by (simp add: arena_ok_def)
  have "FL i k = []" if "?mx < k" "k \<le> 20" for k
  proof (rule ccontr)
    assume "FL i k \<noteq> []"
    then have "(i, k, hd (FL i k)) \<in> free_blocks s FL" using i that(2) by (simp add: free_blocks_def)
    from wf_block_ok[OF wf this] show False using that(1) by (simp add: block_ok_def)
  qed
  then have "(\<Sum>k<?mx + 1. ?g k) = (\<Sum>k\<le>20. ?g k)" using mx by (intro sum.mono_neutral_left) auto
  then have c: "(\<Sum>k<?mx + 1. ?g k) = card (arena_free_bytes s FL i)" using card_arena_free[OF wf i] by simp
  have "arena_free_bytes s FL i \<subseteq> arena_range s i"
  proof
    fix x assume "x \<in> arena_free_bytes s FL i"
    then obtain k a where k: "k \<le> 20" "a \<in> set (FL i k)" "x \<in> brange a k" by (auto simp: arena_free_bytes_def)
    then have "block_ok s i k a" using i by (intro wf_block_ok[OF wf]) (simp add: free_blocks_def)
    then show "x \<in> arena_range s i" using k(3) by (simp add: block_ok_def brange_def arena_range_def)
  qed
  then have "card (arena_free_bytes s FL i) \<le> card (arena_range s i)" by (intro card_mono) (simp_all add: arena_range_def)
  then have "card (arena_free_bytes s FL i) \<le> unat (arena_length (arena_at s i))" by (simp add: arena_range_def)
  from le_less_trans[OF this unat_lt64] have "card (arena_free_bytes s FL i) < 2 ^ 64" by simp
  moreover have "print_arena_summary s i = Some (of_nat (\<Sum>k<?mx + 1. ?g k), arena_length (arena_at s i) - of_nat (\<Sum>k<?mx + 1. ?g k))"
    using fold_totals[of "?mx + 1" "order_total s i" ?g] order_total_eq[OF wf i] mx by (simp add: print_arena_summary_def)
  ultimately show ?thesis unfolding c by (simp add: unat_of_nat)
qed

end
