(* ===== verification/Spec2Isabelle.thy ===== *)
theory Spec2Isabelle
  imports Spinlock DList Kernel_Memory Path_Correct Klogging Memmgr_Correct Boot_Requests Preemption Reports
begin

text \<open>
  A verification library for the LunOS kernel (\<^verbatim>\<open>src/kernel\<close>), an x86-64 kernel in C started by the Limine boot loader.

  \<^bold>\<open>The program.\<close> \<^verbatim>\<open>_start\<close> (\<^verbatim>\<open>kernel/kernel.c\<close>) sets up the console, the descriptor tables, the physical allocators, the virtual memory
  manager, the local interrupt controller, the scheduler and the other processors, and ends by loading the
  context of a task; from then on timer interrupts switch tasks. The physical allocators are layered: the buddy allocator
  keeps the free pages of the memory map in lists threaded through the free pages themselves, the slab allocator
  carves two-page slabs into objects of eight sizes, and \<^verbatim>\<open>kmalloc\<close> chooses between them. Page tables, task structures, memory regions, dentries and
  inodes are objects of these allocators.

  \<^bold>\<open>Conventions.\<close>
  \<^item> Memory is a function from 64-bit addresses to bytes, with little-endian loads and stores (\<open>Memory\<close>). Structures that the code
    reaches through pointers are in it at the offsets of the C layout, and static arrays and variables are fields of a state record.
    The records extend each other as the components do: \<open>buddy_state\<close>, \<open>slab_state\<close>, \<open>vmm_state\<close>, \<open>task_state\<close>, \<open>arch_state\<close>, \<open>smp_state\<close>; the file
    system, the console, the timer and the descriptor tables have their own.
  \<^item> Machine integers that are stored or computed with are words of their width, so every sum and shift wraps as in C; a C \<^verbatim>\<open>int\<close> that is compared is read
    signed. Lengths and loop counters that the code bounds, and error codes, are numbers.
  \<^item> A result \<open>None\<close> is a call that does not return: a loop that never ends, a write through NULL, an access outside an array. A
    loop whose end depends on the data is a \<open>partial_function\<close>; that it returns is a conclusion of the theorems, never an assumption.
    No definition uses fuel; the only bounds are those of the code (the 21 orders of the buddy allocator, four cores, the 256
    interrupt vectors, four table levels).
  \<^item> NULL results and error codes are values, as in the code.
  \<^item> A function that takes a lock is modelled as what one call does while it holds the lock; the locks themselves are modelled
    as interleaved steps in \<open>Spinlock\<close>.
  \<^item> Hardware answers (time stamp counter, clock, interrupt controller registers), what the boot loader answers, the addresses of
    assembly entry points and the operations of a concrete file system are fields or arguments. Messages that a
    function only prints are left out; the console itself is modelled.

  \<^bold>\<open>Theories.\<close>
  \<^item> \<open>Prelude\<close>, \<open>Memory\<close>, \<open>Slot_List\<close>: word and list lemmas, byte memory, and singly linked lists with the locale \<open>slot_heap\<close>, interpreted for the lists of the
    buddy allocator, of the slab caches and of the dentry cache.
  \<^item> \<open>Buddy\<close>, \<open>Buddy_Correct\<close>, \<open>Buddy_Init\<close>, \<open>Buddy_Frame\<close> (\<^verbatim>\<open>arch/x86_64/memory/buddy_allocator.c\<close>): arenas and free lists; allocation, freeing and initialisation keep
    the invariant \<open>buddy_wf\<close> and act on the set of free bytes as they should. \<open>Buddy_Frame\<close> has the locale \<open>page_pool\<close>, the contract of a page allocator that the page
    tables rely on.
  \<^item> \<open>Slab\<close>, \<open>Slab_Cache\<close>, \<open>Slab_Correct\<close> (\<^verbatim>\<open>slab_allocator.c\<close>): slab headers and objects; allocation and freeing keep \<open>alloc_wf\<close>, change the set of objects in use by
    exactly one and write nothing that belongs to somebody else.
  \<^item> \<open>Pmm\<close>, \<open>Pmm_Correct\<close> (\<^verbatim>\<open>pmm.c\<close>): \<^verbatim>\<open>kmalloc\<close> and \<^verbatim>\<open>kfree\<close> with both paths, the order loop, and the round trip between them.
  \<^item> \<open>Kernel_Heap\<close>, \<open>Kernel_Owners\<close>, \<open>Kernel_Memory\<close>, \<open>Simulation\<close>: all eight caches and the buddy allocator as one heap with owners, a state machine of requests, writes
    and frees from boot on, and its refinement to a map from pointers to private byte strings. The locale \<open>stepwise_refinement\<close> lifts a simulation of steps to
    sequences of steps. Sizes whose end magic overruns the block, and frees of a block that \<^verbatim>\<open>kfree\<close> takes for a slab, are no steps of the machine.
  \<^item> \<open>Vmm\<close>, \<open>Vmm_Tree\<close>, \<open>Vmm_Correct\<close> (\<^verbatim>\<open>vmm.c\<close>): four-level page tables as a tree in memory; mapping and unmapping change exactly the translations they should, a failed
    range is rolled back.
  \<^item> \<open>Memmgr\<close>, \<open>Memmgr_Correct\<close> (\<^verbatim>\<open>kernel/memmgr/memmgr.c\<close>): the regions of a task; the list of regions, held in slab objects, refines a sequence of triples, and the layout
    of an executable grants exactly the rights of its segments except at their end addresses. The growing of stack and heap and the page fault handler are modelled; no theorem is about them.
  \<^item> \<open>DList\<close>, \<open>Mem_List\<close> (\<^verbatim>\<open>include/ds/lists.h\<close>): circular lists, first on typed nodes with the locale \<open>deque\<close>, then in memory.
  \<^item> \<open>Tasks\<close>, \<open>Tasks_Correct\<close> (\<^verbatim>\<open>tasks.c\<close>, \<^verbatim>\<open>task_manager.c\<close>, \<^verbatim>\<open>scheduler.c\<close>): tasks, their families, process numbers, run queues; round robin, refinement of the run queues to
    sequences, load balance.
  \<^item> \<open>Atomic\<close>, \<open>Spinlock\<close> (\<^verbatim>\<open>atomic.h\<close>, \<^verbatim>\<open>spinlock.h\<close>): atomic operations, and the locks as programs of interleaved steps; the locale \<open>lock_protocol\<close> proves an inductive invariant for all
    interleavings once, and its four interpretations give mutual exclusion, reader and writer exclusion, first come first served, and freedom from deadlock.
  \<^item> \<open>Klib\<close> (\<^verbatim>\<open>kernel/klib\<close>): memory and string routines and number formatting.
  \<^item> \<open>Vfs\<close>, \<open>Vfs_Correct\<close> (\<^verbatim>\<open>vfs.c\<close>, \<^verbatim>\<open>dentry_cache.c\<close>): dentries, inodes, path resolution, files; the dentry cache as buckets of names.
  \<^item> \<open>Path_Tree\<close>, \<open>Path_Correct\<close> (\<^verbatim>\<open>path_walk\<close> and \<^verbatim>\<open>vfs_open\<close> of \<^verbatim>\<open>vfs.c\<close>): what a path names, and that the walk over the kernel's heap finds it when the dentry
    cache decides its names; what opening anything but a directory returns.
  \<^item> \<open>Console\<close>, \<open>Console_Correct\<close>, \<open>Klogging\<close> (\<^verbatim>\<open>framebuffer.c\<close>, \<^verbatim>\<open>tty_font.c\<close>, \<^verbatim>\<open>tty.c\<close>, \<^verbatim>\<open>klogging.c\<close>): pixels, terminal cells and formatted output; the terminal refines an abstract screen, every
    cell is shown by its glyph, and formatting agrees with a reference formatter.
  \<^item> \<open>Cpu_Tables\<close>, \<open>Timer\<close>, \<open>Interrupts\<close>, \<open>Smp\<close> (\<^verbatim>\<open>gdt_init.c\<close>, \<^verbatim>\<open>idt_init.c\<close>, \<^verbatim>\<open>pic.c\<close>, \<^verbatim>\<open>timer.c\<close>, \<^verbatim>\<open>apic.c\<close>, \<^verbatim>\<open>isr_handler.c\<close>, \<^verbatim>\<open>smp.c\<close>, \<^verbatim>\<open>kernel.c\<close>): what the processor reads from the tables after boot, waiting, preemption
    by the timer, numbering of the processors, and the whole initialisation in order.
  \<^item> \<open>Context_Switch\<close>, \<open>Preemption\<close> (\<^verbatim>\<open>isr_stubs.S\<close>, \<^verbatim>\<open>context_switch.S\<close>): the assembly between an interrupt and the C code, instruction by instruction; a timer interrupt is a
    context switch, and sequences of computation and interrupts refine a machine in which every task has registers of its own.
  \<^item> \<open>Boot_Requests\<close>: the requests to the boot loader and what the kernel takes from the answers.
  \<^item> \<open>Reports\<close>: the numbers the diagnostic printers report.

  The properties are the theorems whose text begins with a number C; each that has assumptions is followed by a theorem that applies it to
  a concrete state. Every other lemma serves them or stands for an operation of its own.

  \<^bold>\<open>Locales.\<close> \<open>slot_heap\<close> (singly linked lists through link cells), \<open>page_pool\<close> (a page allocator for page tables), \<open>deque\<close> (queues of nodes), \<open>lock_protocol\<close> (an
  invariant of interleaved steps) and \<open>stepwise_refinement\<close> (simulation of sequences) are the interfaces between the theories; each is interpreted on the definitions of the kernel.

  \<^bold>\<open>Limits.\<close> The theorems say where they stop: requests whose end magic overruns their block, or above \<open>2^63 - 20\<close> bytes, and blocks of one page that \<^verbatim>\<open>kfree\<close> takes for a slab;
  mapped ranges outside the user half; names that only the file system has, for which the walk would add a dentry twice; formats that print the smallest \<^verbatim>\<open>int\<close>;
  try-locks of a ticket lock that \<open>2 ^ 32\<close> tickets overtake. There are no theorems about a successful \<^verbatim>\<open>vfs_open\<close>, about growing the stack and the heap, about
  destroying address spaces, or about the initialisation as one composition.

  \<^bold>\<open>Not modelled.\<close> The self tests in \<^verbatim>\<open>kernel/tests\<close>; of the boot loader's protocol header only the requests that the kernel makes; the empty loader of executables; the
  translation caches of the processor; the floating-point percentages of the timing test; functions that are declared but not implemented. The mixed use of the allocators by
  several processors at once is not modelled beyond the locks: the sequential theorems are about one call at a time.
\<close>

end
